(* ===== verification/Prelude.thy ===== *)
theory Prelude
  imports Main "HOL-Library.Word"
begin

text \<open>
  The vocabulary every component of the development shares.

  \<^item> \<open>outcome\<close>: what a kernel routine does from a state. It returns a value in a new state
    (\<open>Ok\<close>), it puts the calling process to sleep in \<open>sleep()\<close> (\<open>Block\<close>), or it calls \<open>panic()\<close>
    with a message, which never returns (\<open>Panic\<close>). \<open>ret\<close>, \<open>bind\<close>, \<open>panic\<close>, \<open>gets\<close>, \<open>modify\<close> and
    \<open>for_each\<close> sequence such routines.
  \<^item> \<open>mread\<close>, \<open>mwrite\<close>: runs of bytes of a byte-addressed memory, with the laws for a read of what
    was written and for a read beside it.
  \<^item> \<open>le_enc\<close>, \<open>le_dec\<close>: the little-endian layout of a machine word in bytes, as RISC-V stores it.
  \<^item> \<open>find_idx\<close>: the kernel's table scans \<open>for(p = tab; p < &tab[N]; p++) if(...)\<close>.
\<close>

unbundle bit_operations_syntax

named_theorems outcome_simps \<open>evaluation of sequenced kernel routines\<close>
named_theorems mem_simps \<open>reads of a memory after writes\<close>

type_synonym byte = "8 word"
type_synonym uint16 = "16 word"
type_synonym uint32 = "32 word"
type_synonym uint64 = "64 word"
type_synonym memory = "uint64 \<Rightarrow> byte"

subsection \<open>Signed integers\<close>

text \<open>
  A C \<open>int\<close> is an \<open>int\<close> in the range of 32 bits. \<open>int32\<close> is where an addition may leave the range: the machine wraps around.
\<close>

definition INT_MAX :: int where "INT_MAX = 2147483647"

definition int32 :: "int \<Rightarrow> int" where
  "int32 x = sint (of_int x :: 32 word)"

lemma int32_id: "- INT_MAX \<le> x \<Longrightarrow> x \<le> INT_MAX \<Longrightarrow> int32 x = x"
  by (simp add: int32_def INT_MAX_def signed_of_int signed_take_bit_int_eq_self)

subsection \<open>Outcomes of kernel routines\<close>

datatype ('a, 's) outcome = Ok 'a 's | Block 's | Panic string

type_synonym ('a, 's) routine = "'s \<Rightarrow> ('a, 's) outcome"

definition ret :: "'a \<Rightarrow> ('a, 's) routine" where
  "ret x s = Ok x s"

definition panic :: "string \<Rightarrow> ('a, 's) routine" where
  "panic msg s = Panic msg"

definition bind :: "('a, 's) routine \<Rightarrow> ('a \<Rightarrow> ('b, 's) routine) \<Rightarrow> ('b, 's) routine" where
  "bind m f s = (case m s of Ok x s' \<Rightarrow> f x s' | Block s' \<Rightarrow> Block s' | Panic msg \<Rightarrow> Panic msg)"

definition gets :: "('s \<Rightarrow> 'a) \<Rightarrow> ('a, 's) routine" where
  "gets f s = Ok (f s) s"

definition modify :: "('s \<Rightarrow> 's) \<Rightarrow> (unit, 's) routine" where
  "modify f s = Ok () (f s)"

primrec for_each :: "'i list \<Rightarrow> ('i \<Rightarrow> (unit, 's) routine) \<Rightarrow> (unit, 's) routine" where
  "for_each [] body = ret ()"
| "for_each (i # is) body = bind (body i) (\<lambda>_. for_each is body)"

definition returns :: "('a, 's) outcome \<Rightarrow> bool" where
  "returns r \<longleftrightarrow> (\<exists>x s. r = Ok x s)"

lemma ret_eval [simp, outcome_simps]: "ret x s = Ok x s"
  by (simp add: ret_def)

lemma panic_eval [simp, outcome_simps]: "panic msg s = Panic msg"
  by (simp add: panic_def)

lemma gets_eval [simp, outcome_simps]: "gets f s = Ok (f s) s"
  by (simp add: gets_def)

lemma modify_eval [simp, outcome_simps]: "modify f s = Ok () (f s)"
  by (simp add: modify_def)

lemma bind_Ok_iff [simp, outcome_simps]:
  "bind m f s = Ok y s'' \<longleftrightarrow> (\<exists>x s'. m s = Ok x s' \<and> f x s' = Ok y s'')"
  by (auto simp: bind_def split: outcome.splits)

lemma bind_Ok_eval [outcome_simps]: "m s = Ok x s' \<Longrightarrow> bind m f s = f x s'"
  by (simp add: bind_def)

lemma bind_Panic_eval [outcome_simps]: "m s = Panic msg \<Longrightarrow> bind m f s = Panic msg"
  by (simp add: bind_def)

lemma bind_Block_eval [outcome_simps]: "m s = Block s' \<Longrightarrow> bind m f s = Block s'"
  by (simp add: bind_def)

lemma bind_ret [simp]: "bind (ret x) f = f x"
  by (rule ext) (simp add: bind_def)

lemma bind_gets_eval [simp]: "bind (gets g) f s = f (g s) s"
  by (simp add: bind_def)

lemma bind_modify_eval [simp]: "bind (modify g) f s = f () (g s)"
  by (simp add: bind_def)

lemma bind_panic [simp]: "bind (panic msg) f s = Panic msg"
  by (simp add: bind_def)

lemma bind_assoc: "bind (bind m f) g s = bind m (\<lambda>x. bind (f x) g) s"
  by (simp add: bind_def split: outcome.splits)

lemma returnsI [intro]: "r = Ok x s \<Longrightarrow> returns r"
  by (auto simp: returns_def)

lemma returns_simps [simp]: "returns (Ok x s)" "\<not> returns (Block s)" "\<not> returns (Panic msg)"
  by (auto simp: returns_def)

lemma for_each_append:
  "for_each (xs @ ys) body s = bind (for_each xs body) (\<lambda>_. for_each ys body) s"
  by (induction xs arbitrary: s) (auto simp: bind_def split: outcome.splits)

text \<open>An invariant that every iteration keeps is kept by the loop.\<close>

lemma for_each_invariant:
  assumes "for_each xs body s = Ok u s'" and "I s"
    and "\<And>x s s' u. x \<in> set xs \<Longrightarrow> I s \<Longrightarrow> body x s = Ok u s' \<Longrightarrow> I s'"
  shows "I s'"
  using assms
proof (induction xs arbitrary: s)
  case Nil
  then show ?case by simp
next
  case (Cons x xs)
  from Cons.prems(1) obtain s1 where x: "body x s = Ok () s1" and xs: "for_each xs body s1 = Ok u s'"
    by auto
  have "I s1" using Cons.prems(2,3) x by (meson list.set_intros(1))
  from xs this show ?case
    by (rule Cons.IH) (meson Cons.prems(3) list.set_intros(2))
qed

lemma for_each_returns:
  assumes "I s"
    and "\<And>x s. x \<in> set xs \<Longrightarrow> I s \<Longrightarrow> \<exists>s'. body x s = Ok () s' \<and> I s'"
  shows "\<exists>s'. for_each xs body s = Ok () s' \<and> I s'"
  using assms
proof (induction xs arbitrary: s)
  case Nil
  then show ?case by simp
next
  case (Cons x xs)
  obtain s1 where s1: "body x s = Ok () s1" and "I s1"
    using Cons.prems by (meson list.set_intros(1))
  obtain s2 where "for_each xs body s1 = Ok () s2" and "I s2"
    using Cons.IH [OF \<open>I s1\<close>] Cons.prems(2) by (meson list.set_intros(2))
  with s1 show ?case by (auto simp: bind_def)
qed

subsection \<open>Table scans\<close>

lemma div_mod_offset:
  fixes p :: nat
  assumes "p mod b + j < b"
  shows "(p + j) div b = p div b" and "(p + j) mod b = p mod b + j"
proof -
  define q r where "q = p div b" and "r = p mod b"
  have e: "p + j = (r + j) + b * q" unfolding q_def r_def by simp
  have b: "b \<noteq> 0" "r + j < b" using assms unfolding r_def by auto
  show "(p + j) div b = p div b" unfolding q_def [symmetric] e using b by (subst div_mult_self2) simp_all
  show "(p + j) mod b = p mod b + j" unfolding r_def [symmetric] e using b by (subst mod_mult_self2) simp
qed

lemma list_update_nth: "xs[i := x] ! j = (if i = j \<and> i < length xs then x else xs ! j)"
  by (cases "i < length xs") (auto simp: nth_list_update list_update_beyond)

primrec find_from :: "('a \<Rightarrow> bool) \<Rightarrow> 'a list \<Rightarrow> nat \<Rightarrow> nat option" where
  "find_from P [] i = None"
| "find_from P (x # xs) i = (if P x then Some i else find_from P xs (Suc i))"

definition find_idx :: "('a \<Rightarrow> bool) \<Rightarrow> 'a list \<Rightarrow> nat option" where
  "find_idx P xs = find_from P xs 0"

lemma find_from_Some:
  "find_from P xs i = Some j \<longleftrightarrow>
     i \<le> j \<and> j < i + length xs \<and> P (xs ! (j - i)) \<and> (\<forall>k. i \<le> k \<and> k < j \<longrightarrow> \<not> P (xs ! (k - i)))"
proof (induction xs arbitrary: i)
  case Nil
  then show ?case by auto
next
  case (Cons x xs)
  show ?case
  proof (cases "P x")
    case True
    then show ?thesis
      by (auto simp: nth_Cons split: nat.splits)
  next
    case False
    have shift: "(x # xs) ! (k - i) = xs ! (k - Suc i)" if "Suc i \<le> k" for k
      using that by (simp add: nth_Cons' Suc_diff_Suc)
    from False have "find_from P (x # xs) i = Some j \<longleftrightarrow> find_from P xs (Suc i) = Some j" by simp
    also have "\<dots> \<longleftrightarrow> i \<le> j \<and> j < i + length (x # xs) \<and> P ((x # xs) ! (j - i)) \<and>
        (\<forall>k. i \<le> k \<and> k < j \<longrightarrow> \<not> P ((x # xs) ! (k - i)))" (is "_ \<longleftrightarrow> ?r")
    proof
      assume "find_from P xs (Suc i) = Some j"
      then have *: "Suc i \<le> j" "j < Suc i + length xs" "P (xs ! (j - Suc i))"
        "\<forall>k. Suc i \<le> k \<and> k < j \<longrightarrow> \<not> P (xs ! (k - Suc i))" using Cons.IH by auto
      have "\<not> P ((x # xs) ! (k - i))" if "i \<le> k" "k < j" for k
        using that * False shift [of k] by (cases "k = i") auto
      with * shift [of j] show ?r by auto
    next
      assume r: ?r
      then have "Suc i \<le> j" using False by (cases "j = i") auto
      moreover have "\<not> P (xs ! (k - Suc i))" if "Suc i \<le> k" "k < j" for k
        using r that shift [of k] by (metis Suc_leD)
      ultimately show "find_from P xs (Suc i) = Some j"
        using r shift [of j] Cons.IH [of "Suc i"] by auto
    qed
    finally show ?thesis .
  qed
qed

lemma find_from_None: "find_from P xs i = None \<longleftrightarrow> (\<forall>x \<in> set xs. \<not> P x)"
  by (induction xs arbitrary: i) auto

lemma find_idx_Some_iff:
  "find_idx P xs = Some j \<longleftrightarrow> j < length xs \<and> P (xs ! j) \<and> (\<forall>k<j. \<not> P (xs ! k))"
  by (simp add: find_idx_def find_from_Some)

lemma find_idx_None_iff: "find_idx P xs = None \<longleftrightarrow> (\<forall>x \<in> set xs. \<not> P x)"
  by (simp add: find_idx_def find_from_None)

lemma find_idx_SomeD:
  assumes "find_idx P xs = Some j"
  shows "j < length xs" "P (xs ! j)" "\<And>k. k < j \<Longrightarrow> \<not> P (xs ! k)"
  using assms by (auto simp: find_idx_Some_iff)

subsection \<open>Runs of bytes in memory\<close>

definition mread :: "memory \<Rightarrow> uint64 \<Rightarrow> nat \<Rightarrow> byte list" where
  "mread m a n = map (\<lambda>i. m (a + of_nat i)) [0..<n]"

definition mwrite :: "memory \<Rightarrow> uint64 \<Rightarrow> byte list \<Rightarrow> memory" where
  "mwrite m a bs = (\<lambda>x. if unat (x - a) < length bs then bs ! unat (x - a) else m x)"

text \<open>The addresses of the \<open>n\<close> bytes at \<open>a\<close>.\<close>

definition span :: "uint64 \<Rightarrow> nat \<Rightarrow> uint64 set" where
  "span a n = {x. unat (x - a) < n}"

lemma length_mread [simp]: "length (mread m a n) = n"
  by (simp add: mread_def)

lemma nth_mread [simp]: "i < n \<Longrightarrow> mread m a n ! i = m (a + of_nat i)"
  by (simp add: mread_def)

lemma mwrite_Nil [simp]: "mwrite m a [] = m"
  by (simp add: mwrite_def)

lemma mwrite_outside [mem_simps]: "x \<notin> span a (length bs) \<Longrightarrow> mwrite m a bs x = m x"
  by (simp add: mwrite_def span_def)

lemma span_offset: "i < n \<Longrightarrow> n \<le> 2 ^ 64 \<Longrightarrow> a + of_nat i \<in> span a n"
  by (simp add: span_def unat_of_nat)

lemma mread_mwrite [mem_simps]:
  assumes "length bs \<le> 2 ^ 64"
  shows "mread (mwrite m a bs) a (length bs) = bs"
proof (rule nth_equalityI)
  fix i assume "i < length (mread (mwrite m a bs) a (length bs))"
  then have i: "i < length bs" by simp
  with assms have "unat (of_nat i :: uint64) = i"
    by (simp add: unat_of_nat)
  with i show "mread (mwrite m a bs) a (length bs) ! i = bs ! i"
    by (simp add: mwrite_def)
qed simp

lemma mread_mwrite_other [mem_simps]:
  assumes "span a (length bs) \<inter> span b n = {}" and "n \<le> 2 ^ 64"
  shows "mread (mwrite m a bs) b n = mread m b n"
proof (rule nth_equalityI)
  fix i assume "i < length (mread (mwrite m a bs) b n)"
  then have i: "i < n" by simp
  then have "b + of_nat i \<in> span b n" using assms(2) by (rule span_offset)
  with assms(1) have "b + of_nat i \<notin> span a (length bs)" by blast
  with i show "mread (mwrite m a bs) b n ! i = mread m b n ! i"
    by (simp add: mwrite_outside)
qed simp

lemma mread_cong:
  assumes "\<And>x. x \<in> span a n \<Longrightarrow> m x = m' x" and "n \<le> 2 ^ 64"
  shows "mread m a n = mread m' a n"
  using assms by (intro nth_equalityI) (auto simp: span_offset)

subsection \<open>Words as natural numbers\<close>

lemma unat_take_bit: "unat (take_bit n w) = unat w mod 2 ^ n"
  by (subst unsigned_take_bit_eq) (rule take_bit_eq_mod)

lemma unat_drop_bit: "unat (drop_bit n w) = unat w div 2 ^ n"
  by (subst unat_drop_bit_eq) (rule drop_bit_eq_div)

lemma take_bit_self: "unat w < 2 ^ n \<Longrightarrow> take_bit n w = w"
  by (simp add: word_unat_eq_iff unat_take_bit)

subsection \<open>Little-endian words\<close>

primrec le_enc :: "nat \<Rightarrow> 'a::len word \<Rightarrow> byte list" where
  "le_enc 0 w = []"
| "le_enc (Suc n) w = ucast w # le_enc n (drop_bit 8 w)"

primrec le_dec :: "byte list \<Rightarrow> 'a::len word" where
  "le_dec [] = 0"
| "le_dec (b # bs) = (ucast b OR push_bit 8 (le_dec bs))"

lemma length_le_enc [simp]: "length (le_enc n w) = n"
  by (induction n arbitrary: w) auto

lemma le_enc_nth: "i < n \<Longrightarrow> le_enc n w ! i = ucast (drop_bit (8 * i) w)"
  by (induction n arbitrary: w i) (auto simp: nth_Cons add.commute split: nat.splits)

lemma bit_le_dec:
  "bit (le_dec bs :: 'a::len word) k \<longleftrightarrow>
     k < LENGTH('a) \<and> k div 8 < length bs \<and> bit (bs ! (k div 8)) (k mod 8)"
proof (induction bs arbitrary: k)
  case Nil
  then show ?case by simp
next
  case (Cons b bs)
  show ?case
  proof (cases "k < 8")
    case True
    then show ?thesis by (auto simp: bit_simps)
  next
    case False
    then have "k div 8 = Suc ((k - 8) div 8)" "k mod 8 = (k - 8) mod 8"
      by (simp_all add: le_div_geq le_mod_geq)
    moreover have "\<not> bit b k" using False by (auto dest: bit_imp_le_length)
    ultimately show ?thesis using False Cons.IH [of "k - 8"]
      by (auto simp: bit_simps)
  qed
qed

lemma le_dec_le_enc [simp]:
  assumes "LENGTH('a) \<le> 8 * n"
  shows "le_dec (le_enc n w) = (w :: 'a::len word)"
proof (rule bit_word_eqI)
  fix k assume k: "k < LENGTH('a)"
  then have "k div 8 < n" using assms by linarith
  then show "bit (le_dec (le_enc n w) :: 'a word) k \<longleftrightarrow> bit w k"
    using k by (simp add: bit_le_dec le_enc_nth bit_simps)
qed

definition load64 :: "memory \<Rightarrow> uint64 \<Rightarrow> uint64" where
  "load64 m a = le_dec (mread m a 8)"

definition store64 :: "memory \<Rightarrow> uint64 \<Rightarrow> uint64 \<Rightarrow> memory" where
  "store64 m a v = mwrite m a (le_enc 8 v)"

lemma load64_store64 [mem_simps]: "load64 (store64 m a v) a = v"
  using mread_mwrite [of "le_enc 8 v" m a] by (simp add: load64_def store64_def)

lemma load64_store64_other [mem_simps]:
  "span a 8 \<inter> span b 8 = {} \<Longrightarrow> load64 (store64 m a v) b = load64 m b"
  by (simp add: load64_def store64_def mread_mwrite_other)

lemma load64_mwrite_other [mem_simps]:
  "span a (length bs) \<inter> span b 8 = {} \<Longrightarrow> load64 (mwrite m a bs) b = load64 m b"
  by (simp add: load64_def mread_mwrite_other)

lemma load64_cong: "(\<And>x. x \<in> span a 8 \<Longrightarrow> m x = m' x) \<Longrightarrow> load64 m a = load64 m' a"
  unfolding load64_def by (subst mread_cong) auto

end
