(* ===== verification/Spinlock.thy ===== *)
theory Spinlock
  imports Prelude
begin

text \<open>
  Spin locks and interrupt nesting, \<^verbatim>\<open>kernel/spinlock.c\<close>.

  \<open>push_off\<close>, \<open>pop_off\<close>, \<open>holding\<close>, \<open>acquire\<close> and \<open>release\<close> act on a machine of several CPUs that share
  locks. \<open>acquire\<close> and \<open>release\<close> are split at their accesses to shared memory: entering, the atomic
  swap, the store to \<open>lk->cpu\<close>, and, on the way out, the store to \<open>lk->cpu\<close>, the store to \<open>lk->locked\<close>
  and \<open>pop_off\<close>. The step relation \<open>lock_step\<close> interleaves the CPUs at these points. Rule induction
  shows mutual exclusion, that interrupts stay off while a CPU holds a lock, and that the last release
  restores the interrupt state that the first acquire found.
\<close>

subsection \<open>State and operations\<close>

record spinlock =
  locked :: uint32
  lk_cpu :: "nat option"

record cpu =
  noff :: int
  intena :: bool
  intr :: bool

record machine =
  locks :: "nat \<Rightarrow> spinlock"
  cpus :: "nat \<Rightarrow> cpu"

definition initlock :: "spinlock" where
  "initlock = \<lparr>locked = 0, lk_cpu = None\<rparr>"

definition upd_cpu :: "nat \<Rightarrow> (cpu \<Rightarrow> cpu) \<Rightarrow> machine \<Rightarrow> machine" where
  "upd_cpu c f m = m\<lparr>cpus := (cpus m)(c := f (cpus m c))\<rparr>"

definition upd_lock :: "nat \<Rightarrow> (spinlock \<Rightarrow> spinlock) \<Rightarrow> machine \<Rightarrow> machine" where
  "upd_lock l f m = m\<lparr>locks := (locks m)(l := f (locks m l))\<rparr>"

definition holding :: "nat \<Rightarrow> nat \<Rightarrow> machine \<Rightarrow> bool" where
  "holding c l m \<longleftrightarrow> locked (locks m l) \<noteq> 0 \<and> lk_cpu (locks m l) = Some c"

definition push_off :: "nat \<Rightarrow> machine \<Rightarrow> machine" where
  "push_off c = upd_cpu c (\<lambda>k. k\<lparr>intr := False,
     intena := (if noff k = 0 then intr k else intena k), noff := int32 (noff k + 1)\<rparr>)"

definition pop_off :: "nat \<Rightarrow> (unit, machine) routine" where
  "pop_off c = (\<lambda>m.
     if intr (cpus m c) then Panic ''pop_off - interruptible''
     else if noff (cpus m c) < 1 then Panic ''pop_off''
     else Ok () (upd_cpu c (\<lambda>k. k\<lparr>noff := noff k - 1,
       intr := (if noff k - 1 = 0 \<and> intena k then True else intr k)\<rparr>) m))"

text \<open>The three stages of \<open>acquire\<close>; the middle one is one turn of its loop.\<close>

definition acquire_enter :: "nat \<Rightarrow> nat \<Rightarrow> (unit, machine) routine" where
  "acquire_enter c l = (\<lambda>m.
     let m1 = push_off c m in if holding c l m1 then Panic ''acquire'' else Ok () m1)"

definition acquire_swap :: "nat \<Rightarrow> (bool, machine) routine" where
  "acquire_swap l = (\<lambda>m. Ok (locked (locks m l) = 0) (upd_lock l (\<lambda>k. k\<lparr>locked := 1\<rparr>) m))"

definition acquire_mark :: "nat \<Rightarrow> nat \<Rightarrow> (unit, machine) routine" where
  "acquire_mark c l = modify (upd_lock l (\<lambda>k. k\<lparr>lk_cpu := Some c\<rparr>))"

text \<open>\<open>acquire\<close> on its own: a lock that another CPU holds is spun on, which is \<open>Block\<close>.\<close>

definition acquire :: "nat \<Rightarrow> nat \<Rightarrow> (unit, machine) routine" where
  "acquire c l =
     bind (acquire_enter c l) (\<lambda>_.
     bind (acquire_swap l) (\<lambda>got.
       if got then acquire_mark c l else Block))"

definition release_unmark :: "nat \<Rightarrow> nat \<Rightarrow> (unit, machine) routine" where
  "release_unmark c l = (\<lambda>m.
     if \<not> holding c l m then Panic ''release''
     else Ok () (upd_lock l (\<lambda>k. k\<lparr>lk_cpu := None\<rparr>) m))"

definition release_clear :: "nat \<Rightarrow> (unit, machine) routine" where
  "release_clear l = modify (upd_lock l (\<lambda>k. k\<lparr>locked := 0\<rparr>))"

definition release :: "nat \<Rightarrow> nat \<Rightarrow> (unit, machine) routine" where
  "release c l =
     bind (release_unmark c l) (\<lambda>_. bind (release_clear l) (\<lambda>_. pop_off c))"

subsection \<open>Interleaving\<close>

text \<open>
  Where each CPU is: outside the lock code, spinning on a lock, having won the swap but not yet
  recorded itself, having unmarked the lock, or about to call \<open>pop_off\<close>. \<open>owned\<close> lists the locks whose
  critical section the CPU is in. A CPU enters \<open>acquire\<close> only while \<open>noff\<close>, an \<open>int\<close>, can count one lock more; the
  kernel has far fewer locks than that.
\<close>

datatype pc = Outside | Spinning nat | Won nat | Unmarked nat | Popping | Stuck

record sys =
  mach :: machine
  pcs :: "nat \<Rightarrow> pc"
  owned :: "nat \<Rightarrow> nat list"

definition goto :: "nat \<Rightarrow> pc \<Rightarrow> machine \<Rightarrow> sys \<Rightarrow> sys" where
  "goto c p m s = s\<lparr>mach := m, pcs := (pcs s)(c := p)\<rparr>"

definition own :: "nat \<Rightarrow> (nat list \<Rightarrow> nat list) \<Rightarrow> sys \<Rightarrow> sys" where
  "own c f s = s\<lparr>owned := (owned s)(c := f (owned s c))\<rparr>"

inductive lock_step :: "sys \<Rightarrow> sys \<Rightarrow> bool" where
  enter: "pcs s c = Outside \<Longrightarrow> noff (cpus (mach s) c) < INT_MAX \<Longrightarrow> acquire_enter c l (mach s) = Ok () m \<Longrightarrow>
    lock_step s (goto c (Spinning l) m s)"
| enter_panic: "pcs s c = Outside \<Longrightarrow> acquire_enter c l (mach s) = Panic e \<Longrightarrow>
    lock_step s (goto c Stuck (mach s) s)"
| spin: "pcs s c = Spinning l \<Longrightarrow> acquire_swap l (mach s) = Ok False m \<Longrightarrow>
    lock_step s (goto c (Spinning l) m s)"
| win: "pcs s c = Spinning l \<Longrightarrow> acquire_swap l (mach s) = Ok True m \<Longrightarrow>
    lock_step s (own c (\<lambda>ls. l # ls) (goto c (Won l) m s))"
| mark: "pcs s c = Won l \<Longrightarrow> acquire_mark c l (mach s) = Ok () m \<Longrightarrow>
    lock_step s (goto c Outside m s)"
| unmark: "pcs s c = Outside \<Longrightarrow> release_unmark c l (mach s) = Ok () m \<Longrightarrow>
    lock_step s (goto c (Unmarked l) m s)"
| unmark_panic: "pcs s c = Outside \<Longrightarrow> release_unmark c l (mach s) = Panic e \<Longrightarrow>
    lock_step s (goto c Stuck (mach s) s)"
| clear: "pcs s c = Unmarked l \<Longrightarrow> release_clear l (mach s) = Ok () m \<Longrightarrow>
    lock_step s (own c (remove1 l) (goto c Popping m s))"
| pop: "pcs s c = Popping \<Longrightarrow> pop_off c (mach s) = Ok () m \<Longrightarrow>
    lock_step s (goto c Outside m s)"
| pop_panic: "pcs s c = Popping \<Longrightarrow> pop_off c (mach s) = Panic e \<Longrightarrow>
    lock_step s (goto c Stuck (mach s) s)"
| toggle: "pcs s c = Outside \<Longrightarrow> noff (cpus (mach s) c) = 0 \<Longrightarrow>
    lock_step s (goto c Outside (upd_cpu c (\<lambda>k. k\<lparr>intr := b\<rparr>) (mach s)) s)"

inductive_cases lock_stepE: "lock_step s s'"

definition boot :: "sys \<Rightarrow> bool" where
  "boot s \<longleftrightarrow> (\<forall>l. locks (mach s) l = initlock) \<and>
     (\<forall>c. noff (cpus (mach s) c) = 0 \<and> pcs s c = Outside \<and> owned s c = [])"

subsection \<open>Invariant\<close>

definition in_flight :: "pc \<Rightarrow> int" where
  "in_flight p = (case p of Spinning l \<Rightarrow> 1 | Popping \<Rightarrow> 1 | _ \<Rightarrow> 0)"

text \<open>Ownership: a lock some CPU owns is marked locked, and has one owner.\<close>

definition own_inv :: "sys \<Rightarrow> bool" where
  "own_inv s \<longleftrightarrow>
     (\<forall>c. distinct (owned s c)) \<and>
     (\<forall>c l. l \<in> set (owned s c) \<longrightarrow> locked (locks (mach s) l) \<noteq> 0) \<and>
     (\<forall>c c' l. l \<in> set (owned s c) \<longrightarrow> l \<in> set (owned s c') \<longrightarrow> c = c') \<and>
     (\<forall>c l. pcs s c = Won l \<or> pcs s c = Unmarked l \<longrightarrow> l \<in> set (owned s c))"

text \<open>Marks: \<open>lk->cpu\<close> names the owner, from the store in \<open>acquire\<close> to the one in \<open>release\<close>.\<close>

definition mark_inv :: "sys \<Rightarrow> bool" where
  "mark_inv s \<longleftrightarrow> (\<forall>c l. lk_cpu (locks (mach s) l) = Some c \<longleftrightarrow>
     l \<in> set (owned s c) \<and> pcs s c \<noteq> Won l \<and> pcs s c \<noteq> Unmarked l)"

text \<open>Interrupts: \<open>noff\<close> counts the locks a CPU owns or is acquiring or releasing.\<close>

definition irq_inv :: "sys \<Rightarrow> bool" where
  "irq_inv s \<longleftrightarrow> (\<forall>c. pcs s c \<noteq> Stuck \<longrightarrow>
     noff (cpus (mach s) c) = int (length (owned s c)) + in_flight (pcs s c) \<and>
     (noff (cpus (mach s) c) > 0 \<longrightarrow> \<not> intr (cpus (mach s) c)))"

lemmas step_defs = goto_def own_def upd_cpu_def upd_lock_def acquire_enter_def acquire_swap_def
  acquire_mark_def release_unmark_def release_clear_def modify_def Let_def push_off_def

lemma own_inv_step: "lock_step s s' \<Longrightarrow> own_inv s \<Longrightarrow> mark_inv s \<Longrightarrow> own_inv s'"
proof (induction rule: lock_step.induct)
  case (win s c l m)
  then have "locked (locks (mach s) l) = 0" by (simp add: acquire_swap_def)
  with win show ?case by (auto simp: own_inv_def step_defs split: if_splits)
next
  case (clear s c l m)
  then have "l \<in> set (owned s c)" by (simp add: own_inv_def)
  with clear show ?case
    unfolding own_inv_def by (auto simp: step_defs split: if_splits)
next
  case (unmark s c l m)
  then have "l \<in> set (owned s c)" by (auto simp: mark_inv_def release_unmark_def holding_def split: if_splits)
  with unmark show ?case by (auto simp: own_inv_def step_defs split: if_splits)
next
  case (pop s c m)
  then show ?case by (auto simp: own_inv_def step_defs pop_off_def split: if_splits)
qed (auto simp: own_inv_def step_defs split: if_splits)

lemma mark_inv_step: "lock_step s s' \<Longrightarrow> own_inv s \<Longrightarrow> mark_inv s \<Longrightarrow> mark_inv s'"
proof (induction rule: lock_step.induct)
  case (win s c l m)
  then have "locked (locks (mach s) l) = 0" by (simp add: acquire_swap_def)
  with win show ?case by (auto simp: own_inv_def mark_inv_def step_defs split: if_splits)
next
  case (mark s c l m)
  then have "l \<in> set (owned s c)" by (simp add: own_inv_def)
  with mark show ?case unfolding own_inv_def mark_inv_def by (auto simp: step_defs split: if_splits)
next
  case (clear s c l m)
  then show ?case unfolding own_inv_def mark_inv_def by (auto simp: step_defs split: if_splits)
next
  case (unmark s c l m)
  then show ?case unfolding own_inv_def mark_inv_def by (auto simp: step_defs holding_def split: if_splits)
next
  case (pop s c m)
  then show ?case by (auto simp: mark_inv_def step_defs pop_off_def split: if_splits)
qed (auto simp: mark_inv_def holding_def step_defs split: if_splits)

lemma length_remove1_in: "x \<in> set xs \<Longrightarrow> Suc (length (remove1 x xs)) = length xs"
  by (induction xs) auto

lemma irq_inv_step: "lock_step s s' \<Longrightarrow> own_inv s \<Longrightarrow> irq_inv s \<Longrightarrow> irq_inv s'"
proof (induction rule: lock_step.induct)
  case (enter s c l m)
  then have "int32 (noff (cpus (mach s) c) + 1) = noff (cpus (mach s) c) + 1"
    by (intro int32_id) (auto simp: irq_inv_def in_flight_def INT_MAX_def)
  with enter show ?case by (auto simp: irq_inv_def in_flight_def step_defs split: if_splits)
next
  case (clear s c l m)
  then have "l \<in> set (owned s c)" by (simp add: own_inv_def)
  then have "Suc (length (remove1 l (owned s c))) = length (owned s c)" by (rule length_remove1_in)
  then have "int (length (remove1 l (owned s c))) = int (length (owned s c)) - 1" by linarith
  with clear show ?case by (auto simp: irq_inv_def in_flight_def step_defs)
next
  case (pop s c m)
  then show ?case by (auto simp: irq_inv_def in_flight_def step_defs pop_off_def split: if_splits)
qed (auto simp: irq_inv_def in_flight_def step_defs split: if_splits)

definition lock_inv :: "sys \<Rightarrow> bool" where
  "lock_inv s \<longleftrightarrow> own_inv s \<and> mark_inv s \<and> irq_inv s"

lemma lock_inv_boot: "boot s \<Longrightarrow> lock_inv s"
  by (auto simp: boot_def lock_inv_def own_inv_def mark_inv_def irq_inv_def in_flight_def initlock_def)

lemma lock_inv_reachable: "lock_step\<^sup>*\<^sup>* s s' \<Longrightarrow> boot s \<Longrightarrow> lock_inv s'"
proof (induction rule: rtranclp_induct)
  case base
  then show ?case by (rule lock_inv_boot)
next
  case (step t u)
  then show ?case
    using own_inv_step [of t u] mark_inv_step [of t u] irq_inv_step [of t u] by (simp add: lock_inv_def)
qed

subsection \<open>The theorems\<close>

definition fresh_sys :: sys where
  "fresh_sys = \<lparr>mach = \<lparr>locks = (\<lambda>_. initlock), cpus = (\<lambda>_. \<lparr>noff = 0, intena = False, intr = True\<rparr>)\<rparr>,
     pcs = (\<lambda>_. Outside), owned = (\<lambda>_. [])\<rparr>"

lemma fresh_boot: "boot fresh_sys"
  by (simp add: boot_def fresh_sys_def)

text \<open>
  C9: Mutual exclusion. However the CPUs interleave inside \<open>acquire\<close> and \<open>release\<close>, no lock is ever in the
  critical section of two CPUs, and \<open>holding\<close>, evaluated outside the lock code, answers exactly whether
  the CPU that asks owns the lock.
\<close>

theorem spinlock_mutual_exclusion:
  assumes "boot s" and "lock_step\<^sup>*\<^sup>* s s'"
  shows "(l \<in> set (owned s' c) \<longrightarrow> l \<in> set (owned s' c') \<longrightarrow> c = c') \<and>
    (pcs s' c = Outside \<longrightarrow> (holding c l (mach s') \<longleftrightarrow> l \<in> set (owned s' c)))"
  using lock_inv_reachable [OF assms(2,1)]
  unfolding lock_inv_def own_inv_def mark_inv_def holding_def by auto

lemma fresh_run:
  "\<exists>s'. lock_step\<^sup>*\<^sup>* fresh_sys s' \<and> owned s' 0 = [7] \<and> pcs s' 0 = Won 7"
proof -
  let ?m1 = "push_off 0 (mach fresh_sys)"
  let ?s1 = "goto 0 (Spinning 7) ?m1 fresh_sys"
  let ?m2 = "upd_lock 7 (\<lambda>k. k\<lparr>locked := 1\<rparr>) ?m1"
  have "lock_step fresh_sys ?s1"
    by (rule lock_step.enter) (simp_all add: fresh_sys_def acquire_enter_def Let_def holding_def push_off_def
        upd_cpu_def initlock_def INT_MAX_def)
  moreover have "lock_step ?s1 (own 0 (\<lambda>ls. 7 # ls) (goto 0 (Won 7) ?m2 ?s1))"
    by (rule lock_step.win) (simp_all add: fresh_sys_def step_defs initlock_def)
  ultimately have "lock_step\<^sup>*\<^sup>* fresh_sys (own 0 (\<lambda>ls. 7 # ls) (goto 0 (Won 7) ?m2 ?s1))" by simp
  moreover have "owned (own 0 (\<lambda>ls. 7 # ls) (goto 0 (Won 7) ?m2 ?s1)) 0 = [7]"
    "pcs (own 0 (\<lambda>ls. 7 # ls) (goto 0 (Won 7) ?m2 ?s1)) 0 = Won 7"
    by (simp_all add: own_def goto_def fresh_sys_def)
  ultimately show ?thesis by blast
qed

theorem spinlock_mutual_exclusion_witness:
  "\<exists>s'. lock_step\<^sup>*\<^sup>* fresh_sys s' \<and> 7 \<in> set (owned s' 0) \<and> 7 \<notin> set (owned s' 1)"
proof -
  obtain s' where s': "lock_step\<^sup>*\<^sup>* fresh_sys s'" "owned s' 0 = [7]" using fresh_run by blast
  then show ?thesis
    using spinlock_mutual_exclusion [OF fresh_boot s'(1), where c = 0 and c' = 1 and l = 7] by auto
qed

text \<open>
  C10: Interrupt nesting. In every reachable state, a CPU that owns a lock, or is acquiring or releasing
  one, has interrupts off, its \<open>noff\<close> counts exactly those locks, and the \<open>pop_off\<close> that ends a
  \<open>release\<close> does not panic.
\<close>

theorem interrupts_off_while_locked:
  assumes "boot s" and "lock_step\<^sup>*\<^sup>* s s'" and "pcs s' c \<noteq> Stuck"
  shows "noff (cpus (mach s') c) = int (length (owned s' c)) + in_flight (pcs s' c) \<and>
    (owned s' c \<noteq> [] \<longrightarrow> \<not> intr (cpus (mach s') c)) \<and>
    (pcs s' c = Popping \<longrightarrow> (\<exists>m. pop_off c (mach s') = Ok () m))"
proof -
  have irq: "noff (cpus (mach s') c) = int (length (owned s' c)) + in_flight (pcs s' c)"
      "noff (cpus (mach s') c) > 0 \<longrightarrow> \<not> intr (cpus (mach s') c)"
    using lock_inv_reachable [OF assms(2,1)] assms(3) by (auto simp: lock_inv_def irq_inv_def)
  moreover have "0 \<le> in_flight (pcs s' c)" by (simp add: in_flight_def split: pc.splits)
  ultimately show ?thesis by (cases "owned s' c") (auto simp: pop_off_def in_flight_def)
qed

theorem interrupts_off_while_locked_witness:
  "\<exists>s'. lock_step\<^sup>*\<^sup>* fresh_sys s' \<and> \<not> intr (cpus (mach s') 0) \<and> noff (cpus (mach s') 0) = 1"
proof -
  obtain s' where s': "lock_step\<^sup>*\<^sup>* fresh_sys s'" "owned s' 0 = [7]" "pcs s' 0 = Won 7" using fresh_run by blast
  then show ?thesis
    using interrupts_off_while_locked [OF fresh_boot s'(1), where c = 0] by (auto simp: in_flight_def)
qed

text \<open>
  C11: Matched nesting restores interrupts. After \<open>n\<close> nested \<open>push_off\<close> calls, as many as \<open>noff\<close> can count, and \<open>n\<close>
  \<open>pop_off\<close> calls, none of which panics, interrupts are as they were before the first.
\<close>

theorem push_pop_restores:
  assumes "noff (cpus m c) = 0" and "int n \<le> INT_MAX"
  shows "\<exists>m'. for_each [0..<n] (\<lambda>_. pop_off c) ((push_off c ^^ n) m) = Ok () m' \<and>
    intr (cpus m' c) = intr (cpus m c) \<and> noff (cpus m' c) = 0"
proof -
  have pushed: "noff (cpus ((push_off c ^^ k) m) c) = int k \<and> (k > 0 \<longrightarrow>
      \<not> intr (cpus ((push_off c ^^ k) m) c) \<and> intena (cpus ((push_off c ^^ k) m) c) = intr (cpus m c))" if "k \<le> n" for k
    using that
  proof (induction k)
    case (Suc k)
    then have "int32 (1 + int k) = 1 + int k" using assms(2) by (intro int32_id) (auto simp: INT_MAX_def)
    then show ?case using Suc assms by (auto simp: push_off_def upd_cpu_def add.commute)
  qed (use assms in simp)
  have popped: "\<exists>m'. for_each xs (\<lambda>_. pop_off c) q = Ok () m' \<and> intr (cpus m' c) = i \<and> noff (cpus m' c) = 0"
    if "noff (cpus q c) = int (length xs)" "xs \<noteq> []" "\<not> intr (cpus q c)" "intena (cpus q c) = i"
    for xs :: "nat list" and q i
    using that
  proof (induction xs arbitrary: q)
    case (Cons x xs)
    let ?q = "upd_cpu c (\<lambda>k. k\<lparr>noff := noff k - 1, intr := (if noff k - 1 = 0 \<and> intena k then True else intr k)\<rparr>) q"
    have pop: "pop_off c q = Ok () ?q" using Cons.prems by (simp add: pop_off_def)
    show ?case
    proof (cases "xs = []")
      case True
      then show ?thesis using Cons.prems pop by (auto simp: bind_def ret_def upd_cpu_def)
    next
      case False
      then have "\<exists>m'. for_each xs (\<lambda>_. pop_off c) ?q = Ok () m' \<and> intr (cpus m' c) = i \<and> noff (cpus m' c) = 0"
        using Cons.prems by (intro Cons.IH) (auto simp: upd_cpu_def)
      then show ?thesis using pop by (simp add: bind_def)
    qed
  qed simp
  show ?thesis
  proof (cases "n = 0")
    case True
    then show ?thesis using assms by (simp add: ret_def)
  next
    case False
    then show ?thesis using pushed [of n] by (intro popped) auto
  qed
qed

theorem push_pop_restores_witness:
  "\<exists>m'. for_each [0..<2] (\<lambda>_. pop_off 0) ((push_off 0 ^^ 2) (mach fresh_sys)) = Ok () m' \<and> intr (cpus m' 0)"
  using push_pop_restores [of "mach fresh_sys" 0 2] by (auto simp: fresh_sys_def INT_MAX_def)

end
