(* ===== verification/Riscv.thy ===== *)
theory Riscv
  imports Prelude
begin

text \<open>
  The arithmetic of \<^verbatim>\<open>kernel/riscv.h\<close> and \<^verbatim>\<open>kernel/memlayout.h\<close> on 64-bit words: page rounding,
  the Sv39 page-table entry layout, the three 9-bit indices of a virtual address, and the fixed
  addresses of the memory map. Every macro is a definition with the same name; the lemmas give
  their meaning on natural numbers and the inverse laws the page-table code relies on.
\<close>

named_theorems layout_defs \<open>the constants of riscv.h and memlayout.h\<close>

definition PGSIZE :: uint64 where [layout_defs]: "PGSIZE = 4096"
definition PGSHIFT :: nat where [layout_defs]: "PGSHIFT = 12"

definition PGROUNDUP :: "uint64 \<Rightarrow> uint64" where
  "PGROUNDUP sz = (sz + PGSIZE - 1) AND NOT (PGSIZE - 1)"

definition PGROUNDDOWN :: "uint64 \<Rightarrow> uint64" where
  "PGROUNDDOWN a = a AND NOT (PGSIZE - 1)"

definition PTE_V :: uint64 where [layout_defs]: "PTE_V = 1"
definition PTE_R :: uint64 where [layout_defs]: "PTE_R = 2"
definition PTE_W :: uint64 where [layout_defs]: "PTE_W = 4"
definition PTE_X :: uint64 where [layout_defs]: "PTE_X = 8"
definition PTE_U :: uint64 where [layout_defs]: "PTE_U = 16"

definition PA2PTE :: "uint64 \<Rightarrow> uint64" where
  "PA2PTE pa = push_bit 10 (drop_bit 12 pa)"

definition PTE2PA :: "uint64 \<Rightarrow> uint64" where
  "PTE2PA pte = push_bit 12 (drop_bit 10 pte)"

definition PTE_FLAGS :: "uint64 \<Rightarrow> uint64" where
  "PTE_FLAGS pte = pte AND 0x3FF"

definition PXMASK :: uint64 where [layout_defs]: "PXMASK = 0x1FF"

definition PXSHIFT :: "nat \<Rightarrow> nat" where
  "PXSHIFT level = PGSHIFT + 9 * level"

definition PX :: "nat \<Rightarrow> uint64 \<Rightarrow> uint64" where
  "PX level va = drop_bit (PXSHIFT level) va AND PXMASK"

definition MAXVA :: uint64 where [layout_defs]: "MAXVA = push_bit (9 + 9 + 9 + 12 - 1) 1"

definition KERNBASE :: uint64 where [layout_defs]: "KERNBASE = 0x80000000"
definition PHYSTOP :: uint64 where [layout_defs]: "PHYSTOP = KERNBASE + 128*1024*1024"
definition TRAMPOLINE :: uint64 where [layout_defs]: "TRAMPOLINE = MAXVA - PGSIZE"
definition TRAPFRAME :: uint64 where [layout_defs]: "TRAPFRAME = TRAMPOLINE - PGSIZE"

definition UART0 :: uint64 where [layout_defs]: "UART0 = 0x10000000"
definition VIRTIO0 :: uint64 where [layout_defs]: "VIRTIO0 = 0x10001000"
definition PLIC :: uint64 where [layout_defs]: "PLIC = 0x0c000000"

definition KSTACK :: "nat \<Rightarrow> uint64" where
  "KSTACK p = TRAMPOLINE - (of_nat p + 1) * 2 * PGSIZE"

subsection \<open>Aligned ranges\<close>

definition aligned :: "nat \<Rightarrow> uint64 \<Rightarrow> bool" where
  "aligned n a \<longleftrightarrow> take_bit n a = 0"

abbreviation page_aligned :: "uint64 \<Rightarrow> bool" where
  "page_aligned \<equiv> aligned 12"

lemma aligned_unat: "n < 64 \<Longrightarrow> aligned n a \<longleftrightarrow> unat a mod 2 ^ n = 0"
  by (simp add: aligned_def word_unat_eq_iff unat_take_bit)

lemma aligned_dvd: "n < 64 \<Longrightarrow> aligned n a \<longleftrightarrow> 2 ^ n dvd unat a"
  by (simp add: aligned_unat mod_eq_0_iff_dvd)

lemma dvd_word_mod: "n < 64 \<Longrightarrow> (2 :: nat) ^ n dvd x mod 2 ^ 64 \<longleftrightarrow> 2 ^ n dvd x"
  by (rule dvd_mod_iff) (rule le_imp_power_dvd, simp)

lemma aligned_add: "n < 64 \<Longrightarrow> aligned n a \<Longrightarrow> aligned n b \<Longrightarrow> aligned n (a + b)"
  using dvd_word_mod [of n "unat a + unat b"] by (simp add: aligned_dvd unat_word_ariths)

lemma aligned_mult: "n < 64 \<Longrightarrow> aligned n b \<Longrightarrow> aligned n (a * b)"
  using dvd_word_mod [of n "unat a * unat b"] by (simp add: aligned_dvd unat_word_ariths)

lemma page_aligned_PGSIZE [simp]: "page_aligned PGSIZE"
  by (simp add: aligned_dvd PGSIZE_def)

lemma page_aligned_mod: "page_aligned a \<longleftrightarrow> a mod PGSIZE = 0"
  by (simp add: aligned_def PGSIZE_def take_bit_eq_mod)

lemma drop_bit_eq_span:
  assumes "aligned n a" and "n < 64"
  shows "x \<in> span a (2 ^ n) \<longleftrightarrow> drop_bit n x = drop_bit n a"
proof
  assume "x \<in> span a (2 ^ n)"
  then have "unat (x - a) < 2 ^ n" by (simp add: span_def)
  then have r: "take_bit n (x - a) = x - a" by (rule take_bit_self)
  have "x = a + (x - a)" by simp
  also have "\<dots> = a OR (x - a)"
  proof (rule disjunctive_add)
    fix k
    show "\<not> bit a k \<or> \<not> bit (x - a) k"
    proof (cases "k < n")
      case True
      with assms(1) have "\<not> bit a k"
        by (metis aligned_def bit_0_eq bit_take_bit_iff bot_apply bot_bool_def)
      then show ?thesis ..
    next
      case False
      then have "\<not> bit (take_bit n (x - a)) k" by (simp add: bit_take_bit_iff)
      then show ?thesis by (simp only: r simp_thms)
    qed
  qed
  finally have "drop_bit n x = drop_bit n (a OR take_bit n (x - a))" by (simp only: r)
  also have "\<dots> = drop_bit n a"
    by (rule bit_word_eqI) (simp add: bit_simps)
  finally show "drop_bit n x = drop_bit n a" .
next
  assume eq: "drop_bit n x = drop_bit n a"
  have "x = push_bit n (drop_bit n x) + take_bit n x" by (simp add: bits_ident)
  also have "push_bit n (drop_bit n x) = a"
    using assms(1) bits_ident [of n a] by (simp add: eq aligned_def)
  finally have "x - a = take_bit n x" by (metis add_diff_cancel_left')
  then show "x \<in> span a (2 ^ n)"
    by (simp add: span_def unat_take_bit)
qed

lemma span_disjoint:
  assumes "aligned n a" "aligned n b" "n < 64" "a \<noteq> b"
  shows "span a (2 ^ n) \<inter> span b (2 ^ n) = {}"
proof -
  have "drop_bit n a \<noteq> drop_bit n b"
    using assms bits_ident [of n a] bits_ident [of n b] by (auto simp: aligned_def)
  then show ?thesis
    using drop_bit_eq_span [OF assms(1,3)] drop_bit_eq_span [OF assms(2,3)] by auto
qed

lemma page_span_disjoint:
  "page_aligned a \<Longrightarrow> page_aligned b \<Longrightarrow> a \<noteq> b \<Longrightarrow> span a 4096 \<inter> span b 4096 = {}"
  using span_disjoint [of 12 a b] by simp

lemma slot_span_disjoint:
  "aligned 3 a \<Longrightarrow> aligned 3 b \<Longrightarrow> a \<noteq> b \<Longrightarrow> span a 8 \<inter> span b 8 = {}"
  using span_disjoint [of 3 a b] by simp

text \<open>The \<open>i\<close>-th 8-byte entry of a page, as the C expression \<open>&pagetable[i]\<close>.\<close>

definition slot :: "uint64 \<Rightarrow> uint64 \<Rightarrow> uint64" where
  "slot page i = page + 8 * i"

lemma slot_as_or:
  assumes "page_aligned page" and "unat i < 512"
  shows "slot page i = page OR push_bit 3 i"
proof -
  have i: "take_bit 9 i = i"
    using assms(2) by (simp add: take_bit_self)
  have "slot page i = page + push_bit 3 i" by (simp add: slot_def push_bit_eq_mult)
  also have "\<dots> = page OR push_bit 3 i"
  proof (rule disjunctive_add)
    fix k
    show "\<not> bit page k \<or> \<not> bit (push_bit 3 i) k"
    proof (cases "k < 12")
      case True
      with assms(1) show ?thesis
        by (metis aligned_def bit_0_eq bit_take_bit_iff bot_apply bot_bool_def)
    next
      case False
      then have "\<not> bit (push_bit 3 (take_bit 9 i)) k" by (auto simp: bit_simps)
      then show ?thesis by (simp only: i simp_thms)
    qed
  qed
  finally show ?thesis .
qed

lemma drop_bit_slot:
  assumes "page_aligned page" and "unat i < 512"
  shows "drop_bit 12 (slot page i) = drop_bit 12 page"
proof -
  have i: "take_bit 9 i = i"
    using assms(2) by (simp add: take_bit_self)
  have "drop_bit 12 (page OR push_bit 3 (take_bit 9 i)) = drop_bit 12 page"
    by (rule bit_word_eqI) (auto simp: bit_simps)
  then show ?thesis by (simp only: slot_as_or [OF assms] i)
qed

lemma aligned_slot: "page_aligned page \<Longrightarrow> unat i < 512 \<Longrightarrow> aligned 3 (slot page i)"
proof -
  assume a: "page_aligned page" "unat i < 512"
  have "take_bit 3 page = take_bit 3 (take_bit 12 page)" by simp
  then have "take_bit 3 page = 0" using a(1) by (simp only: aligned_def) simp
  moreover have "take_bit 3 (page OR push_bit 3 i) = take_bit 3 page"
    by (rule bit_word_eqI) (auto simp: bit_simps)
  ultimately show ?thesis by (simp add: aligned_def slot_as_or [OF a])
qed

lemma slot_in_page:
  assumes "page_aligned page" and "unat i < 512"
  shows "span (slot page i) 8 \<subseteq> span page 4096"
proof
  fix x assume "x \<in> span (slot page i) 8"
  then have "drop_bit 3 x = drop_bit 3 (slot page i)"
    using drop_bit_eq_span [of 3 "slot page i" x] aligned_slot [OF assms] by simp
  then have "drop_bit 9 (drop_bit 3 x) = drop_bit 9 (drop_bit 3 (slot page i))" by simp
  then have "drop_bit 12 x = drop_bit 12 page"
    by (simp add: drop_bit_slot [OF assms])
  then show "x \<in> span page 4096"
    using drop_bit_eq_span [of 12 page x] assms(1) by simp
qed

lemma slot_inject:
  assumes "unat i < 512" "unat j < 512"
  shows "slot page i = slot page j \<longleftrightarrow> i = j"
proof -
  have "unat (8 * i) = 8 * unat i" "unat (8 * j) = 8 * unat j"
    using assms by (simp_all add: unat_word_ariths)
  then have "8 * i = 8 * j \<longleftrightarrow> i = j" by (metis mult_cancel1 word_unat_eq_iff zero_neq_numeral)
  then show ?thesis by (simp add: slot_def)
qed

lemma page_inject_slot:
  assumes "page_aligned p" "page_aligned q" "unat i < 512" "unat j < 512"
    and "slot p i = slot q j"
  shows "p = q \<and> i = j"
proof -
  have "drop_bit 12 p = drop_bit 12 q"
    using assms drop_bit_slot by metis
  then have "p = q"
    using assms(1,2) bits_ident [of 12 p] bits_ident [of 12 q] by (simp add: aligned_def)
  with assms slot_inject show ?thesis by metis
qed

subsection \<open>Page rounding\<close>

lemma PGROUNDDOWN_bits: "PGROUNDDOWN a = push_bit 12 (drop_bit 12 a)"
proof -
  have "(4095 :: uint64) = mask 12" by (simp add: mask_eq_decr_exp)
  then have "PGROUNDDOWN a = a AND NOT (mask 12)" by (simp add: PGROUNDDOWN_def PGSIZE_def)
  also have "\<dots> = push_bit 12 (drop_bit 12 a)"
    by (rule bit_word_eqI) (auto simp: bit_simps)
  finally show ?thesis .
qed

lemma unat_PGROUNDDOWN: "unat (PGROUNDDOWN a) = unat a div 4096 * 4096"
proof -
  have "PGROUNDDOWN a + take_bit 12 a = a" by (simp add: PGROUNDDOWN_bits bits_ident)
  then have "PGROUNDDOWN a = a - take_bit 12 a" by (metis add_diff_cancel_right')
  moreover have "take_bit 12 a \<le> a" by (simp add: word_le_nat_alt unat_take_bit)
  ultimately have "unat (PGROUNDDOWN a) = unat a - unat a mod 4096"
    by (simp add: unat_sub unat_take_bit)
  then show ?thesis by (simp add: minus_mod_eq_div_mult)
qed

lemma aligned_PGROUNDDOWN [simp]: "page_aligned (PGROUNDDOWN a)"
  by (simp add: aligned_unat unat_PGROUNDDOWN)

lemma PGROUNDDOWN_aligned [simp]: "page_aligned a \<Longrightarrow> PGROUNDDOWN a = a"
  using bits_ident [of 12 a] by (simp add: PGROUNDDOWN_bits aligned_def)

lemma PGROUNDDOWN_le: "PGROUNDDOWN a \<le> a"
  by (simp add: word_le_nat_alt unat_PGROUNDDOWN)

lemma PGROUNDUP_PGROUNDDOWN: "PGROUNDUP a = PGROUNDDOWN (a + 4095)"
  by (simp add: PGROUNDUP_def PGROUNDDOWN_def PGSIZE_def add.commute)

lemma aligned_PGROUNDUP [simp]: "page_aligned (PGROUNDUP a)"
  by (simp add: PGROUNDUP_PGROUNDDOWN)

lemma unat_PGROUNDUP:
  assumes "unat a + 4095 < 2 ^ 64"
  shows "unat (PGROUNDUP a) = (unat a + 4095) div 4096 * 4096"
  using assms by (simp add: PGROUNDUP_PGROUNDDOWN unat_PGROUNDDOWN unat_word_ariths)

lemma PGROUNDUP_aligned [simp]:
  assumes "page_aligned a"
  shows "PGROUNDUP a = a"
proof -
  from assms obtain k where k: "unat a = 4096 * k"
    by (auto simp: aligned_unat)
  have "unat a < 4096 * 4503599627370496" using unsigned_less [of a] by simp
  with k have "unat a + 4095 < 2 ^ 64" by simp
  then have "unat (PGROUNDUP a) = (unat a + 4095) div 4096 * 4096" by (rule unat_PGROUNDUP)
  with k show ?thesis by (simp add: word_unat_eq_iff)
qed

subsection \<open>Page-table entries\<close>

lemma aligned_PTE2PA [simp]: "page_aligned (PTE2PA pte)"
  unfolding aligned_def PTE2PA_def by (rule bit_word_eqI) (auto simp: bit_simps)

text \<open>A flag word sets only the ten low bits of an entry.\<close>

definition pte_perm :: "uint64 \<Rightarrow> bool" where
  "pte_perm f \<longleftrightarrow> take_bit 10 f = f"

lemma pte_permD: "pte_perm f \<Longrightarrow> 10 \<le> k \<Longrightarrow> \<not> bit f k"
  by (metis bit_take_bit_iff leD pte_perm_def)

lemma pte_perm_lt: "pte_perm f \<Longrightarrow> bit f k \<Longrightarrow> k < 10"
  using pte_permD not_le by blast

lemma PTE2PA_PA2PTE:
  assumes "page_aligned pa" and "pte_perm f"
  shows "PTE2PA (PA2PTE pa OR f) = pa"
proof (rule bit_word_eqI)
  fix k assume k: "k < LENGTH(64)"
  have "bit pa k \<Longrightarrow> 12 \<le> k"
    by (metis assms(1) aligned_def bit_0_eq bit_take_bit_iff bot_apply bot_bool_def not_le)
  then show "bit (PTE2PA (PA2PTE pa OR f)) k \<longleftrightarrow> bit pa k"
    using k pte_permD [OF assms(2), of "k - 2"]
    by (auto simp: PTE2PA_def PA2PTE_def bit_simps)
qed

lemma PTE_FLAGS_PA2PTE:
  assumes "pte_perm f"
  shows "PTE_FLAGS (PA2PTE pa OR f) = f"
proof -
  have "(0x3FF :: uint64) = mask 10" by (simp add: mask_eq_decr_exp)
  then have "PTE_FLAGS (PA2PTE pa OR f) = (PA2PTE pa OR f) AND mask 10" by (simp add: PTE_FLAGS_def)
  also have "\<dots> = f"
    by (rule bit_word_eqI) (auto simp: PA2PTE_def bit_simps dest: pte_perm_lt [OF assms])
  finally show ?thesis .
qed

lemma PTE_FLAGS_and: "pte_perm f \<Longrightarrow> PTE_FLAGS pte AND f = pte AND f"
proof -
  assume f: "pte_perm f"
  have "(0x3FF :: uint64) = mask 10" by (simp add: mask_eq_decr_exp)
  then have "PTE_FLAGS pte = pte AND mask 10" by (simp only: PTE_FLAGS_def)
  then show ?thesis
    by (intro bit_word_eqI) (auto simp: bit_simps dest: pte_perm_lt [OF f])
qed

lemma PA2PTE_flag:
  assumes "pte_perm g"
  shows "(PA2PTE pa OR f) AND g = f AND g"
  by (rule bit_word_eqI) (auto simp: PA2PTE_def bit_simps dest: pte_perm_lt [OF assms])

lemma unat_PX: "unat (PX level va) = unat va div 2 ^ (12 + 9 * level) mod 512"
proof -
  have "(0x1FF :: uint64) = mask 9" by (simp add: mask_eq_decr_exp)
  then have "PX level va = take_bit 9 (drop_bit (PXSHIFT level) va)"
    by (simp only: PX_def PXMASK_def take_bit_eq_mask)
  then show ?thesis
    by (simp add: unat_take_bit unat_drop_bit PXSHIFT_def PGSHIFT_def)
qed

lemma PX_bound [simp]: "unat (PX level va) < 512"
  by (simp add: unat_PX)

text \<open>Below MAXVA the three indices and the page offset determine the address.\<close>

lemma PX_inject:
  assumes "va < MAXVA" "vb < MAXVA"
    and "PX 2 va = PX 2 vb" "PX 1 va = PX 1 vb" "PX 0 va = PX 0 vb"
  shows "PGROUNDDOWN va = PGROUNDDOWN vb"
proof -
  let ?a = "unat va div 4096" and ?b = "unat vb div 4096"
  have bound: "?a < 512 * 512 * 512" "?b < 512 * 512 * 512"
    using assms(1,2) by (auto simp: MAXVA_def word_less_nat_alt less_mult_imp_div_less)
  have digits: "?a mod 512 = ?b mod 512" "?a div 512 mod 512 = ?b div 512 mod 512"
    "?a div 512 div 512 mod 512 = ?b div 512 div 512 mod 512"
    using assms(3-5) [THEN arg_cong [where f = unat]]
    by (simp_all add: unat_PX div_mult2_eq [symmetric])
  have "?a div 512 div 512 < 512" "?b div 512 div 512 < 512"
    using bound by (simp_all add: less_mult_imp_div_less)
  with digits have "?a div 512 div 512 = ?b div 512 div 512" by simp
  with digits have "?a div 512 = ?b div 512" by (metis div_mult_mod_eq)
  with digits have "?a = ?b" by (metis div_mult_mod_eq)
  then show ?thesis by (simp add: word_unat_eq_iff unat_PGROUNDDOWN)
qed

end
