(* ===== verification/Cstring.thy ===== *)
theory Cstring
  imports Prelude
begin

text \<open>
  The byte and string routines of \<^verbatim>\<open>kernel/string.c\<close>.

  \<open>memset\<close> and \<open>memmove\<close> run on the byte-addressed memory, because their callers pass physical
  addresses and \<open>memmove\<close> has to survive overlap. The string routines read through a \<open>cptr\<close>, the
  bytes a C pointer reaches (\<open>p i\<close> is \<open>p[i]\<close>), and write into a byte array given as a list.
  Loop counters are natural numbers: the C counters are \<open>int\<close> or \<open>uint\<close> and every call in the
  kernel passes a count below \<open>2^31\<close>. \<open>strlen\<close> may run off an unterminated array, so it is a
  partial function whose value is \<open>None\<close> when it does not return.
\<close>

type_synonym cptr = "nat \<Rightarrow> byte"

definition array_ptr :: "byte list \<Rightarrow> cptr" where
  "array_ptr xs i = (if i < length xs then xs ! i else 0)"

definition mem_ptr :: "memory \<Rightarrow> uint64 \<Rightarrow> cptr" where
  "mem_ptr m a i = m (a + of_nat i)"

subsection \<open>memset\<close>

function memset_from :: "memory \<Rightarrow> uint64 \<Rightarrow> byte \<Rightarrow> nat \<Rightarrow> nat \<Rightarrow> memory" where
  "memset_from m dst c n i =
     (if i < n then memset_from (m(dst + of_nat i := c)) dst c n (Suc i) else m)"
  by pat_completeness auto
termination by (relation "measure (\<lambda>(m, dst, c, n, i). n - i)") auto

declare memset_from.simps [simp del]

definition memset :: "memory \<Rightarrow> uint64 \<Rightarrow> byte \<Rightarrow> nat \<Rightarrow> memory" where
  "memset m dst c n = memset_from m dst c n 0"

subsection \<open>memcmp\<close>

fun memcmp :: "cptr \<Rightarrow> cptr \<Rightarrow> nat \<Rightarrow> int" where
  "memcmp s1 s2 0 = 0"
| "memcmp s1 s2 (Suc n) =
     (if s1 0 \<noteq> s2 0 then uint (s1 0) - uint (s2 0)
      else memcmp (\<lambda>i. s1 (Suc i)) (\<lambda>i. s2 (Suc i)) n)"

subsection \<open>memmove\<close>

fun copy_backward :: "memory \<Rightarrow> uint64 \<Rightarrow> uint64 \<Rightarrow> nat \<Rightarrow> memory" where
  "copy_backward m d s 0 = m"
| "copy_backward m d s (Suc n) = copy_backward (m(d - 1 := m (s - 1))) (d - 1) (s - 1) n"

fun copy_forward :: "memory \<Rightarrow> uint64 \<Rightarrow> uint64 \<Rightarrow> nat \<Rightarrow> memory" where
  "copy_forward m d s 0 = m"
| "copy_forward m d s (Suc n) = copy_forward (m(d := m s)) (d + 1) (s + 1) n"

definition memmove :: "memory \<Rightarrow> uint64 \<Rightarrow> uint64 \<Rightarrow> nat \<Rightarrow> memory" where
  "memmove m dst src n =
     (if n = 0 then m
      else if src < dst \<and> src + of_nat n > dst
      then copy_backward m (dst + of_nat n) (src + of_nat n) n
      else copy_forward m dst src n)"

definition memcpy :: "memory \<Rightarrow> uint64 \<Rightarrow> uint64 \<Rightarrow> nat \<Rightarrow> memory" where
  "memcpy m dst src n = memmove m dst src n"

subsection \<open>Strings\<close>

fun strncmp :: "cptr \<Rightarrow> cptr \<Rightarrow> nat \<Rightarrow> int" where
  "strncmp p q 0 = 0"
| "strncmp p q (Suc n) =
     (if p 0 \<noteq> 0 \<and> p 0 = q 0 then strncmp (\<lambda>i. p (Suc i)) (\<lambda>i. q (Suc i)) n
      else uint (p 0) - uint (q 0))"

fun strncpy_pad :: "byte list \<Rightarrow> nat \<Rightarrow> nat \<Rightarrow> byte list" where
  "strncpy_pad s i 0 = s"
| "strncpy_pad s i (Suc n) = strncpy_pad (s[i := 0]) (Suc i) n"

fun strncpy_copy :: "byte list \<Rightarrow> cptr \<Rightarrow> nat \<Rightarrow> nat \<Rightarrow> byte list" where
  "strncpy_copy s t i 0 = s"
| "strncpy_copy s t i (Suc n) =
     (if t i \<noteq> 0 then strncpy_copy (s[i := t i]) t (Suc i) n
      else strncpy_pad (s[i := t i]) (Suc i) n)"

definition strncpy :: "byte list \<Rightarrow> cptr \<Rightarrow> nat \<Rightarrow> byte list" where
  "strncpy s t n = strncpy_copy s t 0 n"

fun safestrcpy_copy :: "byte list \<Rightarrow> cptr \<Rightarrow> nat \<Rightarrow> nat \<Rightarrow> byte list" where
  "safestrcpy_copy s t i 0 = s[i := 0]"
| "safestrcpy_copy s t i (Suc n) =
     (if t i \<noteq> 0 then safestrcpy_copy (s[i := t i]) t (Suc i) n
      else s[i := t i, Suc i := 0])"

definition safestrcpy :: "byte list \<Rightarrow> cptr \<Rightarrow> int \<Rightarrow> byte list" where
  "safestrcpy s t n = (if n \<le> 0 then s else safestrcpy_copy s t 0 (nat n - 1))"

partial_function (option) strlen_from :: "cptr \<Rightarrow> nat \<Rightarrow> nat option" where
  "strlen_from s n = (if s n = 0 then Some n else strlen_from s (Suc n))"

definition strlen :: "cptr \<Rightarrow> nat option" where
  "strlen s = strlen_from s 0"

subsection \<open>Correctness\<close>

text \<open>A string of length \<open>n\<close>: the first NUL is at index \<open>n\<close>.\<close>

definition cstring :: "cptr \<Rightarrow> nat \<Rightarrow> bool" where
  "cstring s n \<longleftrightarrow> s n = 0 \<and> (\<forall>i<n. s i \<noteq> 0)"

lemma mwrite_snoc:
  assumes "length bs < 2 ^ 64"
  shows "mwrite m a (bs @ [b]) = (mwrite m a bs)(a + of_nat (length bs) := b)"
proof (rule ext)
  fix x
  have len: "unat (of_nat (length bs) :: uint64) = length bs"
    using assms by (simp add: unat_of_nat)
  have "x = a + of_nat (length bs) \<longleftrightarrow> x - a = of_nat (length bs)"
    by (metis add_diff_cancel_left' diff_add_cancel add.commute)
  also have "\<dots> \<longleftrightarrow> unat (x - a) = length bs"
    by (simp add: word_unat_eq_iff len)
  finally show "mwrite m a (bs @ [b]) x = ((mwrite m a bs)(a + of_nat (length bs) := b)) x"
    by (auto simp: mwrite_def nth_append)
qed

lemma memset_from_mwrite:
  assumes "i \<le> n" and "n < 2 ^ 64"
  shows "memset_from (mwrite m dst (replicate i c)) dst c n i = mwrite m dst (replicate n c)"
  using assms
proof (induction "n - i" arbitrary: i)
  case 0
  then show ?case by (subst memset_from.simps) simp
next
  case (Suc k)
  then have "i < n" by simp
  have "(mwrite m dst (replicate i c))(dst + of_nat i := c) = mwrite m dst (replicate (Suc i) c)"
    using mwrite_snoc [of "replicate i c" m dst c] \<open>i < n\<close> Suc.prems(2)
    by (simp add: replicate_append_same)
  then show ?case
    using Suc.hyps(1) [of "Suc i"] Suc.hyps(2) Suc.prems(2) \<open>i < n\<close>
    by (subst memset_from.simps) simp
qed

lemma memset_mwrite: "n < 2 ^ 64 \<Longrightarrow> memset m dst c n = mwrite m dst (replicate n c)"
  using memset_from_mwrite [of 0 n m dst c] by (simp add: memset_def)

text \<open>Addresses inside a range that does not wrap.\<close>

lemma unat_offset: "unat a + i < 2 ^ 64 \<Longrightarrow> unat (a + of_nat i :: uint64) = unat a + i"
  by (simp add: unat_word_ariths unat_of_nat)

lemma unat_diff_cases:
  "unat (x - y :: uint64) = (if unat y \<le> unat x then unat x - unat y else unat x + 2 ^ 64 - unat y)"
  by (simp add: unat_sub_if_size word_size)

lemma mwrite_Cons:
  assumes "length bs < 2 ^ 64"
  shows "mwrite m a (b # bs) = (mwrite m (a + 1) bs)(a := b)"
proof (rule ext)
  fix x
  show "mwrite m a (b # bs) x = ((mwrite m (a + 1) bs)(a := b)) x"
  proof (cases "x = a")
    case True
    then show ?thesis by (simp add: mwrite_def)
  next
    case False
    then have ne: "x - a \<noteq> 0" by simp
    then have "0 < unat (x - a)" using unat_gt_0 [of "x - a"] by blast
    then have "unat (x - a) = Suc (unat (x - a - 1))"
      using unat_minus_one [OF ne] by linarith
    then show ?thesis using False by (simp add: mwrite_def diff_diff_eq)
  qed
qed

lemma copy_forward_mwrite:
  assumes "i + k = n" and "n \<le> 2 ^ 64" and "length bs = n" and "bs = mread m s n"
    and "\<And>j. j < n \<Longrightarrow> s + of_nat j \<notin> span d j"
  shows "copy_forward (mwrite m d (take i bs)) (d + of_nat i) (s + of_nat i) k = mwrite m d bs"
  using assms(1)
proof (induction k arbitrary: i)
  case 0
  then show ?case using assms(3) by simp
next
  case (Suc k)
  let ?M = "mwrite m d (take i bs)"
  have i: "i < n" using Suc.prems by simp
  then have "?M (s + of_nat i) = m (s + of_nat i)"
    using assms(5) [of i] assms(3) by (simp add: mwrite_outside)
  also have "\<dots> = bs ! i" using assms(4) i by simp
  finally have "?M(d + of_nat i := ?M (s + of_nat i)) = mwrite m d (take (Suc i) bs)"
    using mwrite_snoc [of "take i bs" m d "bs ! i"] i assms(2,3)
    by (simp add: take_Suc_conv_app_nth)
  then show ?case
    using Suc.IH [of "Suc i"] Suc.prems by (simp add: add.assoc add.commute [of 1])
qed

lemma copy_backward_mwrite:
  assumes "k \<le> n" and "n < 2 ^ 64" and "length bs = n" and "bs = mread m s n"
    and "\<And>j. 0 < j \<Longrightarrow> j \<le> n \<Longrightarrow> s + of_nat (j - 1) \<notin> span (d + of_nat j) (n - j)"
  shows "copy_backward (mwrite m (d + of_nat k) (drop k bs)) (d + of_nat k) (s + of_nat k) k
    = mwrite m d bs"
  using assms(1)
proof (induction k)
  case 0
  then show ?case by simp
next
  case (Suc k)
  let ?M = "mwrite m (d + of_nat (Suc k)) (drop (Suc k) bs)"
  have dec: "d + of_nat (Suc k) - 1 = d + of_nat k" "s + of_nat (Suc k) - 1 = s + of_nat k" by simp_all
  have k: "k < n" using Suc.prems by simp
  then have "?M (s + of_nat k) = m (s + of_nat k)"
    using assms(5) [of "Suc k"] assms(3) by (simp add: mwrite_outside)
  also have "\<dots> = bs ! k" using assms(4) k by simp
  finally have "?M(d + of_nat k := ?M (s + of_nat k)) = mwrite m (d + of_nat k) (drop k bs)"
    using mwrite_Cons [of "drop (Suc k) bs" m "d + of_nat k" "bs ! k"] k assms(2,3)
    by (simp add: Cons_nth_drop_Suc add.assoc add.commute [of 1])
  then show ?case
    using Suc.IH Suc.prems by (simp only: copy_backward.simps dec)
qed

lemma memmove_mwrite:
  assumes "unat src + n < 2 ^ 64" and "unat dst + n < 2 ^ 64"
  shows "memmove m dst src n = mwrite m dst (mread m src n)"
proof (cases "src < dst \<and> src + of_nat n > dst")
  case True
  have n: "n < 2 ^ 64" using assms(1) by simp
  have "src + of_nat (j - 1) \<notin> span (dst + of_nat j) (n - j)" if "0 < j" "j \<le> n" for j
  proof -
    have "unat (src + of_nat (j - 1)) = unat src + (j - 1)"
      by (rule unat_offset) (use assms that in simp)
    moreover have "unat (dst + of_nat j) = unat dst + j"
      by (rule unat_offset) (use assms that in simp)
    ultimately show ?thesis
      using True that assms by (simp add: span_def unat_diff_cases word_less_nat_alt del: of_nat_diff) arith
  qed
  then have "copy_backward (mwrite m (dst + of_nat n) (drop n (mread m src n))) (dst + of_nat n)
      (src + of_nat n) n = mwrite m dst (mread m src n)"
    using n by (intro copy_backward_mwrite) auto
  then show ?thesis using True by (simp add: memmove_def mread_def)
next
  case False
  have n: "n < 2 ^ 64" using assms(1) by simp
  have "src + of_nat j \<notin> span dst j" if "j < n" for j
  proof -
    have "unat (src + of_nat j) = unat src + j" "unat (src + of_nat n) = unat src + n"
      using assms that by (simp_all add: unat_offset)
    then show ?thesis
      using False that assms by (auto simp: span_def unat_diff_cases word_less_nat_alt not_less)
  qed
  then have "copy_forward (mwrite m dst (take 0 (mread m src n))) (dst + of_nat 0) (src + of_nat 0) n
      = mwrite m dst (mread m src n)"
    using n by (intro copy_forward_mwrite [where n = n]) auto
  then show ?thesis using False by (auto simp: memmove_def mread_def)
qed

lemma uint_eq_iff: "uint a - uint b = 0 \<longleftrightarrow> a = b" "uint a = uint b \<longleftrightarrow> a = b" "uint a = 0 \<longleftrightarrow> a = 0"
  by (simp_all add: word_uint_eq_iff)

lemma strlen_from_eq: "cstring s n \<Longrightarrow> i \<le> n \<Longrightarrow> strlen_from s i = Some n"
proof (induction "n - i" arbitrary: i)
  case 0
  then show ?case by (subst strlen_from.simps) (simp add: cstring_def)
next
  case (Suc k)
  then have "s i \<noteq> 0" "i < n" by (auto simp: cstring_def)
  then show ?case using Suc by (subst strlen_from.simps) simp
qed

lemma strlen_eq: "cstring s n \<Longrightarrow> strlen s = Some n"
  by (simp add: strlen_def strlen_from_eq)

text \<open>\<open>strncmp\<close> compares two bounded names: the length-\<open>n\<close> arrays cut at their first NUL.\<close>

definition cname :: "nat \<Rightarrow> cptr \<Rightarrow> byte list" where
  "cname n p = takeWhile (\<lambda>b. b \<noteq> 0) (map p [0..<n])"

lemma cname_Suc: "cname (Suc n) p = (if p 0 = 0 then [] else p 0 # cname n (\<lambda>i. p (Suc i)))"
proof -
  have "map p [0..<Suc n] = p 0 # map (\<lambda>i. p (Suc i)) [0..<n]"
    by (simp add: upt_conv_Cons map_Suc_upt [symmetric] del: upt_Suc)
  then show ?thesis by (simp add: cname_def del: upt_Suc)
qed

lemma strncmp_cname: "strncmp p q n = 0 \<longleftrightarrow> cname n p = cname n q"
proof (induction n arbitrary: p q)
  case 0
  then show ?case by (simp add: cname_def)
next
  case (Suc n)
  show ?case by (auto simp: cname_Suc Suc.IH uint_eq_iff)
qed

end
