(* ===== verification/Kalloc.thy ===== *)
theory Kalloc
  imports Riscv Cstring
begin

text \<open>
  The physical page allocator, \<^verbatim>\<open>kernel/kalloc.c\<close>.

  The free list is threaded through the free pages themselves: the first eight bytes of a free page
  hold the address of the next one (\<open>struct run\<close>), and \<open>kmem.freelist\<close> is its head. The model keeps
  exactly that: \<open>pmem\<close> is physical memory, byte by byte, and the list is read back from it. The
  linker symbol \<open>end\<close> is the field \<open>kend\<close>, which no operation writes. \<open>kmem.lock\<close> brackets the two
  critical sections; each operation here is one such section.

  The locales \<open>pool\<close> and \<open>pool_or_null\<close> state what a client of any allocator of the kernel relies
  on, and prove what follows for sequences of calls. \<open>kalloc\<close> and \<open>kfree\<close> are shown to satisfy them.
\<close>

subsection \<open>The contract of an allocator\<close>

locale pool =
  fixes alloc :: "('x, 's) routine"
    and free :: "'x \<Rightarrow> (unit, 's) routine"
    and avail :: "'s \<Rightarrow> 'x set"
    and legal :: "'s \<Rightarrow> 'x \<Rightarrow> bool"
    and inv :: "'s \<Rightarrow> bool"
  assumes alloc_avail: "inv s \<Longrightarrow> avail s \<noteq> {} \<Longrightarrow>
      \<exists>x s'. alloc s = Ok x s' \<and> x \<in> avail s \<and> avail s' = avail s - {x} \<and> inv s' \<and>
        legal s' = legal s"
    and free_legal: "inv s \<Longrightarrow> legal s x \<Longrightarrow> x \<notin> avail s \<Longrightarrow>
      \<exists>s'. free x s = Ok () s' \<and> avail s' = insert x (avail s) \<and> inv s' \<and> legal s' = legal s"
    and avail_legal: "inv s \<Longrightarrow> x \<in> avail s \<Longrightarrow> legal s x"
    and avail_finite: "inv s \<Longrightarrow> finite (avail s)"
begin

primrec alloc_many :: "nat \<Rightarrow> ('x list, 's) routine" where
  "alloc_many 0 = ret []"
| "alloc_many (Suc n) = bind alloc (\<lambda>x. bind (alloc_many n) (\<lambda>xs. ret (x # xs)))"

text \<open>A pool with \<open>n\<close> free resources serves \<open>n\<close> requests, with distinct resources.\<close>

lemma alloc_many_distinct:
  assumes "inv s" and "n \<le> card (avail s)"
  shows "\<exists>xs s'. alloc_many n s = Ok xs s' \<and> length xs = n \<and> distinct xs \<and> set xs \<subseteq> avail s \<and>
    avail s' = avail s - set xs \<and> inv s'"
  using assms
proof (induction n arbitrary: s)
  case 0
  then show ?case by simp
next
  case (Suc n)
  then have "avail s \<noteq> {}" by auto
  then obtain x s1 where x: "alloc s = Ok x s1" "x \<in> avail s" "avail s1 = avail s - {x}" "inv s1"
    using alloc_avail Suc.prems(1) by blast
  then have "n \<le> card (avail s1)"
    using Suc.prems avail_finite by (simp add: card_Diff_singleton)
  then obtain xs s2 where xs: "alloc_many n s1 = Ok xs s2" "length xs = n" "distinct xs"
      "set xs \<subseteq> avail s1" "avail s2 = avail s1 - set xs" "inv s2"
    using Suc.IH x(4) by blast
  then have "alloc_many (Suc n) s = Ok (x # xs) s2"
    using x(1) by (simp add: bind_def)
  moreover have "avail s2 = avail s - set (x # xs)" "set (x # xs) \<subseteq> avail s" "distinct (x # xs)"
    using x xs by auto
  ultimately show ?case using xs by (metis length_Cons)
qed

text \<open>Returning a resource that was just handed out restores the pool.\<close>

lemma alloc_free_restores:
  assumes "inv s" and "alloc s = Ok x s'" and "x \<in> avail s"
  shows "\<exists>s''. free x s' = Ok () s'' \<and> avail s'' = avail s \<and> inv s''"
proof -
  obtain y t where y: "alloc s = Ok y t" "y \<in> avail s" "avail t = avail s - {y}" "inv t"
      "legal t = legal s"
    using alloc_avail assms(1,3) by blast
  then have eq: "y = x" "t = s'" using assms(2) by auto
  have "legal t y" using avail_legal assms(1) y by auto
  then obtain u where "free y t = Ok () u" "avail u = insert y (avail t)" "inv u"
    using free_legal [of t y] y by auto
  with y eq show ?thesis by auto
qed

end

locale pool_or_null = pool alloc free avail legal inv
  for alloc :: "('x, 's) routine" and free :: "'x \<Rightarrow> (unit, 's) routine"
    and avail :: "'s \<Rightarrow> 'x set" and legal :: "'s \<Rightarrow> 'x \<Rightarrow> bool" and inv :: "'s \<Rightarrow> bool" +
  fixes none :: 'x
  assumes alloc_exhausted: "inv s \<Longrightarrow> avail s = {} \<Longrightarrow> alloc s = Ok none s"
    and none_illegal: "inv s \<Longrightarrow> \<not> legal s none"
begin

lemma alloc_none_iff:
  assumes "inv s" and "alloc s = Ok x s'"
  shows "x = none \<longleftrightarrow> avail s = {}"
proof (cases "avail s = {}")
  case True
  then show ?thesis using alloc_exhausted assms by auto
next
  case False
  then obtain y t where "alloc s = Ok y t" "y \<in> avail s" using alloc_avail assms(1) by blast
  then have "legal s x" using assms avail_legal by auto
  then show ?thesis using False none_illegal assms(1) by auto
qed

lemma alloc_returns: "inv s \<Longrightarrow> \<exists>x s'. alloc s = Ok x s' \<and> inv s' \<and> avail s' \<subseteq> avail s"
  using alloc_avail [of s] alloc_exhausted [of s] by blast

end

subsection \<open>State and operations\<close>

record kmem =
  pmem :: memory
  freelist :: uint64
  kend :: uint64

definition page_seq :: "uint64 \<Rightarrow> nat \<Rightarrow> uint64 list" where
  "page_seq p n = map (\<lambda>k. p + of_nat k * PGSIZE) [0..<n]"

definition kfree :: "uint64 \<Rightarrow> (unit, 'a kmem_scheme) routine" where
  "kfree pa = (\<lambda>s.
     if pa mod PGSIZE \<noteq> 0 \<or> pa < kend s \<or> pa \<ge> PHYSTOP then Panic ''kfree''
     else
       let m1 = memset (pmem s) pa 1 (unat PGSIZE);
           m2 = store64 m1 pa (freelist s)
       in Ok () (s\<lparr>pmem := m2, freelist := pa\<rparr>))"

definition freerange :: "uint64 \<Rightarrow> uint64 \<Rightarrow> (unit, 'a kmem_scheme) routine" where
  "freerange pa_start pa_end =
     (let p = PGROUNDUP pa_start
      in for_each (page_seq p ((unat pa_end - unat p) div unat PGSIZE)) kfree)"

definition kinit :: "(unit, 'a kmem_scheme) routine" where
  "kinit = bind (gets kend) (\<lambda>e. freerange e PHYSTOP)"

definition kalloc :: "(uint64, 'a kmem_scheme) routine" where
  "kalloc = (\<lambda>s.
     let r = freelist s;
         s1 = (if r \<noteq> 0 then s\<lparr>freelist := load64 (pmem s) r\<rparr> else s);
         s2 = (if r \<noteq> 0 then s1\<lparr>pmem := memset (pmem s1) r 5 (unat PGSIZE)\<rparr> else s1)
     in Ok r s2)"

subsection \<open>The free list in memory\<close>

primrec run_list :: "memory \<Rightarrow> uint64 \<Rightarrow> uint64 list \<Rightarrow> bool" where
  "run_list m a [] \<longleftrightarrow> a = 0"
| "run_list m a (p # ps) \<longleftrightarrow> a = p \<and> p \<noteq> 0 \<and> run_list m (load64 m p) ps"

inductive on_list :: "memory \<Rightarrow> uint64 \<Rightarrow> uint64 \<Rightarrow> bool" where
  here: "a \<noteq> 0 \<Longrightarrow> on_list m a a"
| there: "a \<noteq> 0 \<Longrightarrow> on_list m (load64 m a) p \<Longrightarrow> on_list m a p"

definition kpage :: "'a kmem_scheme \<Rightarrow> uint64 \<Rightarrow> bool" where
  "kpage s p \<longleftrightarrow> page_aligned p \<and> kend s \<le> p \<and> p < PHYSTOP"

definition free_pages :: "'a kmem_scheme \<Rightarrow> uint64 set" where
  "free_pages s = {p. on_list (pmem s) (freelist s) p}"

definition kmem_inv :: "'a kmem_scheme \<Rightarrow> bool" where
  "kmem_inv s \<longleftrightarrow> 0 < kend s \<and>
     (\<exists>ps. run_list (pmem s) (freelist s) ps \<and> distinct ps \<and> (\<forall>p \<in> set ps. kpage s p))"

inductive_cases on_listE: "on_list m a p"

lemma on_list_run_list: "run_list m a ps \<Longrightarrow> on_list m a p \<longleftrightarrow> p \<in> set ps"
proof (induction ps arbitrary: a)
  case Nil
  then show ?case by (auto elim: on_listE)
next
  case (Cons q ps)
  then have q: "a = q" "q \<noteq> 0" and IH: "on_list m (load64 m q) p \<longleftrightarrow> p \<in> set ps" by auto
  show ?case
  proof
    assume "on_list m a p"
    then show "p \<in> set (q # ps)" using q IH by (auto elim: on_listE)
  next
    assume "p \<in> set (q # ps)"
    then show "on_list m a p"
      using q IH on_list.here on_list.there by (metis set_ConsD)
  qed
qed

lemma free_pages_run_list: "run_list (pmem s) (freelist s) ps \<Longrightarrow> free_pages s = set ps"
  by (auto simp: free_pages_def on_list_run_list)

lemma kmem_invE:
  assumes "kmem_inv s"
  obtains ps where "run_list (pmem s) (freelist s) ps" "distinct ps" "free_pages s = set ps"
    "\<And>p. p \<in> set ps \<Longrightarrow> kpage s p" "0 < kend s"
  using assms free_pages_run_list unfolding kmem_inv_def by blast

lemma kpage_nonzero: "0 < kend s \<Longrightarrow> kpage s p \<Longrightarrow> p \<noteq> 0"
  by (auto simp: kpage_def)

lemma page_head_span: "page_aligned p \<Longrightarrow> span p 8 \<subseteq> span p 4096"
  by (auto simp: span_def)

text \<open>The list survives every change of memory outside its own pages.\<close>

lemma run_list_cong:
  assumes "run_list m a ps" and "\<And>p x. p \<in> set ps \<Longrightarrow> x \<in> span p 8 \<Longrightarrow> m' x = m x"
  shows "run_list m' a ps"
  using assms
proof (induction ps arbitrary: a)
  case Nil
  then show ?case by simp
next
  case (Cons p ps)
  have "load64 m' p = load64 m p"
    using Cons.prems(2) by (intro load64_cong) auto
  then show ?case using Cons by auto
qed

lemma memset_page_outside:
  "x \<notin> span p 4096 \<Longrightarrow> memset m p c (unat PGSIZE) x = m x"
  by (simp add: memset_mwrite PGSIZE_def mwrite_def span_def)

lemma store64_outside: "x \<notin> span a 8 \<Longrightarrow> store64 m a v x = m x"
  by (simp add: store64_def mwrite_def span_def)

subsection \<open>Correctness of the allocator\<close>

lemma kalloc_empty: "freelist s = 0 \<Longrightarrow> kalloc s = Ok 0 s"
  by (simp add: kalloc_def)

lemma kalloc_nonempty:
  assumes "run_list (pmem s) (freelist s) (p # ps)" and "distinct (p # ps)"
    and pages: "\<And>q. q \<in> set (p # ps) \<Longrightarrow> page_aligned q"
  shows "\<exists>s'. kalloc s = Ok p s' \<and> run_list (pmem s') (freelist s') ps \<and> kend s' = kend s \<and>
    mread (pmem s') p 4096 = replicate 4096 5 \<and>
    (\<forall>x. x \<notin> span p 4096 \<longrightarrow> pmem s' x = pmem s x)"
proof -
  let ?m = "memset (pmem s) p 5 (unat PGSIZE)"
  let ?s = "s\<lparr>freelist := load64 (pmem s) p, pmem := ?m\<rparr>"
  have head: "freelist s = p" "p \<noteq> 0" and tail: "run_list (pmem s) (load64 (pmem s) p) ps"
    using assms(1) by auto
  have "kalloc s = Ok p ?s" using head by (simp add: kalloc_def)
  moreover have "run_list ?m (load64 (pmem s) p) ps"
    using tail
  proof (rule run_list_cong)
    fix q x assume "q \<in> set ps" "x \<in> span q 8"
    then have "x \<notin> span p 4096"
      using assms(2) pages page_span_disjoint [of q p] page_head_span [of q] by auto
    then show "?m x = pmem s x" by (rule memset_page_outside)
  qed
  moreover have "mread ?m p 4096 = replicate 4096 5"
    using mread_mwrite [of "replicate 4096 5" "pmem s" p] by (simp add: memset_mwrite PGSIZE_def)
  ultimately show ?thesis by (auto simp: memset_page_outside)
qed

lemma kalloc_avail:
  assumes "kmem_inv s" and "free_pages s \<noteq> {}"
  shows "\<exists>p s'. kalloc s = Ok p s' \<and> p \<in> free_pages s \<and> free_pages s' = free_pages s - {p} \<and>
    kmem_inv s' \<and> kend s' = kend s \<and> mread (pmem s') p 4096 = replicate 4096 5 \<and>
    (\<forall>x. x \<notin> span p 4096 \<longrightarrow> pmem s' x = pmem s x)"
proof -
  obtain ps where ps: "run_list (pmem s) (freelist s) ps" "distinct ps" "free_pages s = set ps"
      "\<And>p. p \<in> set ps \<Longrightarrow> kpage s p" and e: "0 < kend s"
    using assms(1) by (rule kmem_invE) blast
  then obtain p qs where qs: "ps = p # qs" using assms(2) by (cases ps) auto
  obtain s' where s': "kalloc s = Ok p s'" "run_list (pmem s') (freelist s') qs" "kend s' = kend s"
      "mread (pmem s') p 4096 = replicate 4096 5"
      "\<forall>x. x \<notin> span p 4096 \<longrightarrow> pmem s' x = pmem s x"
    using kalloc_nonempty [of s p qs] ps qs unfolding kpage_def by blast
  moreover have "free_pages s' = set qs" using s'(2) by (rule free_pages_run_list)
  moreover have "kmem_inv s'"
    unfolding kmem_inv_def using s' ps qs e by (auto simp: kpage_def)
  ultimately show ?thesis using ps qs by auto
qed

lemma kalloc_exhausted:
  assumes "kmem_inv s" and "free_pages s = {}"
  shows "kalloc s = Ok 0 s"
proof -
  obtain ps where "run_list (pmem s) (freelist s) ps" "free_pages s = set ps"
    using assms(1) by (rule kmem_invE) auto
  with assms(2) show ?thesis by (simp add: kalloc_empty)
qed

lemma kfree_legal:
  assumes "kmem_inv s" and "kpage s p" and "p \<notin> free_pages s"
  shows "\<exists>s'. kfree p s = Ok () s' \<and> free_pages s' = insert p (free_pages s) \<and> kmem_inv s' \<and>
    kend s' = kend s \<and> (\<forall>x. x \<notin> span p 4096 \<longrightarrow> pmem s' x = pmem s x)"
proof -
  obtain ps where ps: "run_list (pmem s) (freelist s) ps" "distinct ps" "free_pages s = set ps"
      "\<And>q. q \<in> set ps \<Longrightarrow> kpage s q" and e: "0 < kend s"
    using assms(1) by (rule kmem_invE) blast
  let ?m = "store64 (memset (pmem s) p 1 (unat PGSIZE)) p (freelist s)"
  let ?s = "s\<lparr>pmem := ?m, freelist := p\<rparr>"
  have al: "page_aligned p" using assms(2) by (simp add: kpage_def)
  have "kfree p s = Ok () ?s"
    using assms(2) by (auto simp: kfree_def kpage_def page_aligned_mod)
  moreover have outside: "?m x = pmem s x" if "x \<notin> span p 4096" for x
    using that page_head_span [OF al]
    by (metis memset_page_outside store64_outside subsetD)
  moreover have "run_list ?m (freelist s) ps"
    using ps(1)
  proof (rule run_list_cong)
    fix q x assume q: "q \<in> set ps" "x \<in> span q 8"
    then have "page_aligned q" "q \<noteq> p" using ps assms(3) by (auto simp: kpage_def)
    then have "x \<notin> span p 4096"
      using q page_span_disjoint [of q p] page_head_span [of q] al by auto
    then show "?m x = pmem s x" by (rule outside)
  qed
  then have run: "run_list (pmem ?s) (freelist ?s) (p # ps)"
    using kpage_nonzero [OF e assms(2)] by (simp add: load64_store64)
  moreover have "free_pages ?s = insert p (free_pages s)"
    using free_pages_run_list [OF run] ps(3) by simp
  moreover have "kmem_inv ?s"
    unfolding kmem_inv_def
    using run ps assms e by (intro conjI exI [of _ "p # ps"]) (auto simp: kpage_def)
  ultimately show ?thesis by auto
qed

lemma kfree_panics: "\<not> kpage s p \<Longrightarrow> kfree p s = Panic ''kfree''"
  unfolding kfree_def kpage_def page_aligned_mod by (metis not_le)

lemma free_pages_finite: "kmem_inv s \<Longrightarrow> finite (free_pages s)"
  by (erule kmem_invE) simp

lemma free_pages_kpage: "kmem_inv s \<Longrightarrow> p \<in> free_pages s \<Longrightarrow> kpage s p"
  by (erule kmem_invE) simp

interpretation kpool: pool_or_null kalloc kfree free_pages kpage
    "kmem_inv :: 'a kmem_scheme \<Rightarrow> bool" 0
proof
  fix s :: "'a kmem_scheme" and x
  show "\<exists>p s'. kalloc s = Ok p s' \<and> p \<in> free_pages s \<and> free_pages s' = free_pages s - {p} \<and>
      kmem_inv s' \<and> kpage s' = kpage s" if "kmem_inv s" "free_pages s \<noteq> {}"
    using kalloc_avail [OF that] by (auto simp: kpage_def fun_eq_iff)
  show "\<exists>s'. kfree x s = Ok () s' \<and> free_pages s' = insert x (free_pages s) \<and> kmem_inv s' \<and>
      kpage s' = kpage s" if "kmem_inv s" "kpage s x" "x \<notin> free_pages s"
    using kfree_legal [OF that] by (auto simp: kpage_def fun_eq_iff)
  show "kpage s x" if "kmem_inv s" "x \<in> free_pages s" using that by (rule free_pages_kpage)
  show "finite (free_pages s)" if "kmem_inv s" using that by (rule free_pages_finite)
  show "kalloc s = Ok 0 s" if "kmem_inv s" "free_pages s = {}" using that by (rule kalloc_exhausted)
  show "\<not> kpage s 0" if "kmem_inv s" using that by (auto simp: kmem_inv_def kpage_def)
qed

subsection \<open>Boot: freeing all of memory\<close>

lemma page_seq_nth: "k < n \<Longrightarrow> page_seq p n ! k = p + of_nat k * PGSIZE"
  by (simp add: page_seq_def)

lemma page_seq_Suc: "page_seq p (Suc n) = page_seq p n @ [p + of_nat n * PGSIZE]"
  by (simp add: page_seq_def)

lemma unat_page_offset:
  assumes "unat p + 4096 * k < 2 ^ 64"
  shows "unat (p + of_nat k * PGSIZE) = unat p + 4096 * k"
proof -
  have "of_nat k * PGSIZE = of_nat (4096 * k)" by (simp add: PGSIZE_def mult.commute)
  then show ?thesis using assms by (simp only: unat_offset)
qed

lemma aligned_page_offset: "page_aligned p \<Longrightarrow> page_aligned (p + of_nat k * PGSIZE)"
  by (simp add: aligned_add aligned_mult)

lemma for_each_kfree_pages:
  assumes "kmem_inv s" and "distinct ps" and "\<And>p. p \<in> set ps \<Longrightarrow> kpage s p \<and> p \<notin> free_pages s"
  shows "\<exists>s'. for_each ps kfree s = Ok () s' \<and> free_pages s' = free_pages s \<union> set ps \<and>
    kmem_inv s' \<and> kend s' = kend s"
  using assms
proof (induction ps arbitrary: s)
  case Nil
  then show ?case by simp
next
  case (Cons p ps)
  obtain s1 where s1: "kfree p s = Ok () s1" "free_pages s1 = insert p (free_pages s)" "kmem_inv s1"
      "kend s1 = kend s"
    using kfree_legal [of s p] Cons.prems by auto
  have "\<And>q. q \<in> set ps \<Longrightarrow> kpage s1 q \<and> q \<notin> free_pages s1"
    using Cons.prems(2,3) s1(2,4) by (auto simp: kpage_def)
  then obtain s2 where "for_each ps kfree s1 = Ok () s2" "free_pages s2 = free_pages s1 \<union> set ps"
      "kmem_inv s2" "kend s2 = kend s1"
    using Cons.IH [of s1] s1(3) Cons.prems(2) by auto
  with s1 show ?case by (auto simp: bind_def)
qed

text \<open>The pages between \<open>end\<close> and PHYSTOP, which \<open>kinit\<close> hands to the allocator.\<close>

definition boot_pages :: "'a kmem_scheme \<Rightarrow> uint64 set" where
  "boot_pages s = {p. kpage s p}"

lemma set_page_seq_range:
  assumes "page_aligned p" and "unat p \<le> e" and "e < 2 ^ 64" and "e mod 4096 = 0"
  shows "set (page_seq p ((e - unat p) div 4096)) = {q. page_aligned q \<and> p \<le> q \<and> unat q < e}"
proof (intro equalityI subsetI)
  fix q assume "q \<in> set (page_seq p ((e - unat p) div 4096))"
  then obtain k where k: "k < (e - unat p) div 4096" "q = p + of_nat k * PGSIZE"
    by (auto simp: page_seq_def)
  then have "4096 * k < e - unat p" by linarith
  then have "unat q = unat p + 4096 * k" using k assms(3) by (simp add: unat_page_offset)
  with \<open>4096 * k < e - unat p\<close> show "q \<in> {q. page_aligned q \<and> p \<le> q \<and> unat q < e}"
    using aligned_page_offset [OF assms(1)] k by (simp add: word_le_nat_alt)
next
  fix q assume q: "q \<in> {q. page_aligned q \<and> p \<le> q \<and> unat q < e}"
  then obtain a b where ab: "unat p = 4096 * a" "unat q = 4096 * b"
    using assms(1) by (auto simp: aligned_dvd elim!: dvdE)
  have "a \<le> b" using q ab by (simp add: word_le_nat_alt)
  then obtain k where k: "b = a + k" using le_Suc_ex by blast
  let ?k = k
  have "unat q < 2 ^ 64" using unsigned_less [of q] by simp
  then have "unat (p + of_nat ?k * PGSIZE) = unat q"
    using unat_page_offset [of p ?k] ab k by simp
  then have "q = p + of_nat ?k * PGSIZE" by (simp add: word_unat_eq_iff)
  moreover obtain c where "e = 4096 * c" using assms(4) by auto
  then have "?k < (e - unat p) div 4096"
    using q ab k by (simp add: diff_mult_distrib2 [symmetric]) linarith
  ultimately show "q \<in> set (page_seq p ((e - unat p) div 4096))"
    by (auto simp: page_seq_def)
qed

lemma distinct_page_seq:
  assumes "unat p + 4096 * n < 2 ^ 64" shows "distinct (page_seq p n)"
proof -
  have "inj_on (\<lambda>k. p + of_nat k * PGSIZE) (set [0..<n])"
  proof (rule inj_onI)
    fix i j assume ij: "i \<in> set [0..<n]" "j \<in> set [0..<n]"
      and eq: "p + of_nat i * PGSIZE = p + of_nat j * PGSIZE"
    have "unat p + 4096 * i < 2 ^ 64" "unat p + 4096 * j < 2 ^ 64"
      using ij assms by auto
    then have "unat p + 4096 * i = unat p + 4096 * j"
      using eq unat_page_offset by metis
    then show "i = j" by simp
  qed
  then show ?thesis by (simp add: page_seq_def distinct_map)
qed

text \<open>
  C2: Boot. From an empty free list, \<open>kinit\<close> returns with the free list holding exactly the page frames
  between the end of the kernel and \<open>PHYSTOP\<close>, each once.
\<close>

theorem kinit_free_pages:
  assumes "freelist s = 0" and "0 < kend s" and "kend s \<le> PHYSTOP"
  shows "\<exists>s'. kinit s = Ok () s' \<and> free_pages s' = boot_pages s \<and> kmem_inv s' \<and> kend s' = kend s"
proof -
  let ?p = "PGROUNDUP (kend s)" and ?n = "(unat PHYSTOP - unat (PGROUNDUP (kend s))) div unat PGSIZE"
  have P: "unat PHYSTOP = 2281701376" by (simp add: layout_defs)
  have e: "unat (kend s) \<le> 2281701376" using assms(3) P by (simp add: word_le_nat_alt)
  then have up: "unat ?p = (unat (kend s) + 4095) div 4096 * 4096"
    by (intro unat_PGROUNDUP) simp
  have le: "unat ?p \<le> 2281701376" and ge: "kend s \<le> ?p"
    using e up by (simp_all add: word_le_nat_alt; linarith)+
  have inv0: "kmem_inv s" and free0: "free_pages s = {}"
    using assms(1,2) free_pages_run_list [of s "[]"] by (auto simp: kmem_inv_def intro: exI [of _ "[]"])
  have pages: "set (page_seq ?p ?n) = {q. page_aligned q \<and> ?p \<le> q \<and> unat q < 2281701376}"
    using set_page_seq_range [of ?p 2281701376] le P by (simp add: PGSIZE_def)
  also have "\<dots> = boot_pages s"
  proof -
    have "?p \<le> q \<longleftrightarrow> kend s \<le> q" if q: "page_aligned q" for q
    proof
      assume "kend s \<le> q"
      moreover obtain k where "unat q = 4096 * k" using q by (auto simp: aligned_dvd elim!: dvdE)
      ultimately show "?p \<le> q" using up by (simp add: word_le_nat_alt)
    qed (use ge in auto)
    then show ?thesis by (auto simp: boot_pages_def kpage_def word_less_nat_alt P)
  qed
  finally have eq: "set (page_seq ?p ?n) = boot_pages s" .
  have "distinct (page_seq ?p ?n)"
    using le P by (intro distinct_page_seq) (simp add: PGSIZE_def; linarith)
  then obtain s' where "for_each (page_seq ?p ?n) kfree s = Ok () s'"
      "free_pages s' = set (page_seq ?p ?n)" "kmem_inv s'" "kend s' = kend s"
    using for_each_kfree_pages [of s "page_seq ?p ?n"] inv0 free0 eq by (auto simp: boot_pages_def)
  then show ?thesis by (auto simp: kinit_def freerange_def eq Let_def bind_def)
qed

theorem kinit_free_pages_witness:
  "\<exists>s'. kinit \<lparr>pmem = (\<lambda>_. 0), freelist = 0, kend = 0x87ff3000\<rparr> = Ok () s' \<and>
     free_pages s' = boot_pages \<lparr>pmem = (\<lambda>_. 0), freelist = 0, kend = 0x87ff3000\<rparr> \<and> kmem_inv s'"
  using kinit_free_pages [of "\<lparr>pmem = (\<lambda>_. 0), freelist = 0, kend = 0x87ff3000\<rparr>"]
  by (auto simp: word_less_nat_alt word_le_nat_alt layout_defs)

subsection \<open>Clients of the allocator\<close>

text \<open>
  A client holds a set of pages. It may allocate, write to the pages it holds, and give one back;
  \<open>kalloc\<close> may also tell it that memory is exhausted.
\<close>

inductive page_client :: "'a kmem_scheme \<times> uint64 set \<Rightarrow> 'a kmem_scheme \<times> uint64 set \<Rightarrow> bool" where
  alloc: "kalloc s = Ok p s' \<Longrightarrow> p \<noteq> 0 \<Longrightarrow> page_client (s, held) (s', insert p held)"
| exhausted: "kalloc s = Ok 0 s' \<Longrightarrow> page_client (s, held) (s', held)"
| store: "(\<And>x. x \<notin> (\<Union>p \<in> held. span p 4096) \<Longrightarrow> m' x = pmem s x) \<Longrightarrow>
    page_client (s, held) (s\<lparr>pmem := m'\<rparr>, held)"
| free: "p \<in> held \<Longrightarrow> kfree p s = Ok () s' \<Longrightarrow> page_client (s, held) (s', held - {p})"

inductive_cases page_clientE: "page_client c c'"

definition pages_conserved :: "uint64 set \<Rightarrow> 'a kmem_scheme \<times> uint64 set \<Rightarrow> bool" where
  "pages_conserved all c \<longleftrightarrow> (case c of (s, held) \<Rightarrow>
     kmem_inv s \<and> held \<inter> free_pages s = {} \<and> held \<union> free_pages s = all \<and> (\<forall>p \<in> held. kpage s p))"

lemma kmem_inv_mem:
  assumes "kmem_inv s" and "\<And>p x. p \<in> free_pages s \<Longrightarrow> x \<in> span p 8 \<Longrightarrow> m' x = pmem s x"
  shows "kmem_inv (s\<lparr>pmem := m'\<rparr>)" and "free_pages (s\<lparr>pmem := m'\<rparr>) = free_pages s"
proof -
  obtain ps where ps: "run_list (pmem s) (freelist s) ps" "distinct ps" "free_pages s = set ps"
      "\<And>p. p \<in> set ps \<Longrightarrow> kpage s p" "0 < kend s"
    using assms(1) by (rule kmem_invE) blast
  then have run: "run_list m' (freelist s) ps"
    using assms(2) by (auto intro: run_list_cong)
  then show "kmem_inv (s\<lparr>pmem := m'\<rparr>)"
    unfolding kmem_inv_def using ps by (auto simp: kpage_def)
  show "free_pages (s\<lparr>pmem := m'\<rparr>) = free_pages s"
    using free_pages_run_list [of "s\<lparr>pmem := m'\<rparr>" ps] run ps by simp
qed

lemma page_client_step:
  assumes "page_client c c'" and "pages_conserved all c"
  shows "pages_conserved all c'"
  using assms
proof (cases rule: page_client.cases)
  case (alloc s p s' held)
  then have "kmem_inv s" "free_pages s \<noteq> {}"
    using assms(2) kalloc_exhausted [of s] by (auto simp: pages_conserved_def)
  then show ?thesis using alloc assms(2) kalloc_avail [of s] free_pages_kpage [of s p]
    by (auto simp: pages_conserved_def kpage_def)
next
  case (exhausted s s' held)
  then have "kmem_inv s" using assms(2) by (simp add: pages_conserved_def)
  then have "s' = s" using kpool.alloc_none_iff exhausted(3) kalloc_exhausted by fastforce
  then show ?thesis using exhausted assms(2) by simp
next
  case (store held m' s)
  have kinv: "kmem_inv s" and disj: "held \<inter> free_pages s = {}" and kp: "\<forall>p \<in> held. kpage s p"
    using store(1) assms(2) by (auto simp: pages_conserved_def)
  have "m' x = pmem s x" if f: "f \<in> free_pages s" "x \<in> span f 8" for f x
  proof (rule store(3))
    have "page_aligned f" using free_pages_kpage [OF kinv f(1)] by (simp add: kpage_def)
    then show "x \<notin> (\<Union>p \<in> held. span p 4096)"
      using f disj kp page_span_disjoint [of f] page_head_span [of f] by (fastforce simp: kpage_def)
  qed
  from kmem_inv_mem [OF kinv this] show ?thesis
    using store(1,2) assms(2) by (simp add: pages_conserved_def kpage_def)
next
  case (free p held s s')
  then have "kmem_inv s" "kpage s p" "p \<notin> free_pages s"
    using assms(2) by (auto simp: pages_conserved_def)
  then show ?thesis using free assms(2) kfree_legal [of s p]
    by (auto simp: pages_conserved_def kpage_def)
qed

text \<open>
  C1: Ownership of physical pages. Starting from the free list that \<open>kinit\<close> builds, whatever a client
  does by allocating, writing to the pages it holds and freeing them, no page is at once held and on
  the free list, so no page is handed out twice, and no page of memory is lost.
\<close>

theorem kalloc_ownership:
  assumes "kmem_inv s" and "free_pages s = boot_pages s" and "page_client\<^sup>*\<^sup>* (s, {}) (s', held)"
  shows "kmem_inv s' \<and> held \<inter> free_pages s' = {} \<and> held \<union> free_pages s' = boot_pages s"
proof -
  have "pages_conserved (boot_pages s) (s, {})" using assms(1,2) by (simp add: pages_conserved_def)
  with assms(3) have "pages_conserved (boot_pages s) (s', held)"
    by (induction rule: rtranclp_induct) (auto intro: page_client_step)
  then show ?thesis by (simp add: pages_conserved_def)
qed

definition one_page :: kmem where
  "one_page = \<lparr>pmem = (\<lambda>_. 0), freelist = 0x87fff000, kend = 0x87fff000\<rparr>"

lemma load64_zero_mem: "load64 (\<lambda>_. 0) a = 0"
  by (simp add: load64_def mread_def upt_conv_Cons)

lemma one_page_boot: "boot_pages one_page = {0x87fff000}"
proof -
  have "q = 0x87fff000" if "page_aligned q" "0x87fff000 \<le> unat q" "unat q < 0x88000000" for q :: uint64
  proof -
    have "4096 dvd unat q" using that(1) by (simp add: aligned_dvd)
    then obtain k where "unat q = 4096 * k" by (rule dvdE)
    then have "unat q = unat (0x87fff000 :: uint64)" using that(2,3) by simp
    then show ?thesis by (simp add: word_unat_eq_iff)
  qed
  then show ?thesis
    by (auto simp: boot_pages_def one_page_def kpage_def word_le_nat_alt word_less_nat_alt layout_defs aligned_def)
qed

lemma one_page_free: "kmem_inv one_page" "free_pages one_page = {0x87fff000}"
proof -
  have run: "run_list (pmem one_page) (freelist one_page) [0x87fff000]"
    by (simp add: one_page_def load64_zero_mem)
  then show "free_pages one_page = {0x87fff000}" using free_pages_run_list [OF run] by simp
  have "kpage one_page 0x87fff000" using one_page_boot by (auto simp: boot_pages_def)
  with run show "kmem_inv one_page" unfolding kmem_inv_def by (intro conjI exI [of _ "[0x87fff000]"])
      (auto simp: one_page_def)
qed

theorem kalloc_ownership_witness:
  "\<exists>s'. kalloc one_page = Ok 0x87fff000 s' \<and> {0x87fff000} \<inter> free_pages s' = {} \<and>
     {0x87fff000} \<union> free_pages s' = boot_pages one_page"
proof -
  obtain s' where s': "kalloc one_page = Ok 0x87fff000 s'"
    by (simp add: kalloc_def one_page_def Let_def)
  then have "page_client (one_page, {}) (s', {0x87fff000})" by (intro page_client.alloc) simp_all
  then have "page_client\<^sup>*\<^sup>* (one_page, {}) (s', {0x87fff000})" by (rule r_into_rtranclp)
  with s' show ?thesis
    using kalloc_ownership [of one_page s' "{0x87fff000}"] one_page_free one_page_boot by auto
qed

end
