(* ===== verification/Vm.thy ===== *)
theory Vm
  imports Kalloc
begin

text \<open>
  Virtual memory, \<^verbatim>\<open>kernel/vm.c\<close>: the three-level Sv39 page tables, held in physical memory
  as the code holds them (a page-table page is a \<open>kalloc\<close>ed page of 512 little-endian entries).
  Each C function is one definition, running on the allocator's state.

  Loops over addresses recurse on the address. Each recursion is guarded by \<open>a < MAXVA\<close>: the body
  calls \<open>walk\<close> on \<open>a\<close> first, which panics at or above MAXVA, so the guarded branch is the only one
  that returns and the address never wraps. \<open>freewalk\<close> recurses through the tree in memory; its
  depth argument is 3, the number of levels of Sv39, and \<open>freewalk_at 0\<close> is only reached from a
  table that is not such a tree.
\<close>

definition pte_at :: "'a kmem_scheme \<Rightarrow> uint64 \<Rightarrow> uint64" where
  "pte_at s a = load64 (pmem s) a"

definition set_pte :: "uint64 \<Rightarrow> uint64 \<Rightarrow> (unit, 'a kmem_scheme) routine" where
  "set_pte a v = modify (\<lambda>s. s\<lparr>pmem := store64 (pmem s) a v\<rparr>)"

definition memset_page :: "uint64 \<Rightarrow> byte \<Rightarrow> (unit, 'a kmem_scheme) routine" where
  "memset_page a c = modify (\<lambda>s. s\<lparr>pmem := memset (pmem s) a c (unat PGSIZE)\<rparr>)"

subsection \<open>Walking a page table\<close>

primrec walk_levels :: "nat \<Rightarrow> uint64 \<Rightarrow> uint64 \<Rightarrow> bool \<Rightarrow> (uint64, 'a kmem_scheme) routine" where
  "walk_levels 0 pagetable va alloc = ret (slot pagetable (PX 0 va))"
| "walk_levels (Suc l) pagetable va alloc =
     (let pte = slot pagetable (PX (Suc l) va) in
      bind (gets (\<lambda>s. pte_at s pte)) (\<lambda>v.
        if v AND PTE_V \<noteq> 0 then walk_levels l (PTE2PA v) va alloc
        else if \<not> alloc then ret 0
        else bind kalloc (\<lambda>pg.
          if pg = 0 then ret 0
          else bind (memset_page pg 0) (\<lambda>_.
            bind (set_pte pte (PA2PTE pg OR PTE_V)) (\<lambda>_.
              walk_levels l pg va alloc)))))"

definition walk :: "uint64 \<Rightarrow> uint64 \<Rightarrow> bool \<Rightarrow> (uint64, 'a kmem_scheme) routine" where
  "walk pagetable va alloc =
     (if va \<ge> MAXVA then panic ''walk'' else walk_levels 2 pagetable va alloc)"

definition walkaddr :: "uint64 \<Rightarrow> uint64 \<Rightarrow> (uint64, 'a kmem_scheme) routine" where
  "walkaddr pagetable va =
     (if va \<ge> MAXVA then ret 0
      else bind (walk pagetable va False) (\<lambda>pte.
        if pte = 0 then ret 0
        else bind (gets (\<lambda>s. pte_at s pte)) (\<lambda>v.
          if v AND PTE_V = 0 then ret 0
          else if v AND PTE_U = 0 then ret 0
          else ret (PTE2PA v))))"

subsection \<open>Adding and removing mappings\<close>

function mappages_from ::
  "uint64 \<Rightarrow> uint64 \<Rightarrow> uint64 \<Rightarrow> uint64 \<Rightarrow> uint64 \<Rightarrow> (int, 'a kmem_scheme) routine" where
  "mappages_from pagetable a lim pa perm =
     bind (walk pagetable a True) (\<lambda>pte.
       if pte = 0 then ret (-1)
       else bind (gets (\<lambda>s. pte_at s pte)) (\<lambda>v.
         if v AND PTE_V \<noteq> 0 then panic ''mappages: remap''
         else bind (set_pte pte (PA2PTE pa OR perm OR PTE_V)) (\<lambda>_.
           if a = lim then ret 0
           else if a < MAXVA then mappages_from pagetable (a + PGSIZE) lim (pa + PGSIZE) perm
           else panic ''walk'')))"
  by pat_completeness auto
termination
proof (relation "measure (\<lambda>(pagetable, a, lim, pa, perm). 2 ^ 39 - unat a)")
  fix pagetable a lim pa perm :: uint64
  assume "a < MAXVA"
  then have "unat a < 2 ^ 38" by (simp add: word_less_nat_alt layout_defs)
  then show "((pagetable, a + PGSIZE, lim, pa + PGSIZE, perm), pagetable, a, lim, pa, perm)
      \<in> measure (\<lambda>(pagetable, a, lim, pa, perm). 2 ^ 39 - unat a)"
    by (simp add: PGSIZE_def unat_word_ariths)
qed simp

declare mappages_from.simps [simp del]

definition mappages ::
  "uint64 \<Rightarrow> uint64 \<Rightarrow> uint64 \<Rightarrow> uint64 \<Rightarrow> uint64 \<Rightarrow> (int, 'a kmem_scheme) routine" where
  "mappages pagetable va sz pa perm =
     (if sz = 0 then panic ''mappages: size''
      else mappages_from pagetable (PGROUNDDOWN va) (PGROUNDDOWN (va + sz - 1)) pa perm)"

definition kvmmap ::
  "uint64 \<Rightarrow> uint64 \<Rightarrow> uint64 \<Rightarrow> uint64 \<Rightarrow> uint64 \<Rightarrow> (unit, 'a kmem_scheme) routine" where
  "kvmmap kpgtbl va pa sz perm =
     bind (mappages kpgtbl va sz pa perm) (\<lambda>r. if r \<noteq> 0 then panic ''kvmmap'' else ret ())"

function uvmunmap_from ::
  "uint64 \<Rightarrow> uint64 \<Rightarrow> uint64 \<Rightarrow> bool \<Rightarrow> (unit, 'a kmem_scheme) routine" where
  "uvmunmap_from pagetable a lim do_free =
     (if a < lim then
        bind (walk pagetable a False) (\<lambda>pte.
          if pte = 0 then panic ''uvmunmap: walk''
          else bind (gets (\<lambda>s. pte_at s pte)) (\<lambda>v.
            if v AND PTE_V = 0 then panic ''uvmunmap: not mapped''
            else if PTE_FLAGS v = PTE_V then panic ''uvmunmap: not a leaf''
            else bind (if do_free then kfree (PTE2PA v) else ret ()) (\<lambda>_.
              bind (set_pte pte 0) (\<lambda>_.
                if a < MAXVA then uvmunmap_from pagetable (a + PGSIZE) lim do_free
                else panic ''walk''))))
      else ret ())"
  by pat_completeness auto
termination
proof (relation "measure (\<lambda>(pagetable, a, lim, do_free). 2 ^ 39 - unat a)")
  fix pagetable a lim :: uint64 and do_free :: bool
  assume "a < MAXVA"
  then have "unat a < 2 ^ 38" by (simp add: word_less_nat_alt layout_defs)
  then show "((pagetable, a + PGSIZE, lim, do_free), pagetable, a, lim, do_free)
      \<in> measure (\<lambda>(pagetable, a, lim, do_free). 2 ^ 39 - unat a)"
    by (simp add: PGSIZE_def unat_word_ariths)
qed simp

declare uvmunmap_from.simps [simp del]

definition uvmunmap ::
  "uint64 \<Rightarrow> uint64 \<Rightarrow> uint64 \<Rightarrow> bool \<Rightarrow> (unit, 'a kmem_scheme) routine" where
  "uvmunmap pagetable va npages do_free =
     (if va mod PGSIZE \<noteq> 0 then panic ''uvmunmap: not aligned''
      else uvmunmap_from pagetable va (va + npages * PGSIZE) do_free)"

subsection \<open>User address spaces\<close>

definition uvmcreate :: "(uint64, 'a kmem_scheme) routine" where
  "uvmcreate = bind kalloc (\<lambda>pagetable.
     if pagetable = 0 then ret 0
     else bind (memset_page pagetable 0) (\<lambda>_. ret pagetable))"

definition uvminit :: "uint64 \<Rightarrow> byte list \<Rightarrow> (unit, 'a kmem_scheme) routine" where
  "uvminit pagetable src =
     (if length src \<ge> unat PGSIZE then panic ''inituvm: more than a page''
      else bind kalloc (\<lambda>mem.
        bind (memset_page mem 0) (\<lambda>_.
          bind (mappages pagetable 0 PGSIZE mem (PTE_W OR PTE_R OR PTE_X OR PTE_U)) (\<lambda>_.
            modify (\<lambda>s. s\<lparr>pmem := mwrite (pmem s) mem src\<rparr>)))))"

definition uvmdealloc :: "uint64 \<Rightarrow> uint64 \<Rightarrow> uint64 \<Rightarrow> (uint64, 'a kmem_scheme) routine" where
  "uvmdealloc pagetable oldsz newsz =
     (if newsz \<ge> oldsz then ret oldsz
      else bind
        (if PGROUNDUP newsz < PGROUNDUP oldsz then
           (let npages = (ucast ((PGROUNDUP oldsz - PGROUNDUP newsz) div PGSIZE) :: uint32)
            in uvmunmap pagetable (PGROUNDUP newsz) (scast npages) True)
         else ret ())
        (\<lambda>_. ret newsz))"

function uvmalloc_from ::
  "uint64 \<Rightarrow> uint64 \<Rightarrow> uint64 \<Rightarrow> uint64 \<Rightarrow> (uint64, 'a kmem_scheme) routine" where
  "uvmalloc_from pagetable oldsz newsz a =
     (if a < newsz then
        bind kalloc (\<lambda>mem.
          if mem = 0 then bind (uvmdealloc pagetable a oldsz) (\<lambda>_. ret 0)
          else bind (memset_page mem 0) (\<lambda>_.
            bind (mappages pagetable a PGSIZE mem (PTE_W OR PTE_X OR PTE_R OR PTE_U)) (\<lambda>r.
              if r \<noteq> 0 then
                bind (kfree mem) (\<lambda>_. bind (uvmdealloc pagetable a oldsz) (\<lambda>_. ret 0))
              else if a < MAXVA then uvmalloc_from pagetable oldsz newsz (a + PGSIZE)
              else panic ''walk'')))
      else ret newsz)"
  by pat_completeness auto
termination
proof (relation "measure (\<lambda>(pagetable, oldsz, newsz, a). 2 ^ 39 - unat a)")
  fix pagetable oldsz newsz a :: uint64
  assume "a < MAXVA"
  then have "unat a < 2 ^ 38" by (simp add: word_less_nat_alt layout_defs)
  then show "((pagetable, oldsz, newsz, a + PGSIZE), pagetable, oldsz, newsz, a)
      \<in> measure (\<lambda>(pagetable, oldsz, newsz, a). 2 ^ 39 - unat a)"
    by (simp add: PGSIZE_def unat_word_ariths)
qed simp

declare uvmalloc_from.simps [simp del]

definition uvmalloc :: "uint64 \<Rightarrow> uint64 \<Rightarrow> uint64 \<Rightarrow> (uint64, 'a kmem_scheme) routine" where
  "uvmalloc pagetable oldsz newsz =
     (if newsz < oldsz then ret oldsz
      else uvmalloc_from pagetable (PGROUNDUP oldsz) newsz (PGROUNDUP oldsz))"

primrec freewalk_at :: "nat \<Rightarrow> uint64 \<Rightarrow> (unit, 'a kmem_scheme) routine" where
  "freewalk_at 0 pagetable = panic ''freewalk: not a three-level table''"
| "freewalk_at (Suc d) pagetable =
     bind (for_each [0..<512] (\<lambda>i.
       (let a = slot pagetable (of_nat i) in
        bind (gets (\<lambda>s. pte_at s a)) (\<lambda>pte.
          if pte AND PTE_V \<noteq> 0 \<and> pte AND (PTE_R OR PTE_W OR PTE_X) = 0 then
            bind (freewalk_at d (PTE2PA pte)) (\<lambda>_. set_pte a 0)
          else if pte AND PTE_V \<noteq> 0 then panic ''freewalk: leaf''
          else ret ()))))
     (\<lambda>_. kfree pagetable)"

definition freewalk :: "uint64 \<Rightarrow> (unit, 'a kmem_scheme) routine" where
  "freewalk pagetable = freewalk_at 3 pagetable"

definition uvmfree :: "uint64 \<Rightarrow> uint64 \<Rightarrow> (unit, 'a kmem_scheme) routine" where
  "uvmfree pagetable sz =
     bind (if sz > 0 then uvmunmap pagetable 0 (PGROUNDUP sz div PGSIZE) True else ret ())
       (\<lambda>_. freewalk pagetable)"

function uvmcopy_from ::
  "uint64 \<Rightarrow> uint64 \<Rightarrow> uint64 \<Rightarrow> uint64 \<Rightarrow> (int, 'a kmem_scheme) routine" where
  "uvmcopy_from old new sz i =
     (if i < sz then
        bind (walk old i False) (\<lambda>pte.
          if pte = 0 then panic ''uvmcopy: pte should exist''
          else bind (gets (\<lambda>s. pte_at s pte)) (\<lambda>v.
            if v AND PTE_V = 0 then panic ''uvmcopy: page not present''
            else bind kalloc (\<lambda>mem.
              if mem = 0 then bind (uvmunmap new 0 (i div PGSIZE) True) (\<lambda>_. ret (-1))
              else bind (modify (\<lambda>s. s\<lparr>pmem := memmove (pmem s) mem (PTE2PA v) (unat PGSIZE)\<rparr>))
                (\<lambda>_. bind (mappages new i PGSIZE mem (PTE_FLAGS v)) (\<lambda>r.
                  if r \<noteq> 0 then
                    bind (kfree mem) (\<lambda>_. bind (uvmunmap new 0 (i div PGSIZE) True) (\<lambda>_. ret (-1)))
                  else if i < MAXVA then uvmcopy_from old new sz (i + PGSIZE)
                  else panic ''walk'')))))
      else ret 0)"
  by pat_completeness auto
termination
proof (relation "measure (\<lambda>(old, new, sz, i). 2 ^ 39 - unat i)")
  fix old new sz i :: uint64
  assume "i < MAXVA"
  then have "unat i < 2 ^ 38" by (simp add: word_less_nat_alt layout_defs)
  then show "((old, new, sz, i + PGSIZE), old, new, sz, i)
      \<in> measure (\<lambda>(old, new, sz, i). 2 ^ 39 - unat i)"
    by (simp add: PGSIZE_def unat_word_ariths)
qed simp

declare uvmcopy_from.simps [simp del]

definition uvmcopy :: "uint64 \<Rightarrow> uint64 \<Rightarrow> uint64 \<Rightarrow> (int, 'a kmem_scheme) routine" where
  "uvmcopy old new sz = uvmcopy_from old new sz 0"

definition uvmclear :: "uint64 \<Rightarrow> uint64 \<Rightarrow> (unit, 'a kmem_scheme) routine" where
  "uvmclear pagetable va =
     bind (walk pagetable va False) (\<lambda>pte.
       if pte = 0 then panic ''uvmclear''
       else bind (gets (\<lambda>s. pte_at s pte)) (\<lambda>v. set_pte pte (v AND NOT PTE_U)))"

subsection \<open>Copying between kernel and user memory\<close>

text \<open>
  The kernel-side buffer is a byte list: \<open>copyout\<close> takes the bytes to store, \<open>copyin\<close> and
  \<open>copyinstr\<close> return the bytes they stored into \<open>dst\<close> with the C return value, on failure too.
\<close>

definition page_room :: "uint64 \<Rightarrow> nat" where
  "page_room va = unat (PGSIZE - (va - PGROUNDDOWN va))"

lemma page_offset_lt: "unat (va - PGROUNDDOWN va) < 4096"
proof -
  have "unat (va - PGROUNDDOWN va) = unat va mod 4096"
    using PGROUNDDOWN_le [of va] by (simp add: unat_sub unat_PGROUNDDOWN minus_div_mult_eq_mod)
  then show ?thesis by simp
qed

lemma page_room_eq: "page_room va = 4096 - unat (va - PGROUNDDOWN va)"
proof -
  have "va - PGROUNDDOWN va \<le> PGSIZE"
    using page_offset_lt [of va] by (simp add: word_le_nat_alt PGSIZE_def)
  then show ?thesis by (simp add: page_room_def unat_sub PGSIZE_def)
qed

lemma page_room_pos: "0 < page_room va"
  using page_offset_lt [of va] by (simp add: page_room_eq)

function copyout :: "uint64 \<Rightarrow> uint64 \<Rightarrow> byte list \<Rightarrow> (int, 'a kmem_scheme) routine" where
  "copyout pagetable dstva src =
     (if src \<noteq> [] then
        (let va0 = PGROUNDDOWN dstva; n = min (page_room dstva) (length src) in
         bind (walkaddr pagetable va0) (\<lambda>pa0.
           if pa0 = 0 then ret (-1)
           else bind (modify (\<lambda>s. s\<lparr>pmem := mwrite (pmem s) (pa0 + (dstva - va0)) (take n src)\<rparr>))
             (\<lambda>_. copyout pagetable (va0 + PGSIZE) (drop n src))))
      else ret 0)"
  by pat_completeness auto
termination
  by (relation "measure (\<lambda>(pagetable, dstva, src). length src)") (auto simp: page_room_pos)

declare copyout.simps [simp del]

function copyin :: "uint64 \<Rightarrow> uint64 \<Rightarrow> nat \<Rightarrow> (int \<times> byte list, 'a kmem_scheme) routine" where
  "copyin pagetable srcva len =
     (if len > 0 then
        (let va0 = PGROUNDDOWN srcva; n = min (page_room srcva) len in
         bind (walkaddr pagetable va0) (\<lambda>pa0.
           if pa0 = 0 then ret (-1, [])
           else bind (gets (\<lambda>s. mread (pmem s) (pa0 + (srcva - va0)) n)) (\<lambda>bs.
             bind (copyin pagetable (va0 + PGSIZE) (len - n)) (\<lambda>(r, rest). ret (r, bs @ rest)))))
      else ret (0, []))"
  by pat_completeness auto
termination
  by (relation "measure (\<lambda>(pagetable, srcva, len). len)") (auto simp: page_room_pos)

declare copyin.simps [simp del]

primrec copyinstr_page :: "nat \<Rightarrow> memory \<Rightarrow> uint64 \<Rightarrow> byte list \<times> bool" where
  "copyinstr_page 0 m p = ([], False)"
| "copyinstr_page (Suc n) m p =
     (if m p = 0 then ([0], True)
      else let (bs, got_null) = copyinstr_page n m (p + 1) in (m p # bs, got_null))"

function copyinstr :: "uint64 \<Rightarrow> uint64 \<Rightarrow> nat \<Rightarrow> (int \<times> byte list, 'a kmem_scheme) routine" where
  "copyinstr pagetable srcva mx =
     (if mx > 0 then
        (let va0 = PGROUNDDOWN srcva; n = min (page_room srcva) mx in
         bind (walkaddr pagetable va0) (\<lambda>pa0.
           if pa0 = 0 then ret (-1, [])
           else bind (gets (\<lambda>s. copyinstr_page n (pmem s) (pa0 + (srcva - va0)))) (\<lambda>(bs, got_null).
             if got_null then ret (0, bs)
             else bind (copyinstr pagetable (va0 + PGSIZE) (mx - n))
               (\<lambda>(r, rest). ret (r, bs @ rest)))))
      else ret (-1, []))"
  by pat_completeness auto
termination
  by (relation "measure (\<lambda>(pagetable, srcva, mx). mx)") (auto simp: page_room_pos)

declare copyinstr.simps [simp del]

subsection \<open>The kernel page table\<close>

text \<open>
  \<open>etext\<close> and \<open>trampoline\<close> are linker symbols, arguments here. \<open>proc_mapstacks\<close> is defined in
  \<^verbatim>\<open>kernel/proc.c\<close> and only called from \<open>kvmmake\<close>. \<open>kvminit\<close> stores the result of \<open>kvmmake\<close> in
  the global \<open>kernel_pagetable\<close>, whose address is the returned value here.
\<close>

definition NPROC :: nat where "NPROC = 64"

definition proc_mapstacks :: "uint64 \<Rightarrow> (unit, 'a kmem_scheme) routine" where
  "proc_mapstacks kpgtbl =
     for_each [0..<NPROC] (\<lambda>p.
       bind kalloc (\<lambda>pa.
         if pa = 0 then panic ''kalloc''
         else kvmmap kpgtbl (KSTACK p) pa PGSIZE (PTE_R OR PTE_W)))"

definition kvmmake :: "uint64 \<Rightarrow> uint64 \<Rightarrow> (uint64, 'a kmem_scheme) routine" where
  "kvmmake etext trampoline =
     bind kalloc (\<lambda>kpgtbl.
     bind (memset_page kpgtbl 0) (\<lambda>_.
     bind (kvmmap kpgtbl UART0 UART0 PGSIZE (PTE_R OR PTE_W)) (\<lambda>_.
     bind (kvmmap kpgtbl VIRTIO0 VIRTIO0 PGSIZE (PTE_R OR PTE_W)) (\<lambda>_.
     bind (kvmmap kpgtbl PLIC PLIC 0x400000 (PTE_R OR PTE_W)) (\<lambda>_.
     bind (kvmmap kpgtbl KERNBASE KERNBASE (etext - KERNBASE) (PTE_R OR PTE_X)) (\<lambda>_.
     bind (kvmmap kpgtbl etext etext (PHYSTOP - etext) (PTE_R OR PTE_W)) (\<lambda>_.
     bind (kvmmap kpgtbl TRAMPOLINE trampoline PGSIZE (PTE_R OR PTE_X)) (\<lambda>_.
     bind (proc_mapstacks kpgtbl) (\<lambda>_. ret kpgtbl)))))))))"

end
