(* ===== verification/Pagetable.thy ===== *)
theory Pagetable
  imports Vm
begin

text \<open>
  What \<^verbatim>\<open>kernel/vm.c\<close> promises: a page table is a finite map from virtual pages to entries.

  \<open>pt_node\<close> reads the tree of page-table pages out of memory, \<open>pt_wf\<close> says that it is a tree of
  allocated pages, and \<open>pte_of\<close> is the abstract map. The lemmas show that \<open>walk\<close> finds the entry and
  keeps the map when it allocates, that \<open>mappages\<close> adds one entry and \<open>uvmunmap\<close> removes entries, and
  that memory outside the table and the free pages is untouched.
\<close>

subsection \<open>The tree in memory\<close>

primrec pt_node :: "memory \<Rightarrow> uint64 \<Rightarrow> uint64 list \<Rightarrow> uint64 option" where
  "pt_node m pt [] = Some pt"
| "pt_node m pt (i # is) =
     (let v = load64 m (slot pt i) in
      if v AND PTE_V \<noteq> 0 then pt_node m (PTE2PA v) is else None)"

definition pt_path :: "uint64 list \<Rightarrow> bool" where
  "pt_path q \<longleftrightarrow> length q \<le> 2 \<and> (\<forall>i \<in> set q. unat i < 512)"

definition pt_wf :: "memory \<Rightarrow> (uint64 \<Rightarrow> bool) \<Rightarrow> uint64 \<Rightarrow> bool" where
  "pt_wf m ok root \<longleftrightarrow>
     (\<forall>q p. pt_path q \<longrightarrow> pt_node m root q = Some p \<longrightarrow> page_aligned p \<and> p \<noteq> 0 \<and> ok p) \<and>
     (\<forall>q q' p. pt_path q \<longrightarrow> pt_path q' \<longrightarrow> pt_node m root q = Some p \<longrightarrow>
        pt_node m root q' = Some p \<longrightarrow> q = q')"

definition pt_pages :: "memory \<Rightarrow> uint64 \<Rightarrow> uint64 set" where
  "pt_pages m root = {p. \<exists>q. pt_path q \<and> pt_node m root q = Some p}"

definition pt_leaf :: "memory \<Rightarrow> uint64 \<Rightarrow> uint64 \<Rightarrow> uint64 option" where
  "pt_leaf m root va = map_option (\<lambda>p. slot p (PX 0 va)) (pt_node m root [PX 2 va, PX 1 va])"

definition pte_of :: "memory \<Rightarrow> uint64 \<Rightarrow> uint64 \<Rightarrow> uint64" where
  "pte_of m root va = (case pt_leaf m root va of None \<Rightarrow> 0 | Some a \<Rightarrow> load64 m a)"

declare pt_node.simps(2) [simp del]

lemma pt_node_append:
  "pt_node m pt (q @ q') = (case pt_node m pt q of None \<Rightarrow> None | Some p \<Rightarrow> pt_node m p q')"
  by (induction q arbitrary: pt) (auto simp: Let_def pt_node.simps(2))

lemma pt_node_snoc:
  "pt_node m pt (q @ [i]) = (case pt_node m pt q of None \<Rightarrow> None
     | Some p \<Rightarrow> (let v = load64 m (slot p i) in if v AND PTE_V \<noteq> 0 then Some (PTE2PA v) else None))"
  by (simp add: pt_node_append pt_node.simps(2) Let_def split: option.splits)

lemma pt_path_simps [simp]:
  "pt_path []"
  "unat i < 512 \<Longrightarrow> pt_path [i]"
  "unat i < 512 \<Longrightarrow> unat j < 512 \<Longrightarrow> pt_path [i, j]"
  by (simp_all add: pt_path_def)

lemma pt_path_snocD: "pt_path (q @ [i]) \<Longrightarrow> pt_path q \<and> length q \<le> 1 \<and> unat i < 512"
  by (auto simp: pt_path_def)

lemma pt_wf_page: "pt_wf m ok root \<Longrightarrow> pt_path q \<Longrightarrow> pt_node m root q = Some p \<Longrightarrow>
    page_aligned p \<and> p \<noteq> 0 \<and> ok p"
  unfolding pt_wf_def by blast

lemma pt_wf_inj: "pt_wf m ok root \<Longrightarrow> pt_path q \<Longrightarrow> pt_path q' \<Longrightarrow>
    pt_node m root q = Some p \<Longrightarrow> pt_node m root q' = Some p \<Longrightarrow> q = q'"
  unfolding pt_wf_def by blast

lemma pt_wf_root: "pt_wf m ok root \<Longrightarrow> page_aligned root \<and> root \<noteq> 0 \<and> ok root"
  using pt_wf_page [of m ok root "[]" root] by simp

text \<open>Entries of distinct slots of the tree do not overlap.\<close>

lemma pt_slot_disjoint:
  assumes "page_aligned p" "page_aligned p'" "unat i < 512" "unat j < 512" "p \<noteq> p' \<or> i \<noteq> j"
  shows "span (slot p i) 8 \<inter> span (slot p' j) 8 = {}"
proof -
  have "slot p i \<noteq> slot p' j" using page_inject_slot assms by blast
  then show ?thesis using assms by (simp add: slot_span_disjoint aligned_slot)
qed

text \<open>
  A change of memory that keeps every interior entry but the one at \<open>(q, i)\<close> keeps every node
  whose path does not go through it.
\<close>

lemma pt_node_keep:
  assumes keep: "\<And>q' j p. pt_path (q' @ [j]) \<Longrightarrow> pt_node m root q' = Some p \<Longrightarrow>
      (q', j) \<noteq> (q, i) \<Longrightarrow> load64 m' (slot p j) = load64 m (slot p j)"
    and "pt_path q''" and "\<And>r. q'' \<noteq> q @ [i] @ r"
  shows "pt_node m' root q'' = pt_node m root q''"
  using assms(2,3)
proof (induction q'' rule: rev_induct)
  case Nil
  then show ?case by simp
next
  case (snoc j q'')
  have "pt_node m' root q'' = pt_node m root q''"
    using snoc.prems pt_path_snocD by (intro snoc.IH) (auto, metis append.assoc append_Cons)
  moreover have "(q'', j) \<noteq> (q, i)" using snoc.prems(2) [of "[]"] by auto
  ultimately show ?case
    using keep [OF snoc.prems(1)] by (auto simp: pt_node_snoc Let_def split: option.splits)
qed

text \<open>When every interior entry is kept the whole tree is.\<close>

lemma pt_node_same:
  assumes "\<And>q' j p. pt_path (q' @ [j]) \<Longrightarrow> pt_node m root q' = Some p \<Longrightarrow>
      load64 m' (slot p j) = load64 m (slot p j)" and "pt_path q"
  shows "pt_node m' root q = pt_node m root q"
  using assms(2)
proof (induction q rule: rev_induct)
  case Nil
  then show ?case by simp
next
  case (snoc j q)
  then have "pt_node m' root q = pt_node m root q" using pt_path_snocD by blast
  then show ?case
    using assms(1) [OF snoc.prems] by (auto simp: pt_node_snoc Let_def split: option.splits)
qed

lemma pt_wf_same:
  assumes "pt_wf m ok root" and "\<And>q. pt_path q \<Longrightarrow> pt_node m' root q = pt_node m root q"
    and "\<And>q p. pt_path q \<Longrightarrow> pt_node m root q = Some p \<Longrightarrow> ok p \<Longrightarrow> ok' p"
  shows "pt_wf m' ok' root"
  using assms unfolding pt_wf_def by metis

text \<open>A write to a leaf entry keeps the tree, and changes the map at one page.\<close>

lemma leaf_store_node:
  assumes "pt_wf m ok root" and "pt_path q" and "length q = 2" and "pt_node m root q = Some p"
    and "unat i < 512" and "pt_path q'"
  shows "pt_node (store64 m (slot p i) v) root q' = pt_node m root q'"
proof (rule pt_node_same [OF _ assms(6)])
  fix q'' j p'
  assume a: "pt_path (q'' @ [j])" "pt_node m root q'' = Some p'"
  then have "pt_path q''" "length q'' \<le> 1" "unat j < 512" using pt_path_snocD by auto
  then have "p' \<noteq> p" using pt_wf_inj [OF assms(1), of q'' q p] assms(2-4) a by auto
  then show "load64 (store64 m (slot p i) v) (slot p' j) = load64 m (slot p' j)"
    using pt_wf_page [OF assms(1)] assms a \<open>pt_path q''\<close> \<open>unat j < 512\<close>
    by (intro load64_store64_other pt_slot_disjoint) auto
qed

lemma pt_leafD:
  assumes "pt_wf m ok root" and "pt_leaf m root va = Some a"
  obtains p where "pt_node m root [PX 2 va, PX 1 va] = Some p" "a = slot p (PX 0 va)"
    "page_aligned p" "p \<noteq> 0" "ok p"
  using assms pt_wf_page [OF assms(1), of "[PX 2 va, PX 1 va]"] by (auto simp: pt_leaf_def)

lemma pt_leaf_inj:
  assumes "pt_wf m ok root" and "pt_leaf m root va = Some a" and "pt_leaf m root vb = Some a"
    and "va < MAXVA" and "vb < MAXVA"
  shows "PGROUNDDOWN va = PGROUNDDOWN vb"
proof -
  obtain p where p: "pt_node m root [PX 2 va, PX 1 va] = Some p" "a = slot p (PX 0 va)" "page_aligned p"
    using assms by (auto elim: pt_leafD)
  obtain q where q: "pt_node m root [PX 2 vb, PX 1 vb] = Some q" "a = slot q (PX 0 vb)" "page_aligned q"
    using assms by (auto elim: pt_leafD)
  have "p = q \<and> PX 0 va = PX 0 vb"
    using page_inject_slot [OF p(3) q(3) PX_bound PX_bound] p(2) q(2) by metis
  moreover from this have "[PX 2 va, PX 1 va] = [PX 2 vb, PX 1 vb]"
    using pt_wf_inj [OF assms(1) _ _ p(1), of "[PX 2 vb, PX 1 vb]"] q(1) by simp
  ultimately show ?thesis using assms by (intro PX_inject) auto
qed

lemma PX_PGROUNDDOWN: "PX l (PGROUNDDOWN va) = PX l va"
proof -
  have "unat va div 4096 * 4096 div (4096 * 2 ^ (9 * l)) = unat va div (4096 * 2 ^ (9 * l))"
    by (simp add: div_mult2_eq)
  then show ?thesis
    by (simp add: word_unat_eq_iff unat_PX unat_PGROUNDDOWN power_add)
qed

lemma pt_leaf_PGROUNDDOWN: "pt_leaf m root (PGROUNDDOWN va) = pt_leaf m root va"
  by (simp add: pt_leaf_def PX_PGROUNDDOWN)

lemma pt_leaf_cong: "PGROUNDDOWN va = PGROUNDDOWN vb \<Longrightarrow> pt_leaf m root va = pt_leaf m root vb"
  using pt_leaf_PGROUNDDOWN by metis

lemma leaf_store:
  assumes wf: "pt_wf m ok root" and leaf: "pt_leaf m root va = Some a" and "va < MAXVA"
  shows "pt_wf (store64 m a v) ok root"
    and "\<And>q. pt_path q \<Longrightarrow> pt_node (store64 m a v) root q = pt_node m root q"
    and "\<And>vb. pt_leaf (store64 m a v) root vb = pt_leaf m root vb"
    and "\<And>vb. vb < MAXVA \<Longrightarrow>
      pte_of (store64 m a v) root vb = (if PGROUNDDOWN vb = PGROUNDDOWN va then v else pte_of m root vb)"
proof -
  obtain p where p: "pt_node m root [PX 2 va, PX 1 va] = Some p" "a = slot p (PX 0 va)" "page_aligned p"
    using wf leaf by (auto elim: pt_leafD)
  show node: "pt_node (store64 m a v) root q = pt_node m root q" if "pt_path q" for q
    using leaf_store_node [OF wf _ _ p(1) PX_bound that] p(2) by simp
  show "pt_wf (store64 m a v) ok root"
    using pt_wf_same [OF wf node] by blast
  show leaf': "pt_leaf (store64 m a v) root vb = pt_leaf m root vb" for vb
    by (simp add: pt_leaf_def node)
  show "pte_of (store64 m a v) root vb = (if PGROUNDDOWN vb = PGROUNDDOWN va then v else pte_of m root vb)"
    if vb: "vb < MAXVA" for vb
  proof (cases "PGROUNDDOWN vb = PGROUNDDOWN va")
    case True
    then have "pt_leaf m root vb = Some a" using leaf pt_leaf_cong by metis
    with True show ?thesis by (simp add: pte_of_def leaf' load64_store64)
  next
    case False
    show ?thesis
    proof (cases "pt_leaf m root vb")
      case None
      with False show ?thesis by (simp add: pte_of_def leaf')
    next
      case (Some b)
      then have "a \<noteq> b" using pt_leaf_inj [OF wf leaf _ assms(3) vb] False by auto
      moreover have "aligned 3 a" "aligned 3 b"
        using p Some wf by (auto simp: aligned_slot elim!: pt_leafD)
      ultimately show ?thesis
        using False Some by (simp add: pte_of_def leaf' load64_store64_other slot_span_disjoint)
    qed
  qed
qed

subsection \<open>Adding a page-table page\<close>

definition pt_inv :: "'a kmem_scheme \<Rightarrow> uint64 \<Rightarrow> bool" where
  "pt_inv s root \<longleftrightarrow> kmem_inv s \<and> pt_wf (pmem s) (\<lambda>p. kpage s p \<and> p \<notin> free_pages s) root"

text \<open>Memory that a routine working on the table \<open>root\<close> may change.\<close>

definition vm_region :: "'a kmem_scheme \<Rightarrow> uint64 \<Rightarrow> uint64 set" where
  "vm_region s root = (\<Union>p \<in> free_pages s \<union> pt_pages (pmem s) root. span p 4096)"

definition vm_step :: "uint64 \<Rightarrow> 'a kmem_scheme \<Rightarrow> 'a kmem_scheme \<Rightarrow> bool" where
  "vm_step root s s' \<longleftrightarrow> pt_inv s' root \<and> kend s' = kend s \<and> free_pages s' \<subseteq> free_pages s \<and>
     pt_pages (pmem s') root \<subseteq> pt_pages (pmem s) root \<union> (free_pages s - free_pages s') \<and>
     pt_pages (pmem s) root \<subseteq> pt_pages (pmem s') root \<and>
     (\<forall>x. x \<notin> vm_region s root \<longrightarrow> pmem s' x = pmem s x)"

lemma vm_step_refl: "pt_inv s root \<Longrightarrow> vm_step root s s"
  by (simp add: vm_step_def)

lemma vm_step_region: "vm_step root s s' \<Longrightarrow> vm_region s' root \<subseteq> vm_region s root"
  unfolding vm_step_def vm_region_def by blast

lemma vm_step_trans:
  assumes "vm_step root s s'" and "vm_step root s' s''"
  shows "vm_step root s s''"
proof -
  have "pmem s'' x = pmem s x" if "x \<notin> vm_region s root" for x
    using that assms vm_step_region [OF assms(1)] unfolding vm_step_def by (metis subsetD)
  moreover have "kend s'' = kend s" using assms by (simp add: vm_step_def)
  ultimately show ?thesis using assms unfolding vm_step_def by blast
qed

lemma load64_zero_page:
  assumes "page_aligned pg" and "unat j < 512" and "\<And>x. x \<in> span pg 4096 \<Longrightarrow> m x = 0"
  shows "load64 m (slot pg j) = 0"
proof -
  have "load64 m (slot pg j) = load64 (\<lambda>_. 0) (slot pg j)"
    using slot_in_page [OF assms(1,2)] assms(3) by (intro load64_cong) auto
  also have "\<dots> = 0"
    by (simp add: load64_def mread_def upt_conv_Cons)
  finally show ?thesis .
qed

lemma memset_zero_page: "x \<in> span pg 4096 \<Longrightarrow> memset m pg 0 (unat PGSIZE) x = 0"
  by (simp add: memset_mwrite PGSIZE_def mwrite_def span_def)

lemma PTE_V_set: "(PA2PTE pa OR PTE_V) AND PTE_V \<noteq> 0" "pte_perm PTE_V"
  by (simp_all add: PA2PTE_flag pte_perm_def PTE_V_def)

lemma extend_node:
  assumes inv: "pt_inv s root" and q: "pt_path (q @ [i])" "pt_node (pmem s) root q = Some p"
    and unset: "load64 (pmem s) (slot p i) AND PTE_V = 0"
    and alloc: "kalloc s = Ok pg s1" "pg \<noteq> 0"
  defines "s2 \<equiv> s1\<lparr>pmem := store64 (memset (pmem s1) pg 0 (unat PGSIZE)) (slot p i) (PA2PTE pg OR PTE_V)\<rparr>"
  shows "vm_step root s s2" and "pt_node (pmem s2) root (q @ [i]) = Some pg"
    and "\<And>vb. pte_of (pmem s2) root vb = pte_of (pmem s) root vb"
proof -
  let ?ok = "\<lambda>p. kpage s p \<and> p \<notin> free_pages s" and ?m = "pmem s" and ?m3 = "pmem s2"
  have kinv: "kmem_inv s" and wf: "pt_wf ?m ?ok root" using inv by (auto simp: pt_inv_def)
  have "free_pages s \<noteq> {}" using kalloc_exhausted [OF kinv] alloc by auto
  then have pg: "pg \<in> free_pages s" "free_pages s1 = free_pages s - {pg}" "kmem_inv s1"
      "kend s1 = kend s" "\<And>x. x \<notin> span pg 4096 \<Longrightarrow> pmem s1 x = pmem s x"
    using kalloc_avail [OF kinv] alloc(1) by auto
  have al: "page_aligned pg" "kpage s pg" using free_pages_kpage [OF kinv pg(1)] by (auto simp: kpage_def)
  have qs: "pt_path q" "length q \<le> 1" "unat i < 512" using pt_path_snocD [OF q(1)] by auto
  have pp: "page_aligned p" "p \<notin> free_pages s" using pt_wf_page [OF wf qs(1) q(2)] by auto
  then have p_pg: "span p 4096 \<inter> span pg 4096 = {}"
    using page_span_disjoint al pg(1) by (metis (no_types))
  have m3_other: "?m3 x = ?m x" if "x \<notin> span pg 4096" "x \<notin> span (slot p i) 8" for x
    using that pg(5) by (simp add: s2_def store64_outside memset_page_outside)
  have m3_pg: "?m3 x = 0" if "x \<in> span pg 4096" for x
  proof -
    have "x \<notin> span (slot p i) 8" using that p_pg slot_in_page [OF pp(1) qs(3)] by blast
    then show ?thesis using that by (simp add: s2_def store64_outside memset_zero_page)
  qed
  have ent: "load64 ?m3 (slot p i) = (PA2PTE pg OR PTE_V)" by (simp add: s2_def load64_store64)
  have zero: "load64 ?m3 (slot pg j) = 0" if "unat j < 512" for j
    using load64_zero_page [OF al(1) that] m3_pg by blast
  have keep: "load64 ?m3 (slot p' j) = load64 ?m (slot p' j)"
    if a: "pt_path q'" "pt_node ?m root q' = Some p'" "unat j < 512" "p' \<noteq> p \<or> j \<noteq> i" for q' p' j
  proof -
    have p': "page_aligned p'" "p' \<notin> free_pages s" using pt_wf_page [OF wf a(1,2)] by auto
    then have "span p' 4096 \<inter> span pg 4096 = {}"
      using page_span_disjoint al pg(1) by (metis (no_types))
    then show ?thesis
      using slot_in_page [OF p'(1) a(3)] pt_slot_disjoint [OF p'(1) pp(1) a(3) qs(3) a(4)]
      by (intro load64_cong m3_other) blast+
  qed
  have keep': "load64 ?m3 (slot p' j) = load64 ?m (slot p' j)"
    if "pt_path (q' @ [j])" "pt_node ?m root q' = Some p'" "(q', j) \<noteq> (q, i)" for q' p' j
  proof -
    have "pt_path q'" "unat j < 512" using pt_path_snocD [OF that(1)] by auto
    then show ?thesis
      using keep that(2,3) pt_wf_inj [OF wf _ qs(1) _ q(2)] by blast
  qed
  have node: "pt_node ?m3 root q'' = (if q'' = q @ [i] then Some pg else pt_node ?m root q'')"
    if path: "pt_path q''" for q''
  proof (cases "\<exists>r. q'' = q @ [i] @ r")
    case True
    then obtain r where r: "q'' = (q @ [i]) @ r" by auto
    have "pt_node ?m3 root q = Some p"
      using pt_node_keep [where m = ?m and m' = ?m3, OF keep' qs(1)] q(2) by auto
    then have new: "pt_node ?m3 root (q @ [i]) = Some pg"
      using ent PTE_V_set(1) PTE2PA_PA2PTE [OF al(1) PTE_V_set(2)] by (simp add: pt_node_snoc)
    have old: "pt_node ?m root (q @ [i]) = None"
      using q(2) unset by (simp add: pt_node_snoc)
    show ?thesis
    proof (cases r)
      case Nil
      then show ?thesis using r new by simp
    next
      case (Cons j r')
      then have "unat j < 512" using path r by (simp add: pt_path_def)
      then have "pt_node ?m3 root q'' = None"
        using new zero r Cons by (simp only: pt_node_append) (simp add: pt_node.simps(2))
      moreover have "pt_node ?m root q'' = None"
        using old r by (simp only: pt_node_append) simp
      moreover have "q'' \<noteq> q @ [i]" using r Cons by simp
      ultimately show ?thesis by simp
    qed
  next
    case False
    then show ?thesis
      using pt_node_keep [where m = ?m and m' = ?m3, OF keep' path] by auto
  qed
  show "pt_node ?m3 root (q @ [i]) = Some pg" using node [OF q(1)] by simp
  have s2_mem: "kmem_inv s2" "free_pages s2 = free_pages s - {pg}"
  proof -
    have "pmem s2 x = pmem s1 x" if f: "f \<in> free_pages s1" "x \<in> span f 8" for f x
    proof -
      have "f \<in> free_pages s" "f \<noteq> pg" using f pg(2) by auto
      then have "page_aligned f" "f \<noteq> p" using free_pages_kpage [OF kinv] pp by (auto simp: kpage_def)
      then have "x \<notin> span pg 4096" "x \<notin> span p 4096"
        using f \<open>f \<noteq> pg\<close> page_span_disjoint [of f] page_head_span [of f] al pp by blast+
      then show ?thesis
        using m3_other [of x] slot_in_page [OF pp(1) qs(3)] pg(5) by auto
    qed
    then show "kmem_inv s2" "free_pages s2 = free_pages s - {pg}"
      using kmem_inv_mem [OF pg(3), of "pmem s2"] pg(2) by (simp_all add: s2_def)
  qed
  have kend2: "kend s2 = kend s" using pg(4) by (simp add: s2_def)
  then have kp: "kpage s2 = kpage s" by (simp add: kpage_def fun_eq_iff)
  have wf2: "pt_wf ?m3 (\<lambda>p. kpage s2 p \<and> p \<notin> free_pages s2) root"
    unfolding pt_wf_def
  proof (intro conjI allI impI)
    fix q' p' assume a: "pt_path q'" "pt_node ?m3 root q' = Some p'"
    show "page_aligned p'" "p' \<noteq> 0" "kpage s2 p'" "p' \<notin> free_pages s2"
      using a node [OF a(1)] pt_wf_page [OF wf a(1), of p'] al alloc(2) s2_mem(2) kp
      by (auto split: if_splits)
  next
    fix q' q'' p' assume a: "pt_path q'" "pt_path q''" "pt_node ?m3 root q' = Some p'"
      "pt_node ?m3 root q'' = Some p'"
    then show "q' = q''"
      using node [OF a(1)] node [OF a(2)] pt_wf_inj [OF wf a(1,2)] pt_wf_page [OF wf a(1)]
        pt_wf_page [OF wf a(2)] pg(1) by (auto split: if_splits)
  qed
  have pages: "pt_pages ?m3 root = insert pg (pt_pages ?m root)"
  proof -
    have "pt_node ?m root (q @ [i]) = None" using q(2) unset by (simp add: pt_node_snoc)
    then show ?thesis unfolding pt_pages_def using node q(1)
      by (auto split: if_splits) (metis option.distinct(1))
  qed
  have "p \<in> pt_pages ?m root" using qs(1) q(2) by (auto simp: pt_pages_def)
  then have outside: "?m3 x = ?m x" if "x \<notin> vm_region s root" for x
    using that m3_other [of x] slot_in_page [OF pp(1) qs(3)] pg(1) by (auto simp: vm_region_def)
  show "vm_step root s s2"
    unfolding vm_step_def pt_inv_def
    using wf2 s2_mem kend2 pages pg(1) outside by auto
  show "pte_of ?m3 root vb = pte_of ?m root vb" for vb
  proof -
    let ?v = "[PX 2 vb, PX 1 vb]"
    have path: "pt_path ?v" by simp
    show ?thesis
    proof (cases "?v = q @ [i]")
      case True
      then have "pt_node ?m root ?v = None" using q(2) unset by (simp only: pt_node_snoc) simp
      then show ?thesis using True node [OF path] zero
        by (simp add: pte_of_def pt_leaf_def)
    next
      case False
      then have same: "pt_node ?m3 root ?v = pt_node ?m root ?v" using node [OF path] by (simp only: if_False)
      show ?thesis
      proof (cases "pt_node ?m root ?v")
        case None
        then show ?thesis using same by (simp add: pte_of_def pt_leaf_def)
      next
        case (Some p')
        then have "p' \<noteq> p" using pt_wf_inj [OF wf path qs(1)] q(2) qs(2) by auto
        then show ?thesis using same Some keep [OF path Some PX_bound]
          by (simp add: pte_of_def pt_leaf_def)
      qed
    qed
  qed
qed

subsection \<open>walk\<close>

primrec vsuffix :: "nat \<Rightarrow> uint64 \<Rightarrow> uint64 list" where
  "vsuffix 0 va = []"
| "vsuffix (Suc l) va = PX (Suc l) va # vsuffix l va"

lemma vsuffix_2: "vsuffix 2 va = [PX 2 va, PX 1 va]"
  by (simp add: numeral_2_eq_2)

lemma slot_nonzero:
  assumes "page_aligned p" "p \<noteq> 0" "unat i < 512"
  shows "slot p i \<noteq> 0"
proof
  assume "slot p i = 0"
  then have "drop_bit 12 p = 0" using drop_bit_slot [OF assms(1,3)] by simp
  then show False using assms(1,2) bits_ident [of 12 p] by (simp add: aligned_def)
qed

lemma walk_levels_find:
  "walk_levels l pt va False s = Ok (case pt_node (pmem s) pt (vsuffix l va) of None \<Rightarrow> 0
     | Some p \<Rightarrow> slot p (PX 0 va)) s"
  by (induction l arbitrary: pt) (auto simp: Let_def pte_at_def pt_node.simps(2) split: option.splits)

lemma walk_find:
  assumes "va < MAXVA"
  shows "walk root va False s = Ok (case pt_leaf (pmem s) root va of None \<Rightarrow> 0 | Some a \<Rightarrow> a) s"
  using assms
  by (simp add: walk_def walk_levels_find vsuffix_2 pt_leaf_def not_le split: option.splits)

lemma pt_leaf_nonzero: "pt_inv s root \<Longrightarrow> pt_leaf (pmem s) root va = Some a \<Longrightarrow> a \<noteq> 0"
  unfolding pt_inv_def by (auto elim!: pt_leafD simp: slot_nonzero)

lemma walk_levels_alloc:
  assumes "pt_inv s root" and "q @ vsuffix l va = [PX 2 va, PX 1 va]"
    and "pt_node (pmem s) root q = Some pt"
  shows "\<exists>r s'. walk_levels l pt va True s = Ok r s' \<and> vm_step root s s' \<and>
    (\<forall>vb. pte_of (pmem s') root vb = pte_of (pmem s) root vb) \<and>
    (r \<noteq> 0 \<longrightarrow> pt_leaf (pmem s') root va = Some r) \<and> (r = 0 \<longrightarrow> free_pages s' = {})"
  using assms
proof (induction l arbitrary: s q pt)
  case 0
  then have leaf: "pt_leaf (pmem s) root va = Some (slot pt (PX 0 va))" by (simp add: pt_leaf_def)
  then have "slot pt (PX 0 va) \<noteq> 0" using 0 by (intro pt_leaf_nonzero)
  then show ?case using 0 leaf by (auto simp: vm_step_refl)
next
  case (Suc l)
  let ?i = "PX (Suc l) va" and ?v = "load64 (pmem s) (slot pt (PX (Suc l) va))"
  have next_path: "(q @ [?i]) @ vsuffix l va = [PX 2 va, PX 1 va]" using Suc.prems(2) by simp
  then have "length (q @ [?i]) \<le> 2" by (metis length_append le_add1 length_Cons list.size(3) numeral_2_eq_2)
  moreover have "set (q @ [?i]) \<subseteq> {PX 2 va, PX 1 va}"
    using arg_cong [OF next_path, of set] by auto
  ultimately have path: "pt_path (q @ [?i])" unfolding pt_path_def by auto
  show ?case
  proof (cases "?v AND PTE_V = 0")
    case False
    then have "pt_node (pmem s) root (q @ [?i]) = Some (PTE2PA ?v)"
      using Suc.prems(3) by (simp add: pt_node_snoc Let_def)
    from Suc.IH [OF Suc.prems(1) next_path this] False show ?thesis
      by (simp add: Let_def pte_at_def)
  next
    case True
    obtain pg s1 where pg: "kalloc s = Ok pg s1" and s1: "pg = 0 \<longleftrightarrow> free_pages s = {}"
      using kpool.alloc_returns [of s] kpool.alloc_none_iff [of s] Suc.prems(1) by (auto simp: pt_inv_def)
    show ?thesis
    proof (cases "pg = 0")
      case zero: True
      then have "s1 = s" using pg s1 kalloc_exhausted [of s] Suc.prems(1) by (auto simp: pt_inv_def)
      then show ?thesis
        using zero True pg s1 Suc.prems(1) by (auto simp: Let_def pte_at_def bind_def vm_step_refl)
    next
      case nz: False
      let ?s2 = "s1\<lparr>pmem := store64 (memset (pmem s1) pg 0 (unat PGSIZE)) (slot pt ?i) (PA2PTE pg OR PTE_V)\<rparr>"
      have step: "vm_step root s ?s2" and node: "pt_node (pmem ?s2) root (q @ [?i]) = Some pg"
        and same: "\<And>vb. pte_of (pmem ?s2) root vb = pte_of (pmem s) root vb"
        using extend_node [OF Suc.prems(1) path Suc.prems(3) True pg nz] by auto
      have "pt_inv ?s2 root" using step by (simp add: vm_step_def)
      from Suc.IH [OF this next_path node] obtain r s' where
        r: "walk_levels l pg va True ?s2 = Ok r s'" "vm_step root ?s2 s'"
          "\<forall>vb. pte_of (pmem s') root vb = pte_of (pmem ?s2) root vb"
          "r \<noteq> 0 \<longrightarrow> pt_leaf (pmem s') root va = Some r" "r = 0 \<longrightarrow> free_pages s' = {}" by blast
      have "walk_levels (Suc l) pt va True s = Ok r s'"
        using True pg nz r(1) by (simp add: Let_def pte_at_def bind_def memset_page_def set_pte_def)
      then show ?thesis using r same vm_step_trans [OF step r(2)] by metis
    qed
  qed
qed

lemma walk_alloc:
  assumes "pt_inv s root" and "va < MAXVA"
  shows "\<exists>r s'. walk root va True s = Ok r s' \<and> vm_step root s s' \<and>
    (\<forall>vb. pte_of (pmem s') root vb = pte_of (pmem s) root vb) \<and>
    (r \<noteq> 0 \<longrightarrow> pt_leaf (pmem s') root va = Some r) \<and> (r = 0 \<longrightarrow> free_pages s' = {})"
  using walk_levels_alloc [OF assms(1), of "[]" 2 va root] assms(2)
  by (simp add: walk_def vsuffix_2 not_le)

subsection \<open>mappages, walkaddr and uvmunmap on the abstract map\<close>

text \<open>Writing a leaf entry is a step of the table.\<close>

lemma set_leaf:
  fixes v :: uint64
  assumes inv: "pt_inv s root" and leaf: "pt_leaf (pmem s) root va = Some a" and "va < MAXVA"
  defines "s' \<equiv> s\<lparr>pmem := store64 (pmem s) a v\<rparr>"
  shows "vm_step root s s'" and "free_pages s' = free_pages s"
    and "pt_pages (pmem s') root = pt_pages (pmem s) root"
    and "\<And>vb. vb < MAXVA \<Longrightarrow> pte_of (pmem s') root vb =
      (if PGROUNDDOWN vb = PGROUNDDOWN va then v else pte_of (pmem s) root vb)"
proof -
  let ?ok = "\<lambda>p. kpage s p \<and> p \<notin> free_pages s"
  have kinv: "kmem_inv s" and wf: "pt_wf (pmem s) ?ok root" using inv by (auto simp: pt_inv_def)
  obtain p where p: "pt_node (pmem s) root [PX 2 va, PX 1 va] = Some p" "a = slot p (PX 0 va)"
      "page_aligned p" "?ok p"
    using wf leaf by (auto elim: pt_leafD)
  have inpage: "span a 8 \<subseteq> span p 4096" using slot_in_page [OF p(3) PX_bound] p(2) by simp
  have "store64 (pmem s) a v x = pmem s x" if f: "f \<in> free_pages s" "x \<in> span f 8" for f x
  proof -
    have "page_aligned f" "f \<noteq> p" using f free_pages_kpage [OF kinv] p by (auto simp: kpage_def)
    then have "x \<notin> span a 8"
      using f inpage page_span_disjoint [of f p] page_head_span [of f] p(3) by blast
    then show ?thesis by (rule store64_outside)
  qed
  then have mem: "kmem_inv s'" "free_pages s' = free_pages s"
    using kmem_inv_mem [OF kinv] by (auto simp: s'_def)
  then show "free_pages s' = free_pages s" by simp
  note store = leaf_store [OF wf leaf assms(3), where v = v]
  show pages: "pt_pages (pmem s') root = pt_pages (pmem s) root"
    unfolding pt_pages_def using store(2) by (auto simp: s'_def)
  show "pte_of (pmem s') root vb = (if PGROUNDDOWN vb = PGROUNDDOWN va then v else pte_of (pmem s) root vb)"
    if "vb < MAXVA" for vb
    using store(4) [OF that] by (simp add: s'_def)
  have kp: "kpage s' = kpage s" by (simp add: s'_def kpage_def fun_eq_iff)
  have "pt_wf (pmem s') (\<lambda>p. kpage s' p \<and> p \<notin> free_pages s') root"
    unfolding mem(2) kp using store(1) by (simp add: s'_def)
  then have "pt_inv s' root" using mem(1) by (simp add: pt_inv_def)
  moreover have "p \<in> pt_pages (pmem s) root" 
    using p(1) unfolding pt_pages_def by (auto intro!: exI [of _ "[PX 2 va, PX 1 va]"])
  then have "pmem s' x = pmem s x" if "x \<notin> vm_region s root" for x
    using that inpage by (auto simp: s'_def vm_region_def intro!: store64_outside)
  ultimately show "vm_step root s s'"
    using mem(2) pages by (simp add: vm_step_def s'_def)
qed

lemma set_leaf_span:
  assumes "pt_inv s root" and "pt_leaf (pmem s) root va = Some a"
  shows "span a 8 \<subseteq> (\<Union>p \<in> pt_pages (pmem s) root. span p 4096)"
proof -
  obtain p where p: "pt_node (pmem s) root [PX 2 va, PX 1 va] = Some p" "a = slot p (PX 0 va)"
      "page_aligned p"
    using assms by (auto simp: pt_inv_def elim: pt_leafD)
  then have "p \<in> pt_pages (pmem s) root"
    unfolding pt_pages_def by (auto intro!: exI [of _ "[PX 2 va, PX 1 va]"])
  then show ?thesis using slot_in_page [OF p(3) PX_bound] p(2) by blast
qed

lemma pte_of_leaf: "pt_leaf m root va = Some a \<Longrightarrow> pte_of m root va = load64 m a"
  by (simp add: pte_of_def)

text \<open>The pages \<open>a, a + PGSIZE, \<dots>\<close> of a range of \<open>n\<close> pages.\<close>

definition in_pages :: "uint64 \<Rightarrow> nat \<Rightarrow> uint64 \<Rightarrow> bool" where
  "in_pages a n va \<longleftrightarrow> unat a \<le> unat (PGROUNDDOWN va) \<and> unat (PGROUNDDOWN va) < unat a + 4096 * n"

lemma in_pages_Suc:
  assumes "page_aligned a" and "unat a + 4096 * Suc n \<le> 2 ^ 38"
  shows "in_pages a (Suc n) va \<longleftrightarrow> PGROUNDDOWN va = a \<or> in_pages (a + PGSIZE) n va"
proof -
  have next_a: "unat (a + PGSIZE) = unat a + 4096"
    using assms(2) unat_page_offset [of a 1] by simp
  obtain i where "unat a = 4096 * i" using assms(1) by (auto simp: aligned_dvd elim!: dvdE)
  moreover obtain j where "unat (PGROUNDDOWN va) = 4096 * j"
    using aligned_PGROUNDDOWN [of va] unfolding aligned_dvd by (auto simp: unat_PGROUNDDOWN)
  ultimately show ?thesis
    by (auto simp: in_pages_def next_a word_unat_eq_iff)
qed

lemma in_pages_0 [simp]: "\<not> in_pages a 0 va"
  by (simp add: in_pages_def)

lemma in_pages_next: "page_aligned a \<Longrightarrow> unat a + 4096 * Suc n \<le> 2 ^ 38 \<Longrightarrow> PGROUNDDOWN va = a \<Longrightarrow>
    \<not> in_pages (a + PGSIZE) n va"
  using unat_page_offset [of a 1] by (auto simp: in_pages_def)

lemma lt_MAXVA: "va < MAXVA \<longleftrightarrow> unat va < 2 ^ 38"
  by (simp add: word_less_nat_alt layout_defs)

lemma in_pages_lt_MAXVA: "unat a + 4096 * n \<le> 2 ^ 38 \<Longrightarrow> in_pages a n va \<Longrightarrow> PGROUNDDOWN va < MAXVA"
  by (auto simp: in_pages_def lt_MAXVA)

text \<open>One iteration of the loop of \<open>mappages\<close>: find or create the entry, then write it.\<close>

lemma walk_then_set:
  assumes "pt_inv s root" and "a < MAXVA"
  obtains (full) s1 where "walk root a True s = Ok 0 s1" "vm_step root s s1" "free_pages s1 = {}"
      "\<And>vb. pte_of (pmem s1) root vb = pte_of (pmem s) root vb"
  | (found) r s1 where "walk root a True s = Ok r s1" "r \<noteq> 0" "pt_inv s1 root"
      "pte_at s1 r = pte_of (pmem s) root a"
      "\<And>v. vm_step root s (s1\<lparr>pmem := store64 (pmem s1) r v\<rparr>)"
      "\<And>v vb. vb < MAXVA \<Longrightarrow> pte_of (store64 (pmem s1) r v) root vb =
        (if PGROUNDDOWN vb = PGROUNDDOWN a then v else pte_of (pmem s) root vb)"
proof -
  obtain r s1 where r: "walk root a True s = Ok r s1" "vm_step root s s1"
      "\<forall>vb. pte_of (pmem s1) root vb = pte_of (pmem s) root vb"
      "r \<noteq> 0 \<longrightarrow> pt_leaf (pmem s1) root a = Some r" "r = 0 \<longrightarrow> free_pages s1 = {}"
    using walk_alloc [OF assms] by blast
  show thesis
  proof (cases "r = 0")
    case True
    with r full show thesis by blast
  next
    case False
    then have leaf: "pt_leaf (pmem s1) root a = Some r" using r by blast
    have inv: "pt_inv s1 root" using r(2) by (simp add: vm_step_def)
    have "pte_at s1 r = pte_of (pmem s) root a"
      using pte_of_leaf [OF leaf] r(3) by (simp add: pte_at_def)
    moreover have "vm_step root s (s1\<lparr>pmem := store64 (pmem s1) r v\<rparr>)" for v
      using vm_step_trans [OF r(2) set_leaf(1) [OF inv leaf assms(2)]] .
    moreover have "pte_of (store64 (pmem s1) r v) root vb =
        (if PGROUNDDOWN vb = PGROUNDDOWN a then v else pte_of (pmem s) root vb)" if "vb < MAXVA" for v vb
      using set_leaf(4) [OF inv leaf assms(2) that] r(3) by simp
    ultimately show thesis using found r(1) False inv by blast
  qed
qed

lemma mappages_from_map:
  assumes "pt_inv s root" and "page_aligned a" and "unat a + 4096 * Suc n \<le> 2 ^ 38"
    and "\<And>va. va < MAXVA \<Longrightarrow> in_pages a (Suc n) va \<Longrightarrow> pte_of (pmem s) root va AND PTE_V = 0"
  shows "\<exists>r s'. mappages_from root a (a + of_nat n * PGSIZE) pa perm s = Ok r s' \<and> vm_step root s s' \<and>
    (\<forall>vb<MAXVA. \<not> in_pages a (Suc n) vb \<longrightarrow> pte_of (pmem s') root vb = pte_of (pmem s) root vb) \<and>
    (r = 0 \<and> (\<forall>vb<MAXVA. in_pages a (Suc n) vb \<longrightarrow>
        pte_of (pmem s') root vb = (PA2PTE (pa + (PGROUNDDOWN vb - a)) OR perm OR PTE_V)) \<or>
     r = -1 \<and> free_pages s' = {})"
  using assms
proof (induction n arbitrary: s a pa)
  case (0 s a pa)
  have a: "a < MAXVA" using 0 by (simp add: lt_MAXVA)
  have in1: "in_pages a (Suc 0) vb \<longleftrightarrow> PGROUNDDOWN vb = a" for vb
    using in_pages_Suc [OF 0(2,3)] by simp
  have unset: "pte_of (pmem s) root a AND PTE_V = 0" using 0 in1 [of a] a by simp
  from 0(1) a show ?case
  proof (cases rule: walk_then_set)
    case (full s1)
    then show ?thesis by (intro exI [of _ "-1"] exI [of _ s1])
        (subst mappages_from.simps, simp add: bind_def)
  next
    case (found r s1)
    let ?s2 = "s1\<lparr>pmem := store64 (pmem s1) r (PA2PTE pa OR perm OR PTE_V)\<rparr>"
    have "mappages_from root a (a + of_nat 0 * PGSIZE) pa perm s = Ok 0 ?s2"
      using found unset by (subst mappages_from.simps) (simp add: bind_def set_pte_def)
    then show ?thesis
      using found(5,6) in1 0(2) by (intro exI [of _ 0] exI [of _ ?s2]) auto
  qed
next
  case (Suc n)
  have a: "a < MAXVA" "unat (a + PGSIZE) = unat a + 4096"
    using Suc.prems(3) unat_page_offset [of a 1] by (simp_all add: lt_MAXVA)
  have al: "page_aligned (a + PGSIZE)" using Suc.prems(2) by (simp add: aligned_add)
  note split = in_pages_Suc [OF Suc.prems(2,3)] and other = in_pages_next [OF Suc.prems(2,3)]
  have lim: "a + of_nat (Suc n) * PGSIZE = (a + PGSIZE) + of_nat n * PGSIZE"
    by (simp add: algebra_simps)
  have "unat (a + of_nat (Suc n) * PGSIZE) = unat a + 4096 * Suc n"
    using Suc.prems(3) by (intro unat_page_offset) simp
  then have ne: "a \<noteq> a + of_nat (Suc n) * PGSIZE" by (metis add_cancel_left_right mult_is_0 nat.distinct(1) zero_neq_numeral)
  have unset: "pte_of (pmem s) root a AND PTE_V = 0" using Suc.prems(2,4) split [of a] a by simp
  from Suc.prems(1) a(1) show ?case
  proof (cases rule: walk_then_set)
    case (full s1)
    then show ?thesis by (intro exI [of _ "-1"] exI [of _ s1])
        (subst mappages_from.simps, simp add: bind_def)
  next
    case (found r s1)
    let ?s2 = "s1\<lparr>pmem := store64 (pmem s1) r (PA2PTE pa OR perm OR PTE_V)\<rparr>"
    have inv2: "pt_inv ?s2 root" using found(5) by (simp add: vm_step_def)
    have old: "pte_of (pmem ?s2) root vb = (if PGROUNDDOWN vb = a then (PA2PTE pa OR perm OR PTE_V)
        else pte_of (pmem s) root vb)" if "vb < MAXVA" for vb
      using found(6) [OF that] Suc.prems(2) by simp
    have "pte_of (pmem ?s2) root va AND PTE_V = 0"
      if "va < MAXVA" "in_pages (a + PGSIZE) (Suc n) va" for va
      using that old [of va] other [of va] split [of va] Suc.prems(4) [of va] by auto
    moreover have "unat (a + PGSIZE) + 4096 * Suc n \<le> 2 ^ 38" using Suc.prems(3) a(2) by simp
    ultimately obtain r' s' where rec:
      "mappages_from root (a + PGSIZE) ((a + PGSIZE) + of_nat n * PGSIZE) (pa + PGSIZE) perm ?s2 = Ok r' s'"
      "vm_step root ?s2 s'"
      "\<forall>vb<MAXVA. \<not> in_pages (a + PGSIZE) (Suc n) vb \<longrightarrow> pte_of (pmem s') root vb = pte_of (pmem ?s2) root vb"
      "r' = 0 \<and> (\<forall>vb<MAXVA. in_pages (a + PGSIZE) (Suc n) vb \<longrightarrow>
        pte_of (pmem s') root vb = (PA2PTE (pa + PGSIZE + (PGROUNDDOWN vb - (a + PGSIZE))) OR perm OR PTE_V)) \<or>
       r' = -1 \<and> free_pages s' = {}"
      using Suc.IH [OF inv2 al, of "pa + PGSIZE"] by blast
    have "mappages_from root a (a + of_nat (Suc n) * PGSIZE) pa perm s = Ok r' s'"
      using found(1,2,4) unset ne a(1) rec(1) unfolding lim
      by (subst mappages_from.simps) (simp add: bind_def set_pte_def add.assoc)
    moreover have "vm_step root s s'" using vm_step_trans [OF found(5) rec(2)] .
    moreover have "pa + PGSIZE + (PGROUNDDOWN vb - (a + PGSIZE)) = pa + (PGROUNDDOWN vb - a)" for vb
      by simp
    ultimately show ?thesis
      using rec(3,4) old split other by (intro exI [of _ r'] exI [of _ s']) auto
  qed
qed

text \<open>Mapping a whole number of aligned pages, as every caller in the kernel does.\<close>

lemma mappages_pages:
  assumes "page_aligned va" and "unat va + 4096 * Suc n \<le> 2 ^ 38"
  shows "mappages root va (of_nat (Suc n) * PGSIZE) pa perm =
    mappages_from root va (va + of_nat n * PGSIZE) pa perm"
proof -
  have "unat (0 + of_nat (Suc n) * PGSIZE) = unat (0 :: uint64) + 4096 * Suc n"
    using assms(2) by (intro unat_page_offset) simp
  then have nz: "of_nat (Suc n) * PGSIZE \<noteq> 0" by (metis add_0 mult_is_0 nat.distinct(1) unsigned_0 zero_neq_numeral)
  have "va + of_nat (Suc n) * PGSIZE - 1 = (va + of_nat n * PGSIZE) + 4095"
    by (simp add: PGSIZE_def algebra_simps)
  moreover have "PGROUNDDOWN ((va + of_nat n * PGSIZE) + 4095) = va + of_nat n * PGSIZE"
    using PGROUNDUP_aligned [of "va + of_nat n * PGSIZE"] aligned_page_offset [OF assms(1)]
    by (simp only: PGROUNDUP_PGROUNDDOWN)
  ultimately show ?thesis
    using nz by (simp only: mappages_def if_False PGROUNDDOWN_aligned [OF assms(1)])
qed

lemma mappages_page:
  assumes "page_aligned va" and "va < MAXVA"
  shows "mappages root va PGSIZE pa perm = mappages_from root va va pa perm"
proof -
  obtain k where "unat va = 4096 * k" using assms(1) by (auto simp: aligned_dvd elim!: dvdE)
  then have "unat va + 4096 * Suc 0 \<le> 2 ^ 38" using assms(2) by (simp add: lt_MAXVA)
  from mappages_pages [OF assms(1) this, of root pa perm] show ?thesis by simp
qed

lemma walk_levels_existing:
  "pt_node (pmem s) pt (vsuffix l va) = Some p \<Longrightarrow> walk_levels l pt va alloc s = Ok (slot p (PX 0 va)) s"
  by (induction l arbitrary: pt)
    (auto simp: Let_def pte_at_def pt_node.simps(2) split: option.splits if_splits)

lemma walk_existing:
  "va < MAXVA \<Longrightarrow> pt_leaf (pmem s) root va = Some a \<Longrightarrow> walk root va alloc s = Ok a s"
  by (auto simp: walk_def pt_leaf_def not_le vsuffix_2 walk_levels_existing)

lemma mapped_leaf: "pte_of m root va AND PTE_V \<noteq> 0 \<Longrightarrow> \<exists>a. pt_leaf m root va = Some a"
  by (cases "pt_leaf m root va") (auto simp: pte_of_def)

lemma mappages_remap_panics:
  assumes "pt_inv s root" and "page_aligned va" and "va < MAXVA"
    and "pte_of (pmem s) root va AND PTE_V \<noteq> 0"
  shows "mappages root va PGSIZE pa perm s = Panic ''mappages: remap''"
proof -
  obtain a where a: "pt_leaf (pmem s) root va = Some a" using mapped_leaf [OF assms(4)] by blast
  then have "a \<noteq> 0" using pt_leaf_nonzero [OF assms(1)] by blast
  then show ?thesis
    unfolding mappages_page [OF assms(2,3)]
    using walk_existing [OF assms(3) a, of True] assms(4) pte_of_leaf [OF a]
    by (subst mappages_from.simps) (simp add: bind_def pte_at_def)
qed

text \<open>The mapping of one page, the case of every caller but \<open>kvmmake\<close>.\<close>

lemma mappages_one:
  assumes "pt_inv s root" and "page_aligned va" and "va < MAXVA"
    and "pte_of (pmem s) root va AND PTE_V = 0"
  shows "\<exists>r s'. mappages root va PGSIZE pa perm s = Ok r s' \<and> vm_step root s s' \<and>
    (\<forall>vb<MAXVA. PGROUNDDOWN vb \<noteq> va \<longrightarrow> pte_of (pmem s') root vb = pte_of (pmem s) root vb) \<and>
    (r = 0 \<and> (\<forall>vb<MAXVA. PGROUNDDOWN vb = va \<longrightarrow>
        pte_of (pmem s') root vb = (PA2PTE pa OR perm OR PTE_V)) \<or>
     r = -1 \<and> free_pages s' = {})"
proof -
  obtain k where "unat va = 4096 * k" using assms(2) by (auto simp: aligned_dvd elim!: dvdE)
  then have bound: "unat va + 4096 * Suc 0 \<le> 2 ^ 38" using assms(3) by (simp add: lt_MAXVA)
  have in1: "in_pages va (Suc 0) vb \<longleftrightarrow> PGROUNDDOWN vb = va" for vb
    using in_pages_Suc [OF assms(2) bound] by simp
  have "pte_of (pmem s) root vb AND PTE_V = 0" if "in_pages va (Suc 0) vb" for vb
    using that in1 assms(2,4) pt_leaf_cong [of vb va] by (simp add: pte_of_def)
  from mappages_from_map [OF assms(1,2) bound this, of pa perm]
  show ?thesis unfolding mappages_page [OF assms(2,3)] in1 by fastforce
qed

lemma walkaddr_eq:
  assumes "pt_inv s root"
  shows "walkaddr root va s = Ok (if va < MAXVA \<and> pte_of (pmem s) root va AND PTE_V \<noteq> 0 \<and>
      pte_of (pmem s) root va AND PTE_U \<noteq> 0 then PTE2PA (pte_of (pmem s) root va) else 0) s"
proof (cases "pt_leaf (pmem s) root va")
  case None
  then show ?thesis by (auto simp: walkaddr_def bind_def walk_find pte_of_def not_le)
next
  case (Some a)
  then show ?thesis using pt_leaf_nonzero [OF assms Some]
    by (auto simp: walkaddr_def bind_def walk_find pte_of_def pte_at_def not_le)
qed

text \<open>Memory outside the table's own pages does not matter to it.\<close>

lemma pt_mem_frame:
  assumes wf: "pt_wf m ok root" and "\<And>p x. p \<in> pt_pages m root \<Longrightarrow> x \<in> span p 4096 \<Longrightarrow> m' x = m x"
  shows "\<And>q. pt_path q \<Longrightarrow> pt_node m' root q = pt_node m root q"
    and "pt_pages m' root = pt_pages m root"
    and "\<And>va. pt_leaf m' root va = pt_leaf m root va"
    and "\<And>va. pte_of m' root va = pte_of m root va"
proof -
  have keep: "load64 m' (slot p j) = load64 m (slot p j)"
    if "pt_path q" "pt_node m root q = Some p" "unat j < 512" for q p j
  proof -
    have "p \<in> pt_pages m root" "page_aligned p"
      using that pt_wf_page [OF wf] by (auto simp: pt_pages_def)
    then show ?thesis
      using assms(2) slot_in_page [of p j] that(3) by (intro load64_cong) blast
  qed
  show node: "pt_node m' root q = pt_node m root q" if "pt_path q" for q
    using that keep pt_path_snocD by (intro pt_node_same) blast+
  then show "pt_pages m' root = pt_pages m root" by (auto simp: pt_pages_def)
  show leaf: "pt_leaf m' root va = pt_leaf m root va" for va
    by (simp add: pt_leaf_def node)
  show "pte_of m' root va = pte_of m root va" for va
  proof (cases "pt_node m root [PX 2 va, PX 1 va]")
    case None
    then have "pt_leaf m root va = None" by (simp add: pt_leaf_def)
    then show ?thesis by (simp add: pte_of_def leaf)
  next
    case (Some p)
    then show ?thesis using keep [OF _ Some PX_bound] leaf by (simp add: pte_of_def pt_leaf_def)
  qed
qed

text \<open>Freeing a page that is not part of the table.\<close>

lemma kfree_data_page:
  assumes inv: "pt_inv s root" and "kpage s p" "p \<notin> free_pages s" "p \<notin> pt_pages (pmem s) root"
  shows "\<exists>s'. kfree p s = Ok () s' \<and> pt_inv s' root \<and> kend s' = kend s \<and>
    free_pages s' = insert p (free_pages s) \<and> pt_pages (pmem s') root = pt_pages (pmem s) root \<and>
    (\<forall>va. pt_leaf (pmem s') root va = pt_leaf (pmem s) root va) \<and>
    (\<forall>va. pte_of (pmem s') root va = pte_of (pmem s) root va) \<and>
    (\<forall>x. x \<notin> span p 4096 \<longrightarrow> pmem s' x = pmem s x)"
proof -
  have wf: "pt_wf (pmem s) (\<lambda>p. kpage s p \<and> p \<notin> free_pages s) root" and kinv: "kmem_inv s"
    using inv by (auto simp: pt_inv_def)
  obtain s' where s': "kfree p s = Ok () s'" "free_pages s' = insert p (free_pages s)" "kmem_inv s'"
      "kend s' = kend s" "\<forall>x. x \<notin> span p 4096 \<longrightarrow> pmem s' x = pmem s x"
    using kfree_legal [OF kinv assms(2,3)] by blast
  have "pmem s' x = pmem s x" if "q \<in> pt_pages (pmem s) root" "x \<in> span q 4096" for q x
  proof -
    have "page_aligned q" "q \<noteq> p" using that assms(4) pt_wf_page [OF wf] by (auto simp: pt_pages_def)
    then show ?thesis using s'(5) page_span_disjoint [of q p] that(2) assms(2) by (auto simp: kpage_def)
  qed
  note frame = pt_mem_frame [where m' = "pmem s'", OF wf this]
  have kp: "kpage s' = kpage s" using s'(4) by (simp add: kpage_def fun_eq_iff)
  have "pt_wf (pmem s') (\<lambda>p. kpage s' p \<and> p \<notin> free_pages s') root"
    using s'(2) assms(4) by (intro pt_wf_same [OF wf frame(1)]) (auto simp: kp pt_pages_def)
  then have "pt_inv s' root" using s'(3) by (simp add: pt_inv_def)
  with s' frame show ?thesis by auto
qed

text \<open>The physical pages a range of virtual pages maps to.\<close>

definition pa_of :: "'a kmem_scheme \<Rightarrow> uint64 \<Rightarrow> uint64 \<Rightarrow> uint64" where
  "pa_of s root va = PTE2PA (pte_of (pmem s) root va)"

definition range_pages :: "'a kmem_scheme \<Rightarrow> uint64 \<Rightarrow> uint64 \<Rightarrow> nat \<Rightarrow> uint64 set" where
  "range_pages s root a n = {pa_of s root va | va. va < MAXVA \<and> in_pages a n va}"

text \<open>Every page of the range is mapped by a leaf entry.\<close>

definition range_mapped :: "'a kmem_scheme \<Rightarrow> uint64 \<Rightarrow> uint64 \<Rightarrow> nat \<Rightarrow> bool" where
  "range_mapped s root a n \<longleftrightarrow> (\<forall>va<MAXVA. in_pages a n va \<longrightarrow>
     pte_of (pmem s) root va AND PTE_V \<noteq> 0 \<and> PTE_FLAGS (pte_of (pmem s) root va) \<noteq> PTE_V)"

text \<open>The pages of the range belong to it alone.\<close>

definition range_owned :: "'a kmem_scheme \<Rightarrow> uint64 \<Rightarrow> uint64 \<Rightarrow> nat \<Rightarrow> bool" where
  "range_owned s root a n \<longleftrightarrow>
     (\<forall>p \<in> range_pages s root a n. kpage s p \<and> p \<notin> free_pages s \<and> p \<notin> pt_pages (pmem s) root) \<and>
     (\<forall>va<MAXVA. \<forall>vb<MAXVA. in_pages a n va \<longrightarrow> in_pages a n vb \<longrightarrow>
        pa_of s root va = pa_of s root vb \<longrightarrow> PGROUNDDOWN va = PGROUNDDOWN vb)"

lemma pte_of_cong: "PGROUNDDOWN va = PGROUNDDOWN vb \<Longrightarrow> pte_of m root va = pte_of m root vb"
  using pt_leaf_cong [of va vb m root] by (simp add: pte_of_def)

text \<open>What removing entries may change: the removed pages become free, everything else is kept.\<close>

definition unmap_step :: "uint64 \<Rightarrow> uint64 set \<Rightarrow> 'a kmem_scheme \<Rightarrow> 'a kmem_scheme \<Rightarrow> bool" where
  "unmap_step root freed s s' \<longleftrightarrow> pt_inv s' root \<and> kend s' = kend s \<and>
     free_pages s' = free_pages s \<union> freed \<and> pt_pages (pmem s') root = pt_pages (pmem s) root \<and>
     (\<forall>x. x \<notin> (\<Union>p \<in> pt_pages (pmem s) root \<union> freed. span p 4096) \<longrightarrow> pmem s' x = pmem s x)"

lemma unmap_step_trans:
  "unmap_step root d s s' \<Longrightarrow> unmap_step root d' s' s'' \<Longrightarrow> unmap_step root (d \<union> d') s s''"
  unfolding unmap_step_def by auto

lemma unmap_one:
  assumes inv: "pt_inv s root" and a: "a < MAXVA" "page_aligned a"
    and mapped: "pte_of (pmem s) root a AND PTE_V \<noteq> 0" "PTE_FLAGS (pte_of (pmem s) root a) \<noteq> PTE_V"
    and data: "do_free \<Longrightarrow> kpage s (pa_of s root a) \<and> pa_of s root a \<notin> free_pages s \<and>
      pa_of s root a \<notin> pt_pages (pmem s) root"
  shows "\<exists>s'. (\<forall>lim. a < lim \<longrightarrow> uvmunmap_from root a lim do_free s =
      uvmunmap_from root (a + PGSIZE) lim do_free s') \<and>
    unmap_step root (if do_free then {pa_of s root a} else {}) s s' \<and>
    (\<forall>vb<MAXVA. pte_of (pmem s') root vb = (if PGROUNDDOWN vb = a then 0 else pte_of (pmem s) root vb))"
proof -
  obtain l where l: "pt_leaf (pmem s) root a = Some l" using mapped_leaf [OF mapped(1)] by blast
  have l0: "l \<noteq> 0" using pt_leaf_nonzero [OF inv l] .
  have v: "pte_at s l = pte_of (pmem s) root a" using pte_of_leaf [OF l] by (simp add: pte_at_def)
  have pa: "PTE2PA (pte_of (pmem s) root a) = pa_of s root a" by (simp add: pa_of_def)
  obtain s1 where s1: "(if do_free then kfree (pa_of s root a) else ret ()) s = Ok () s1"
      "unmap_step root (if do_free then {pa_of s root a} else {}) s s1"
      "\<forall>va. pt_leaf (pmem s1) root va = pt_leaf (pmem s) root va"
      "\<forall>va. pte_of (pmem s1) root va = pte_of (pmem s) root va"
  proof (cases do_free)
    case True
    with data kfree_data_page [OF inv, of "pa_of s root a"] obtain s' where
      "kfree (pa_of s root a) s = Ok () s'" "unmap_step root {pa_of s root a} s s'"
      "\<forall>va. pt_leaf (pmem s') root va = pt_leaf (pmem s) root va"
      "\<forall>va. pte_of (pmem s') root va = pte_of (pmem s) root va"
      by (auto simp: unmap_step_def)
    with True that show thesis by simp
  next
    case False
    with inv that show thesis by (auto simp: unmap_step_def ret_def)
  qed
  have inv1: "pt_inv s1 root" using s1(2) by (simp add: unmap_step_def)
  have l1: "pt_leaf (pmem s1) root a = Some l" using s1(3) l by simp
  let ?s2 = "s1\<lparr>pmem := store64 (pmem s1) l 0\<rparr>"
  note leaf = set_leaf [OF inv1 l1 a(1), where v = 0]
  have "store64 (pmem s1) l 0 x = pmem s1 x" if "x \<notin> (\<Union>p \<in> pt_pages (pmem s1) root. span p 4096)" for x
    using that set_leaf_span [OF inv1 l1] by (intro store64_outside) blast
  then have "unmap_step root {} s1 ?s2"
    using leaf(1-3) by (simp add: unmap_step_def vm_step_def)
  from unmap_step_trans [OF s1(2) this]
  have "unmap_step root (if do_free then {pa_of s root a} else {}) s ?s2" by simp
  moreover have "uvmunmap_from root a lim do_free s = uvmunmap_from root (a + PGSIZE) lim do_free ?s2"
    if "a < lim" for lim
    using that walk_existing [OF a(1) l, of False] l0 v mapped s1(1) a(1)
    by (subst uvmunmap_from.simps) (simp add: bind_def set_pte_def pa cong: if_cong)
  ultimately show ?thesis
    using leaf(4) s1(4) a(2) by (intro exI [of _ ?s2]) auto
qed

lemma range_mapped_next:
  assumes "page_aligned a" and "unat a + 4096 * Suc n \<le> 2 ^ 38" and "range_mapped s root a (Suc n)"
    and "\<forall>vb<MAXVA. pte_of (pmem s') root vb = (if PGROUNDDOWN vb = a then 0 else pte_of (pmem s) root vb)"
  shows "range_mapped s' root (a + PGSIZE) n"
    and "range_pages s' root (a + PGSIZE) n = range_pages s root (a + PGSIZE) n"
    and "range_pages s root a (Suc n) = insert (pa_of s root a) (range_pages s root (a + PGSIZE) n)"
proof -
  note split = in_pages_Suc [OF assms(1,2)] and other = in_pages_next [OF assms(1,2)]
  have a: "a < MAXVA" using assms(2) by (simp add: lt_MAXVA)
  have same: "pte_of (pmem s') root vb = pte_of (pmem s) root vb" if "vb < MAXVA" "in_pages (a + PGSIZE) n vb" for vb
    using that assms(4) other by auto
  then show "range_mapped s' root (a + PGSIZE) n"
    using assms(3) split by (simp add: range_mapped_def)
  show "range_pages s' root (a + PGSIZE) n = range_pages s root (a + PGSIZE) n"
    unfolding range_pages_def setcompr_eq_image by (rule image_cong) (auto simp: pa_of_def same)
  have pa: "pa_of s root vb = pa_of s root a" if "PGROUNDDOWN vb = a" for vb
    using that pte_of_cong [of vb a] assms(1) by (simp add: pa_of_def)
  have "pa_of s root ` {va. va < MAXVA \<and> PGROUNDDOWN va = a} = {pa_of s root a}"
    using a pa PGROUNDDOWN_aligned [OF assms(1)] by blast
  moreover have "{va. va < MAXVA \<and> in_pages a (Suc n) va} =
      {va. va < MAXVA \<and> PGROUNDDOWN va = a} \<union> {va. va < MAXVA \<and> in_pages (a + PGSIZE) n va}"
    unfolding split by blast
  ultimately show "range_pages s root a (Suc n) = insert (pa_of s root a) (range_pages s root (a + PGSIZE) n)"
    unfolding range_pages_def setcompr_eq_image by (simp only: image_Un insert_is_Un [symmetric])
qed

lemma range_owned_next:
  assumes "page_aligned a" and "unat a + 4096 * Suc n \<le> 2 ^ 38"
    and own: "range_owned s root a (Suc n)" and mapped: "range_mapped s root a (Suc n)"
    and step: "unmap_step root {pa_of s root a} s s'"
    and pte: "\<forall>vb<MAXVA. pte_of (pmem s') root vb = (if PGROUNDDOWN vb = a then 0 else pte_of (pmem s) root vb)"
  shows "range_owned s' root (a + PGSIZE) n"
proof -
  note split = in_pages_Suc [OF assms(1,2)] and other = in_pages_next [OF assms(1,2)]
  note next_page = range_mapped_next [OF assms(1,2) mapped pte]
  have a: "a < MAXVA" "in_pages a (Suc n) a" using assms(1,2) split [of a] by (simp_all add: lt_MAXVA)
  have same: "pa_of s' root vb = pa_of s root vb" if "vb < MAXVA" "in_pages (a + PGSIZE) n vb" for vb
    using that pte other by (auto simp: pa_of_def)
  have "pa_of s root a \<noteq> pa_of s root vb" if "vb < MAXVA" "in_pages (a + PGSIZE) n vb" for vb
    using own that a split [of vb] other [of vb] assms(1)
    unfolding range_owned_def by (metis PGROUNDDOWN_aligned)
  then have "pa_of s root a \<notin> range_pages s root (a + PGSIZE) n"
    by (auto simp: range_pages_def)
  moreover have "kpage s' = kpage s" using step by (simp add: unmap_step_def kpage_def fun_eq_iff)
  ultimately have "\<forall>p \<in> range_pages s' root (a + PGSIZE) n.
      kpage s' p \<and> p \<notin> free_pages s' \<and> p \<notin> pt_pages (pmem s') root"
    using own step unfolding next_page(2) range_owned_def next_page(3) unmap_step_def by auto
  moreover have "PGROUNDDOWN va = PGROUNDDOWN vb" if "va < MAXVA" "vb < MAXVA" "in_pages (a + PGSIZE) n va"
      "in_pages (a + PGSIZE) n vb" "pa_of s' root va = pa_of s' root vb" for va vb
  proof -
    have "in_pages a (Suc n) va" "in_pages a (Suc n) vb" using that(3,4) split by blast+
    moreover have "pa_of s root va = pa_of s root vb"
      using that(5) same [OF that(1,3)] same [OF that(2,4)] by argo
    ultimately show ?thesis using own that(1,2) unfolding range_owned_def by blast
  qed
  ultimately show ?thesis unfolding range_owned_def by blast
qed

lemma uvmunmap_from_range:
  assumes "pt_inv s root" and "page_aligned a" and "unat a + 4096 * n \<le> 2 ^ 38"
    and "range_mapped s root a n" and "do_free \<longrightarrow> range_owned s root a n"
  shows "\<exists>s'. uvmunmap_from root a (a + of_nat n * PGSIZE) do_free s = Ok () s' \<and>
    unmap_step root (if do_free then range_pages s root a n else {}) s s' \<and>
    (\<forall>vb<MAXVA. pte_of (pmem s') root vb = (if in_pages a n vb then 0 else pte_of (pmem s) root vb))"
  using assms
proof (induction n arbitrary: s a)
  case 0
  then show ?case
    by (subst uvmunmap_from.simps) (simp add: ret_def unmap_step_def range_pages_def)
next
  case (Suc n)
  have a: "a < MAXVA" "unat (a + PGSIZE) = unat a + 4096" "page_aligned (a + PGSIZE)"
    using Suc.prems(2,3) unat_page_offset [of a 1] by (simp_all add: lt_MAXVA aligned_add)
  note split = in_pages_Suc [OF Suc.prems(2,3)]
  have a_in: "in_pages a (Suc n) a" using split [of a] Suc.prems(2) by simp
  have lim: "a + of_nat (Suc n) * PGSIZE = (a + PGSIZE) + of_nat n * PGSIZE"
    by (simp add: algebra_simps)
  have "unat (a + of_nat (Suc n) * PGSIZE) = unat a + 4096 * Suc n"
    using Suc.prems(3) by (intro unat_page_offset) simp
  then have lt: "a < (a + PGSIZE) + of_nat n * PGSIZE" unfolding lim by (simp add: word_less_nat_alt)
  have mapped: "pte_of (pmem s) root a AND PTE_V \<noteq> 0" "PTE_FLAGS (pte_of (pmem s) root a) \<noteq> PTE_V"
    using Suc.prems(4) a(1) a_in by (auto simp: range_mapped_def)
  have data: "kpage s (pa_of s root a) \<and> pa_of s root a \<notin> free_pages s \<and>
      pa_of s root a \<notin> pt_pages (pmem s) root" if do_free
    using Suc.prems(5) that a(1) a_in by (auto simp: range_owned_def range_pages_def)
  obtain s1 where s1:
    "\<forall>lim. a < lim \<longrightarrow> uvmunmap_from root a lim do_free s = uvmunmap_from root (a + PGSIZE) lim do_free s1"
    "unmap_step root (if do_free then {pa_of s root a} else {}) s s1"
    "\<forall>vb<MAXVA. pte_of (pmem s1) root vb = (if PGROUNDDOWN vb = a then 0 else pte_of (pmem s) root vb)"
    using unmap_one [OF Suc.prems(1) a(1) Suc.prems(2) mapped data] by blast
  note next_page = range_mapped_next [OF Suc.prems(2,3,4) s1(3)]
  have "do_free \<longrightarrow> range_owned s1 root (a + PGSIZE) n"
    using range_owned_next [OF Suc.prems(2,3) _ Suc.prems(4) _ s1(3)] Suc.prems(5) s1(2) by auto
  moreover have "pt_inv s1 root" using s1(2) by (simp add: unmap_step_def)
  ultimately obtain s' where s':
    "uvmunmap_from root (a + PGSIZE) ((a + PGSIZE) + of_nat n * PGSIZE) do_free s1 = Ok () s'"
    "unmap_step root (if do_free then range_pages s1 root (a + PGSIZE) n else {}) s1 s'"
    "\<forall>vb<MAXVA. pte_of (pmem s') root vb = (if in_pages (a + PGSIZE) n vb then 0 else pte_of (pmem s1) root vb)"
    using Suc.IH [OF _ a(3) _ next_page(1)] a(2) Suc.prems(3) by auto
  have "unmap_step root (if do_free then range_pages s root a (Suc n) else {}) s s'"
    using unmap_step_trans [OF s1(2) s'(2)] next_page(2,3) by (simp split: if_splits)
  then show ?case
    unfolding lim using s1(1,3) lt s'(1,3) split by (intro exI [of _ s']) auto
qed

subsection \<open>A concrete table\<close>

text \<open>
  A machine with one mapped page: three page-table pages from \<open>0x87ff0000\<close> and a data page, mapped at
  virtual address 0 for the user, and an empty free list.
\<close>

definition demo_mem :: memory where
  "demo_mem = store64 (store64 (store64 (\<lambda>_. 0) (slot 0x87ff0000 0) (PA2PTE 0x87ff1000 OR PTE_V))
     (slot 0x87ff1000 0) (PA2PTE 0x87ff2000 OR PTE_V))
     (slot 0x87ff2000 0) (PA2PTE 0x87ff3000 OR (PTE_R OR PTE_W OR PTE_U) OR PTE_V)"

definition demo :: kmem where
  "demo = \<lparr>pmem = demo_mem, freelist = 0, kend = 0x87ff0000\<rparr>"

lemma demo_aligned: "page_aligned (0x87ff0000 :: uint64)" "page_aligned (0x87ff1000 :: uint64)"
    "page_aligned (0x87ff2000 :: uint64)" "page_aligned (0x87ff3000 :: uint64)"
  by (simp_all add: aligned_def)

lemma load64_demo:
  assumes "unat i < 512"
  shows "load64 demo_mem (slot 0x87ff0000 i) = (if i = 0 then (PA2PTE 0x87ff1000 OR PTE_V) else 0)"
    and "load64 demo_mem (slot 0x87ff1000 i) = (if i = 0 then (PA2PTE 0x87ff2000 OR PTE_V) else 0)"
    and "load64 demo_mem (slot 0x87ff2000 i) =
      (if i = 0 then (PA2PTE 0x87ff3000 OR (PTE_R OR PTE_W OR PTE_U) OR PTE_V) else 0)"
proof -
  have other: "load64 (store64 m (slot q 0) v) (slot p j) = load64 m (slot p j)"
    if "unat j < 512" "page_aligned p" "page_aligned q" "p \<noteq> q \<or> j \<noteq> 0" for p q m v j
    using pt_slot_disjoint [OF that(3,2) _ that(1), of 0] that(4) by (intro load64_store64_other) auto
  show "load64 demo_mem (slot 0x87ff0000 i) = (if i = 0 then (PA2PTE 0x87ff1000 OR PTE_V) else 0)"
    by (cases "i = 0") (simp_all add: demo_mem_def other assms demo_aligned load64_store64 load64_zero_mem)
  show "load64 demo_mem (slot 0x87ff1000 i) = (if i = 0 then (PA2PTE 0x87ff2000 OR PTE_V) else 0)"
    by (cases "i = 0") (simp_all add: demo_mem_def other assms demo_aligned load64_store64 load64_zero_mem)
  show "load64 demo_mem (slot 0x87ff2000 i) =
      (if i = 0 then (PA2PTE 0x87ff3000 OR (PTE_R OR PTE_W OR PTE_U) OR PTE_V) else 0)"
    by (cases "i = 0") (simp_all add: demo_mem_def other assms demo_aligned load64_store64 load64_zero_mem)
qed

lemma PTE_V_nonzero: "PTE_V \<noteq> 0"
  by (simp add: PTE_V_def)

lemma demo_node:
  assumes "pt_path q"
  shows "pt_node demo_mem 0x87ff0000 q =
    (if q = [] then Some 0x87ff0000 else if q = [0] then Some 0x87ff1000
     else if q = [0, 0] then Some 0x87ff2000 else None)"
proof -
  note one = load64_demo PTE_V_set PTE2PA_PA2PTE [OF _ PTE_V_set(2)] demo_aligned
  consider "q = []" | i where "q = [i]" "unat i < 512" | i j where "q = [i, j]" "unat i < 512" "unat j < 512"
    using assms by (cases q; cases "tl q"; auto simp: pt_path_def)
  then show ?thesis by cases (simp_all add: pt_node.simps(2) one Let_def PTE_V_nonzero)
qed

lemma demo_free: "kmem_inv demo" "free_pages demo = {}"
proof -
  have run: "run_list (pmem demo) (freelist demo) []" by (simp add: demo_def)
  then show "free_pages demo = {}" using free_pages_run_list [OF run] by simp
  show "kmem_inv demo" using run by (auto simp: kmem_inv_def demo_def intro!: exI [of _ "[]"])
qed

lemma demo_kpage: "kpage demo 0x87ff0000" "kpage demo 0x87ff1000" "kpage demo 0x87ff2000" "kpage demo 0x87ff3000"
  by (simp_all add: kpage_def demo_def demo_aligned layout_defs)

lemma demo_inv: "pt_inv demo 0x87ff0000"
proof -
  have "pt_wf demo_mem (\<lambda>p. kpage demo p \<and> p \<notin> free_pages demo) 0x87ff0000"
    unfolding pt_wf_def using demo_node demo_kpage demo_free(2) demo_aligned by (auto split: if_splits)
  then show ?thesis using demo_free(1) by (simp add: pt_inv_def demo_def)
qed

lemma demo_pages: "pt_pages (pmem demo) 0x87ff0000 = {0x87ff0000, 0x87ff1000, 0x87ff2000}"
proof -
  have "pt_node demo_mem 0x87ff0000 [] = Some 0x87ff0000" "pt_node demo_mem 0x87ff0000 [0] = Some 0x87ff1000"
    "pt_node demo_mem 0x87ff0000 [0, 0] = Some 0x87ff2000" "pt_path []" "pt_path [0]" "pt_path [0, 0]"
    by (simp_all add: demo_node)
  then have "{0x87ff0000, 0x87ff1000, 0x87ff2000} \<subseteq> pt_pages (pmem demo) 0x87ff0000"
    unfolding pt_pages_def demo_def kmem.select_convs by blast
  moreover have "pt_pages (pmem demo) 0x87ff0000 \<subseteq> {0x87ff0000, 0x87ff1000, 0x87ff2000}"
    using demo_node by (auto simp: pt_pages_def demo_def split: if_splits)
  ultimately show ?thesis by blast
qed

abbreviation demo_pte :: uint64 where
  "demo_pte \<equiv> PA2PTE 0x87ff3000 OR (PTE_R OR PTE_W OR PTE_U) OR PTE_V"

lemma demo_pte_of:
  assumes "va < MAXVA"
  shows "pte_of (pmem demo) 0x87ff0000 va = (if PGROUNDDOWN va = 0 then demo_pte else 0)"
proof -
  have PX0: "PX l (0 :: uint64) = 0" for l by (simp add: word_unat_eq_iff unat_PX)
  have "PGROUNDDOWN va = 0 \<longleftrightarrow> PX 2 va = 0 \<and> PX 1 va = 0 \<and> PX 0 va = 0"
  proof
    assume a: "PX 2 va = 0 \<and> PX 1 va = 0 \<and> PX 0 va = 0"
    with PX0 have "PGROUNDDOWN va = PGROUNDDOWN 0" using assms by (intro PX_inject) (auto simp: lt_MAXVA)
    then show "PGROUNDDOWN va = 0" by (simp add: PGROUNDDOWN_def)
  next
    assume "PGROUNDDOWN va = 0"
    then show "PX 2 va = 0 \<and> PX 1 va = 0 \<and> PX 0 va = 0"
      using PX0 PX_PGROUNDDOWN [of _ va] by metis
  qed
  then show ?thesis
    using demo_node [of "[PX 2 va, PX 1 va]"] load64_demo(3) [of "PX 0 va"]
    by (auto simp: pte_of_def pt_leaf_def demo_def)
qed

lemma demo_pte_bits: "demo_pte AND PTE_V \<noteq> 0" "demo_pte AND PTE_U \<noteq> 0" "PTE2PA demo_pte = 0x87ff3000"
    "PTE_FLAGS demo_pte \<noteq> PTE_V"
  by (simp_all add: PA2PTE_def PTE2PA_def PTE_FLAGS_def PTE_V_def PTE_R_def PTE_W_def PTE_U_def)

subsection \<open>The theorems\<close>

text \<open>
  C3: \<open>mappages\<close> refines the update of a map. Mapping one aligned, unmapped page either returns 0 with
  the entry of exactly that page set to the frame and permissions asked for, or returns -1 because
  memory ran out; in both cases every other entry, the tree invariant, the allocator invariant and all
  memory outside the table and the free pages are kept.
\<close>

theorem mappages_refines_update:
  assumes "pt_inv s root" and "page_aligned va" and "va < MAXVA"
    and "pte_of (pmem s) root va AND PTE_V = 0"
  shows "\<exists>r s'. mappages root va PGSIZE pa perm s = Ok r s' \<and> pt_inv s' root \<and>
    (\<forall>vb<MAXVA. PGROUNDDOWN vb \<noteq> va \<longrightarrow> pte_of (pmem s') root vb = pte_of (pmem s) root vb) \<and>
    (r = 0 \<and> (\<forall>vb<MAXVA. PGROUNDDOWN vb = va \<longrightarrow>
        pte_of (pmem s') root vb = (PA2PTE pa OR perm OR PTE_V)) \<or>
     r = -1 \<and> free_pages s' = {}) \<and>
    (\<forall>x. x \<notin> vm_region s root \<longrightarrow> pmem s' x = pmem s x)"
  using mappages_one [OF assms, of pa perm] unfolding vm_step_def by blast

theorem mappages_refines_update_witness:
  "\<exists>r s'. mappages 0x87ff0000 0x1000 PGSIZE 0x87ff4000 PTE_R demo = Ok r s' \<and> pt_inv s' 0x87ff0000 \<and>
     pte_of (pmem s') 0x87ff0000 0 = demo_pte"
proof -
  have va: "page_aligned (0x1000 :: uint64)" "(0x1000 :: uint64) < MAXVA" by (simp_all add: aligned_def lt_MAXVA)
  have "PGROUNDDOWN (0 :: uint64) = 0" "(0 :: uint64) < MAXVA" by (simp_all add: PGROUNDDOWN_def lt_MAXVA)
  then show ?thesis
    using mappages_refines_update [OF demo_inv va, of "0x87ff4000" PTE_R] demo_pte_of va by fastforce
qed

text \<open>
  C4: Mapping a page twice is caught. If the page already has a valid entry, \<open>mappages\<close> panics and
  never overwrites it.
\<close>

theorem mappages_no_remap:
  assumes "pt_inv s root" and "page_aligned va" and "va < MAXVA"
    and "pte_of (pmem s) root va AND PTE_V \<noteq> 0"
  shows "mappages root va PGSIZE pa perm s = Panic ''mappages: remap''"
  using mappages_remap_panics [OF assms] .

theorem mappages_no_remap_witness:
  "mappages 0x87ff0000 0 PGSIZE 0x87ff4000 PTE_R demo = Panic ''mappages: remap''"
  using demo_pte_of [of 0] demo_pte_bits(1)
  by (intro mappages_no_remap demo_inv) (simp_all add: aligned_def lt_MAXVA PGROUNDDOWN_def)

text \<open>
  C5: \<open>uvmunmap\<close> refines removal from a map. When every page of the range is mapped it returns, the
  entries of the range and no others are cleared, the table stays a tree of allocated pages, and with
  \<open>do_free\<close> exactly the data pages of the range go back to the free list.
\<close>

theorem uvmunmap_refines_removal:
  assumes "pt_inv s root" and "page_aligned va" and "unat va + 4096 * n \<le> 2 ^ 38"
    and "range_mapped s root va n" and "do_free \<longrightarrow> range_owned s root va n"
  shows "\<exists>s'. uvmunmap root va (of_nat n) do_free s = Ok () s' \<and> pt_inv s' root \<and>
    free_pages s' = free_pages s \<union> (if do_free then range_pages s root va n else {}) \<and>
    (\<forall>vb<MAXVA. pte_of (pmem s') root vb = (if in_pages va n vb then 0 else pte_of (pmem s) root vb))"
proof -
  have "va mod PGSIZE = 0" using assms(2) by (simp add: page_aligned_mod)
  then show ?thesis
    using uvmunmap_from_range [OF assms] by (auto simp: uvmunmap_def unmap_step_def)
qed

theorem uvmunmap_refines_removal_witness:
  "\<exists>s'. uvmunmap 0x87ff0000 0 1 True demo = Ok () s' \<and> free_pages s' = {0x87ff3000} \<and>
     pte_of (pmem s') 0x87ff0000 0 = 0"
proof -
  have in0: "in_pages 0 (Suc 0) va \<longleftrightarrow> PGROUNDDOWN va = 0" for va
    using in_pages_Suc [of 0 0 va] by (simp add: aligned_def)
  have z: "PGROUNDDOWN (0 :: uint64) = 0" "(0 :: uint64) < MAXVA" by (simp_all add: PGROUNDDOWN_def lt_MAXVA)
  have mapped: "range_mapped demo 0x87ff0000 0 1"
    using demo_pte_of demo_pte_bits by (simp add: range_mapped_def in0)
  have pages: "range_pages demo 0x87ff0000 0 1 = {0x87ff3000}"
    using demo_pte_of demo_pte_bits z by (auto simp: range_pages_def in0 pa_of_def intro!: exI [of _ 0])
  have "range_owned demo 0x87ff0000 0 1"
    unfolding range_owned_def pages using demo_kpage(4) demo_free(2) demo_pages by (auto simp: in0)
  then show ?thesis
    using uvmunmap_refines_removal [OF demo_inv _ _ mapped, of True] pages demo_free(2) z in0
    by (auto simp: aligned_def)
qed

end
