(* ===== verification/Uspace.thy ===== *)
theory Uspace
  imports Pagetable
begin

text \<open>
  User memory as \<^verbatim>\<open>copyin\<close>, \<^verbatim>\<open>copyout\<close> and \<^verbatim>\<open>copyinstr\<close> of \<^verbatim>\<open>kernel/vm.c\<close> see it.

  \<open>uaddr\<close> translates a user address with the abstract map of the page table and \<open>ubyte\<close> is the byte
  there. The lemmas show that \<open>copyin\<close> reads and \<open>copyout\<close> writes exactly the bytes of the range, across
  page boundaries, and that both fail exactly when a byte of the range is not mapped for the user.
\<close>

definition uaddr :: "'a kmem_scheme \<Rightarrow> uint64 \<Rightarrow> uint64 \<Rightarrow> uint64 option" where
  "uaddr s root va =
     (let pte = pte_of (pmem s) root va in
      if va < MAXVA \<and> pte AND PTE_V \<noteq> 0 \<and> pte AND PTE_U \<noteq> 0 \<and> PTE2PA pte \<noteq> 0
      then Some (PTE2PA pte + (va - PGROUNDDOWN va)) else None)"

definition ubyte :: "'a kmem_scheme \<Rightarrow> uint64 \<Rightarrow> uint64 \<Rightarrow> byte option" where
  "ubyte s root va = map_option (pmem s) (uaddr s root va)"

definition umapped :: "'a kmem_scheme \<Rightarrow> uint64 \<Rightarrow> uint64 \<Rightarrow> nat \<Rightarrow> bool" where
  "umapped s root va n \<longleftrightarrow> (\<forall>i<n. ubyte s root (va + of_nat i) \<noteq> None)"

definition ubytes :: "'a kmem_scheme \<Rightarrow> uint64 \<Rightarrow> uint64 \<Rightarrow> nat \<Rightarrow> byte list" where
  "ubytes s root va n = map (\<lambda>i. the (ubyte s root (va + of_nat i))) [0..<n]"

lemma length_ubytes [simp]: "length (ubytes s root va n) = n"
  by (simp add: ubytes_def)

lemma umapped_add: "umapped s root va (m + n) \<longleftrightarrow>
    umapped s root va m \<and> umapped s root (va + of_nat m) n"
proof
  assume l: "umapped s root va (m + n)"
  have "ubyte s root (va + of_nat m + of_nat i) \<noteq> None" if "i < n" for i
    using l [unfolded umapped_def, rule_format, of "m + i"] that by (simp add: add.assoc)
  with l show "umapped s root va m \<and> umapped s root (va + of_nat m) n" by (auto simp: umapped_def)
next
  assume r: "umapped s root va m \<and> umapped s root (va + of_nat m) n"
  have "ubyte s root (va + of_nat i) \<noteq> None" if "i < m + n" for i
  proof (cases "i < m")
    case True
    with r show ?thesis by (simp add: umapped_def)
  next
    case False
    then obtain j where "i = m + j" by (metis le_Suc_ex not_less)
    with r that show ?thesis by (auto simp: umapped_def add.assoc)
  qed
  then show "umapped s root va (m + n)" by (simp add: umapped_def)
qed

lemma ubytes_add: "ubytes s root va (m + n) = ubytes s root va m @ ubytes s root (va + of_nat m) n"
  by (rule nth_equalityI) (auto simp: ubytes_def nth_append add.assoc simp flip: of_nat_add)

subsection \<open>Addresses within a page\<close>

lemma unat_page_off: "unat (va - PGROUNDDOWN va) = unat va mod 4096"
  using PGROUNDDOWN_le [of va] by (simp add: unat_sub unat_PGROUNDDOWN minus_div_mult_eq_mod)

lemma in_page_add:
  assumes "i < page_room va"
  shows "PGROUNDDOWN (va + of_nat i) = PGROUNDDOWN va" and "unat (va + of_nat i) = unat va + i"
proof -
  have i: "unat va mod 4096 + i < 4096" using assms by (simp add: page_room_eq unat_page_off)
  have "(2 :: nat) ^ 64 = 4096 * 2 ^ 52" by simp
  moreover have "unat va div 4096 < 2 ^ 52"
    using unsigned_less [where 'a = nat, of va] by (simp add: less_mult_imp_div_less)
  ultimately have "unat va div 4096 * 4096 + 4096 \<le> (2 :: nat) ^ 64" by linarith
  then have lt: "unat va + i < 2 ^ 64" using i div_mult_mod_eq [of "unat va" 4096] by linarith
  then show un: "unat (va + of_nat i) = unat va + i" by (intro unat_offset) simp
  have "unat va + i = (unat va mod 4096 + i) + unat va div 4096 * 4096" by simp
  then have "(unat va + i) div 4096 = unat va div 4096" using i by (metis div_less div_mult_self1 add_0_right zero_neq_numeral)
  then show "PGROUNDDOWN (va + of_nat i) = PGROUNDDOWN va"
    using un by (simp add: word_unat_eq_iff unat_PGROUNDDOWN)
qed

lemma lt_MAXVA_page: "PGROUNDDOWN va < MAXVA \<longleftrightarrow> va < MAXVA"
proof -
  have "unat va div 4096 * 4096 < 2 ^ 26 * 4096 \<longleftrightarrow> unat va < 2 ^ 26 * 4096"
    by (simp only: mult_less_cancel2 div_less_iff_less_mult) simp
  then have "unat va div 4096 * 4096 < 2 ^ 38 \<longleftrightarrow> unat va < 2 ^ 38" by simp
  then show ?thesis by (simp only: lt_MAXVA unat_PGROUNDDOWN)
qed

lemma same_page_lt: "PGROUNDDOWN va = PGROUNDDOWN vb \<Longrightarrow> va < MAXVA \<longleftrightarrow> vb < MAXVA"
  using lt_MAXVA_page by metis

lemma uaddr_offset:
  assumes "i < page_room va"
  shows "uaddr s root (va + of_nat i) = map_option (\<lambda>a. a + of_nat i) (uaddr s root va)"
proof -
  note pg = in_page_add(1) [OF assms]
  have "pte_of (pmem s) root (va + of_nat i) = pte_of (pmem s) root va"
    using pte_of_cong [OF pg] .
  then show ?thesis using same_page_lt [OF pg] by (simp add: uaddr_def Let_def pg algebra_simps)
qed

lemma walkaddr_uaddr:
  assumes "pt_inv s root"
  shows "walkaddr root (PGROUNDDOWN va) s =
    Ok (case uaddr s root va of None \<Rightarrow> 0 | Some a \<Rightarrow> a - (va - PGROUNDDOWN va)) s"
proof -
  have "pte_of (pmem s) root (PGROUNDDOWN va) = pte_of (pmem s) root va"
    by (intro pte_of_cong) simp
  then show ?thesis
    using walkaddr_eq [OF assms] by (simp add: uaddr_def Let_def lt_MAXVA_page)
qed

lemma next_page_addr: "PGROUNDDOWN va + PGSIZE = va + of_nat (page_room va)"
proof -
  have "of_nat (page_room va) = PGSIZE - (va - PGROUNDDOWN va)" by (simp add: page_room_def)
  then show ?thesis by simp
qed

subsection \<open>Reading user memory\<close>

lemma chunk_read:
  assumes "uaddr s root va = Some a" and "n \<le> page_room va"
  shows "umapped s root va n" and "ubytes s root va n = mread (pmem s) a n"
proof -
  have "ubyte s root (va + of_nat i) = Some (pmem s (a + of_nat i))" if "i < n" for i
    using uaddr_offset [of i va s root] that assms by (simp add: ubyte_def)
  then show "umapped s root va n" "ubytes s root va n = mread (pmem s) a n"
    by (auto simp: umapped_def ubytes_def mread_def)
qed

lemma chunk_unmapped: "uaddr s root va = None \<Longrightarrow> 0 < n \<Longrightarrow> \<not> umapped s root va n"
  by (auto simp: umapped_def ubyte_def intro!: exI [of _ 0])

lemma page_split:
  fixes va :: uint64 and n :: nat
  assumes "0 < n"
  defines "k \<equiv> min (page_room va) n"
  shows "umapped s root va n \<longleftrightarrow> umapped s root va k \<and> umapped s root (PGROUNDDOWN va + PGSIZE) (n - k)"
    and "ubytes s root va n = ubytes s root va k @ ubytes s root (PGROUNDDOWN va + PGSIZE) (n - k)"
proof -
  have "n = k + (n - k)" by (simp add: k_def)
  moreover have "n - k = 0 \<or> PGROUNDDOWN va + PGSIZE = va + of_nat k"
    by (auto simp: k_def next_page_addr min_def)
  ultimately show "umapped s root va n \<longleftrightarrow> umapped s root va k \<and> umapped s root (PGROUNDDOWN va + PGSIZE) (n - k)"
    "ubytes s root va n = ubytes s root va k @ ubytes s root (PGROUNDDOWN va + PGSIZE) (n - k)"
    using umapped_add [of s root va k "n - k"] ubytes_add [of s root va k "n - k"]
    by (auto simp: umapped_def [of _ _ _ 0] ubytes_def [of _ _ _ 0])
qed

lemma copyin_spec:
  assumes "pt_inv s root"
  shows "\<exists>k \<le> len. copyin root va len s = Ok (if umapped s root va len then 0 else -1, ubytes s root va k) s \<and>
    (umapped s root va len \<longrightarrow> k = len)"
proof (induction len arbitrary: va rule: less_induct)
  case (less len)
  show ?case
  proof (cases "len > 0")
    case False
    then show ?thesis by (subst copyin.simps) (simp add: umapped_def ubytes_def ret_def)
  next
    case True
    let ?n = "min (page_room va) len" and ?va = "PGROUNDDOWN va + PGSIZE"
    note split = page_split [OF True, where va = va and s = s and root = root]
    show ?thesis
    proof (cases "uaddr s root va")
      case None
      then show ?thesis
        using True chunk_unmapped [OF None True] walkaddr_uaddr [OF assms, of va]
        by (intro exI [of _ 0]) (subst copyin.simps, simp add: bind_def ret_def ubytes_def Let_def)
    next
      case (Some a)
      have a0: "a - (va - PGROUNDDOWN va) \<noteq> 0"
        using Some by (auto simp: uaddr_def Let_def split: if_splits)
      note chunk = chunk_read [OF Some, of ?n]
      obtain k where k: "k \<le> len - ?n" "umapped s root ?va (len - ?n) \<longrightarrow> k = len - ?n"
        "copyin root ?va (len - ?n) s = Ok (if umapped s root ?va (len - ?n) then 0 else -1, ubytes s root ?va k) s"
        using less [of "len - ?n" ?va] True page_room_pos [of va] by auto
      have "ubytes s root va (?n + k) = ubytes s root va ?n @ ubytes s root ?va k"
        using k(1) by (cases "?n = len") (auto simp: ubytes_add min_def next_page_addr ubytes_def [of _ _ _ 0] split: if_splits)
      moreover have "umapped s root va len \<longleftrightarrow> umapped s root ?va (len - ?n)" using split(1) chunk by simp
      ultimately show ?thesis
        using True k chunk a0 walkaddr_uaddr [OF assms, of va] Some
        by (intro exI [of _ "?n + k"]) (subst copyin.simps, auto simp: bind_def ret_def gets_def Let_def)
    qed
  qed
qed

text \<open>The string that a zero byte of a block ends, the terminator included.\<close>

definition str_of :: "byte list \<Rightarrow> byte list" where
  "str_of bs = takeWhile (\<lambda>c. c \<noteq> 0) bs @ [0]"

lemma str_of_append: "0 \<notin> set bs \<Longrightarrow> str_of (bs @ cs) = bs @ str_of cs"
  by (induction bs) (auto simp: str_of_def)

lemma mread_Suc: "mread m a (Suc n) = m a # mread m (a + 1) n"
  by (simp add: mread_def upt_conv_Cons map_Suc_upt [symmetric] add.assoc del: upt_Suc)

lemma copyinstr_page_eq:
  "copyinstr_page n m p = (let bs = mread m p n in if 0 \<in> set bs then (str_of bs, True) else (bs, False))"
  by (induction n arbitrary: p) (auto simp: mread_Suc str_of_def Let_def mread_def [of _ _ 0] split: prod.splits)

lemma ubytes_prefix: "k \<le> n \<Longrightarrow> ubytes s root va k = take k (ubytes s root va n)"
  by (rule nth_equalityI) (auto simp: ubytes_def)

lemma copyinstr_spec:
  assumes "pt_inv s root"
  shows "(\<exists>k \<le> mx. umapped s root va k \<and> 0 \<in> set (ubytes s root va k) \<and>
      copyinstr root va mx s = Ok (0, str_of (ubytes s root va k)) s) \<or>
    (\<forall>k \<le> mx. umapped s root va k \<longrightarrow> 0 \<notin> set (ubytes s root va k)) \<and>
      (\<exists>bs. copyinstr root va mx s = Ok (-1, bs) s)"
proof (induction mx arbitrary: va rule: less_induct)
  case (less mx)
  show ?case
  proof (cases "mx > 0")
    case False
    then show ?thesis by (subst (1 2) copyinstr.simps) (simp add: ubytes_def ret_def)
  next
    case True
    let ?n = "min (page_room va) mx" and ?va = "PGROUNDDOWN va + PGSIZE"
    show ?thesis
    proof (cases "uaddr s root va")
      case None
      have "0 \<notin> set (ubytes s root va k)" if "umapped s root va k" for k
        using that chunk_unmapped [OF None, of k] by (cases k) (auto simp: ubytes_def)
      then show ?thesis
        using True walkaddr_uaddr [OF assms, of va] None
        by (intro disjI2) (subst copyinstr.simps, simp add: bind_def ret_def Let_def)
    next
      case (Some a)
      have a0: "a - (va - PGROUNDDOWN va) \<noteq> 0"
        using Some by (auto simp: uaddr_def Let_def split: if_splits)
      note chunk = chunk_read [OF Some, of ?n, simplified]
      have run: "copyinstr root va mx s = (if 0 \<in> set (ubytes s root va ?n) then Ok (0, str_of (ubytes s root va ?n)) s
          else bind (copyinstr root ?va (mx - ?n)) (\<lambda>(r, rest). ret (r, ubytes s root va ?n @ rest)) s)"
        using True Some a0 walkaddr_uaddr [OF assms, of va] chunk(2)
        by (subst copyinstr.simps) (simp add: bind_def ret_def gets_def Let_def copyinstr_page_eq)
      show ?thesis
      proof (cases "0 \<in> set (ubytes s root va ?n)")
        case True
        then show ?thesis using run chunk(1) by (intro disjI1 exI [of _ ?n]) auto
      next
        case no0: False
        have "mx - ?n < mx" using True page_room_pos [of va] by auto
        have later: "umapped s root va (?n + k) \<longleftrightarrow> umapped s root ?va k"
          "ubytes s root va (?n + k) = ubytes s root va ?n @ ubytes s root ?va k" if "k \<le> mx - ?n" for k
          using that chunk(1) by (cases "page_room va \<le> mx"; auto simp: umapped_add ubytes_add next_page_addr
              min_def umapped_def [of _ _ _ 0] ubytes_def [of _ _ _ 0])+
        have split: "\<exists>j \<le> mx - ?n. k = ?n + j" if "k \<le> mx" "\<not> k \<le> ?n" for k
          using that by (intro exI [of _ "k - ?n"]) auto
        from less [OF \<open>mx - ?n < mx\<close>, of ?va] show ?thesis
        proof (elim disjE exE conjE)
          fix k assume k: "k \<le> mx - ?n" "umapped s root ?va k" "0 \<in> set (ubytes s root ?va k)"
            "copyinstr root ?va (mx - ?n) s = Ok (0, str_of (ubytes s root ?va k)) s"
          then show ?thesis using run no0 later [OF k(1)]
            by (intro disjI1 exI [of _ "?n + k"]) (auto simp: bind_def ret_def str_of_append)
        next
          fix bs assume none: "\<forall>k \<le> mx - ?n. umapped s root ?va k \<longrightarrow> 0 \<notin> set (ubytes s root ?va k)"
            and bs: "copyinstr root ?va (mx - ?n) s = Ok (- 1, bs) s"
          have "0 \<notin> set (ubytes s root va k)" if "k \<le> mx" "umapped s root va k" for k
          proof (cases "k \<le> ?n")
            case True
            then show ?thesis using no0 ubytes_prefix [OF True] in_set_takeD by metis
          next
            case False
            then show ?thesis using split [OF that(1)] later none no0 that(2) by auto
          qed
          then show ?thesis using run no0 bs by (intro disjI2) (auto simp: bind_def ret_def)
        qed
      qed
    qed
  qed
qed

subsection \<open>Writing user memory\<close>

text \<open>
  The user pages of an address space are page frames of their own: not free, not part of the page
  table, and mapped at one address.
\<close>

definition uspace :: "'a kmem_scheme \<Rightarrow> uint64 \<Rightarrow> bool" where
  "uspace s root \<longleftrightarrow>
     (\<forall>va. uaddr s root va \<noteq> None \<longrightarrow>
        pa_of s root va \<notin> free_pages s \<and> pa_of s root va \<notin> pt_pages (pmem s) root) \<and>
     (\<forall>va vb. uaddr s root va \<noteq> None \<longrightarrow> uaddr s root vb \<noteq> None \<longrightarrow>
        pa_of s root va = pa_of s root vb \<longrightarrow> PGROUNDDOWN va = PGROUNDDOWN vb)"

lemma uaddrD:
  assumes "uaddr s root va = Some a"
  shows "a = pa_of s root va + (va - PGROUNDDOWN va)" and "va < MAXVA"
  using assms by (auto simp: uaddr_def pa_of_def Let_def split: if_splits)

lemma pa_of_aligned [simp]: "page_aligned (pa_of s root va)"
  by (simp add: pa_of_def aligned_PTE2PA)

lemma uaddr_span:
  assumes "uaddr s root va = Some a" and "n \<le> page_room va"
  shows "span a n \<subseteq> span (pa_of s root va) 4096"
proof
  fix x assume x: "x \<in> span a n"
  then have i: "unat (x - a) < page_room va" using assms(2) by (simp add: span_def)
  have "x - pa_of s root va = (va - PGROUNDDOWN va) + of_nat (unat (x - a))"
    using uaddrD(1) [OF assms(1)] by simp
  moreover have "unat (va - PGROUNDDOWN va) + unat (x - a) < 4096"
    using i page_offset_lt [of va] by (simp add: page_room_eq)
  ultimately have "unat (x - pa_of s root va) < 4096"
    using unat_offset [of "va - PGROUNDDOWN va" "unat (x - a)"] by (simp only:) simp
  then show "x \<in> span (pa_of s root va) 4096" by (simp add: span_def)
qed

text \<open>A write within a user page changes the bytes written and no others.\<close>

lemma user_write:
  assumes inv: "pt_inv s root" and usp: "uspace s root" and a: "uaddr s root va = Some a"
    and len: "length bs \<le> page_room va"
  defines "s' \<equiv> s\<lparr>pmem := mwrite (pmem s) a bs\<rparr>"
  shows "pt_inv s' root" and "uspace s' root" and "\<And>vb. uaddr s' root vb = uaddr s root vb"
    and "free_pages s' = free_pages s"
    and "\<And>vb. ubyte s' root vb = (if unat (vb - va) < length bs then Some (bs ! unat (vb - va)) else ubyte s root vb)"
proof -
  let ?p = "pa_of s root va"
  have wf: "pt_wf (pmem s) (\<lambda>p. kpage s p \<and> p \<notin> free_pages s) root" and kinv: "kmem_inv s"
    using inv by (auto simp: pt_inv_def)
  have p: "?p \<notin> free_pages s" "?p \<notin> pt_pages (pmem s) root" using usp a by (auto simp: uspace_def)
  have out: "mwrite (pmem s) a bs x = pmem s x" if "x \<notin> span ?p 4096" for x
    using that uaddr_span [OF a len] by (intro mwrite_outside) blast
  have off: "mwrite (pmem s) a bs x = pmem s x" if "q \<noteq> ?p" "page_aligned q" "x \<in> span q 4096" for q x
    using that out page_span_disjoint [of q ?p] by auto
  have al: "page_aligned q" if "q \<in> pt_pages (pmem s) root" for q
    using that pt_wf_page [OF wf] by (auto simp: pt_pages_def)
  have "mwrite (pmem s) a bs x = pmem s x" if "q \<in> pt_pages (pmem s) root" "x \<in> span q 4096" for q x
    using off [OF _ al [OF that(1)] that(2)] that(1) p(2) by blast
  note frame = pt_mem_frame [where m' = "mwrite (pmem s) a bs", OF wf this]
  have "mwrite (pmem s) a bs x = pmem s x" if "f \<in> free_pages s" "x \<in> span f 8" for f x
    using that p(1) free_pages_kpage [OF kinv that(1)] page_head_span [of f]
    by (intro off [of f]) (auto simp: kpage_def)
  note mem = kmem_inv_mem [OF kinv this]
  show free: "free_pages s' = free_pages s" using mem(2) by (simp add: s'_def)
  have "pt_wf (pmem s') (\<lambda>p. kpage s' p \<and> p \<notin> free_pages s') root"
    unfolding free using frame(1) by (intro pt_wf_same [OF wf]) (auto simp: s'_def kpage_def)
  then show "pt_inv s' root" using mem(1) by (simp add: pt_inv_def s'_def)
  have pte: "pte_of (pmem s') root vb = pte_of (pmem s) root vb" for vb
    using frame(4) by (simp add: s'_def)
  show ua: "uaddr s' root vb = uaddr s root vb" for vb by (simp add: uaddr_def pte)
  have pa: "pa_of s' root vb = pa_of s root vb" for vb by (simp add: pa_of_def pte)
  have "pt_pages (pmem s') root = pt_pages (pmem s) root" using frame(2) by (simp add: s'_def)
  then have "uspace s' root \<longleftrightarrow> uspace s root" by (simp only: uspace_def ua pa free)
  with usp show "uspace s' root" by blast
  show "ubyte s' root vb = (if unat (vb - va) < length bs then Some (bs ! unat (vb - va)) else ubyte s root vb)" for vb
  proof (cases "unat (vb - va) < length bs")
    case True
    then have "uaddr s root (va + of_nat (unat (vb - va))) = Some (a + (vb - va))"
      using uaddr_offset [of "unat (vb - va)" va s root] len a by simp
    then show ?thesis using True ua by (simp add: ubyte_def s'_def mwrite_def)
  next
    case False
    have "mwrite (pmem s) a bs b = pmem s b" if b: "uaddr s root vb = Some b" for b
    proof (cases "pa_of s root vb = ?p")
      case True
      then have "PGROUNDDOWN vb = PGROUNDDOWN va" using usp a b unfolding uspace_def by blast
      then have "b - a = vb - va" using uaddrD(1) [OF a] uaddrD(1) [OF b] True by simp
      with False show ?thesis by (simp add: mwrite_def)
    next
      case diff: False
      have "b \<in> span (pa_of s root vb) 4096"
        using subsetD [OF uaddr_span [OF b, of 1], of b] page_room_pos [of vb] by (simp add: span_def)
      then show ?thesis using off [OF diff] by simp
    qed
    then show ?thesis using False ua by (cases "uaddr s root vb") (auto simp: ubyte_def s'_def)
  qed
qed

text \<open>
  What a store of \<open>src\<close> at \<open>va\<close> that got through (\<open>ok\<close>) or stopped early does to the user memory of
  \<open>root\<close>.
\<close>

definition copied_out :: "uint64 \<Rightarrow> uint64 \<Rightarrow> byte list \<Rightarrow> bool \<Rightarrow> 'a kmem_scheme \<Rightarrow> 'a kmem_scheme \<Rightarrow> bool" where
  "copied_out root va src ok s s' \<longleftrightarrow>
     pt_inv s' root \<and> uspace s' root \<and> s' = s\<lparr>pmem := pmem s'\<rparr> \<and> free_pages s' = free_pages s \<and>
     (\<forall>vb. uaddr s' root vb = uaddr s root vb) \<and>
     (\<forall>vb. unat (vb - va) \<ge> length src \<longrightarrow> ubyte s' root vb = ubyte s root vb) \<and>
     (ok \<longrightarrow> (\<forall>vb. unat (vb - va) < length src \<longrightarrow> ubyte s' root vb = Some (src ! unat (vb - va))))"

lemma copied_out_page:
  assumes "pt_inv s root" and "uspace s root" and "uaddr s root va = Some a" and "length bs \<le> page_room va"
  shows "copied_out root va bs True s (s\<lparr>pmem := mwrite (pmem s) a bs\<rparr>)"
  using user_write [OF assms] by (simp add: copied_out_def)

lemma copied_out_refl: "pt_inv s root \<Longrightarrow> uspace s root \<Longrightarrow> copied_out root va src (src = []) s s"
  by (simp add: copied_out_def)

lemma unat_diff_offset:
  fixes vb va :: uint64
  assumes "n \<le> l" and "l < 2 ^ 64"
  shows "unat (vb - va) < n \<Longrightarrow> l - n \<le> unat (vb - (va + of_nat n))"
    and "n \<le> unat (vb - va) \<Longrightarrow> unat (vb - (va + of_nat n)) = unat (vb - va) - n"
proof -
  have n: "unat (of_nat n :: uint64) = n" using assms by (simp add: unat_of_nat)
  have d: "vb - (va + of_nat n) = (vb - va) - of_nat n" by simp
  show "n \<le> unat (vb - va) \<Longrightarrow> unat (vb - (va + of_nat n)) = unat (vb - va) - n"
    unfolding d by (simp add: unat_sub_if_size n)
  show "unat (vb - va) < n \<Longrightarrow> l - n \<le> unat (vb - (va + of_nat n))"
    unfolding d using assms by (simp add: unat_sub_if_size n word_size)
qed

lemma copied_out_append:
  assumes one: "copied_out root va (take n src) True s s1" and two: "copied_out root (va + of_nat n) (drop n src) ok s1 s'"
    and n: "n \<le> length src" "length src < 2 ^ 64"
  shows "copied_out root va src ok s s'"
proof -
  note d = unat_diff_offset [OF n]
  have "ubyte s' root vb = ubyte s root vb" if "length src \<le> unat (vb - va)" for vb
    using one two that d(2) [of vb va] n by (simp add: copied_out_def min_def)
  moreover have "ubyte s' root vb = Some (src ! unat (vb - va))" if ok "unat (vb - va) < length src" for vb
  proof (cases "unat (vb - va) < n")
    case True
    then show ?thesis using one two d(1) [of vb va] n by (simp add: copied_out_def min_def)
  next
    case False
    then have "unat (vb - (va + of_nat n)) = unat (vb - va) - n" using d(2) by simp
    moreover from this have "ubyte s' root vb = Some (drop n src ! unat (vb - (va + of_nat n)))"
      using two that False unfolding copied_out_def by auto
    ultimately show ?thesis using False n by simp
  qed
  moreover have "s' = s\<lparr>pmem := pmem s'\<rparr>"
    using one two unfolding copied_out_def by (metis kmem.surjective kmem.update_convs(1))
  ultimately show ?thesis using one two unfolding copied_out_def by auto
qed

lemma copyout_spec:
  assumes "pt_inv s root" and "uspace s root" and "length src < 2 ^ 64"
  shows "\<exists>s'. copyout root va src s = Ok (if umapped s root va (length src) then 0 else -1) s' \<and>
    copied_out root va src (umapped s root va (length src)) s s'"
  using assms
proof (induction "length src" arbitrary: va src s rule: less_induct)
  case less
  show ?case
  proof (cases "src = []")
    case True
    then show ?thesis using less.prems copied_out_refl [of s root va "[]"]
      by (subst copyout.simps) (auto simp: umapped_def ret_def)
  next
    case ne: False
    let ?n = "min (page_room va) (length src)" and ?va = "PGROUNDDOWN va + PGSIZE"
    have n: "0 < ?n" "?n \<le> length src" "0 < length src" using ne page_room_pos [of va] by auto
    show ?thesis
    proof (cases "uaddr s root va")
      case None
      then show ?thesis
        using ne less.prems chunk_unmapped [OF None n(3)] walkaddr_uaddr [OF less.prems(1), of va]
          copied_out_refl [of s root va src]
        by (intro exI [of _ s]) (subst copyout.simps, simp add: bind_def ret_def Let_def)
    next
      case (Some a)
      let ?s1 = "s\<lparr>pmem := mwrite (pmem s) a (take ?n src)\<rparr>" and ?ok = "umapped s root ?va (length src - ?n)"
      have a0: "a - (va - PGROUNDDOWN va) \<noteq> 0"
        using Some by (auto simp: uaddr_def Let_def split: if_splits)
      have one: "copied_out root va (take ?n src) True s ?s1"
        using copied_out_page [OF less.prems(1,2) Some] by simp
      then have um: "umapped ?s1 root ?va k = umapped s root ?va k" for k
        by (simp add: umapped_def ubyte_def copied_out_def)
      have "length (drop ?n src) < length src" "pt_inv ?s1 root" "uspace ?s1 root" "length (drop ?n src) < 2 ^ 64"
        using n less.prems(3) one by (auto simp: copied_out_def)
      from less.hyps [OF this, of ?va] obtain s' where s': "copyout root ?va (drop ?n src) ?s1 = Ok (if ?ok then 0 else -1) s'"
          "copied_out root ?va (drop ?n src) ?ok ?s1 s'"
        by (auto simp: um)
      have "?va = va + of_nat ?n \<or> drop ?n src = []" by (auto simp: next_page_addr min_def)
      then have "copied_out root (va + of_nat ?n) (drop ?n src) ?ok ?s1 s'"
        using s'(2) by (auto simp: copied_out_def)
      then have "copied_out root va src ?ok s s'"
        using copied_out_append [OF one] n(2) less.prems(3) by blast
      moreover have "copyout root va src s = copyout root ?va (drop ?n src) ?s1"
        using ne Some a0 walkaddr_uaddr [OF less.prems(1), of va]
        by (subst copyout.simps) (simp add: bind_def modify_def Let_def)
      moreover have "umapped s root va (length src) = ?ok"
        using page_split(1) [OF n(3), of s root va] chunk_read(1) [OF Some, of ?n] by auto
      ultimately show ?thesis using s'(1) by auto
    qed
  qed
qed

subsection \<open>The theorems\<close>

lemma demo_uaddr: "uaddr demo 0x87ff0000 va = (if va < MAXVA \<and> PGROUNDDOWN va = 0 then Some (0x87ff3000 + va) else None)"
  using demo_pte_of [of va] demo_pte_bits by (auto simp: uaddr_def Let_def split: if_splits)

lemma demo_uspace: "uspace demo 0x87ff0000"
  unfolding uspace_def demo_uaddr demo_pages demo_free(2)
  using demo_pte_of demo_pte_bits(3) by (auto simp: pa_of_def)

lemma demo_umapped: "umapped demo 0x87ff0000 16 3"
proof -
  have "uaddr demo 0x87ff0000 (16 + of_nat i) \<noteq> None" if "i < 3" for i
    using that by (auto simp: demo_uaddr less_Suc_eq numeral_3_eq_3 lt_MAXVA PGROUNDDOWN_def PGSIZE_def)
  then show ?thesis by (simp add: umapped_def ubyte_def)
qed

text \<open>
  C6: \<open>copyout\<close> and \<open>copyin\<close> are inverse. Over any range of user memory that is mapped for the user,
  across page boundaries, both return 0, \<open>copyin\<close> reads back exactly the bytes that \<open>copyout\<close> stored,
  and no user byte outside the range, no page-table entry and no free page changes.
\<close>

theorem copyout_copyin_roundtrip:
  assumes "pt_inv s root" and "uspace s root" and "length src < 2 ^ 64" and "umapped s root va (length src)"
  shows "\<exists>s'. copyout root va src s = Ok 0 s' \<and> copyin root va (length src) s' = Ok (0, src) s' \<and>
    (\<forall>vb. unat (vb - va) \<ge> length src \<longrightarrow> ubyte s' root vb = ubyte s root vb) \<and>
    (\<forall>vb. uaddr s' root vb = uaddr s root vb) \<and> free_pages s' = free_pages s"
proof -
  obtain s' where s': "copyout root va src s = Ok 0 s'" "copied_out root va src True s s'"
    using copyout_spec [OF assms(1,2,3), of va] assms(4) by auto
  have "unat (of_nat i :: uint64) = i" if "i < length src" for i
    using that assms(3) by (simp add: unat_of_nat)
  then have byte: "ubyte s' root (va + of_nat i) = Some (src ! i)" if "i < length src" for i
    using s'(2) that by (simp add: copied_out_def)
  then have "umapped s' root va (length src)" "ubytes s' root va (length src) = src"
    by (auto simp: umapped_def ubytes_def intro: nth_equalityI)
  moreover have "pt_inv s' root" using s'(2) by (simp add: copied_out_def)
  ultimately have "copyin root va (length src) s' = Ok (0, src) s'"
    using copyin_spec [of s' root "length src" va] by auto
  with s' show ?thesis by (auto simp: copied_out_def)
qed

theorem copyout_copyin_roundtrip_witness:
  "\<exists>s'. copyout 0x87ff0000 16 [1, 2, 3] demo = Ok 0 s' \<and> copyin 0x87ff0000 16 3 s' = Ok (0, [1, 2, 3]) s'"
  using copyout_copyin_roundtrip [OF demo_inv demo_uspace, of "[1, 2, 3]" 16] demo_umapped
  by (auto simp: numeral_3_eq_3)

text \<open>
  C7: \<open>copyin\<close> and \<open>copyout\<close> never touch an address the user has not mapped. Both return -1 exactly when
  some byte of the range is not mapped for the user; \<open>copyin\<close> then changes nothing, and \<open>copyout\<close> leaves
  every user byte outside the range, the translation and the free list as they were.
\<close>

theorem copy_fails_iff_unmapped:
  assumes "pt_inv s root" and "uspace s root" and "length src < 2 ^ 64"
  shows "(\<exists>s'. copyout root va src s = Ok (if umapped s root va (length src) then 0 else -1) s' \<and>
      (\<forall>vb. unat (vb - va) \<ge> length src \<longrightarrow> ubyte s' root vb = ubyte s root vb) \<and>
      (\<forall>vb. uaddr s' root vb = uaddr s root vb) \<and> free_pages s' = free_pages s) \<and>
    (\<exists>bs. copyin root va len s = Ok (if umapped s root va len then 0 else -1, bs) s)"
  using copyout_spec [OF assms, of va] copyin_spec [OF assms(1), of len va]
  unfolding copied_out_def by blast

theorem copy_fails_iff_unmapped_witness:
  "(\<exists>s'. copyout 0x87ff0000 0x5000 [1] demo = Ok (-1) s') \<and> (\<exists>bs. copyin 0x87ff0000 0x5000 1 demo = Ok (-1, bs) demo)"
proof -
  have "\<not> umapped demo 0x87ff0000 0x5000 1"
    by (simp add: umapped_def ubyte_def demo_uaddr PGROUNDDOWN_def PGSIZE_def)
  then show ?thesis
    using copy_fails_iff_unmapped [OF demo_inv demo_uspace, of "[1]" "0x5000" 1] by auto
qed

text \<open>
  C8: \<open>copyinstr\<close> returns 0 exactly when a zero byte occurs among the first \<open>max\<close> user bytes with every
  byte up to it mapped, and it has then stored the string with its terminator; otherwise it returns -1.
\<close>

theorem copyinstr_string:
  assumes "pt_inv s root"
  shows "if \<exists>k \<le> mx. umapped s root va k \<and> 0 \<in> set (ubytes s root va k)
    then \<exists>k \<le> mx. umapped s root va k \<and> 0 \<in> set (ubytes s root va k) \<and>
      copyinstr root va mx s = Ok (0, str_of (ubytes s root va k)) s
    else \<exists>bs. copyinstr root va mx s = Ok (-1, bs) s"
  using copyinstr_spec [OF assms, of mx va] by (auto split: if_splits)

lemma demo_byte: "ubyte demo 0x87ff0000 16 = Some 0"
proof -
  have "(0x87ff3010 :: uint64) \<notin> span (slot p 0) 8" if "p \<in> {0x87ff0000, 0x87ff1000, 0x87ff2000}" for p
    using that by (auto simp: span_def slot_def)
  then have "demo_mem 0x87ff3010 = 0" by (simp add: demo_mem_def store64_outside)
  moreover have "pmem demo = demo_mem" by (simp add: demo_def)
  ultimately show ?thesis by (simp add: ubyte_def demo_uaddr lt_MAXVA PGROUNDDOWN_def PGSIZE_def)
qed

theorem copyinstr_string_witness:
  "copyinstr 0x87ff0000 16 8 demo = Ok (0, [0]) demo"
proof -
  have "umapped demo 0x87ff0000 16 1" "0 \<in> set (ubytes demo 0x87ff0000 16 1)"
    using demo_byte by (simp_all add: umapped_def ubytes_def)
  then obtain k where k: "0 \<in> set (ubytes demo 0x87ff0000 16 k)"
      "copyinstr 0x87ff0000 16 8 demo = Ok (0, str_of (ubytes demo 0x87ff0000 16 k)) demo"
    using copyinstr_string [OF demo_inv, of 8 16] by (auto split: if_splits)
  then obtain j where "k = Suc j" by (cases k) (auto simp: ubytes_def)
  then have "ubytes demo 0x87ff0000 16 k = 0 # map (\<lambda>i. the (ubyte demo 0x87ff0000 (16 + of_nat i))) [1..<k]"
    using demo_byte by (simp add: ubytes_def upt_conv_Cons del: upt_Suc)
  then have "str_of (ubytes demo 0x87ff0000 16 k) = [0]" by (simp add: str_of_def)
  with k show ?thesis by simp
qed

end
