(* ===== verification/Vmframe.thy ===== *)
theory Vmframe
  imports Vm
begin

text \<open>
  What the memory routines leave alone: \<open>kalloc\<close>, \<open>kfree\<close> and every routine of \<^verbatim>\<open>kernel/vm.c\<close> change
  physical memory and the free list and nothing else of the kernel state, and never sleep. The rules
  \<open>kframe_rules\<close> derive this for a routine from the routines it calls.
\<close>

named_theorems kframe_rules

definition kframe :: "('b, 'a kmem_scheme) routine \<Rightarrow> bool" where
  "kframe f \<longleftrightarrow> (\<forall>s. case f s of Ok r s' \<Rightarrow> s' = s\<lparr>pmem := pmem s', freelist := freelist s'\<rparr>
     | Block s' \<Rightarrow> False | Panic e \<Rightarrow> True)"

lemma kframeD: "kframe f \<Longrightarrow> f s = Ok r s' \<Longrightarrow> s' = s\<lparr>pmem := pmem s', freelist := freelist s'\<rparr>"
  by (auto simp: kframe_def dest!: spec [of _ s])

lemma kframe_Ok: "kframe f \<Longrightarrow> f s = Ok r s' \<Longrightarrow> \<exists>m l. s' = s\<lparr>pmem := m, freelist := l\<rparr>"
  by (rule exI, rule exI, rule kframeD)

lemma kframe_not_Block: "kframe f \<Longrightarrow> f s \<noteq> Block s'"
  by (auto simp: kframe_def dest!: spec [of _ s])

lemma kframe_trans:
  assumes "s1 = s\<lparr>pmem := pmem s1, freelist := freelist s1\<rparr>" and "s2 = s1\<lparr>pmem := pmem s2, freelist := freelist s2\<rparr>"
  shows "s2 = s\<lparr>pmem := pmem s2, freelist := freelist s2\<rparr>"
  using assms by (metis (no_types, lifting) kmem.surjective kmem.update_convs(1,2))

lemma kframe_bind [kframe_rules]:
  assumes "kframe f" and "\<And>x. kframe (g x)"
  shows "kframe (bind f g)"
  unfolding kframe_def
proof
  fix s
  show "case bind f g s of Ok r s' \<Rightarrow> s' = s\<lparr>pmem := pmem s', freelist := freelist s'\<rparr>
     | Block s' \<Rightarrow> False | Panic e \<Rightarrow> True"
  proof (cases "f s")
    case (Ok x s1)
    note one = kframeD [OF assms(1) Ok]
    show ?thesis
    proof (cases "g x s1")
      case Ok2: (Ok y s2)
      show ?thesis unfolding bind_def Ok outcome.case Ok2
        by (rule kframe_trans [OF one kframeD [OF assms(2) Ok2]])
    next
      case (Block s2)
      then show ?thesis using assms(2) kframe_not_Block by blast
    qed (simp add: bind_def Ok)
  next
    case (Block s1)
    then show ?thesis using assms(1) kframe_not_Block by blast
  qed (simp add: bind_def)
qed

lemma kframe_basic [kframe_rules]:
  "kframe (ret x)" "kframe (panic e)" "kframe (gets h)"
  by (simp_all add: kframe_def ret_def panic_def gets_def)

lemma kframe_modify [kframe_rules]: "kframe (modify (\<lambda>s. s\<lparr>pmem := h s\<rparr>))"
  by (simp add: kframe_def modify_def)

lemma kframe_if [kframe_rules]: "(b \<Longrightarrow> kframe f) \<Longrightarrow> (\<not> b \<Longrightarrow> kframe g) \<Longrightarrow> kframe (if b then f else g)"
  by simp

lemma kframe_prod [kframe_rules]: "(\<And>x y. p = (x, y) \<Longrightarrow> kframe (f x y)) \<Longrightarrow> kframe (case p of (x, y) \<Rightarrow> f x y)"
  by (cases p) simp

lemma kframe_let [kframe_rules]: "(\<And>x. x = v \<Longrightarrow> kframe (f x)) \<Longrightarrow> kframe (let x = v in f x)"
  by simp

lemma kframe_for_each [kframe_rules]: "(\<And>x. x \<in> set xs \<Longrightarrow> kframe (f x)) \<Longrightarrow> kframe (for_each xs f)"
  by (induction xs) (auto intro!: kframe_rules)

lemma kframe_kalloc [kframe_rules]: "kframe kalloc"
  by (simp add: kframe_def kalloc_def Let_def)

lemma kframe_kfree [kframe_rules]: "kframe (kfree p)"
  by (simp add: kframe_def kfree_def Let_def)

lemma kframe_leaf [kframe_rules]: "kframe (set_pte a v)" "kframe (memset_page p c)"
  by (simp_all add: set_pte_def memset_page_def kframe_rules)

lemma kframe_walk_levels [kframe_rules]: "kframe (walk_levels l pt va a)"
  by (induction l arbitrary: pt) (auto intro!: kframe_rules)

lemma kframe_walk [kframe_rules]: "kframe (walk pt va a)"
  unfolding walk_def by (intro kframe_rules)

lemma kframe_walkaddr [kframe_rules]: "kframe (walkaddr pt va)"
  unfolding walkaddr_def by (intro kframe_rules)

lemma kframe_mappages_from [kframe_rules]: "kframe (mappages_from pt a lim pa perm)"
proof (induction pt a lim pa perm rule: mappages_from.induct)
  case (1 pt a lim pa perm)
  show ?case by (subst mappages_from.simps) (auto intro!: kframe_rules 1)
qed

lemma kframe_mappages [kframe_rules]: "kframe (mappages pt va sz pa perm)"
  unfolding mappages_def Let_def by (intro kframe_rules)

lemma kframe_uvmunmap_from [kframe_rules]: "kframe (uvmunmap_from pt a lim f)"
proof (induction pt a lim f rule: uvmunmap_from.induct)
  case (1 pt a lim f)
  show ?case by (subst uvmunmap_from.simps) (auto intro!: kframe_rules 1)
qed

lemma kframe_uvmunmap [kframe_rules]: "kframe (uvmunmap pt va n f)"
  unfolding uvmunmap_def by (intro kframe_rules)

lemma kframe_uvmcreate [kframe_rules]: "kframe uvmcreate"
  unfolding uvmcreate_def by (intro kframe_rules)

lemma kframe_uvminit [kframe_rules]: "kframe (uvminit pt src)"
  unfolding uvminit_def by (intro kframe_rules)

lemma kframe_uvmdealloc [kframe_rules]: "kframe (uvmdealloc pt old new)"
  unfolding uvmdealloc_def by (intro kframe_rules)

lemma kframe_uvmalloc_from [kframe_rules]: "kframe (uvmalloc_from pt old new a)"
proof (induction pt old new a rule: uvmalloc_from.induct)
  case (1 pt old new a)
  show ?case by (subst uvmalloc_from.simps) (auto intro!: kframe_rules 1)
qed

lemma kframe_uvmalloc [kframe_rules]: "kframe (uvmalloc pt old new)"
  unfolding uvmalloc_def by (intro kframe_rules)

lemma kframe_freewalk_at [kframe_rules]: "kframe (freewalk_at d pt)"
  by (induction d arbitrary: pt) (auto intro!: kframe_rules)

lemma kframe_uvmfree [kframe_rules]: "kframe (uvmfree pt sz)"
  unfolding uvmfree_def freewalk_def by (intro kframe_rules)

lemma kframe_uvmcopy_from [kframe_rules]: "kframe (uvmcopy_from old new sz i)"
proof (induction old new sz i rule: uvmcopy_from.induct)
  case (1 old new sz i)
  show ?case by (subst uvmcopy_from.simps) (auto intro!: kframe_rules 1)
qed

lemma kframe_uvmcopy [kframe_rules]: "kframe (uvmcopy old new sz)"
  unfolding uvmcopy_def by (intro kframe_rules)

lemma kframe_uvmclear [kframe_rules]: "kframe (uvmclear pt va)"
  unfolding uvmclear_def by (intro kframe_rules)

lemma kframe_copyout [kframe_rules]: "kframe (copyout pt va src)"
proof (induction pt va src rule: copyout.induct)
  case (1 pt va src)
  show ?case by (subst copyout.simps) (auto intro!: kframe_rules 1)
qed

lemma kframe_copyin [kframe_rules]: "kframe (copyin pt va n)"
proof (induction pt va n rule: copyin.induct)
  case (1 pt va n)
  show ?case by (subst copyin.simps) (auto intro!: kframe_rules 1)
qed

lemma kframe_copyinstr [kframe_rules]: "kframe (copyinstr pt va n)"
proof (induction pt va n rule: copyinstr.induct)
  case (1 pt va n)
  show ?case by (subst copyinstr.simps) (auto intro!: kframe_rules 1)
qed

end
