(* ===== verification/Proc.thy ===== *)
theory Proc
  imports Uspace Vmframe
begin

text \<open>
  The process table, \<^verbatim>\<open>kernel/proc.c\<close> and \<^verbatim>\<open>kernel/proc.h\<close>: allocation and release of process slots,
  page tables of processes, sleeping and waking, and \<open>wait\<close>.

  \<open>ptab\<close> extends the memory state with the table, the process that runs on this CPU and the counters.
  Kernel objects are sleep channels (\<open>void *chan\<close>). The user registers that \<open>trampoline.S\<close> saves are
  bytes of the trapframe page in physical memory. The fields \<open>sym_trampoline\<close> and \<open>sym_forkret\<close> are the
  linker symbols of these names and are never written. A routine that gives up the CPU ends in \<open>Block\<close>
  with the table as the scheduler finds it.
\<close>

subsection \<open>Data\<close>

datatype procstate = UNUSED | USED | SLEEPING | RUNNABLE | RUNNING | ZOMBIE

datatype chan = Null | Ticks | Proc nat | BufLock nat | InodeLock nat | PipeRead nat | PipeWrite nat
  | ConsRead | UartTx | Log | DiskFree | DiskBuf nat

record vm_area_struct =
  v_addr :: uint64
  v_len :: int
  v_prot :: int
  v_flag :: int
  v_f :: "nat option"
  v_offset :: int
  v_fd :: int
  v_valid :: bool

record kcontext =
  c_ra :: uint64
  c_sp :: uint64
  c_s :: "uint64 list"

record proc =
  p_state :: procstate
  p_chan :: chan
  p_killed :: bool
  p_xstate :: int
  p_pid :: int
  p_parent :: "nat option"
  p_kstack :: uint64
  p_sz :: uint64
  p_pagetable :: uint64
  p_trapframe :: uint64
  p_context :: kcontext
  p_ofile :: "nat option list"
  p_cwd :: "nat option"
  p_name :: "byte list"
  p_vma :: "vm_area_struct list"

record ptab = kmem +
  procs :: "proc list"
  cur :: "nat option"
  nextpid :: int
  initproc :: "nat option"
  ticks :: uint32
  sym_trampoline :: uint64
  sym_forkret :: uint64

definition NOFILE :: nat where "NOFILE = 16"

text \<open>Offsets of the trapframe fields the kernel reads and writes.\<close>

definition tf_kernel_satp :: uint64 where "tf_kernel_satp = 0"
definition tf_kernel_sp :: uint64 where "tf_kernel_sp = 8"
definition tf_kernel_trap :: uint64 where "tf_kernel_trap = 16"
definition tf_epc :: uint64 where "tf_epc = 24"
definition tf_kernel_hartid :: uint64 where "tf_kernel_hartid = 32"
definition tf_sp :: uint64 where "tf_sp = 48"
definition tf_a0 :: uint64 where "tf_a0 = 112"
definition tf_a1 :: uint64 where "tf_a1 = 120"
definition tf_a2 :: uint64 where "tf_a2 = 128"
definition tf_a3 :: uint64 where "tf_a3 = 136"
definition tf_a4 :: uint64 where "tf_a4 = 144"
definition tf_a5 :: uint64 where "tf_a5 = 152"
definition tf_a7 :: uint64 where "tf_a7 = 168"
definition tf_size :: nat where "tf_size = 288"

subsection \<open>Access to the table\<close>

definition get_proc :: "nat \<Rightarrow> 'a ptab_scheme \<Rightarrow> proc" where
  "get_proc i s = procs s ! i"

definition upd_proc :: "nat \<Rightarrow> (proc \<Rightarrow> proc) \<Rightarrow> (unit, 'a ptab_scheme) routine" where
  "upd_proc i f = modify (\<lambda>s. s\<lparr>procs := (procs s)[i := f (procs s ! i)]\<rparr>)"

text \<open>
  A use of \<open>myproc()\<close> that dereferences it: with no process on the CPU this is a fault in the kernel,
  which \<open>kerneltrap\<close> turns into a panic.
\<close>

definition myproc :: "(nat, 'a ptab_scheme) routine" where
  "myproc = (\<lambda>s. case cur s of None \<Rightarrow> Panic ''kerneltrap'' | Some i \<Rightarrow> Ok i s)"

definition tf_load :: "nat \<Rightarrow> uint64 \<Rightarrow> 'a ptab_scheme \<Rightarrow> uint64" where
  "tf_load i off s = load64 (pmem s) (p_trapframe (procs s ! i) + off)"

definition tf_store :: "nat \<Rightarrow> uint64 \<Rightarrow> uint64 \<Rightarrow> (unit, 'a ptab_scheme) routine" where
  "tf_store i off v = modify (\<lambda>s. s\<lparr>pmem := store64 (pmem s) (p_trapframe (procs s ! i) + off) v\<rparr>)"

subsection \<open>Boot, identifiers and page tables\<close>

definition procinit :: "(unit, 'a ptab_scheme) routine" where
  "procinit = for_each [0..<NPROC] (\<lambda>i. upd_proc i (\<lambda>p. p\<lparr>p_kstack := KSTACK i\<rparr>))"

definition allocpid :: "(int, 'a ptab_scheme) routine" where
  "allocpid = (\<lambda>s. Ok (nextpid s) (s\<lparr>nextpid := int32 (nextpid s + 1)\<rparr>))"

definition proc_pagetable :: "nat \<Rightarrow> (uint64, 'a ptab_scheme) routine" where
  "proc_pagetable i =
     bind uvmcreate (\<lambda>pagetable.
       if pagetable = 0 then ret 0
       else bind (gets sym_trampoline) (\<lambda>tramp.
         bind (mappages pagetable TRAMPOLINE PGSIZE tramp (PTE_R OR PTE_X)) (\<lambda>r.
           if r < 0 then bind (uvmfree pagetable 0) (\<lambda>_. ret 0)
           else bind (gets (\<lambda>s. p_trapframe (procs s ! i))) (\<lambda>tf.
             bind (mappages pagetable TRAPFRAME PGSIZE tf (PTE_R OR PTE_W)) (\<lambda>r2.
               if r2 < 0 then
                 bind (uvmunmap pagetable TRAMPOLINE 1 False) (\<lambda>_.
                   bind (uvmfree pagetable 0) (\<lambda>_. ret 0))
               else ret pagetable)))))"

definition proc_freepagetable :: "uint64 \<Rightarrow> uint64 \<Rightarrow> (unit, 'a kmem_scheme) routine" where
  "proc_freepagetable pagetable sz =
     bind (uvmunmap pagetable TRAMPOLINE 1 False) (\<lambda>_.
     bind (uvmunmap pagetable TRAPFRAME 1 False) (\<lambda>_.
       uvmfree pagetable sz))"

definition freeproc :: "nat \<Rightarrow> (unit, 'a ptab_scheme) routine" where
  "freeproc i =
     bind (gets (\<lambda>s. procs s ! i)) (\<lambda>p.
     bind (if p_trapframe p \<noteq> 0 then kfree (p_trapframe p) else ret ()) (\<lambda>_.
     bind (upd_proc i (\<lambda>p. p\<lparr>p_trapframe := 0\<rparr>)) (\<lambda>_.
     bind (if p_pagetable p \<noteq> 0 then proc_freepagetable (p_pagetable p) (p_sz p) else ret ()) (\<lambda>_.
       upd_proc i (\<lambda>p. p\<lparr>p_pagetable := 0, p_sz := 0, p_pid := 0, p_parent := None,
         p_name := (p_name p)[0 := 0], p_chan := Null, p_killed := False, p_xstate := 0,
         p_state := UNUSED\<rparr>)))))"

text \<open>\<open>None\<close> is the null pointer: no free slot, or no memory.\<close>

definition allocproc :: "(nat option, 'a ptab_scheme) routine" where
  "allocproc =
     bind (gets (\<lambda>s. find_idx (\<lambda>p. p_state p = UNUSED) (procs s))) (\<lambda>found.
       case found of None \<Rightarrow> ret None
       | Some i \<Rightarrow>
         bind allocpid (\<lambda>pid.
         bind (upd_proc i (\<lambda>p. p\<lparr>p_pid := pid, p_state := USED\<rparr>)) (\<lambda>_.
         bind kalloc (\<lambda>tf.
         bind (upd_proc i (\<lambda>p. p\<lparr>p_trapframe := tf\<rparr>)) (\<lambda>_.
           if tf = 0 then bind (freeproc i) (\<lambda>_. ret None)
           else bind (proc_pagetable i) (\<lambda>pt.
             bind (upd_proc i (\<lambda>p. p\<lparr>p_pagetable := pt\<rparr>)) (\<lambda>_.
               if pt = 0 then bind (freeproc i) (\<lambda>_. ret None)
               else bind (gets sym_forkret) (\<lambda>ra.
                 bind (upd_proc i (\<lambda>p. p\<lparr>
                     p_vma := map (\<lambda>v. v\<lparr>v_valid := False\<rparr>) (p_vma p),
                     p_context := \<lparr>c_ra = ra, c_sp = p_kstack p + PGSIZE, c_s = replicate 12 0\<rparr>\<rparr>))
                   (\<lambda>_. ret (Some i))))))))))"

text \<open>\<open>growproc\<close> computes the size in a 32-bit \<open>uint\<close>.\<close>

definition growproc :: "int \<Rightarrow> (int, 'a ptab_scheme) routine" where
  "growproc n =
     bind myproc (\<lambda>i.
     bind (gets (\<lambda>s. procs s ! i)) (\<lambda>p.
       let sz = (ucast (p_sz p) :: uint32) in
       if n > 0 then
         bind (uvmalloc (p_pagetable p) (ucast sz) (ucast (sz + of_int n))) (\<lambda>r.
           let sz = (ucast r :: uint32) in
           if sz = 0 then ret (-1)
           else bind (upd_proc i (\<lambda>p. p\<lparr>p_sz := ucast sz\<rparr>)) (\<lambda>_. ret 0))
       else if n < 0 then
         bind (uvmdealloc (p_pagetable p) (ucast sz) (ucast (sz + of_int n))) (\<lambda>r.
           bind (upd_proc i (\<lambda>p. p\<lparr>p_sz := ucast (ucast r :: uint32)\<rparr>)) (\<lambda>_. ret 0))
       else bind (upd_proc i (\<lambda>p. p\<lparr>p_sz := ucast sz\<rparr>)) (\<lambda>_. ret 0)))"

subsection \<open>Sleeping and waking\<close>

text \<open>\<open>wakeup\<close> skips the process that calls it.\<close>

definition wake :: "chan \<Rightarrow> proc \<Rightarrow> proc" where
  "wake c p = (if p_state p = SLEEPING \<and> p_chan p = c then p\<lparr>p_state := RUNNABLE\<rparr> else p)"

definition wakeup :: "chan \<Rightarrow> (unit, 'a ptab_scheme) routine" where
  "wakeup c = modify (\<lambda>s. s\<lparr>procs :=
     map (\<lambda>i. if cur s = Some i then procs s ! i else wake c (procs s ! i)) [0..<length (procs s)]\<rparr>)"

text \<open>
  \<open>sched\<close> hands the CPU to the scheduler. An operation of this theory is a critical section as a whole, so the locks are not
  part of the state, and the checks of \<open>sched\<close> that the caller holds \<open>p->lock\<close> and no other lock, with interrupts off, are
  left out.
\<close>

definition sched :: "('b, 'a ptab_scheme) routine" where
  "sched = bind myproc (\<lambda>i s.
     if p_state (procs s ! i) = RUNNING then Panic ''sched running'' else Block (s\<lparr>cur := None\<rparr>))"

definition sleep :: "chan \<Rightarrow> ('b, 'a ptab_scheme) routine" where
  "sleep c = bind myproc (\<lambda>i.
     bind (upd_proc i (\<lambda>p. p\<lparr>p_chan := c, p_state := SLEEPING\<rparr>)) (\<lambda>_. sched))"

text \<open>What \<open>sleep\<close> does when the scheduler resumes it.\<close>

definition sleep_resume :: "(unit, 'a ptab_scheme) routine" where
  "sleep_resume = bind myproc (\<lambda>i. upd_proc i (\<lambda>p. p\<lparr>p_chan := Null\<rparr>))"

definition yield :: "(unit, 'a ptab_scheme) routine" where
  "yield = bind myproc (\<lambda>i. bind (upd_proc i (\<lambda>p. p\<lparr>p_state := RUNNABLE\<rparr>)) (\<lambda>_. sched))"

text \<open>One turn of the inner loop of \<open>scheduler\<close>, up to the switch to the process.\<close>

definition scheduler_pick :: "nat \<Rightarrow> (bool, 'a ptab_scheme) routine" where
  "scheduler_pick i =
     bind (gets (\<lambda>s. p_state (procs s ! i))) (\<lambda>st.
       if st = RUNNABLE then
         bind (upd_proc i (\<lambda>p. p\<lparr>p_state := RUNNING\<rparr>)) (\<lambda>_.
           bind (modify (\<lambda>s. s\<lparr>cur := Some i\<rparr>)) (\<lambda>_. ret True))
       else ret False)"

definition kill :: "int \<Rightarrow> (int, 'a ptab_scheme) routine" where
  "kill pid =
     bind (gets (\<lambda>s. find_idx (\<lambda>p. p_pid p = pid) (procs s))) (\<lambda>found.
       case found of None \<Rightarrow> ret (-1)
       | Some i \<Rightarrow> bind (upd_proc i (\<lambda>p. p\<lparr>p_killed := True,
           p_state := (if p_state p = SLEEPING then RUNNABLE else p_state p)\<rparr>)) (\<lambda>_. ret 0))"

subsection \<open>Parents and children\<close>

definition reparent :: "nat \<Rightarrow> (unit, 'a ptab_scheme) routine" where
  "reparent i =
     for_each [0..<NPROC] (\<lambda>j.
       bind (gets (\<lambda>s. p_parent (procs s ! j))) (\<lambda>par.
         if par = Some i then
           bind (gets initproc) (\<lambda>ip.
             bind (upd_proc j (\<lambda>p. p\<lparr>p_parent := ip\<rparr>)) (\<lambda>_.
               wakeup (case ip of None \<Rightarrow> Null | Some k \<Rightarrow> Proc k)))
         else ret ()))"

text \<open>The scan of \<open>wait\<close>: the value to return, or whether there are children to wait for.\<close>

primrec wait_scan :: "nat \<Rightarrow> uint64 \<Rightarrow> nat list \<Rightarrow> bool \<Rightarrow> (int option \<times> bool, 'a ptab_scheme) routine" where
  "wait_scan me addr [] havekids = ret (None, havekids)"
| "wait_scan me addr (j # js) havekids =
     bind (gets (\<lambda>s. procs s ! j)) (\<lambda>np.
       if p_parent np = Some me then
         if p_state np = ZOMBIE then
           bind (gets (\<lambda>s. p_pagetable (procs s ! me))) (\<lambda>pt.
           bind (if addr \<noteq> 0 then copyout pt addr (le_enc 4 (of_int (p_xstate np) :: uint32)) else ret 0) (\<lambda>r.
             if r < 0 then ret (Some (-1), True)
             else bind (freeproc j) (\<lambda>_. ret (Some (p_pid np), True))))
         else wait_scan me addr js True
       else wait_scan me addr js havekids)"

definition wait :: "uint64 \<Rightarrow> (int, 'a ptab_scheme) routine" where
  "wait addr =
     bind myproc (\<lambda>i.
     bind (wait_scan i addr [0..<NPROC] False) (\<lambda>(r, havekids).
       case r of Some v \<Rightarrow> ret v
       | None \<Rightarrow>
         bind (gets (\<lambda>s. p_killed (procs s ! i))) (\<lambda>killed.
           if \<not> havekids \<or> killed then ret (-1) else sleep (Proc i))))"

text \<open>The end of \<open>exit\<close>, under \<open>p->lock\<close>, and the end of \<open>fork\<close>, for the slot of the child.\<close>

definition exit_zombie :: "int \<Rightarrow> ('b, 'a ptab_scheme) routine" where
  "exit_zombie status = bind myproc (\<lambda>i.
     bind (upd_proc i (\<lambda>p. p\<lparr>p_xstate := status, p_state := ZOMBIE\<rparr>)) (\<lambda>_. sched))"

definition fork_runnable :: "nat \<Rightarrow> (unit, 'a ptab_scheme) routine" where
  "fork_runnable np = upd_proc np (\<lambda>p. p\<lparr>p_state := RUNNABLE\<rparr>)"

subsection \<open>Copies to and from user or kernel memory\<close>

definition either_copyout :: "bool \<Rightarrow> uint64 \<Rightarrow> byte list \<Rightarrow> (int, 'a ptab_scheme) routine" where
  "either_copyout user_dst dst src =
     bind myproc (\<lambda>i.
       if user_dst then bind (gets (\<lambda>s. p_pagetable (procs s ! i))) (\<lambda>pt. copyout pt dst src)
       else bind (modify (\<lambda>s. s\<lparr>pmem := mwrite (pmem s) dst src\<rparr>)) (\<lambda>_. ret 0))"

definition either_copyin :: "bool \<Rightarrow> uint64 \<Rightarrow> nat \<Rightarrow> (int \<times> byte list, 'a ptab_scheme) routine" where
  "either_copyin user_src src len =
     bind myproc (\<lambda>i.
       if user_src then bind (gets (\<lambda>s. p_pagetable (procs s ! i))) (\<lambda>pt. copyin pt src len)
       else gets (\<lambda>s. (0, mread (pmem s) src len)))"

subsection \<open>Effect on the table\<close>

definition cleared :: "proc \<Rightarrow> proc" where
  "cleared p = p\<lparr>p_trapframe := 0, p_pagetable := 0, p_sz := 0, p_pid := 0, p_parent := None,
     p_name := (p_name p)[0 := 0], p_chan := Null, p_killed := False, p_xstate := 0, p_state := UNUSED\<rparr>"

lemma kframe_proc_freepagetable [kframe_rules]: "kframe (proc_freepagetable pt sz)"
  unfolding proc_freepagetable_def by (intro kframe_rules)

lemma upd_proc_eval [simp]: "upd_proc i f s = Ok () (s\<lparr>procs := (procs s)[i := f (procs s ! i)]\<rparr>)"
  by (simp add: upd_proc_def modify_def)

lemma kframe_maybe:
  assumes "kframe f" and "(if b then f else ret ()) s = Ok r s'"
  shows "\<exists>m l. s' = s\<lparr>pmem := m, freelist := l\<rparr>"
proof -
  have "kframe (if b then f else ret ())" using assms(1) by (simp add: kframe_rules)
  then show ?thesis using assms(2) by (rule kframe_Ok)
qed

lemma freeproc_eff:
  assumes "freeproc j s = Ok () s'"
  shows "\<exists>m l. s' = s\<lparr>pmem := m, freelist := l, procs := (procs s)[j := cleared (procs s ! j)]\<rparr>"
proof -
  let ?p = "procs s ! j"
  obtain s1 s3 where s1: "(if p_trapframe ?p \<noteq> 0 then kfree (p_trapframe ?p) else ret ()) s = Ok () s1"
    and s3: "(if p_pagetable ?p \<noteq> 0 then proc_freepagetable (p_pagetable ?p) (p_sz ?p) else ret ())
        (s1\<lparr>procs := (procs s1)[j := (procs s1 ! j)\<lparr>p_trapframe := 0\<rparr>]\<rparr>) = Ok () s3"
    and s': "s' = s3\<lparr>procs := (procs s3)[j := (procs s3 ! j)\<lparr>p_pagetable := 0, p_sz := 0, p_pid := 0,
        p_parent := None, p_name := (p_name (procs s3 ! j))[0 := 0], p_chan := Null, p_killed := False,
        p_xstate := 0, p_state := UNUSED\<rparr>]\<rparr>"
    using assms by (auto simp: freeproc_def gets_def bind_def split: outcome.splits)
  obtain m1 l1 where m1: "s1 = s\<lparr>pmem := m1, freelist := l1\<rparr>"
    using kframe_maybe [OF kframe_kfree s1] by blast
  obtain m3 l3 where m3: "s3 = (s1\<lparr>procs := (procs s1)[j := (procs s1 ! j)\<lparr>p_trapframe := 0\<rparr>]\<rparr>)\<lparr>pmem := m3, freelist := l3\<rparr>"
    using kframe_maybe [OF kframe_proc_freepagetable s3] by blast
  have "procs s3 = (procs s)[j := (procs s ! j)\<lparr>p_trapframe := 0\<rparr>]" by (simp add: m1 m3)
  then show ?thesis
    unfolding s' m3 m1 by (cases "j < length (procs s)") (auto simp: cleared_def list_update_beyond)
qed

lemma freeproc_not_Block: "freeproc j s \<noteq> Block s'"
proof
  assume "freeproc j s = Block s'"
  then show False
    by (auto simp: freeproc_def gets_def ret_def bind_def kframe_not_Block [OF kframe_kfree]
        kframe_not_Block [OF kframe_proc_freepagetable] split: outcome.splits if_splits)
qed

lemma kframe_proc_pagetable [kframe_rules]: "kframe (proc_pagetable i)"
  unfolding proc_pagetable_def by (intro kframe_rules)

text \<open>The slot that \<open>allocproc\<close> hands out.\<close>

definition fresh_proc :: "int \<Rightarrow> uint64 \<Rightarrow> uint64 \<Rightarrow> uint64 \<Rightarrow> proc \<Rightarrow> proc" where
  "fresh_proc pid tf pt ra p = p\<lparr>p_pid := pid, p_state := USED, p_trapframe := tf, p_pagetable := pt,
     p_vma := map (\<lambda>v. v\<lparr>v_valid := False\<rparr>) (p_vma p),
     p_context := \<lparr>c_ra = ra, c_sp = p_kstack p + PGSIZE, c_s = replicate 12 0\<rparr>\<rparr>"

lemma slot_state [simp]:
  "p_state (cleared p) = UNUSED" "p_pid (cleared p) = 0"
  "p_state (fresh_proc pid tf pt ra p) = USED" "p_pid (fresh_proc pid tf pt ra p) = pid"
  by (simp_all add: cleared_def fresh_proc_def)

lemma allocproc_eff:
  assumes "allocproc s = Ok r s'"
  shows "find_idx (\<lambda>p. p_state p = UNUSED) (procs s) = None \<and> r = None \<and> s' = s \<or>
    (\<exists>i m l. find_idx (\<lambda>p. p_state p = UNUSED) (procs s) = Some i \<and>
      (r = None \<and> s' = s\<lparr>pmem := m, freelist := l, nextpid := int32 (nextpid s + 1),
          procs := (procs s)[i := cleared (procs s ! i)]\<rparr> \<or>
       r = Some i \<and> (\<exists>tf pt. tf \<noteq> 0 \<and> pt \<noteq> 0 \<and> s' = s\<lparr>pmem := m, freelist := l, nextpid := int32 (nextpid s + 1),
          procs := (procs s)[i := fresh_proc (nextpid s) tf pt (sym_forkret s) (procs s ! i)]\<rparr>)))"
proof (cases "find_idx (\<lambda>p. p_state p = UNUSED) (procs s)")
  case None
  then show ?thesis using assms by (simp add: allocproc_def gets_def ret_def bind_def)
next
  case (Some i)
  then have i: "i < length (procs s)" using find_idx_SomeD by blast
  let ?p = "procs s ! i"
  let ?s1 = "s\<lparr>nextpid := int32 (nextpid s + 1), procs := (procs s)[i := ?p\<lparr>p_pid := nextpid s, p_state := USED\<rparr>]\<rparr>"
  obtain tf s2 where tf: "kalloc ?s1 = Ok tf s2"
    using assms Some by (auto simp: allocproc_def allocpid_def gets_def bind_def split: outcome.splits)
  obtain m l where s2: "s2 = ?s1\<lparr>pmem := m, freelist := l\<rparr>" using kframe_Ok [OF kframe_kalloc tf] by blast
  let ?s3 = "s2\<lparr>procs := (procs s2)[i := (procs s2 ! i)\<lparr>p_trapframe := tf\<rparr>]\<rparr>"
  show ?thesis
  proof (cases "tf = 0")
    case True
    then have f: "freeproc i ?s3 = Ok () s'" "r = None"
      using assms Some tf by (auto simp: allocproc_def allocpid_def gets_def bind_def ret_def split: outcome.splits)
    from freeproc_eff [OF f(1)] obtain m' l' where
      s': "s' = ?s3\<lparr>pmem := m', freelist := l', procs := (procs ?s3)[i := cleared (procs ?s3 ! i)]\<rparr>" by blast
    have "s' = s\<lparr>pmem := m', freelist := l', nextpid := int32 (nextpid s + 1), procs := (procs s)[i := cleared ?p]\<rparr>"
      unfolding s' s2 using i by (intro ptab.equality) (simp_all add: cleared_def)
    then show ?thesis using Some f(2) by blast
  next
    case False
    then obtain pt s4 where pt: "proc_pagetable i ?s3 = Ok pt s4"
      using assms Some tf by (auto simp: allocproc_def allocpid_def gets_def bind_def split: outcome.splits)
    obtain m' l' where s4: "s4 = ?s3\<lparr>pmem := m', freelist := l'\<rparr>"
      using kframe_Ok [OF kframe_proc_pagetable pt] by blast
    let ?s5 = "s4\<lparr>procs := (procs s4)[i := (procs s4 ! i)\<lparr>p_pagetable := pt\<rparr>]\<rparr>"
    show ?thesis
    proof (cases "pt = 0")
      case True
      then have f: "freeproc i ?s5 = Ok () s'" "r = None"
        using assms Some tf False pt by (auto simp: allocproc_def allocpid_def gets_def bind_def ret_def split: outcome.splits)
      from freeproc_eff [OF f(1)] obtain m2 l2 where
        s': "s' = ?s5\<lparr>pmem := m2, freelist := l2, procs := (procs ?s5)[i := cleared (procs ?s5 ! i)]\<rparr>" by blast
      have "s' = s\<lparr>pmem := m2, freelist := l2, nextpid := int32 (nextpid s + 1), procs := (procs s)[i := cleared ?p]\<rparr>"
        unfolding s' s4 s2 using i by (intro ptab.equality) (simp_all add: cleared_def)
      then show ?thesis using Some f(2) by blast
    next
      case pt0: False
      let ?f = "\<lambda>p. p\<lparr>p_vma := map (\<lambda>v. v\<lparr>v_valid := False\<rparr>) (p_vma p),
        p_context := \<lparr>c_ra = sym_forkret s4, c_sp = p_kstack p + PGSIZE, c_s = replicate 12 0\<rparr>\<rparr>"
      have "r = Some i" and s': "s' = ?s5\<lparr>procs := (procs ?s5)[i := ?f (procs ?s5 ! i)]\<rparr>"
        using assms Some tf False pt pt0
        by (auto simp: allocproc_def allocpid_def gets_def bind_def ret_def split: outcome.splits)
      have "s' = s\<lparr>pmem := m', freelist := l', nextpid := int32 (nextpid s + 1),
          procs := (procs s)[i := fresh_proc (nextpid s) tf pt (sym_forkret s) ?p]\<rparr>"
        unfolding s' s4 s2 using i by (intro ptab.equality) (simp_all add: fresh_proc_def)
      then show ?thesis using Some False pt0 \<open>r = Some i\<close> by blast
    qed
  qed
qed

lemma allocproc_not_Block: "allocproc s \<noteq> Block s'"
  by (auto simp: allocproc_def allocpid_def gets_def bind_def ret_def freeproc_not_Block
      kframe_not_Block [OF kframe_kalloc] kframe_not_Block [OF kframe_proc_pagetable]
      split: outcome.splits option.splits if_splits)

end
