(* ===== verification/Sched.thy ===== *)
theory Sched
  imports Proc
begin

text \<open>
  Processes on several CPUs: the life cycle of the slots of the process table, after
  \<^verbatim>\<open>kernel/proc.c\<close>.

  \<open>smp_step\<close> interleaves the operations of \<open>Proc\<close> on any number of CPUs, each as one critical section,
  with the scheduler loop on the CPUs that have no process and with interrupts that wake processes. \<open>tab_ok\<close> is the
  invariant of the table: process identifiers are positive, below \<open>nextpid\<close> and unique, which lasts until \<open>nextpid\<close>, an
  \<open>int\<close>, wraps around. The locale \<open>table_op\<close> states what the scheduler relies on from an operation that a process runs;
  every operation is an instance.
\<close>

subsection \<open>Invariant of the table\<close>

definition tab_ok :: "'a ptab_scheme \<Rightarrow> bool" where
  "tab_ok s \<longleftrightarrow> length (procs s) = NPROC \<and> 0 < nextpid s \<and>
     (\<forall>i<NPROC. if p_state (procs s ! i) = UNUSED then p_pid (procs s ! i) = 0
        else 0 < p_pid (procs s ! i) \<and> p_pid (procs s ! i) < nextpid s) \<and>
     (\<forall>i<NPROC. \<forall>j<NPROC. p_state (procs s ! i) \<noteq> UNUSED \<longrightarrow> p_state (procs s ! j) \<noteq> UNUSED \<longrightarrow>
        p_pid (procs s ! i) = p_pid (procs s ! j) \<longrightarrow> i = j)"

definition running :: "'a ptab_scheme \<Rightarrow> nat set" where
  "running s = {i. i < length (procs s) \<and> p_state (procs s ! i) = RUNNING}"

text \<open>A change that neither claims, frees, starts nor stops a process.\<close>

definition same_slot :: "proc \<Rightarrow> proc \<Rightarrow> bool" where
  "same_slot p p' \<longleftrightarrow> p_pid p' = p_pid p \<and> (p_state p' = UNUSED \<longleftrightarrow> p_state p = UNUSED) \<and>
     (p_state p' = RUNNING \<longleftrightarrow> p_state p = RUNNING)"

definition same_tab :: "'a ptab_scheme \<Rightarrow> 'a ptab_scheme \<Rightarrow> bool" where
  "same_tab s s' \<longleftrightarrow> length (procs s') = length (procs s) \<and> nextpid s' = nextpid s \<and> cur s' = cur s \<and>
     (\<forall>i<length (procs s). same_slot (procs s ! i) (procs s' ! i))"

lemma same_slot_refl: "same_slot p p"
  by (simp add: same_slot_def)

lemma same_tab_refl: "same_tab s s"
  by (simp add: same_tab_def same_slot_def)

lemma same_tab_trans: "same_tab s s' \<Longrightarrow> same_tab s' s'' \<Longrightarrow> same_tab s s''"
  by (auto simp: same_tab_def same_slot_def)

lemma same_tab_ok: "same_tab s s' \<Longrightarrow> tab_ok s \<Longrightarrow> tab_ok s'"
  unfolding tab_ok_def same_tab_def same_slot_def by metis

lemma same_tab_running: "same_tab s s' \<Longrightarrow> running s' = running s"
  by (auto simp: running_def same_tab_def same_slot_def)

named_theorems tame_rules

definition tame :: "('b, 'a ptab_scheme) routine \<Rightarrow> bool" where
  "tame f \<longleftrightarrow> (\<forall>s. case f s of Ok r s' \<Rightarrow> same_tab s s' | Block s' \<Rightarrow> False | Panic e \<Rightarrow> True)"

lemma tameD: "tame f \<Longrightarrow> f s = Ok r s' \<Longrightarrow> same_tab s s'"
  by (auto simp: tame_def dest!: spec [of _ s])

lemma tame_not_Block: "tame f \<Longrightarrow> f s \<noteq> Block s'"
  by (auto simp: tame_def dest!: spec [of _ s])

lemma tame_bind [tame_rules]: "tame f \<Longrightarrow> (\<And>x. tame (g x)) \<Longrightarrow> tame (bind f g)"
  by (auto simp: tame_def [of "bind f g"] bind_def split: outcome.splits
      dest: tameD tame_not_Block intro: same_tab_trans)

lemma tame_basic [tame_rules]: "tame (ret x)" "tame (panic e)" "tame (gets h)" "tame myproc"
  by (simp_all add: tame_def ret_def panic_def gets_def myproc_def same_tab_refl split: option.splits)

lemma tame_kframe:
  assumes "kframe f"
  shows "tame f"
  unfolding tame_def
proof
  fix s
  show "case f s of Ok r s' \<Rightarrow> same_tab s s' | Block s' \<Rightarrow> False | Panic e \<Rightarrow> True"
  proof (cases "f s")
    case (Ok r s')
    obtain m l where "s' = s\<lparr>pmem := m, freelist := l\<rparr>" using kframeD [OF assms Ok] by blast
    then show ?thesis using Ok by (simp add: same_tab_def same_slot_def)
  next
    case (Block s')
    then show ?thesis using kframe_not_Block [OF assms] by blast
  qed simp
qed

lemma tame_vm [tame_rules]:
  "tame kalloc" "tame (kfree a)" "tame (uvmalloc pt x y)" "tame (uvmdealloc pt x y)" "tame (copyout pt a src)"
  "tame (copyin pt a n)" "tame (uvmcopy pt pt' x)" "tame (uvmunmap pt a x b)"
  by (rule tame_kframe; intro kframe_rules)+

lemma tame_upd [tame_rules]: "(\<And>p. same_slot p (f p)) \<Longrightarrow> tame (upd_proc i f)"
  by (simp add: tame_def upd_proc_def modify_def same_tab_def list_update_nth same_slot_refl)

lemma tame_if [tame_rules]: "(b \<Longrightarrow> tame f) \<Longrightarrow> (\<not> b \<Longrightarrow> tame g) \<Longrightarrow> tame (if b then f else g)"
  by simp

lemma tame_prod [tame_rules]: "(\<And>x y. tame (f x y)) \<Longrightarrow> tame (case p of (x, y) \<Rightarrow> f x y)"
  by (cases p) simp

lemma tame_option [tame_rules]: "tame f \<Longrightarrow> (\<And>x. tame (g x)) \<Longrightarrow> tame (case p of None \<Rightarrow> f | Some x \<Rightarrow> g x)"
  by (cases p) simp_all

lemma tame_let [tame_rules]: "(\<And>x. tame (f x)) \<Longrightarrow> tame (let x = v in f x)"
  by simp

lemma tame_for_each [tame_rules]: "(\<And>x. x \<in> set xs \<Longrightarrow> tame (f x)) \<Longrightarrow> tame (for_each xs f)"
  by (induction xs) (auto intro!: tame_rules)

lemma same_slot_intros:
  "same_slot p (p\<lparr>p_sz := v\<rparr>)" "same_slot p (p\<lparr>p_parent := w\<rparr>)" "same_slot p (p\<lparr>p_chan := c\<rparr>)"
  "same_slot p (wake c p)"
  "same_slot p (p\<lparr>p_killed := True, p_state := (if p_state p = SLEEPING then RUNNABLE else p_state p)\<rparr>)"
  by (simp_all add: same_slot_def wake_def)

lemma tame_growproc: "tame (growproc n)"
  unfolding growproc_def by (intro tame_rules same_slot_intros)

lemma tame_wakeup [tame_rules]: "tame (wakeup c)"
  by (auto simp: tame_def wakeup_def modify_def same_tab_def same_slot_def wake_def)

lemma tame_kill: "tame (kill pid)"
  unfolding kill_def by (intro tame_rules same_slot_intros)

lemma tame_reparent: "tame (reparent i)"
  unfolding reparent_def by (intro tame_rules same_slot_intros)

lemma tame_sleep_resume: "tame sleep_resume"
  unfolding sleep_resume_def by (intro tame_rules same_slot_intros)

lemma tame_either: "tame (either_copyout u d src)" "tame (either_copyin u a n)"
  unfolding either_copyout_def either_copyin_def
  by (intro tame_rules; simp add: tame_def modify_def gets_def same_tab_def same_slot_def)+

subsection \<open>Operations that claim, free or stop a process\<close>

lemma running_upd:
  assumes "length (procs s') = length (procs s)" and "j < length (procs s)"
    and "procs s' = (procs s)[j := p]"
  shows "running s' = (if p_state p = RUNNING then insert j (running s) else running s - {j})"
  using assms by (auto simp: running_def nth_list_update)

lemma tab_ok_upd:
  assumes "tab_ok s" and "j < NPROC" and "nextpid s' \<ge> nextpid s" and "procs s' = (procs s)[j := p]"
    and "p_state p = UNUSED \<and> p_pid p = 0 \<or>
      p_state p \<noteq> UNUSED \<and> p_state (procs s ! j) \<noteq> UNUSED \<and> p_pid p = p_pid (procs s ! j) \<or>
      p_state p \<noteq> UNUSED \<and> p_pid p = nextpid s \<and> nextpid s < nextpid s'"
  shows "tab_ok s'"
proof -
  have len: "length (procs s') = NPROC" using assms by (simp add: tab_ok_def)
  have nth: "procs s' ! i = (if i = j then p else procs s ! i)" if "i < NPROC" for i
    using that assms(1,2,4) by (simp add: tab_ok_def nth_list_update)
  have "(if p_state (procs s' ! i) = UNUSED then p_pid (procs s' ! i) = 0
      else 0 < p_pid (procs s' ! i) \<and> p_pid (procs s' ! i) < nextpid s')" if "i < NPROC" for i
  proof (cases "i = j")
    case True
    then show ?thesis using assms that by (auto simp: nth tab_ok_def)
  next
    case False
    then show ?thesis using assms(1,3) that unfolding nth [OF that] tab_ok_def by (auto split: if_splits)
  qed
  moreover have "i = k" if ik: "i < NPROC" "k < NPROC" "p_state (procs s' ! i) \<noteq> UNUSED"
      "p_state (procs s' ! k) \<noteq> UNUSED" "p_pid (procs s' ! i) = p_pid (procs s' ! k)" for i k
  proof -
    have old: "x < NPROC \<Longrightarrow> p_state (procs s ! x) \<noteq> UNUSED \<Longrightarrow> p_pid (procs s ! x) < nextpid s"
      "x < NPROC \<Longrightarrow> y < NPROC \<Longrightarrow> p_state (procs s ! x) \<noteq> UNUSED \<Longrightarrow> p_state (procs s ! y) \<noteq> UNUSED \<Longrightarrow>
        p_pid (procs s ! x) = p_pid (procs s ! y) \<Longrightarrow> x = y" for x y
      using assms(1) by (auto simp: tab_ok_def split: if_splits)
    show ?thesis
      using ik assms(2,5) old(1) [of i] old(1) [of k] old(2) [of i k] old(2) [of j k] old(2) [of i j]
      by (auto simp: nth split: if_splits)
  qed
  ultimately show ?thesis using assms(1,3) len by (auto simp: tab_ok_def)
qed

text \<open>What an operation does to the table: the running processes and the CPU, and the identifiers.\<close>

definition keeps_running :: "'a ptab_scheme \<Rightarrow> 'a ptab_scheme \<Rightarrow> bool" where
  "keeps_running s s' \<longleftrightarrow> length (procs s') = length (procs s) \<and> running s' = running s \<and> cur s' = cur s"

definition keeps_pids :: "'a ptab_scheme \<Rightarrow> 'a ptab_scheme \<Rightarrow> bool" where
  "keeps_pids s s' \<longleftrightarrow> (tab_ok s \<longrightarrow> nextpid s < INT_MAX \<longrightarrow> tab_ok s' \<and> nextpid s' \<le> nextpid s + 1)"

lemma freeproc_tab:
  assumes len: "length (procs s) = NPROC" and "j < NPROC" and "j \<notin> running s" and "freeproc j s = Ok () s'"
  shows "keeps_running s s' \<and> nextpid s' = nextpid s \<and> (tab_ok s \<longrightarrow> tab_ok s')"
proof -
  obtain m l where s': "s' = s\<lparr>pmem := m, freelist := l, procs := (procs s)[j := cleared (procs s ! j)]\<rparr>"
    using freeproc_eff [OF assms(4)] by blast
  have "tab_ok s'" if "tab_ok s"
    using tab_ok_upd [OF that assms(2), of s' "cleared (procs s ! j)"] by (simp add: s' cleared_def)
  moreover have "running s' = running s"
    using running_upd [of s' s j "cleared (procs s ! j)"] assms(2,3) len by (simp add: s' cleared_def)
  ultimately show ?thesis by (simp add: s' keeps_running_def)
qed

lemma claim_slot_tab:
  assumes len: "length (procs s) = NPROC" and "find_idx (\<lambda>p. p_state p = UNUSED) (procs s) = Some i"
    and s': "s' = s\<lparr>pmem := m, freelist := l, nextpid := int32 (nextpid s + 1), procs := (procs s)[i := p]\<rparr>"
    and p: "p_state p = UNUSED \<and> p_pid p = 0 \<or> p_state p = USED \<and> p_pid p = nextpid s"
  shows "keeps_running s s' \<and> keeps_pids s s'"
proof -
  have i: "i < NPROC" "p_state (procs s ! i) = UNUSED" using find_idx_SomeD [OF assms(2)] len by auto
  have "tab_ok s' \<and> nextpid s' \<le> nextpid s + 1" if ok: "tab_ok s" and n: "nextpid s < INT_MAX"
  proof -
    have "int32 (nextpid s + 1) = nextpid s + 1" using ok n by (intro int32_id) (simp_all add: tab_ok_def INT_MAX_def)
    then show ?thesis using tab_ok_upd [OF ok i(1), of s' p] p by (auto simp: s')
  qed
  moreover have "i \<notin> running s" "p_state p \<noteq> RUNNING" using i p by (auto simp: running_def)
  then have "running s' = running s" using running_upd [of s' s i p] s' i len by simp
  ultimately show ?thesis by (simp add: s' keeps_running_def keeps_pids_def)
qed

lemma allocproc_tab:
  assumes "length (procs s) = NPROC" and "allocproc s = Ok r s'"
  shows "keeps_running s s' \<and> keeps_pids s s'"
  using allocproc_eff [OF assms(2)]
proof (elim disjE exE conjE)
  assume "s' = s"
  then show ?thesis by (simp add: keeps_running_def keeps_pids_def)
qed (rule claim_slot_tab [OF assms(1)], assumption, assumption, simp)+

lemma wait_scan_tab:
  assumes "length (procs s) = NPROC" and "\<forall>j \<in> set js. j < NPROC" and "wait_scan me addr js hk s = Ok r s'"
  shows "keeps_running s s' \<and> nextpid s' = nextpid s \<and> (tab_ok s \<longrightarrow> tab_ok s')"
  using assms
proof (induction js arbitrary: hk)
  case (Cons j js)
  let ?np = "procs s ! j"
  show ?case
  proof (cases "p_parent ?np = Some me \<and> p_state ?np = ZOMBIE")
    case True
    then obtain r1 s1 where r1: "(if addr \<noteq> 0 then copyout (p_pagetable (procs s ! me)) addr
          (le_enc 4 (of_int (p_xstate ?np) :: uint32)) else ret 0) s = Ok r1 s1"
      and rest: "if r1 < 0 then s' = s1 else freeproc j s1 = Ok () s'"
      using Cons.prems(3) by (auto simp: gets_def ret_def split: if_splits)
    have "tame (if addr \<noteq> 0 then copyout (p_pagetable (procs s ! me)) addr
        (le_enc 4 (of_int (p_xstate ?np) :: uint32)) else ret 0)" by (intro tame_rules)
    then have st: "same_tab s s1" using r1 by (rule tameD)
    then have "tab_ok s \<longrightarrow> tab_ok s1" "keeps_running s s1" "nextpid s1 = nextpid s"
      using same_tab_ok [OF st] same_tab_running [OF st] by (simp_all add: same_tab_def keeps_running_def)
    moreover have "j \<notin> running s" using True by (simp add: running_def)
    ultimately show ?thesis
      using rest freeproc_tab [of s1 j s'] Cons.prems(1,2) by (auto simp: keeps_running_def split: if_splits)
  next
    case False
    then show ?thesis using Cons by (auto simp: gets_def split: if_splits)
  qed
qed (simp add: ret_def keeps_running_def)

lemma wait_scan_not_Block: "wait_scan me addr js hk s \<noteq> Block s'"
proof (induction js arbitrary: hk)
  case (Cons j js)
  then show ?case
    by (auto simp: bind_def gets_def ret_def freeproc_not_Block kframe_not_Block [OF kframe_copyout]
        split: outcome.splits if_splits)
qed (simp add: ret_def)

lemma tab_cur [simp]: "tab_ok (s\<lparr>cur := c\<rparr>) = tab_ok s" "running (s\<lparr>cur := c\<rparr>) = running s"
  by (simp_all add: tab_ok_def running_def)

text \<open>Handing the CPU back in a state other than \<open>RUNNING\<close>.\<close>

lemma leave_cpu:
  assumes "length (procs s) = NPROC" and "i \<in> running s" and "cur s = Some i"
    and "\<And>p. p_pid (f p) = p_pid p \<and> p_state (f p) \<notin> {UNUSED, RUNNING}"
    and "bind (upd_proc i f) (\<lambda>_. sched) s = Block s'"
  shows "length (procs s') = NPROC \<and> running s' = running s - {i} \<and> cur s' = None \<and> keeps_pids s s'"
proof -
  have i: "i < NPROC" "p_state (procs s ! i) = RUNNING" using assms(1,2) by (auto simp: running_def)
  have s': "s' = s\<lparr>procs := (procs s)[i := f (procs s ! i)], cur := None\<rparr>"
    using assms(3,4,5) i assms(1) by (auto simp: bind_def sched_def myproc_def)
  have "tab_ok s'" if "tab_ok s" using tab_ok_upd [OF that i(1), of s' "f (procs s ! i)"] assms(4) i by (simp add: s')
  moreover have "running s' = running s - {i}"
    using running_upd [of s' s i "f (procs s ! i)"] assms(1,4) i by (simp add: s')
  ultimately show ?thesis using assms(1) by (simp add: s' keeps_pids_def)
qed

lemma sched_not_Ok [simp]: "sched s \<noteq> Ok r s'"
  by (auto simp: bind_def sched_def myproc_def split: option.splits if_splits)

lemma sleep_not_Ok [simp]: "sleep ch s \<noteq> Ok r s'"
  by (simp add: sleep_def)

subsection \<open>The contract of an operation\<close>

locale table_op =
  fixes oper :: "('b, 'a ptab_scheme) routine"
  assumes op_returns: "length (procs s) = NPROC \<Longrightarrow> cur s = Some i \<Longrightarrow> i \<in> running s \<Longrightarrow> oper s = Ok r s' \<Longrightarrow>
      keeps_running s s' \<and> keeps_pids s s'"
    and op_leaves: "length (procs s) = NPROC \<Longrightarrow> cur s = Some i \<Longrightarrow> i \<in> running s \<Longrightarrow> oper s = Block s' \<Longrightarrow>
      length (procs s') = NPROC \<and> running s' = running s - {i} \<and> cur s' = None \<and> keeps_pids s s'"

text \<open>The CPUs: which process each runs.\<close>

type_synonym 'a smp = "'a ptab_scheme \<times> (nat \<Rightarrow> nat option)"

definition smp_inv :: "'a smp \<Rightarrow> bool" where
  "smp_inv z \<longleftrightarrow> (case z of (s, cs) \<Rightarrow> length (procs s) = NPROC \<and>
     (\<forall>c i. cs c = Some i \<longrightarrow> i \<in> running s) \<and>
     (\<forall>c c' i. cs c = Some i \<longrightarrow> cs c' = Some i \<longrightarrow> c = c') \<and>
     (\<forall>i \<in> running s. \<exists>c. cs c = Some i))"

text \<open>A step keeps the invariant of the CPUs, and, while \<open>nextpid\<close> does not wrap around, the identifiers.\<close>

definition smp_keeps :: "'a smp \<Rightarrow> 'a smp \<Rightarrow> bool" where
  "smp_keeps z z' \<longleftrightarrow> smp_inv z' \<and> keeps_pids (fst z) (fst z')"

lemma keeps_pids_cur [simp]: "keeps_pids (s\<lparr>cur := x\<rparr>) s' = keeps_pids s s'"
  by (simp add: keeps_pids_def)

context table_op
begin

lemma smp_returns:
  assumes "smp_inv (s, cs)" and "cs c = Some i" and "oper (s\<lparr>cur := Some i\<rparr>) = Ok r s'"
  shows "smp_keeps (s, cs) (s', cs)"
  using op_returns [of "s\<lparr>cur := Some i\<rparr>" i r s'] assms by (auto simp: smp_inv_def smp_keeps_def keeps_running_def)

lemma smp_leaves:
  assumes "smp_inv (s, cs)" and "cs c = Some i" and "oper (s\<lparr>cur := Some i\<rparr>) = Block s'"
  shows "smp_keeps (s, cs) (s', cs(c := None))"
proof -
  have s': "length (procs s') = NPROC" "running s' = running s - {i}" "keeps_pids s s'"
    using op_leaves [of "s\<lparr>cur := Some i\<rparr>" i s'] assms by (auto simp: smp_inv_def)
  have "\<exists>c'. (cs(c := None)) c' = Some j" if j: "j \<in> running s - {i}" for j
  proof -
    obtain c' where "cs c' = Some j" using assms(1) j by (auto simp: smp_inv_def)
    then show ?thesis using assms(2) j by (intro exI [of _ c']) auto
  qed
  then show ?thesis using s' assms(1,2) by (auto simp: smp_inv_def smp_keeps_def split: if_splits)
qed

end

lemma same_tab_keeps: "same_tab s s' \<Longrightarrow> keeps_running s s' \<and> keeps_pids s s'"
  using same_tab_ok [of s s'] same_tab_running [of s s'] by (simp add: same_tab_def keeps_running_def keeps_pids_def)

lemma tame_table_op: "tame f \<Longrightarrow> table_op f"
  by (rule table_op.intro) (simp_all add: same_tab_keeps [OF tameD] tame_not_Block)

interpretation op_grow: table_op "growproc n"
  by (rule tame_table_op [OF tame_growproc])

interpretation op_kill: table_op "kill pid"
  by (rule tame_table_op [OF tame_kill])

interpretation op_wakeup: table_op "wakeup ch"
  by (rule tame_table_op [OF tame_wakeup])

interpretation op_reparent: table_op "reparent j"
  by (rule tame_table_op [OF tame_reparent])

interpretation op_resume: table_op sleep_resume
  by (rule tame_table_op [OF tame_sleep_resume])

interpretation op_alloc: table_op allocproc
  by unfold_locales (simp_all add: allocproc_tab allocproc_not_Block)

interpretation op_sleep: table_op "sleep ch"
proof
  fix s i r s'
  assume s: "length (procs s) = NPROC" "cur s = Some i" "i \<in> running s"
  show "length (procs s') = NPROC \<and> running s' = running s - {i} \<and> cur s' = None \<and> keeps_pids s s'" if "sleep ch s = Block s'"
    using leave_cpu [OF s(1,3,2), of "\<lambda>p. p\<lparr>p_chan := ch, p_state := SLEEPING\<rparr>" s'] that s(2)
    by (simp add: sleep_def bind_def myproc_def)
  show "keeps_running s s' \<and> keeps_pids s s'" if "sleep ch s = Ok r s'"
    using that by (simp add: sleep_def myproc_def s(2))
qed

interpretation op_yield: table_op yield
proof
  fix s i r s'
  assume s: "length (procs s) = NPROC" "cur s = Some i" "i \<in> running s"
  show "length (procs s') = NPROC \<and> running s' = running s - {i} \<and> cur s' = None \<and> keeps_pids s s'" if "yield s = Block s'"
    using leave_cpu [OF s(1,3,2), of "\<lambda>p. p\<lparr>p_state := RUNNABLE\<rparr>" s'] that s(2)
    by (simp add: yield_def bind_def myproc_def)
  show "keeps_running s s' \<and> keeps_pids s s'" if "yield s = Ok r s'"
    using that by (simp add: yield_def myproc_def s(2))
qed

interpretation op_exit: table_op "exit_zombie status"
proof
  fix s i r s'
  assume s: "length (procs s) = NPROC" "cur s = Some i" "i \<in> running s"
  show "length (procs s') = NPROC \<and> running s' = running s - {i} \<and> cur s' = None \<and> keeps_pids s s'" if "exit_zombie status s = Block s'"
    using leave_cpu [OF s(1,3,2), of "\<lambda>p. p\<lparr>p_xstate := status, p_state := ZOMBIE\<rparr>" s'] that s(2)
    by (simp add: exit_zombie_def bind_def myproc_def)
  show "keeps_running s s' \<and> keeps_pids s s'" if "exit_zombie status s = Ok r s'"
    using that by (simp add: exit_zombie_def myproc_def s(2))
qed

interpretation op_wait: table_op "wait addr"
proof
  fix s :: "'b ptab_scheme" and i r s'
  assume s: "length (procs s) = NPROC" "cur s = Some i" "i \<in> running s"
  have scan: "keeps_running s s1 \<and> nextpid s1 = nextpid s \<and> (tab_ok s \<longrightarrow> tab_ok s1)"
    if "wait_scan i addr [0..<NPROC] False s = Ok q s1" for q s1
    using wait_scan_tab [OF s(1) _ that] by simp
  show "keeps_running s s' \<and> keeps_pids s s'" if w: "wait addr s = Ok r s'"
  proof -
    obtain q hk where q: "wait_scan i addr [0..<NPROC] False s = Ok (q, hk) s'"
      using w s(2) by (auto simp: wait_def myproc_def gets_def ret_def split: option.splits if_splits)
    show ?thesis using scan [OF q] by (simp add: keeps_pids_def)
  qed
  show "length (procs s') = NPROC \<and> running s' = running s - {i} \<and> cur s' = None \<and> keeps_pids s s'" if w: "wait addr s = Block s'"
  proof -
    obtain q s1 where "wait_scan i addr [0..<NPROC] False s = Ok q s1"
        "sleep (Proc i) s1 = (Block s' :: (int, 'b ptab_scheme) outcome)"
      using w s(2)
      by (auto simp: wait_scan_not_Block wait_def myproc_def gets_def ret_def bind_def split: prod.splits option.splits if_splits outcome.splits)
    then show ?thesis using scan op_sleep.op_leaves [of s1 i "Proc i" s'] s by (auto simp: keeps_running_def keeps_pids_def)
  qed
qed

subsection \<open>Interleaving\<close>

text \<open>
  One step of some CPU \<open>c\<close>: an operation by the process that runs there, which returns or gives up the
  CPU, a turn of the scheduler loop on a CPU without a process, or an interrupt there whose handler wakes processes.
\<close>

inductive smp_step :: "'a smp \<Rightarrow> 'a smp \<Rightarrow> bool" where
  do_alloc: "cs c = Some i \<Longrightarrow> allocproc (s\<lparr>cur := Some i\<rparr>) = Ok r s' \<Longrightarrow> smp_step (s, cs) (s', cs)"
| do_fork: "cs c = Some i \<Longrightarrow> np < NPROC \<Longrightarrow> p_state (procs s ! np) = USED \<Longrightarrow>
    fork_runnable np (s\<lparr>cur := Some i\<rparr>) = Ok () s' \<Longrightarrow> smp_step (s, cs) (s', cs)"
| do_grow: "cs c = Some i \<Longrightarrow> growproc n (s\<lparr>cur := Some i\<rparr>) = Ok q s' \<Longrightarrow> smp_step (s, cs) (s', cs)"
| do_kill: "cs c = Some i \<Longrightarrow> kill pid (s\<lparr>cur := Some i\<rparr>) = Ok q s' \<Longrightarrow> smp_step (s, cs) (s', cs)"
| do_wakeup: "cs c = Some i \<Longrightarrow> wakeup ch (s\<lparr>cur := Some i\<rparr>) = Ok () s' \<Longrightarrow> smp_step (s, cs) (s', cs)"
| do_reparent: "cs c = Some i \<Longrightarrow> reparent j (s\<lparr>cur := Some i\<rparr>) = Ok () s' \<Longrightarrow> smp_step (s, cs) (s', cs)"
| do_wait: "cs c = Some i \<Longrightarrow> wait addr (s\<lparr>cur := Some i\<rparr>) = Ok q s' \<Longrightarrow> smp_step (s, cs) (s', cs)"
| do_wait_sleep: "cs c = Some i \<Longrightarrow> wait addr (s\<lparr>cur := Some i\<rparr>) = Block s' \<Longrightarrow>
    smp_step (s, cs) (s', cs(c := None))"
| do_sleep: "cs c = Some i \<Longrightarrow> sleep ch (s\<lparr>cur := Some i\<rparr>) = (Block s' :: (unit, 'a ptab_scheme) outcome) \<Longrightarrow>
    smp_step (s, cs) (s', cs(c := None))"
| do_resume: "cs c = Some i \<Longrightarrow> sleep_resume (s\<lparr>cur := Some i\<rparr>) = Ok () s' \<Longrightarrow> smp_step (s, cs) (s', cs)"
| do_yield: "cs c = Some i \<Longrightarrow> yield (s\<lparr>cur := Some i\<rparr>) = Block s' \<Longrightarrow> smp_step (s, cs) (s', cs(c := None))"
| do_exit: "cs c = Some i \<Longrightarrow>
    exit_zombie status (s\<lparr>cur := Some i\<rparr>) = (Block s' :: (unit, 'a ptab_scheme) outcome) \<Longrightarrow>
    smp_step (s, cs) (s', cs(c := None))"
| do_pick: "cs c = None \<Longrightarrow> j < NPROC \<Longrightarrow> scheduler_pick j (s\<lparr>cur := None\<rparr>) = Ok b s' \<Longrightarrow>
    smp_step (s, cs) (s', cs(c := cur s'))"
| do_intr: "cs c = None \<Longrightarrow> wakeup ch (s\<lparr>cur := None\<rparr>) = Ok () s' \<Longrightarrow> smp_step (s, cs) (s', cs)"

lemma fork_runnable_inv:
  assumes "smp_inv (s, cs)" and "np < NPROC" and "p_state (procs s ! np) = USED"
    and "fork_runnable np (s\<lparr>cur := x\<rparr>) = Ok () s'"
  shows "smp_keeps (s, cs) (s', cs)"
proof -
  let ?p = "(procs s ! np)\<lparr>p_state := RUNNABLE\<rparr>"
  have s': "s' = s\<lparr>cur := x, procs := (procs s)[np := ?p]\<rparr>" using assms(4) by (simp add: fork_runnable_def)
  have ok: "length (procs s) = NPROC" using assms(1) by (simp add: smp_inv_def)
  have "tab_ok s'" if "tab_ok s" using tab_ok_upd [OF that assms(2), of s' ?p] assms(3) by (simp add: s')
  moreover have "np \<notin> running s" using assms(3) by (simp add: running_def)
  then have "running s' = running s" using running_upd [of s' s np ?p] assms(2) ok by (simp add: s')
  ultimately show ?thesis using assms(1) ok by (simp add: smp_inv_def smp_keeps_def keeps_pids_def s')
qed

lemma scheduler_pick_inv:
  assumes "smp_inv (s, cs)" and "cs c = None" and "j < NPROC" and "scheduler_pick j (s\<lparr>cur := None\<rparr>) = Ok b s'"
  shows "smp_keeps (s, cs) (s', cs(c := cur s'))"
proof (cases "p_state (procs s ! j) = RUNNABLE")
  case True
  let ?p = "(procs s ! j)\<lparr>p_state := RUNNING\<rparr>"
  have s': "s' = s\<lparr>procs := (procs s)[j := ?p], cur := Some j\<rparr>"
    using assms(4) True by (auto simp: scheduler_pick_def gets_def modify_def ret_def)
  have ok: "length (procs s) = NPROC" using assms(1) by (simp add: smp_inv_def)
  have "tab_ok s'" if "tab_ok s" using tab_ok_upd [OF that assms(3), of s' ?p] True by (simp add: s')
  moreover have j: "j \<notin> running s" using True by (simp add: running_def)
  moreover have "running s' = insert j (running s)" using running_upd [of s' s j ?p] assms(3) ok by (simp add: s')
  moreover have "\<exists>c'. (cs(c := Some j)) c' = Some i" if i: "i \<in> running s" for i
  proof -
    obtain c' where "cs c' = Some i" using assms(1) i by (auto simp: smp_inv_def)
    then show ?thesis using assms(2) by (intro exI [of _ c']) auto
  qed
  ultimately show ?thesis using assms(1) by (auto simp: smp_inv_def smp_keeps_def keeps_pids_def s')
next
  case False
  then have "s' = s\<lparr>cur := None\<rparr>" using assms(4) by (auto simp: scheduler_pick_def gets_def ret_def)
  moreover have "cs(c := None) = cs" using assms(2) by (simp add: fun_upd_idem)
  ultimately show ?thesis using assms(1) by (simp add: smp_inv_def smp_keeps_def keeps_pids_def)
qed

lemma idle_wakeup_inv:
  assumes "smp_inv (s, cs)" and "wakeup ch (s\<lparr>cur := None\<rparr>) = Ok () s'"
  shows "smp_keeps (s, cs) (s', cs)"
  using same_tab_keeps [OF tameD [OF tame_wakeup assms(2)]] assms(1) by (simp add: smp_inv_def smp_keeps_def keeps_running_def)

lemma smp_step_keeps: "smp_step z z' \<Longrightarrow> smp_inv z \<Longrightarrow> smp_keeps z z'"
proof (induction rule: smp_step.induct)
  case (do_fork cs c i np s s')
  then show ?case using fork_runnable_inv by blast
next
  case (do_pick cs c j s b s')
  then show ?case using scheduler_pick_inv by blast
next
  case (do_intr cs c ch s s')
  then show ?case using idle_wakeup_inv by blast
qed (blast intro: op_alloc.smp_returns op_grow.smp_returns op_kill.smp_returns op_wakeup.smp_returns
    op_reparent.smp_returns op_wait.smp_returns op_wait.smp_leaves op_sleep.smp_leaves op_resume.smp_returns
    op_yield.smp_leaves op_exit.smp_leaves)+

lemma smp_run:
  assumes "(smp_step ^^ n) z z'" and "smp_inv z"
  shows "smp_inv z' \<and> (tab_ok (fst z) \<longrightarrow> nextpid (fst z) + int n \<le> INT_MAX \<longrightarrow> tab_ok (fst z') \<and> nextpid (fst z') \<le> nextpid (fst z) + int n)"
  using assms(1)
proof (induction n arbitrary: z')
  case (Suc n)
  then obtain y where y: "(smp_step ^^ n) z y" "smp_step y z'" by auto
  have "smp_keeps y z'" using smp_step_keeps [OF y(2)] Suc.IH [OF y(1)] by blast
  then show ?case using Suc.IH [OF y(1)] by (auto simp: smp_keeps_def keeps_pids_def)
qed (use assms(2) in simp)

subsection \<open>Sleeping and waking under the locks\<close>

text \<open>
  \<open>sleep(chan, lk)\<close> and \<open>wakeup(chan)\<close> at the granularity of their locks, for a process that waits
  until \<open>cond\<close> holds and one that makes it hold. The sleeper acquires \<open>lk\<close>, tests, acquires its
  \<open>p->lock\<close>, releases \<open>lk\<close>, marks itself \<open>SLEEPING\<close> and switches to the scheduler, which releases
  \<open>p->lock\<close>. The waker holds \<open>lk\<close> around the change of \<open>cond\<close> and \<open>wakeup\<close>, which takes \<open>p->lock\<close>.
\<close>

datatype party = Sleeper | Waker
datatype sleeper_pc = SStart | SHold | SBoth | SOnly | SMarked | SOff | SBack | SGone
datatype waker_pc = WStart | WHold | WSet | WBoth | WWoken | WScanned | WDone

record rendezvous =
  r_lk :: "party option"
  r_pl :: "party option"
  r_cond :: bool
  r_state :: procstate
  r_chan :: chan
  r_s :: sleeper_pc
  r_w :: waker_pc

inductive sleep_wakeup :: "chan \<Rightarrow> rendezvous \<Rightarrow> rendezvous \<Rightarrow> bool" for c :: chan where
  s_acquire: "r_s z \<in> {SStart, SBack} \<Longrightarrow> r_lk z = None \<Longrightarrow>
    sleep_wakeup c z (z\<lparr>r_lk := Some Sleeper, r_s := SHold\<rparr>)"
| s_done: "r_s z = SHold \<Longrightarrow> r_cond z \<Longrightarrow> sleep_wakeup c z (z\<lparr>r_lk := None, r_s := SGone\<rparr>)"
| s_plock: "r_s z = SHold \<Longrightarrow> \<not> r_cond z \<Longrightarrow> r_pl z = None \<Longrightarrow>
    sleep_wakeup c z (z\<lparr>r_pl := Some Sleeper, r_s := SBoth\<rparr>)"
| s_release: "r_s z = SBoth \<Longrightarrow> sleep_wakeup c z (z\<lparr>r_lk := None, r_s := SOnly\<rparr>)"
| s_mark: "r_s z = SOnly \<Longrightarrow> sleep_wakeup c z (z\<lparr>r_chan := c, r_state := SLEEPING, r_s := SMarked\<rparr>)"
| s_switch: "r_s z = SMarked \<Longrightarrow> sleep_wakeup c z (z\<lparr>r_pl := None, r_s := SOff\<rparr>)"
| s_resume: "r_s z = SOff \<Longrightarrow> r_state z = RUNNABLE \<Longrightarrow> r_pl z = None \<Longrightarrow>
    sleep_wakeup c z (z\<lparr>r_state := RUNNING, r_chan := Null, r_s := SBack\<rparr>)"
| w_acquire: "r_w z = WStart \<Longrightarrow> r_lk z = None \<Longrightarrow> sleep_wakeup c z (z\<lparr>r_lk := Some Waker, r_w := WHold\<rparr>)"
| w_set: "r_w z = WHold \<Longrightarrow> sleep_wakeup c z (z\<lparr>r_cond := True, r_w := WSet\<rparr>)"
| w_plock: "r_w z = WSet \<Longrightarrow> r_pl z = None \<Longrightarrow> sleep_wakeup c z (z\<lparr>r_pl := Some Waker, r_w := WBoth\<rparr>)"
| w_wake: "r_w z = WBoth \<Longrightarrow> sleep_wakeup c z (z\<lparr>r_w := WWoken,
    r_state := (if r_state z = SLEEPING \<and> r_chan z = c then RUNNABLE else r_state z)\<rparr>)"
| w_punlock: "r_w z = WWoken \<Longrightarrow> sleep_wakeup c z (z\<lparr>r_pl := None, r_w := WScanned\<rparr>)"
| w_release: "r_w z = WScanned \<Longrightarrow> sleep_wakeup c z (z\<lparr>r_lk := None, r_w := WDone\<rparr>)"

definition meet :: rendezvous where
  "meet = \<lparr>r_lk = None, r_pl = None, r_cond = False, r_state = RUNNING, r_chan = Null, r_s = SStart, r_w = WStart\<rparr>"

definition meet_inv :: "chan \<Rightarrow> rendezvous \<Rightarrow> bool" where
  "meet_inv c z \<longleftrightarrow>
     (r_lk z = Some Sleeper \<longleftrightarrow> r_s z \<in> {SHold, SBoth}) \<and>
     (r_pl z = Some Sleeper \<longleftrightarrow> r_s z \<in> {SBoth, SOnly, SMarked}) \<and>
     (r_lk z = Some Waker \<longleftrightarrow> r_w z \<in> {WHold, WSet, WBoth, WWoken, WScanned}) \<and>
     (r_pl z = Some Waker \<longleftrightarrow> r_w z \<in> {WBoth, WWoken}) \<and>
     (r_state z = SLEEPING \<longrightarrow> r_s z \<in> {SMarked, SOff} \<and> r_chan z = c) \<and>
     (r_s z = SMarked \<longrightarrow> r_state z = SLEEPING) \<and>
     (r_s z = SOff \<longrightarrow> r_state z \<in> {SLEEPING, RUNNABLE}) \<and>
     (r_cond z \<longleftrightarrow> r_w z \<notin> {WStart, WHold}) \<and>
     (r_s z = SBoth \<longrightarrow> \<not> r_cond z) \<and>
     (r_w z \<in> {WWoken, WScanned, WDone} \<longrightarrow> r_s z \<notin> {SOnly, SMarked} \<and> r_state z \<noteq> SLEEPING)"

lemma meet_inv_step: "sleep_wakeup c z z' \<Longrightarrow> meet_inv c z \<Longrightarrow> meet_inv c z'"
proof (induction rule: sleep_wakeup.induct)
  case (s_acquire z)
  then show ?case by (cases "r_w z"; simp add: meet_inv_def) (auto)
next
  case (w_wake z)
  then show ?case by (cases "r_s z"; simp add: meet_inv_def) blast
next
  case (s_done z)
  then show ?case by (cases "r_w z"; simp add: meet_inv_def)
next
  case (s_plock z)
  then show ?case by (cases "r_w z"; simp add: meet_inv_def)
next
  case (s_release z)
  then show ?case by (cases "r_w z"; simp add: meet_inv_def)
next
  case (s_mark z)
  then show ?case by (cases "r_w z"; simp add: meet_inv_def)
next
  case (s_switch z)
  then show ?case by (cases "r_w z"; simp add: meet_inv_def)
next
  case (s_resume z)
  then show ?case by (cases "r_w z"; simp add: meet_inv_def)
next
  case (w_acquire z)
  then show ?case by (cases "r_s z"; simp add: meet_inv_def)
next
  case (w_set z)
  then show ?case by (cases "r_s z"; simp add: meet_inv_def)
next
  case (w_plock z)
  then show ?case by (cases "r_s z"; simp add: meet_inv_def)
next
  case (w_punlock z)
  then show ?case by (cases "r_s z"; simp add: meet_inv_def)
next
  case (w_release z)
  then show ?case by (cases "r_s z"; simp add: meet_inv_def)
qed

lemma meet_inv_reachable: "(sleep_wakeup c)\<^sup>*\<^sup>* meet z \<Longrightarrow> meet_inv c z"
proof (induction rule: rtranclp_induct)
  case base
  show ?case by (simp add: meet_def meet_inv_def)
qed (rule meet_inv_step)

subsection \<open>The theorems\<close>

definition unused_slot :: proc where
  "unused_slot = \<lparr>p_state = UNUSED, p_chan = Null, p_killed = False, p_xstate = 0, p_pid = 0, p_parent = None,
     p_kstack = 0, p_sz = 0, p_pagetable = 0, p_trapframe = 0,
     p_context = \<lparr>c_ra = 0, c_sp = 0, c_s = replicate 12 0\<rparr>, p_ofile = replicate 16 None, p_cwd = None,
     p_name = replicate 16 0, p_vma = replicate 16 \<lparr>v_addr = 0, v_len = 0, v_prot = 0, v_flag = 0, v_f = None,
       v_offset = 0, v_fd = 0, v_valid = False\<rparr>\<rparr>"

definition one_proc :: ptab where
  "one_proc = \<lparr>pmem = (\<lambda>_. 0), freelist = 0, kend = 0x80100000,
     procs = unused_slot\<lparr>p_state := RUNNABLE, p_pid := 1\<rparr> # replicate 63 unused_slot,
     cur = None, nextpid = 2, initproc = Some 0, ticks = 0, sym_trampoline = 0x80007000, sym_forkret = 0x80001000\<rparr>"

lemma one_proc_nth: "i < 64 \<Longrightarrow> procs one_proc ! i =
    (if i = 0 then unused_slot\<lparr>p_state := RUNNABLE, p_pid := 1\<rparr> else unused_slot)"
  by (cases i) (simp_all add: one_proc_def)

lemma one_proc_ok: "tab_ok one_proc" "running one_proc = {}"
proof -
  have len: "length (procs one_proc) = 64" "nextpid one_proc = 2" by (simp_all add: one_proc_def)
  have st: "p_state (procs one_proc ! i) = (if i = 0 then RUNNABLE else UNUSED)"
    "p_pid (procs one_proc ! i) = (if i = 0 then 1 else 0)" if "i < 64" for i
    using one_proc_nth [OF that] by (simp_all add: unused_slot_def)
  show "tab_ok one_proc" using len st by (auto simp: tab_ok_def NPROC_def)
  show "running one_proc = {}" using len st by (auto simp: running_def split: if_splits)
qed

text \<open>
  C12: Processes on several CPUs. Starting with no process on any CPU, however allocation, fork, growth,
  kill, wakeup, sleep, yield, wait, exit, the scheduler loops and interrupts interleave, no process is ever on two
  CPUs, and a process is \<open>RUNNING\<close> exactly when some CPU runs it. Two live processes have different process
  identifiers as long as the counter \<open>nextpid\<close> cannot have wrapped around, that is in runs of at most
  \<open>INT_MAX - nextpid\<close> steps.
\<close>

theorem one_cpu_per_process:
  assumes "tab_ok s" and "running s = {}" and "(smp_step ^^ n) (s, \<lambda>_. None) (s', cs)"
  shows "(cs c = Some i \<longrightarrow> cs c' = Some i \<longrightarrow> c = c') \<and>
    (i < NPROC \<longrightarrow> (p_state (procs s' ! i) = RUNNING \<longleftrightarrow> (\<exists>c. cs c = Some i))) \<and>
    (nextpid s + int n \<le> INT_MAX \<longrightarrow> i < NPROC \<longrightarrow> j < NPROC \<longrightarrow>
      p_state (procs s' ! i) \<noteq> UNUSED \<longrightarrow> p_state (procs s' ! j) \<noteq> UNUSED \<longrightarrow>
      p_pid (procs s' ! i) = p_pid (procs s' ! j) \<longrightarrow> i = j)"
proof -
  have "smp_inv (s, \<lambda>_. None)" using assms(1,2) by (simp add: smp_inv_def tab_ok_def)
  from smp_run [OF assms(3) this] have inv: "smp_inv (s', cs)" "nextpid s + int n \<le> INT_MAX \<longrightarrow> tab_ok s'" using assms(1) by auto
  have "i = j" if "nextpid s + int n \<le> INT_MAX" "i < NPROC" "j < NPROC" "p_state (procs s' ! i) \<noteq> UNUSED" "p_state (procs s' ! j) \<noteq> UNUSED"
      "p_pid (procs s' ! i) = p_pid (procs s' ! j)"
    using inv(2) that unfolding tab_ok_def by blast
  then show ?thesis using inv(1) unfolding smp_inv_def running_def by auto
qed

theorem one_cpu_per_process_witness:
  "\<exists>s' cs. (smp_step ^^ 1) (one_proc, \<lambda>_. None) (s', cs) \<and> cs 3 = Some 0 \<and> p_state (procs s' ! 0) = RUNNING"
proof -
  let ?s = "one_proc\<lparr>procs := (procs one_proc)[0 := (procs one_proc ! 0)\<lparr>p_state := RUNNING\<rparr>], cur := Some 0\<rparr>"
  have "p_state (procs one_proc ! 0) = RUNNABLE" by (simp add: one_proc_def)
  then have "scheduler_pick 0 (one_proc\<lparr>cur := None\<rparr>) = Ok True ?s"
    by (simp add: scheduler_pick_def gets_def modify_def ret_def bind_def)
  then have "smp_step (one_proc, \<lambda>_. None) (?s, (\<lambda>_. None)(3 := cur ?s))"
    by (intro smp_step.do_pick) (simp_all add: NPROC_def)
  then have run: "(smp_step ^^ 1) (one_proc, \<lambda>_. None) (?s, (\<lambda>_. None)(3 := Some 0))" by (simp add: eq_OO)
  have "p_state (procs ?s ! 0) = RUNNING \<longleftrightarrow> (\<exists>c :: nat. ((\<lambda>_. None)(3 := Some (0 :: nat))) c = Some 0)"
    by (rule one_cpu_per_process [OF one_proc_ok run, THEN conjunct2, THEN conjunct1, rule_format])
      (simp add: NPROC_def)
  then have "p_state (procs ?s ! 0) = RUNNING" by (metis fun_upd_same)
  with run show ?thesis by (intro exI [of _ ?s] exI [of _ "(\<lambda>_. None)(3 := Some 0)"]) simp
qed

text \<open>
  C13: No lost wakeup. In every interleaving of a process that sleeps until a condition holds with one
  that makes it hold and calls \<open>wakeup\<close>, once the waker is done the sleeper is not asleep, and the two
  never hold the same lock at once.
\<close>

theorem no_lost_wakeup:
  assumes "(sleep_wakeup c)\<^sup>*\<^sup>* meet z"
  shows "(r_w z = WDone \<longrightarrow> r_cond z \<and> r_state z \<noteq> SLEEPING) \<and>
    (r_s z \<in> {SHold, SBoth} \<longrightarrow> r_w z \<in> {WStart, WDone}) \<and>
    (r_s z \<in> {SBoth, SOnly, SMarked} \<longrightarrow> r_w z \<notin> {WBoth, WWoken})"
proof -
  have "meet_inv c z" using meet_inv_reachable [OF assms] .
  then show ?thesis by (cases "r_w z"; cases "r_s z"; simp add: meet_inv_def)
qed

theorem no_lost_wakeup_witness:
  "\<exists>z. (sleep_wakeup Ticks)\<^sup>*\<^sup>* meet z \<and> r_s z = SHold \<and> r_w z \<in> {WStart, WDone}"
proof -
  let ?z = "meet\<lparr>r_lk := Some Sleeper, r_s := SHold\<rparr>"
  have "sleep_wakeup Ticks meet ?z" by (rule sleep_wakeup.s_acquire) (simp_all add: meet_def)
  then have run: "(sleep_wakeup Ticks)\<^sup>*\<^sup>* meet ?z" by simp
  have "r_s ?z = SHold" by simp
  with no_lost_wakeup [OF run] run show ?thesis by blast
qed

text \<open>
  C14: \<open>kill(0)\<close> dooms the next process. Free slots have identifier 0, so when a slot is free \<open>kill(0)\<close>
  reports success, marks the first free slot as killed, and, since \<open>allocproc\<close> does not clear the mark,
  the next process to be allocated starts out killed.
\<close>

theorem kill_zero_dooms_next:
  assumes "tab_ok s" and "find_idx (\<lambda>p. p_state p = UNUSED) (procs s) = Some i"
  shows "\<exists>s1. kill 0 s = Ok 0 s1 \<and> p_state (procs s1 ! i) = UNUSED \<and>
    (\<forall>j s2. allocproc s1 = Ok (Some j) s2 \<longrightarrow> j = i \<and> p_killed (procs s2 ! j))"
proof -
  have len: "length (procs s) = NPROC" using assms(1) by (simp add: tab_ok_def)
  have i: "i < NPROC" "p_state (procs s ! i) = UNUSED" "\<And>k. k < i \<Longrightarrow> p_state (procs s ! k) \<noteq> UNUSED"
    using assms(2) len by (auto simp: find_idx_Some_iff)
  have pid: "p_pid (procs s ! k) = 0 \<longleftrightarrow> p_state (procs s ! k) = UNUSED" if "k < NPROC" for k
    using assms(1) that by (fastforce simp: tab_ok_def split: if_splits)
  then have "find_idx (\<lambda>p. p_pid p = 0) (procs s) = Some i"
    using i len by (auto simp: find_idx_Some_iff)
  then have k: "kill 0 s = Ok 0 (s\<lparr>procs := (procs s)[i := (procs s ! i)\<lparr>p_killed := True, p_state := UNUSED\<rparr>]\<rparr>)"
    (is "_ = Ok 0 ?s1")
    using i(2) by (simp add: kill_def gets_def bind_def ret_def)
  have "find_idx (\<lambda>p. p_state p = UNUSED) (procs ?s1) = Some i"
    using i len by (auto simp: find_idx_Some_iff nth_list_update)
  then have "j = i \<and> p_killed (procs s2 ! j)" if "allocproc ?s1 = Ok (Some j) s2" for j s2
    using allocproc_eff [OF that] i len by (auto simp: fresh_proc_def)
  then show ?thesis using k i len by auto
qed

theorem kill_zero_dooms_next_witness:
  "\<exists>s1. kill 0 one_proc = Ok 0 s1 \<and> p_state (procs s1 ! 1) = UNUSED"
proof -
  have "find_idx (\<lambda>p. p_state p = UNUSED) (procs one_proc) = Some 1"
    using one_proc_nth by (auto simp: find_idx_Some_iff one_proc_def unused_slot_def)
  from kill_zero_dooms_next [OF one_proc_ok(1) this] show ?thesis by blast
qed

end
