(* ===== verification/Sleeplock.thy ===== *)
theory Sleeplock
  imports Sched
begin

text \<open>
  Sleep locks, \<^verbatim>\<open>kernel/sleeplock.c\<close>.

  A sleep lock is a field of a buffer or an inode, so the operations take the way to read and to update
  it in the kernel state. \<open>lk->lk\<close>, the spin lock inside, brackets each operation; the address of the
  lock is its sleep channel. \<open>acquiresleep\<close> on a held lock puts the process to sleep (\<open>Block\<close>); when it
  is woken it tests again, which is a new call of \<open>acquiresleep\<close>.
\<close>

record sleeplock =
  sl_locked :: bool
  sl_pid :: int

definition initsleeplock :: sleeplock where
  "initsleeplock = \<lparr>sl_locked = False, sl_pid = 0\<rparr>"

type_synonym 's lock_upd = "(sleeplock \<Rightarrow> sleeplock) \<Rightarrow> 's \<Rightarrow> 's"

definition acquiresleep ::
  "('a ptab_scheme \<Rightarrow> sleeplock) \<Rightarrow> 'a ptab_scheme lock_upd \<Rightarrow> chan \<Rightarrow> (unit, 'a ptab_scheme) routine" where
  "acquiresleep lk upd ch =
     bind (gets lk) (\<lambda>l.
       if sl_locked l then sleep ch
       else bind myproc (\<lambda>i. bind (gets (\<lambda>s. p_pid (procs s ! i))) (\<lambda>pid.
         modify (upd (\<lambda>_. \<lparr>sl_locked = True, sl_pid = pid\<rparr>)))))"

definition releasesleep ::
  "'a ptab_scheme lock_upd \<Rightarrow> chan \<Rightarrow> (unit, 'a ptab_scheme) routine" where
  "releasesleep upd ch =
     bind (modify (upd (\<lambda>_. \<lparr>sl_locked = False, sl_pid = 0\<rparr>))) (\<lambda>_. wakeup ch)"

definition holdingsleep :: "('a ptab_scheme \<Rightarrow> sleeplock) \<Rightarrow> (bool, 'a ptab_scheme) routine" where
  "holdingsleep lk =
     bind (gets lk) (\<lambda>l. bind myproc (\<lambda>i. gets (\<lambda>s. sl_locked l \<and> sl_pid l = p_pid (procs s ! i))))"

subsection \<open>One lock and its sleepers\<close>

text \<open>
  The processes of a machine and one sleep lock: \<open>lock_user\<close> interleaves processes that acquire and
  release it, yield or kill one another with the scheduler, on one CPU at a time.
\<close>

record lock_sys = ptab +
  the_lock :: sleeplock

definition upd_the_lock :: "'a lock_sys_scheme lock_upd" where
  "upd_the_lock f s = s\<lparr>the_lock := f (the_lock s)\<rparr>"

inductive lock_user :: "chan \<Rightarrow> lock_sys \<Rightarrow> lock_sys \<Rightarrow> bool" for ch :: chan where
  got: "cur s = Some i \<Longrightarrow> acquiresleep the_lock upd_the_lock ch s = Ok () s' \<Longrightarrow> lock_user ch s s'"
| waits: "cur s = Some i \<Longrightarrow> acquiresleep the_lock upd_the_lock ch s = Block s' \<Longrightarrow> lock_user ch s s'"
| releases: "cur s = Some i \<Longrightarrow> holdingsleep the_lock s = Ok True s \<Longrightarrow>
    releasesleep upd_the_lock ch s = Ok () s' \<Longrightarrow> lock_user ch s s'"
| resumes: "cur s = Some i \<Longrightarrow> sleep_resume s = Ok () s' \<Longrightarrow> lock_user ch s s'"
| yields: "cur s = Some i \<Longrightarrow> yield s = Block s' \<Longrightarrow> lock_user ch s s'"
| kills: "cur s = Some i \<Longrightarrow> kill pid s = Ok r s' \<Longrightarrow> lock_user ch s s'"
| runs: "cur s = None \<Longrightarrow> j < length (procs s) \<Longrightarrow> scheduler_pick j s = Ok b s' \<Longrightarrow> lock_user ch s s'"

text \<open>Nobody sleeps on a free lock, the running process is \<open>RUNNING\<close>, and the owner is a live process.\<close>

definition lock_user_inv :: "chan \<Rightarrow> lock_sys \<Rightarrow> bool" where
  "lock_user_inv ch s \<longleftrightarrow>
     (\<forall>i. cur s = Some i \<longrightarrow> i < length (procs s) \<and> p_state (procs s ! i) = RUNNING) \<and>
     (\<not> sl_locked (the_lock s) \<longrightarrow>
       (\<forall>i<length (procs s). \<not> (p_state (procs s ! i) = SLEEPING \<and> p_chan (procs s ! i) = ch))) \<and>
     (sl_locked (the_lock s) \<longrightarrow> (\<exists>i<length (procs s). p_pid (procs s ! i) = sl_pid (the_lock s)))"

lemma lock_user_inv_step:
  assumes "lock_user ch s s'" and inv: "lock_user_inv ch s"
  shows "lock_user_inv ch s'"
  using assms(1)
proof cases
  case (got i)
  then have "s' = s\<lparr>the_lock := \<lparr>sl_locked = True, sl_pid = p_pid (procs s ! i)\<rparr>\<rparr>"
    by (auto simp: acquiresleep_def gets_def myproc_def modify_def upd_the_lock_def split: if_splits)
  then show ?thesis using inv got(1) by (auto simp: lock_user_inv_def)
next
  case (waits i)
  then have "sl_locked (the_lock s)"
    "s' = s\<lparr>procs := (procs s)[i := (procs s ! i)\<lparr>p_chan := ch, p_state := SLEEPING\<rparr>], cur := None\<rparr>"
    using inv by (auto simp: acquiresleep_def gets_def myproc_def modify_def sleep_def sched_def bind_def
        lock_user_inv_def split: if_splits)
  then show ?thesis using inv waits(1) by (auto simp: lock_user_inv_def list_update_nth)
next
  case (releases i)
  have st: "procs s' ! j = (if i = j then procs s ! j else wake ch (procs s ! j))" if "j < length (procs s)" for j
    using releases that by (auto simp: releasesleep_def modify_def upd_the_lock_def wakeup_def split: if_splits)
  have "length (procs s') = length (procs s)" "cur s' = Some i" "\<not> sl_locked (the_lock s')"
    using releases by (auto simp: releasesleep_def modify_def upd_the_lock_def wakeup_def)
  then show ?thesis using inv releases(1) st by (auto simp: lock_user_inv_def wake_def split: if_splits)
next
  case (resumes i)
  then have "s' = s\<lparr>procs := (procs s)[i := (procs s ! i)\<lparr>p_chan := Null\<rparr>]\<rparr>"
    by (auto simp: sleep_resume_def myproc_def bind_def)
  then show ?thesis using inv resumes(1) by (auto simp: lock_user_inv_def list_update_nth)
next
  case (yields i)
  then have "s' = s\<lparr>procs := (procs s)[i := (procs s ! i)\<lparr>p_state := RUNNABLE\<rparr>], cur := None\<rparr>"
    using inv by (auto simp: yield_def myproc_def bind_def sched_def lock_user_inv_def)
  then show ?thesis using inv yields(1) by (auto simp: lock_user_inv_def list_update_nth)
next
  case (kills i pid r)
  have "same_tab s s'" using tameD [OF tame_kill kills(2)] .
  moreover have "the_lock s' = the_lock s" "p_chan (procs s' ! j) = p_chan (procs s ! j)"
      "p_state (procs s' ! j) = SLEEPING \<longrightarrow> p_state (procs s ! j) = SLEEPING" for j
    using kills(2) by (auto simp: kill_def bind_def list_update_nth split: option.splits if_splits)
  ultimately show ?thesis using inv unfolding lock_user_inv_def same_tab_def same_slot_def by metis
next
  case (runs j b)
  then show ?thesis using inv
    by (auto simp: scheduler_pick_def gets_def modify_def ret_def lock_user_inv_def list_update_nth split: if_splits)
qed

text \<open>
  C16: No process is left asleep on a free sleep lock. Starting with a free lock and no process asleep, however processes
  acquire, wait for and release the lock, yield, kill one another and are scheduled, when the lock is free no process
  is sleeping on it, so each waiter is runnable and will test the lock again.
\<close>

theorem sleeplock_no_stranded_waiter:
  assumes "(lock_user ch)\<^sup>*\<^sup>* s s'" and "cur s = None" and "\<not> sl_locked (the_lock s)"
    and "\<forall>p\<in>set (procs s). p_state p \<noteq> SLEEPING" and "\<not> sl_locked (the_lock s')" and "i < length (procs s')"
  shows "\<not> (p_state (procs s' ! i) = SLEEPING \<and> p_chan (procs s' ! i) = ch)"
proof -
  have "lock_user_inv ch s" using assms(2-4) by (auto simp: lock_user_inv_def)
  with assms(1) have "lock_user_inv ch s'" by (induction rule: rtranclp_induct) (auto intro: lock_user_inv_step)
  then show ?thesis using assms(5,6) by (simp add: lock_user_inv_def)
qed

text \<open>
  The witness: process 0 takes the lock and yields, process 1 finds it held and sleeps, and process 0 releases it.
\<close>

definition two_procs :: "procstate \<Rightarrow> procstate \<Rightarrow> chan \<Rightarrow> nat option \<Rightarrow> sleeplock \<Rightarrow> lock_sys" where
  "two_procs st0 st1 c1 run lk = \<lparr>pmem = (\<lambda>_. 0), freelist = 0, kend = 0x80100000,
     procs = [unused_slot\<lparr>p_state := st0, p_pid := 1\<rparr>, unused_slot\<lparr>p_state := st1, p_pid := 2, p_chan := c1\<rparr>], cur = run,
     nextpid = 3, initproc = Some 0, ticks = 0, sym_trampoline = 0x80007000, sym_forkret = 0x80001000, the_lock = lk\<rparr>"

lemmas two_procs_defs = two_procs_def acquiresleep_def releasesleep_def holdingsleep_def upd_the_lock_def sleep_def sched_def yield_def
  scheduler_pick_def wakeup_def wake_def myproc_def bind_def initsleeplock_def unused_slot_def

abbreviation taken_by_1 :: sleeplock where
  "taken_by_1 \<equiv> \<lparr>sl_locked = True, sl_pid = 1\<rparr>"

lemma two_procs_wait:
  "(lock_user (BufLock 0))\<^sup>*\<^sup>* (two_procs RUNNABLE RUNNABLE Null None initsleeplock) (two_procs RUNNABLE SLEEPING (BufLock 0) None taken_by_1)"
proof -
  have "lock_user (BufLock 0) (two_procs RUNNABLE RUNNABLE Null None initsleeplock) (two_procs RUNNING RUNNABLE Null (Some 0) initsleeplock)"
    by (rule lock_user.runs [of _ 0 True]) (simp_all add: two_procs_defs)
  moreover have "lock_user (BufLock 0) (two_procs RUNNING RUNNABLE Null (Some 0) initsleeplock) (two_procs RUNNING RUNNABLE Null (Some 0) taken_by_1)"
    by (rule lock_user.got [of _ 0]) (simp_all add: two_procs_defs)
  moreover have "lock_user (BufLock 0) (two_procs RUNNING RUNNABLE Null (Some 0) taken_by_1) (two_procs RUNNABLE RUNNABLE Null None taken_by_1)"
    by (rule lock_user.yields [of _ 0]) (simp_all add: two_procs_defs)
  moreover have "lock_user (BufLock 0) (two_procs RUNNABLE RUNNABLE Null None taken_by_1) (two_procs RUNNABLE RUNNING Null (Some 1) taken_by_1)"
    by (rule lock_user.runs [of _ 1 True]) (simp_all add: two_procs_defs)
  moreover have "lock_user (BufLock 0) (two_procs RUNNABLE RUNNING Null (Some 1) taken_by_1) (two_procs RUNNABLE SLEEPING (BufLock 0) None taken_by_1)"
    by (rule lock_user.waits [of _ 1]) (simp_all add: two_procs_defs)
  ultimately show ?thesis by (meson converse_rtranclp_into_rtranclp rtranclp.rtrancl_refl)
qed

lemma two_procs_release:
  "(lock_user (BufLock 0))\<^sup>*\<^sup>* (two_procs RUNNABLE SLEEPING (BufLock 0) None taken_by_1) (two_procs RUNNING RUNNABLE (BufLock 0) (Some 0) initsleeplock)"
proof -
  have "lock_user (BufLock 0) (two_procs RUNNABLE SLEEPING (BufLock 0) None taken_by_1) (two_procs RUNNING SLEEPING (BufLock 0) (Some 0) taken_by_1)"
    by (rule lock_user.runs [of _ 0 True]) (simp_all add: two_procs_defs)
  moreover have "lock_user (BufLock 0) (two_procs RUNNING SLEEPING (BufLock 0) (Some 0) taken_by_1) (two_procs RUNNING RUNNABLE (BufLock 0) (Some 0) initsleeplock)"
    by (rule lock_user.releases [of _ 0]) (simp_all add: two_procs_defs)
  ultimately show ?thesis by (meson converse_rtranclp_into_rtranclp rtranclp.rtrancl_refl)
qed

theorem sleeplock_no_stranded_waiter_witness:
  "\<exists>s1 s2. (lock_user (BufLock 0))\<^sup>*\<^sup>* (two_procs RUNNABLE RUNNABLE Null None initsleeplock) s1 \<and>
    p_state (procs s1 ! 1) = SLEEPING \<and> p_chan (procs s1 ! 1) = BufLock 0 \<and> (lock_user (BufLock 0))\<^sup>*\<^sup>* s1 s2 \<and>
    \<not> sl_locked (the_lock s2) \<and> \<not> (p_state (procs s2 ! 1) = SLEEPING \<and> p_chan (procs s2 ! 1) = BufLock 0)"
proof -
  let ?s = "two_procs RUNNABLE RUNNABLE Null None initsleeplock" let ?s1 = "two_procs RUNNABLE SLEEPING (BufLock 0) None taken_by_1"
  let ?s2 = "two_procs RUNNING RUNNABLE (BufLock 0) (Some 0) initsleeplock"
  have "(lock_user (BufLock 0))\<^sup>*\<^sup>* ?s ?s2" using two_procs_wait two_procs_release by (rule rtranclp_trans)
  then have "\<not> (p_state (procs ?s2 ! 1) = SLEEPING \<and> p_chan (procs ?s2 ! 1) = BufLock 0)"
    by (rule sleeplock_no_stranded_waiter) (simp_all add: two_procs_def initsleeplock_def)
  moreover have "p_state (procs ?s1 ! 1) = SLEEPING" "p_chan (procs ?s1 ! 1) = BufLock 0" "\<not> sl_locked (the_lock ?s2)"
    by (simp_all add: two_procs_def initsleeplock_def)
  ultimately show ?thesis using two_procs_wait two_procs_release by blast
qed

end
