(* ===== verification/Bio.thy ===== *)
theory Bio
  imports Sleeplock
begin

text \<open>
  The buffer cache, \<^verbatim>\<open>kernel/bio.c\<close>.

  \<open>bufs\<close> is the array of buffers and \<open>lru\<close> the order of the linked list from \<open>head.next\<close>, the most
  recently released, to \<open>head.prev\<close>; the pointers themselves are not modelled. The disk is a
  map from block numbers to blocks, and \<open>wrote\<close> records the writes that reached it, in order, so that a
  crash can be taken at any point. \<open>disk_rw\<close> is what \<open>virtio_disk_rw\<close> does for its caller.

  \<open>fsval\<close> is the content of a block as the file system sees it: the cached copy if there is one, else
  the disk. The lemmas show that \<open>bread\<close> returns it and that \<open>bread\<close>, \<open>brelse\<close>, \<open>bpin\<close> and \<open>bunpin\<close> keep
  it, under the invariant \<open>bio_inv\<close>: at most one buffer per block, and a buffer that may be recycled
  agrees with the disk.
\<close>

subsection \<open>State and operations\<close>

definition BSIZE :: nat where "BSIZE = 1024"
definition NBUF :: nat where "NBUF = 30"

record buf =
  b_valid :: bool
  b_disk :: bool
  b_dev :: uint32
  b_blockno :: uint32
  b_lock :: sleeplock
  b_refcnt :: int
  b_data :: "byte list"

record bio = ptab +
  bufs :: "buf list"
  lru :: "nat list"
  disk :: "uint32 \<Rightarrow> byte list"
  wrote :: "(uint32 \<times> byte list) list"

definition upd_buf :: "nat \<Rightarrow> (buf \<Rightarrow> buf) \<Rightarrow> (unit, 'a bio_scheme) routine" where
  "upd_buf b f = modify (\<lambda>s. s\<lparr>bufs := (bufs s)[b := f (bufs s ! b)]\<rparr>)"

definition buf_lock :: "nat \<Rightarrow> 'a bio_scheme \<Rightarrow> sleeplock" where
  "buf_lock b s = b_lock (bufs s ! b)"

definition upd_buf_lock :: "nat \<Rightarrow> 'a bio_scheme lock_upd" where
  "upd_buf_lock b f s = s\<lparr>bufs := (bufs s)[b := (bufs s ! b)\<lparr>b_lock := f (b_lock (bufs s ! b))\<rparr>]\<rparr>"

definition disk_rw :: "nat \<Rightarrow> bool \<Rightarrow> (unit, 'a bio_scheme) routine" where
  "disk_rw b write = modify (\<lambda>s.
     let bn = b_blockno (bufs s ! b) in
     if write then s\<lparr>disk := (disk s)(bn := b_data (bufs s ! b)), wrote := wrote s @ [(bn, b_data (bufs s ! b))]\<rparr>
     else s\<lparr>bufs := (bufs s)[b := (bufs s ! b)\<lparr>b_data := disk s bn\<rparr>]\<rparr>)"

definition binit :: "(unit, 'a bio_scheme) routine" where
  "binit = for_each [0..<NBUF] (\<lambda>b.
     bind (modify (\<lambda>s. s\<lparr>lru := b # lru s\<rparr>)) (\<lambda>_. upd_buf b (\<lambda>x. x\<lparr>b_lock := initsleeplock\<rparr>)))"

definition bget :: "uint32 \<Rightarrow> uint32 \<Rightarrow> (nat, 'a bio_scheme) routine" where
  "bget dev blockno =
     bind (gets (\<lambda>s. find (\<lambda>b. b_dev (bufs s ! b) = dev \<and> b_blockno (bufs s ! b) = blockno) (lru s))) (\<lambda>found.
       case found of
         Some b \<Rightarrow>
           bind (upd_buf b (\<lambda>x. x\<lparr>b_refcnt := b_refcnt x + 1\<rparr>)) (\<lambda>_.
           bind (acquiresleep (buf_lock b) (upd_buf_lock b) (BufLock b)) (\<lambda>_. ret b))
       | None \<Rightarrow>
           bind (gets (\<lambda>s. find (\<lambda>b. b_refcnt (bufs s ! b) = 0) (rev (lru s)))) (\<lambda>free.
             case free of
               Some b \<Rightarrow>
                 bind (upd_buf b (\<lambda>x. x\<lparr>b_dev := dev, b_blockno := blockno, b_valid := False, b_refcnt := 1\<rparr>)) (\<lambda>_.
                 bind (acquiresleep (buf_lock b) (upd_buf_lock b) (BufLock b)) (\<lambda>_. ret b))
             | None \<Rightarrow> panic ''bget: no buffers''))"

definition bread :: "uint32 \<Rightarrow> uint32 \<Rightarrow> (nat, 'a bio_scheme) routine" where
  "bread dev blockno =
     bind (bget dev blockno) (\<lambda>b.
     bind (gets (\<lambda>s. b_valid (bufs s ! b))) (\<lambda>valid.
     bind (if \<not> valid then bind (disk_rw b False) (\<lambda>_. upd_buf b (\<lambda>x. x\<lparr>b_valid := True\<rparr>)) else ret ()) (\<lambda>_.
       ret b)))"

definition bwrite :: "nat \<Rightarrow> (unit, 'a bio_scheme) routine" where
  "bwrite b =
     bind (holdingsleep (buf_lock b)) (\<lambda>h. if \<not> h then panic ''bwrite'' else disk_rw b True)"

definition brelse :: "nat \<Rightarrow> (unit, 'a bio_scheme) routine" where
  "brelse b =
     bind (holdingsleep (buf_lock b)) (\<lambda>h. if \<not> h then panic ''brelse''
       else bind (releasesleep (upd_buf_lock b) (BufLock b)) (\<lambda>_.
         bind (upd_buf b (\<lambda>x. x\<lparr>b_refcnt := b_refcnt x - 1\<rparr>)) (\<lambda>_.
           modify (\<lambda>s. if b_refcnt (bufs s ! b) = 0 then s\<lparr>lru := b # remove1 b (lru s)\<rparr> else s))))"

definition bpin :: "nat \<Rightarrow> (unit, 'a bio_scheme) routine" where
  "bpin b = upd_buf b (\<lambda>x. x\<lparr>b_refcnt := b_refcnt x + 1\<rparr>)"

definition bunpin :: "nat \<Rightarrow> (unit, 'a bio_scheme) routine" where
  "bunpin b = upd_buf b (\<lambda>x. x\<lparr>b_refcnt := b_refcnt x - 1\<rparr>)"

text \<open>What callers do with a buffer they hold: read it, or write its data.\<close>

definition buf_data :: "nat \<Rightarrow> (byte list, 'a bio_scheme) routine" where
  "buf_data b = gets (\<lambda>s. b_data (bufs s ! b))"

definition set_data :: "nat \<Rightarrow> byte list \<Rightarrow> (unit, 'a bio_scheme) routine" where
  "set_data b d = upd_buf b (\<lambda>x. x\<lparr>b_data := d\<rparr>)"

subsection \<open>The invariant and the blocks the file system sees\<close>

definition ROOTDEV :: uint32 where "ROOTDEV = 1"

definition is_copy :: "uint32 \<Rightarrow> buf \<Rightarrow> bool" where
  "is_copy bn x \<longleftrightarrow> b_dev x = ROOTDEV \<and> b_blockno x = bn"

definition buf_ok :: "(uint32 \<Rightarrow> byte list) \<Rightarrow> buf \<Rightarrow> bool" where
  "buf_ok d x \<longleftrightarrow> 0 \<le> b_refcnt x \<and> length (b_data x) = BSIZE \<and> (sl_locked (b_lock x) \<longrightarrow> b_refcnt x > 0) \<and>
     (b_refcnt x > 0 \<longrightarrow> b_dev x = ROOTDEV) \<and>
     (b_refcnt x = 0 \<longrightarrow> b_valid x \<longrightarrow> b_dev x = ROOTDEV \<longrightarrow> b_data x = d (b_blockno x))"

definition bio_inv :: "'a bio_scheme \<Rightarrow> bool" where
  "bio_inv s \<longleftrightarrow> length (bufs s) = NBUF \<and> distinct (lru s) \<and> set (lru s) = {..<NBUF} \<and>
     (\<forall>bn. length (disk s bn) = BSIZE) \<and> (\<forall>b<NBUF. buf_ok (disk s) (bufs s ! b)) \<and>
     (\<forall>b<NBUF. \<forall>c<NBUF. \<forall>bn. is_copy bn (bufs s ! b) \<longrightarrow> is_copy bn (bufs s ! c) \<longrightarrow> b = c)"

text \<open>The buffer that caches a block.\<close>

definition holder :: "'a bio_scheme \<Rightarrow> uint32 \<Rightarrow> nat option" where
  "holder s bn = find (\<lambda>b. is_copy bn (bufs s ! b)) (lru s)"

definition fsval :: "'a bio_scheme \<Rightarrow> uint32 \<Rightarrow> byte list" where
  "fsval s bn = (case holder s bn of None \<Rightarrow> disk s bn
     | Some b \<Rightarrow> if b_valid (bufs s ! b) then b_data (bufs s ! b) else disk s bn)"

definition refs :: "'a bio_scheme \<Rightarrow> uint32 \<Rightarrow> int" where
  "refs s bn = (case holder s bn of None \<Rightarrow> 0 | Some b \<Rightarrow> b_refcnt (bufs s ! b))"

definition held :: "'a bio_scheme \<Rightarrow> uint32 \<Rightarrow> bool" where
  "held s bn \<longleftrightarrow> (case holder s bn of None \<Rightarrow> False | Some b \<Rightarrow> sl_locked (b_lock (bufs s ! b)))"

definition busy :: "'a bio_scheme \<Rightarrow> nat set" where
  "busy s = {b. b < NBUF \<and> b_refcnt (bufs s ! b) > 0}"

lemma find_unique:
  assumes "x \<in> set xs" and "P x" and "\<And>y. y \<in> set xs \<Longrightarrow> P y \<Longrightarrow> y = x"
  shows "find P xs = Some x"
proof (cases "find P xs")
  case None
  then show ?thesis using assms(1,2) by (simp add: find_None_iff)
next
  case (Some y)
  then have "y \<in> set xs" "P y" by (auto simp: find_Some_iff)
  with Some show ?thesis using assms(3) by blast
qed

lemma holder_Some:
  assumes "bio_inv s"
  shows "holder s bn = Some b \<longleftrightarrow> b < NBUF \<and> is_copy bn (bufs s ! b)"
proof
  assume "holder s bn = Some b"
  then have "b \<in> set (lru s)" "is_copy bn (bufs s ! b)"
    by (auto simp: holder_def find_Some_iff)
  then show "b < NBUF \<and> is_copy bn (bufs s ! b)" using assms by (simp add: bio_inv_def)
next
  assume b: "b < NBUF \<and> is_copy bn (bufs s ! b)"
  have "y = b" if "y \<in> set (lru s)" "is_copy bn (bufs s ! y)" for y
    using b that assms unfolding bio_inv_def by blast
  then show "holder s bn = Some b"
    unfolding holder_def using b assms by (intro find_unique) (auto simp: bio_inv_def)
qed

lemma holder_None: "bio_inv s \<Longrightarrow> holder s bn = None \<longleftrightarrow> (\<forall>b<NBUF. \<not> is_copy bn (bufs s ! b))"
  using holder_Some by (metis not_None_eq)

text \<open>
  Changing one buffer: \<open>x\<close> in place of buffer \<open>b\<close>, which is the copy of block \<open>bn\<close> afterwards and of
  that block or of none that matters before.
\<close>

lemma bio_inv_upd:
  assumes "bio_inv s" and "b < NBUF" and "buf_ok (disk s) x"
    and "\<And>bn c. is_copy bn x \<Longrightarrow> c < NBUF \<Longrightarrow> is_copy bn (bufs s ! c) \<Longrightarrow> c = b"
    and "bufs s' = (bufs s)[b := x]" and "lru s' = lru s" and "disk s' = disk s"
  shows "bio_inv s'"
proof -
  have nth: "bufs s' ! c = (if c = b then x else bufs s ! c)" if "c < NBUF" for c
    using assms(1,2,5) that by (simp add: bio_inv_def nth_list_update)
  have "c = e" if ce: "c < NBUF" "e < NBUF" "is_copy bn (bufs s' ! c)" "is_copy bn (bufs s' ! e)" for c e bn
  proof -
    have uniq: "is_copy bn (bufs s ! c) \<Longrightarrow> is_copy bn (bufs s ! e) \<Longrightarrow> c = e"
      using assms(1) ce(1,2) unfolding bio_inv_def by blast
    consider "c = b" "e = b" | "c = b" "e \<noteq> b" "is_copy bn x" "is_copy bn (bufs s ! e)"
      | "c \<noteq> b" "e = b" "is_copy bn (bufs s ! c)" "is_copy bn x"
      | "is_copy bn (bufs s ! c)" "is_copy bn (bufs s ! e)"
      using ce(3,4) nth [OF ce(1)] nth [OF ce(2)] by (metis (full_types))
    then show ?thesis
    proof cases
      case 2
      then show ?thesis using assms(4) [OF 2(3) ce(2) 2(4)] by simp
    next
      case 3
      then show ?thesis using assms(4) [OF 3(4) ce(1) 3(3)] by simp
    qed (use uniq in simp_all)
  qed
  moreover have "buf_ok (disk s') (bufs s' ! c)" if "c < NBUF" for c
    using that assms(1,3,7) unfolding nth [OF that] by (simp add: bio_inv_def)
  moreover have "length (bufs s') = NBUF" "distinct (lru s')" "set (lru s') = {..<NBUF}"
      "\<forall>bn. length (disk s' bn) = BSIZE"
    using assms(1,5,6,7) by (simp_all add: bio_inv_def)
  ultimately show ?thesis unfolding bio_inv_def by blast
qed

lemma holder_upd:
  assumes "bio_inv s" and "bio_inv s'" and "b < NBUF" and "bufs s' = (bufs s)[b := x]"
  shows "holder s' bn = (if is_copy bn x then Some b
    else if holder s bn = Some b then None else holder s bn)"
proof -
  have nth: "bufs s' ! c = (if c = b then x else bufs s ! c)" if "c < NBUF" for c
    using assms(1,3,4) that by (simp add: bio_inv_def nth_list_update)
  show ?thesis
  proof (cases "is_copy bn x")
    case True
    then show ?thesis using holder_Some [OF assms(2)] assms(3) nth by simp
  next
    case False
    show ?thesis
    proof (cases "holder s bn")
      case None
      then have "holder s' bn = None"
        using holder_None [OF assms(1)] holder_None [OF assms(2)] nth False by simp
      then show ?thesis using False None by simp
    next
      case (Some c)
      then have c: "c < NBUF" "is_copy bn (bufs s ! c)" using holder_Some [OF assms(1)] by auto
      show ?thesis
      proof (cases "c = b")
        case True
        have "e = b" if "e < NBUF" "is_copy bn (bufs s ! e)" for e
          using that c True assms(1) unfolding bio_inv_def by blast
        then have "\<not> is_copy bn (bufs s' ! e)" if "e < NBUF" for e
          using that nth [OF that] False by auto
        then have "holder s' bn = None" using holder_None [OF assms(2)] by blast
        then show ?thesis using False Some True by simp
      next
        case ne: False
        then have "holder s' bn = Some c" using holder_Some [OF assms(2)] c nth by simp
        then show ?thesis using False Some ne by simp
      qed
    qed
  qed
qed

lemma view_upd:
  assumes "bio_inv s" and "bio_inv s'" and "b < NBUF" and "bufs s' = (bufs s)[b := x]" and "disk s' = disk s"
    and "is_copy bn x" and "is_copy bn (bufs s ! b) \<or> b_refcnt (bufs s ! b) = 0"
  shows "holder s' bn = Some b"
    and "fsval s' n = (if n = bn then if b_valid x then b_data x else disk s bn else fsval s n)"
    and "refs s' n = (if n = bn then b_refcnt x else refs s n)"
    and "held s' n = (if n = bn then sl_locked (b_lock x) else held s n)"
proof -
  note h = holder_upd [OF assms(1-4)]
  have x: "bufs s' ! b = x" using assms(1,3,4) by (simp add: bio_inv_def)
  have other: "bufs s' ! c = bufs s ! c" if "c \<noteq> b" for c using that assms(4) by simp
  show hb: "holder s' bn = Some b" using h assms(6) by simp
  have uncached: "fsval s n = disk s n \<and> refs s n = 0 \<and> \<not> held s n"
    if n: "n \<noteq> bn" "holder s n = Some b" for n
  proof -
    have c: "is_copy n (bufs s ! b)" using holder_Some [OF assms(1)] n(2) by blast
    then have "b_refcnt (bufs s ! b) = 0" using assms(7) n(1) by (auto simp: is_copy_def)
    moreover have "buf_ok (disk s) (bufs s ! b)" using assms(1,3) by (simp add: bio_inv_def)
    ultimately show ?thesis using n(2) c by (auto simp: fsval_def refs_def held_def buf_ok_def is_copy_def)
  qed
  have away: "\<not> is_copy n x" if "n \<noteq> bn" for n using that assms(6) by (auto simp: is_copy_def)
  show "fsval s' n = (if n = bn then if b_valid x then b_data x else disk s bn else fsval s n)"
    using h [of n] hb x other away [of n] uncached [of n] assms(5)
    by (auto simp: fsval_def [of s'] fsval_def [of s] split: option.splits if_splits)
  show "refs s' n = (if n = bn then b_refcnt x else refs s n)"
    using h [of n] hb x other away [of n] uncached [of n]
    by (auto simp: refs_def [of s'] refs_def [of s] split: option.splits if_splits)
  show "held s' n = (if n = bn then sl_locked (b_lock x) else held s n)"
    using h [of n] hb x other away [of n] uncached [of n]
    by (auto simp: held_def [of s'] held_def [of s] split: option.splits if_splits)
qed

lemma upd_buf_eval [simp]: "upd_buf b f s = Ok () (s\<lparr>bufs := (bufs s)[b := f (bufs s ! b)]\<rparr>)"
  by (simp add: upd_buf_def modify_def)

lemma acquire_buf:
  assumes "cur s = Some i" and "\<not> sl_locked (b_lock (bufs s ! b))"
  shows "acquiresleep (buf_lock b) (upd_buf_lock b) (BufLock b) s =
    Ok () (s\<lparr>bufs := (bufs s)[b := (bufs s ! b)\<lparr>b_lock := \<lparr>sl_locked = True, sl_pid = p_pid (procs s ! i)\<rparr>\<rparr>]\<rparr>)"
  using assms by (simp add: acquiresleep_def buf_lock_def upd_buf_lock_def gets_def myproc_def modify_def bind_def)

text \<open>The state after a successful \<open>bread\<close>: buffer \<open>b\<close> is a valid, locked copy.\<close>

definition read_copy :: "int \<Rightarrow> uint32 \<Rightarrow> byte list \<Rightarrow> int \<Rightarrow> buf \<Rightarrow> buf" where
  "read_copy pid bn d r x = x\<lparr>b_valid := True, b_dev := ROOTDEV, b_blockno := bn,
     b_lock := \<lparr>sl_locked = True, sl_pid = pid\<rparr>, b_refcnt := r, b_data := d\<rparr>"

lemma bread_eval:
  assumes inv: "bio_inv s" and cur: "cur s = Some i" and free: "\<not> held s bn"
    and room: "holder s bn \<noteq> None \<or> busy s \<noteq> {..<NBUF}"
  shows "\<exists>b. b < NBUF \<and> (is_copy bn (bufs s ! b) \<or> holder s bn = None \<and> b_refcnt (bufs s ! b) = 0) \<and>
    bread ROOTDEV bn s = Ok b (s\<lparr>bufs := (bufs s)[b :=
      read_copy (p_pid (procs s ! i)) bn (fsval s bn) (refs s bn + 1) (bufs s ! b)]\<rparr>)"
proof (cases "holder s bn")
  case (Some b)
  then have b: "b < NBUF" "is_copy bn (bufs s ! b)" "b < length (bufs s)"
    using holder_Some [OF inv] inv by (auto simp: bio_inv_def)
  have look: "find (\<lambda>b. b_dev (bufs s ! b) = ROOTDEV \<and> b_blockno (bufs s ! b) = bn) (lru s) = Some b"
    using Some by (simp add: holder_def is_copy_def)
  have unlocked: "\<not> sl_locked (b_lock (bufs s ! b))" using free Some by (simp add: held_def)
  have "bread ROOTDEV bn s = Ok b (s\<lparr>bufs := (bufs s)[b :=
      read_copy (p_pid (procs s ! i)) bn (fsval s bn) (refs s bn + 1) (bufs s ! b)]\<rparr>)"
    using look unlocked b cur Some
    by (auto simp: bread_def bget_def gets_def bind_def ret_def acquire_buf disk_rw_def modify_def Let_def
        fsval_def refs_def read_copy_def is_copy_def
        intro!: arg_cong [where f = "\<lambda>x. s\<lparr>bufs := (bufs s)[b := x]\<rparr>"] buf.equality)
  then show ?thesis using b by blast
next
  case None
  then have look: "find (\<lambda>b. b_dev (bufs s ! b) = ROOTDEV \<and> b_blockno (bufs s ! b) = bn) (lru s) = None"
    by (simp add: holder_def is_copy_def)
  obtain c where "c < NBUF" "c \<notin> busy s" using room None by (auto simp: busy_def)
  then have "b_refcnt (bufs s ! c) = 0" "c \<in> set (rev (lru s))"
    using inv by (auto simp: bio_inv_def buf_ok_def busy_def dest!: spec [of _ c])
  then obtain b where f: "find (\<lambda>b. b_refcnt (bufs s ! b) = 0) (rev (lru s)) = Some b"
    by (cases "find (\<lambda>b. b_refcnt (bufs s ! b) = 0) (rev (lru s))") (auto simp: find_None_iff)
  then have b0: "b_refcnt (bufs s ! b) = 0" "b \<in> set (lru s)" by (auto simp: find_Some_iff rev_nth)
  then have b: "b < NBUF" "b < length (bufs s)" using inv by (auto simp: bio_inv_def)
  have "\<not> sl_locked (b_lock (bufs s ! b))" using inv b b0(1) by (auto simp: bio_inv_def buf_ok_def)
  then have "bread ROOTDEV bn s = Ok b (s\<lparr>bufs := (bufs s)[b :=
      read_copy (p_pid (procs s ! i)) bn (fsval s bn) (refs s bn + 1) (bufs s ! b)]\<rparr>)"
    using look f b cur None
    by (auto simp: bread_def bget_def gets_def bind_def ret_def acquire_buf disk_rw_def modify_def Let_def
        fsval_def refs_def read_copy_def
        intro!: arg_cong [where f = "\<lambda>x. s\<lparr>bufs := (bufs s)[b := x]\<rparr>"] buf.equality)
  then show ?thesis using b b0 None by blast
qed

subsection \<open>The operations on the blocks\<close>

text \<open>The current process holds buffer \<open>b\<close>, a valid copy of block \<open>bn\<close>.\<close>

definition mine :: "'a bio_scheme \<Rightarrow> nat \<Rightarrow> uint32 \<Rightarrow> bool" where
  "mine s b bn \<longleftrightarrow> b < NBUF \<and> is_copy bn (bufs s ! b) \<and> b_valid (bufs s ! b) \<and>
     sl_locked (b_lock (bufs s ! b)) \<and>
     (\<exists>i<length (procs s). cur s = Some i \<and> sl_pid (b_lock (bufs s ! b)) = p_pid (procs s ! i))"

lemma mine_view:
  assumes "bio_inv s" and "mine s b bn"
  shows "holder s bn = Some b" and "fsval s bn = b_data (bufs s ! b)" and "refs s bn = b_refcnt (bufs s ! b)"
    and "held s bn" and "refs s bn > 0" and "length (fsval s bn) = BSIZE"
proof -
  show h: "holder s bn = Some b" using assms holder_Some by (auto simp: mine_def)
  then show v: "fsval s bn = b_data (bufs s ! b)" "refs s bn = b_refcnt (bufs s ! b)" "held s bn"
    using assms(2) by (simp_all add: mine_def fsval_def refs_def held_def)
  have "buf_ok (disk s) (bufs s ! b)" using assms by (simp add: bio_inv_def mine_def)
  then show "refs s bn > 0" "length (fsval s bn) = BSIZE" using assms(2) v by (auto simp: buf_ok_def mine_def)
qed

lemma length_fsval: "bio_inv s \<Longrightarrow> length (fsval s bn) = BSIZE"
  using holder_Some [of s bn] by (auto simp: fsval_def bio_inv_def buf_ok_def split: option.splits)

lemma refs_nonneg: "bio_inv s \<Longrightarrow> 0 \<le> refs s bn"
  using holder_Some [of s bn] by (auto simp: refs_def bio_inv_def buf_ok_def split: option.splits)

text \<open>The blocks in use, one for each buffer in use.\<close>

definition in_use :: "'a bio_scheme \<Rightarrow> uint32 set" where
  "in_use s = {bn. refs s bn > 0}"

lemma busy_in_use:
  assumes "bio_inv s"
  shows "card (in_use s) = card (busy s)" and "finite (in_use s)"
proof -
  let ?f = "\<lambda>b. b_blockno (bufs s ! b)"
  have dev: "is_copy (?f b) (bufs s ! b)" if "b \<in> busy s" for b
    using assms that by (auto simp: busy_def bio_inv_def buf_ok_def is_copy_def)
  have "inj_on ?f (busy s)"
  proof (rule inj_onI)
    fix b c assume b: "b \<in> busy s" and c: "c \<in> busy s" and eq: "?f b = ?f c"
    have "is_copy (?f b) (bufs s ! c)" using dev [OF c] eq by simp
    then show "b = c" using assms dev [OF b] b c unfolding bio_inv_def busy_def by blast
  qed
  moreover have "?f ` busy s = in_use s"
  proof (intro equalityI subsetI)
    fix n assume "n \<in> ?f ` busy s"
    then obtain b where b: "b \<in> busy s" "n = ?f b" by blast
    then have "holder s n = Some b" using holder_Some [OF assms] dev [OF b(1)] by (simp add: busy_def)
    then show "n \<in> in_use s" using b by (simp add: in_use_def refs_def busy_def)
  next
    fix n assume "n \<in> in_use s"
    then obtain b where h: "holder s n = Some b" and r: "b_refcnt (bufs s ! b) > 0"
      by (auto simp: in_use_def refs_def split: option.splits)
    then have "b < NBUF" "is_copy n (bufs s ! b)" using holder_Some [OF assms] by auto
    then show "n \<in> ?f ` busy s" using r by (auto simp: busy_def is_copy_def)
  qed
  ultimately show "card (in_use s) = card (busy s)" using card_image by metis
  show "finite (in_use s)" unfolding \<open>?f ` busy s = in_use s\<close> [symmetric] by (simp add: busy_def)
qed

lemma room_for_block:
  assumes "bio_inv s" and "card (in_use s) < NBUF"
  shows "busy s \<noteq> {..<NBUF}"
proof
  assume "busy s = {..<NBUF}"
  then have "card (busy s) = NBUF" by simp
  then show False using assms(2) unfolding busy_in_use(1) [OF assms(1)] by linarith
qed

lemma bread_spec:
  assumes inv: "bio_inv s" and cur: "cur s = Some i" "i < length (procs s)" and free: "\<not> held s bn"
    and room: "refs s bn > 0 \<or> card (in_use s) < NBUF"
  shows "\<exists>b s'. bread ROOTDEV bn s = Ok b s' \<and> bio_inv s' \<and> mine s' b bn \<and>
    s' = s\<lparr>bufs := bufs s'\<rparr> \<and> fsval s' = fsval s \<and>
    refs s' = (refs s)(bn := refs s bn + 1) \<and> held s' = (held s)(bn := True) \<and>
    (\<forall>c n. mine s c n \<longrightarrow> mine s' c n)"
proof -
  have "holder s bn \<noteq> None \<or> busy s \<noteq> {..<NBUF}"
    using room room_for_block [OF inv] by (auto simp: refs_def split: option.splits)
  then obtain b where b: "b < NBUF"
      "is_copy bn (bufs s ! b) \<or> holder s bn = None \<and> b_refcnt (bufs s ! b) = 0"
    and run: "bread ROOTDEV bn s = Ok b (s\<lparr>bufs := (bufs s)[b :=
      read_copy (p_pid (procs s ! i)) bn (fsval s bn) (refs s bn + 1) (bufs s ! b)]\<rparr>)" (is "_ = Ok b ?s")
    using bread_eval [OF inv cur(1) free] by blast
  let ?x = "read_copy (p_pid (procs s ! i)) bn (fsval s bn) (refs s bn + 1) (bufs s ! b)"
  have x: "is_copy n ?x \<longleftrightarrow> n = bn" for n by (auto simp: is_copy_def read_copy_def)
  have only: "c = b" if "is_copy n ?x" "c < NBUF" "is_copy n (bufs s ! c)" for n c
    using that b x holder_Some [OF inv, of bn c] holder_Some [OF inv, of bn b] by auto
  have "buf_ok (disk s) ?x"
    using refs_nonneg [OF inv, of bn] length_fsval [OF inv, of bn] by (auto simp: buf_ok_def read_copy_def)
  then have inv': "bio_inv ?s" using only inv by (intro bio_inv_upd [OF inv b(1)]) (simp_all add: bio_inv_def)
  have b': "is_copy bn (bufs s ! b) \<or> b_refcnt (bufs s ! b) = 0" using b(2) by blast
  note v = view_upd [OF inv inv' b(1) _ _ _ b', where x = ?x]
  have views: "fsval ?s = fsval s" "refs ?s = (refs s)(bn := refs s bn + 1)" "held ?s = (held s)(bn := True)"
    using v(2-4) x by (auto simp: fun_eq_iff read_copy_def)
  have "mine ?s b bn"
    using b(1) cur inv by (simp add: mine_def read_copy_def is_copy_def bio_inv_def)
  moreover have "mine ?s c n" if m: "mine s c n" for c n
  proof -
    have "c \<noteq> b"
    proof
      assume "c = b"
      then have "refs s n > 0" "is_copy n (bufs s ! b)" "b_refcnt (bufs s ! b) > 0" "held s n"
        using m mine_view [OF inv m] by (auto simp: mine_def)
      then show False using b(2) free by (auto simp: is_copy_def)
    qed
    then show ?thesis using m by (simp add: mine_def)
  qed
  ultimately show ?thesis using run inv' views by (intro exI [of _ b] exI [of _ ?s]) simp
qed

text \<open>What \<open>wakeup\<close> leaves of the process table: the calling process, and every field but \<open>state\<close>.\<close>

definition only_woken :: "'a ptab_scheme \<Rightarrow> 'a ptab_scheme \<Rightarrow> bool" where
  "only_woken s s' \<longleftrightarrow> cur s' = cur s \<and> length (procs s') = length (procs s) \<and>
     (\<forall>j<length (procs s). procs s' ! j = procs s ! j \<or> cur s \<noteq> Some j \<and> p_state (procs s ! j) = SLEEPING \<and>
       procs s' ! j = (procs s ! j)\<lparr>p_state := RUNNABLE\<rparr>)"

lemma only_woken_refl [simp]: "only_woken s s"
  by (simp add: only_woken_def)

lemma only_woken_trans:
  assumes "only_woken s t" and "only_woken t u"
  shows "only_woken s u"
proof -
  have "procs u ! j = procs s ! j \<or> cur s \<noteq> Some j \<and> p_state (procs s ! j) = SLEEPING \<and>
      procs u ! j = (procs s ! j)\<lparr>p_state := RUNNABLE\<rparr>" if jl: "j < length (procs s)" for j
  proof -
    have j: "j < length (procs t)" "cur t = cur s" using jl assms(1) by (simp_all add: only_woken_def)
    consider "procs t ! j = procs s ! j" | "cur s \<noteq> Some j" "p_state (procs s ! j) = SLEEPING"
        "procs t ! j = (procs s ! j)\<lparr>p_state := RUNNABLE\<rparr>"
      using assms(1) jl unfolding only_woken_def by blast
    then show ?thesis
    proof cases
      case 1
      then show ?thesis using assms(2) j unfolding only_woken_def by metis
    next
      case 2
      then have "procs u ! j = procs t ! j" using assms(2) j unfolding only_woken_def by auto
      then show ?thesis using 2 by simp
    qed
  qed
  then show ?thesis using assms by (simp add: only_woken_def)
qed

lemma only_woken_pid:
  assumes "only_woken s s'" and "j < length (procs s)"
  shows "p_pid (procs s' ! j) = p_pid (procs s ! j)"
  using assms unfolding only_woken_def by (elim conjE allE [of _ j] impE disjE) simp_all

lemma only_woken_cur:
  assumes "only_woken s s'" and "cur s = Some j" and "j < length (procs s)"
  shows "procs s' ! j = procs s ! j"
  using assms by (auto simp: only_woken_def)

lemma wakeup_eval: "\<exists>ps. wakeup c s = Ok () (s\<lparr>procs := ps\<rparr>) \<and> only_woken s (s\<lparr>procs := ps\<rparr>)"
  by (intro exI [of _ "map (\<lambda>i. if cur s = Some i then procs s ! i else wake c (procs s ! i)) [0..<length (procs s)]"])
    (auto simp: wakeup_def only_woken_def wake_def)

text \<open>Changing a buffer the process holds.\<close>

lemma mine_upd:
  assumes inv: "bio_inv s" and m: "mine s b bn" and x: "buf_ok (disk s) x" "is_copy bn x"
    and s': "bufs s' = (bufs s)[b := x]" "lru s' = lru s" "disk s' = disk s"
  shows "bio_inv s'" and "fsval s' = (fsval s)(bn := if b_valid x then b_data x else disk s bn)"
    and "refs s' = (refs s)(bn := b_refcnt x)" and "held s' = (held s)(bn := sl_locked (b_lock x))"
proof -
  have b: "b < NBUF" "is_copy bn (bufs s ! b)" using m by (simp_all add: mine_def)
  have "c = b" if "is_copy n x" "c < NBUF" "is_copy n (bufs s ! c)" for n c
  proof -
    have "n = bn" using that(1) x(2) by (simp add: is_copy_def)
    then show ?thesis using that b inv unfolding bio_inv_def by blast
  qed
  then show inv': "bio_inv s'" using s' by (intro bio_inv_upd [OF inv b(1) x(1)]) simp_all
  note v = view_upd [OF inv inv' b(1) s'(1,3) x(2) disjI1 [OF b(2)]]
  show "fsval s' = (fsval s)(bn := if b_valid x then b_data x else disk s bn)"
    and "refs s' = (refs s)(bn := b_refcnt x)" and "held s' = (held s)(bn := sl_locked (b_lock x))"
    using v(2-4) by (auto simp: fun_eq_iff)
qed

lemma mine_others:
  assumes "mine s c n" and "bufs s' ! c = bufs s ! c" and "only_woken s s'"
  shows "mine s' c n"
  using assms only_woken_pid [OF assms(3)] by (auto simp: mine_def only_woken_def)

lemma mine_distinct: "mine s b bn \<Longrightarrow> mine s c n \<Longrightarrow> n \<noteq> bn \<Longrightarrow> b \<noteq> c"
  by (auto simp: mine_def is_copy_def)

lemma mine_ok: "bio_inv s \<Longrightarrow> mine s b bn \<Longrightarrow> buf_ok (disk s) (bufs s ! b) \<and> b < length (bufs s)"
  by (simp add: bio_inv_def mine_def)

lemma holdingsleep_mine: "mine s b bn \<Longrightarrow> holdingsleep (buf_lock b) s = Ok True s"
  by (auto simp: holdingsleep_def mine_def buf_lock_def myproc_def bind_def)

lemma set_data_spec:
  assumes inv: "bio_inv s" and m: "mine s b bn" and d: "length d = BSIZE"
  shows "\<exists>s'. set_data b d s = Ok () s' \<and> bio_inv s' \<and> s' = s\<lparr>bufs := bufs s'\<rparr> \<and>
    fsval s' = (fsval s)(bn := d) \<and> refs s' = refs s \<and> held s' = held s \<and> (\<forall>c n. mine s c n \<longrightarrow> mine s' c n)"
proof -
  let ?x = "(bufs s ! b)\<lparr>b_data := d\<rparr>" and ?s = "s\<lparr>bufs := (bufs s)[b := (bufs s ! b)\<lparr>b_data := d\<rparr>]\<rparr>"
  have x: "buf_ok (disk s) ?x" "is_copy bn ?x"
    using mine_ok [OF inv m] m d by (auto simp: buf_ok_def mine_def is_copy_def)
  note u = mine_upd [OF inv m x, of ?s]
  have "mine ?s c n" if "mine s c n" for c n
    using that mine_ok [OF inv m] by (cases "c = b") (auto simp: mine_def is_copy_def)
  then show ?thesis using u m mine_view [OF inv m]
    by (intro exI [of _ ?s]) (auto simp: set_data_def mine_def fun_eq_iff)
qed

lemma bwrite_spec:
  assumes inv: "bio_inv s" and m: "mine s b bn"
  shows "\<exists>s'. bwrite b s = Ok () s' \<and> bio_inv s' \<and>
    s' = s\<lparr>disk := (disk s)(bn := fsval s bn), wrote := wrote s @ [(bn, fsval s bn)]\<rparr> \<and>
    fsval s' = fsval s \<and> refs s' = refs s \<and> held s' = held s \<and> (\<forall>c n. mine s c n \<longrightarrow> mine s' c n)"
proof -
  let ?s = "s\<lparr>disk := (disk s)(bn := fsval s bn), wrote := wrote s @ [(bn, fsval s bn)]\<rparr>"
  note v = mine_view [OF inv m]
  have run: "bwrite b s = Ok () ?s"
    using m v(2) by (simp add: bwrite_def holdingsleep_mine bind_def disk_rw_def mine_def is_copy_def)
  have "buf_ok (disk ?s) (bufs s ! c)" if c: "c < NBUF" for c
  proof (cases "is_copy bn (bufs s ! c)")
    case True
    then have "c = b" using m c inv unfolding bio_inv_def mine_def by blast
    then show ?thesis using mine_ok [OF inv m] v(2) True by (auto simp: buf_ok_def is_copy_def)
  next
    case False
    then show ?thesis using inv c by (auto simp: bio_inv_def buf_ok_def is_copy_def)
  qed
  then have "bio_inv ?s" using inv v(6) by (auto simp: bio_inv_def)
  moreover have h: "holder ?s = holder s" by (simp add: holder_def fun_eq_iff)
  moreover have "fsval ?s = fsval s"
  proof
    fix n
    show "fsval ?s n = fsval s n"
    proof (cases "n = bn")
      case True
      then show ?thesis using v(1,2) m unfolding fsval_def [of ?s] h by (simp add: mine_def)
    next
      case False
      then show ?thesis unfolding fsval_def [of ?s] fsval_def [of s n] h by (simp split: option.split)
    qed
  qed
  moreover have "refs ?s = refs s" by (rule ext) (simp add: refs_def h split: option.split)
  moreover have "held ?s = held s" by (rule ext) (simp add: held_def h split: option.split)
  ultimately show ?thesis using run by (intro exI [of _ ?s]) (simp add: mine_def)
qed

lemma bpin_spec:
  assumes inv: "bio_inv s" and m: "mine s b bn"
  shows "\<exists>s'. bpin b s = Ok () s' \<and> bio_inv s' \<and> s' = s\<lparr>bufs := bufs s'\<rparr> \<and> fsval s' = fsval s \<and>
    refs s' = (refs s)(bn := refs s bn + 1) \<and> held s' = held s \<and> (\<forall>c n. mine s c n \<longrightarrow> mine s' c n)"
proof -
  let ?x = "(bufs s ! b)\<lparr>b_refcnt := b_refcnt (bufs s ! b) + 1\<rparr>" and ?s = "s\<lparr>bufs := (bufs s)[b := (bufs s ! b)\<lparr>b_refcnt := b_refcnt (bufs s ! b) + 1\<rparr>]\<rparr>"
  have x: "buf_ok (disk s) ?x" "is_copy bn ?x"
    using mine_ok [OF inv m] m by (auto simp: buf_ok_def mine_def is_copy_def)
  note u = mine_upd [OF inv m x, of ?s]
  have "mine ?s c n" if "mine s c n" for c n
    using that mine_ok [OF inv m] by (cases "c = b") (auto simp: mine_def is_copy_def)
  then show ?thesis using u m mine_view [OF inv m]
    by (intro exI [of _ ?s]) (auto simp: bpin_def mine_def fun_eq_iff)
qed

lemma bunpin_spec:
  assumes inv: "bio_inv s" and m: "mine s b bn" and two: "refs s bn \<ge> 2"
  shows "\<exists>s'. bunpin b s = Ok () s' \<and> bio_inv s' \<and> s' = s\<lparr>bufs := bufs s'\<rparr> \<and> fsval s' = fsval s \<and>
    refs s' = (refs s)(bn := refs s bn - 1) \<and> held s' = held s \<and> (\<forall>c n. mine s c n \<longrightarrow> mine s' c n)"
proof -
  let ?x = "(bufs s ! b)\<lparr>b_refcnt := b_refcnt (bufs s ! b) - 1\<rparr>" and ?s = "s\<lparr>bufs := (bufs s)[b := (bufs s ! b)\<lparr>b_refcnt := b_refcnt (bufs s ! b) - 1\<rparr>]\<rparr>"
  have x: "buf_ok (disk s) ?x" "is_copy bn ?x"
    using mine_ok [OF inv m] m two mine_view [OF inv m] by (auto simp: buf_ok_def mine_def is_copy_def)
  note u = mine_upd [OF inv m x, of ?s]
  have "mine ?s c n" if "mine s c n" for c n
    using that mine_ok [OF inv m] by (cases "c = b") (auto simp: mine_def is_copy_def)
  then show ?thesis using u m mine_view [OF inv m]
    by (intro exI [of _ ?s]) (auto simp: bunpin_def mine_def fun_eq_iff)
qed

text \<open>The order of the list of buffers does not matter to the blocks.\<close>

lemma bio_inv_lru:
  assumes "bio_inv s" and "distinct (lru s')" and "set (lru s') = {..<NBUF}" and "bufs s' = bufs s" and "disk s' = disk s"
  shows "bio_inv s'" and "fsval s' = fsval s" and "refs s' = refs s" and "held s' = held s"
proof -
  show inv': "bio_inv s'" using assms by (simp add: bio_inv_def)
  have h: "holder s' n = holder s n" for n
  proof (cases "holder s n")
    case None
    then show ?thesis using holder_None [OF assms(1)] holder_None [OF inv'] assms(4) by metis
  next
    case (Some b)
    then show ?thesis using holder_Some [OF assms(1)] holder_Some [OF inv'] assms(4) by metis
  qed
  show "fsval s' = fsval s" "refs s' = refs s" "held s' = held s"
    using assms(4,5) by (auto simp: fsval_def refs_def held_def h fun_eq_iff split: option.split)
qed

lemma brelse_spec:
  assumes inv: "bio_inv s" and m: "mine s b bn" and clean: "refs s bn = 1 \<Longrightarrow> fsval s bn = disk s bn"
  shows "\<exists>s'. brelse b s = Ok () s' \<and> bio_inv s' \<and>
    s' = s\<lparr>procs := procs s', bufs := bufs s', lru := lru s'\<rparr> \<and> only_woken s s' \<and>
    fsval s' = fsval s \<and> refs s' = (refs s)(bn := refs s bn - 1) \<and> held s' = (held s)(bn := False) \<and>
    (\<forall>c n. c \<noteq> b \<longrightarrow> mine s c n \<longrightarrow> mine s' c n)"
proof -
  note v = mine_view [OF inv m] and ok = mine_ok [OF inv m]
  let ?x = "(bufs s ! b)\<lparr>b_lock := \<lparr>sl_locked = False, sl_pid = 0\<rparr>, b_refcnt := b_refcnt (bufs s ! b) - 1\<rparr>"
  obtain ps where ps: "wakeup (BufLock b) (upd_buf_lock b (\<lambda>_. \<lparr>sl_locked = False, sl_pid = 0\<rparr>) s) =
      Ok () ((upd_buf_lock b (\<lambda>_. \<lparr>sl_locked = False, sl_pid = 0\<rparr>) s)\<lparr>procs := ps\<rparr>)"
    "only_woken (upd_buf_lock b (\<lambda>_. \<lparr>sl_locked = False, sl_pid = 0\<rparr>) s)
      ((upd_buf_lock b (\<lambda>_. \<lparr>sl_locked = False, sl_pid = 0\<rparr>) s)\<lparr>procs := ps\<rparr>)"
    using wakeup_eval by blast
  let ?t = "s\<lparr>procs := ps, bufs := (bufs s)[b := ?x]\<rparr>"
  let ?s = "if b_refcnt ?x = 0 then ?t\<lparr>lru := b # remove1 b (lru s)\<rparr> else ?t"
  have x: "buf_ok (disk s) ?x" "is_copy bn ?x"
    using ok m clean v by (auto simp: buf_ok_def mine_def is_copy_def)
  have t: "bio_inv ?t" "fsval ?t = fsval s" "refs ?t = (refs s)(bn := refs s bn - 1)" "held ?t = (held s)(bn := False)"
    using mine_upd [OF inv m x, of ?t] m v by (auto simp: mine_def fun_eq_iff)
  have l: "distinct (lru ?s)" "set (lru ?s) = {..<NBUF}" using inv m by (auto simp: bio_inv_def mine_def)
  note same = bio_inv_lru [OF t(1) l]
  have run: "brelse b s = Ok () ?s"
    using ps(1) ok by (simp add: brelse_def holdingsleep_mine [OF m] releasesleep_def bind_def upd_buf_lock_def)
  have w: "only_woken s ?s" using ps(2) by (simp add: only_woken_def upd_buf_lock_def)
  have "mine ?s c n" if "c \<noteq> b" "mine s c n" for c n
    using that by (intro mine_others [OF _ _ w]) auto
  then show ?thesis using run same t w by (intro exI [of _ ?s]) simp
qed

subsection \<open>Sequences of operations\<close>

text \<open>
  \<open>cache_run s s' v r h ws\<close>: a use of the cache led from \<open>s\<close> to \<open>s'\<close>, where the blocks, their reference
  counts and their locks are \<open>v\<close>, \<open>r\<close> and \<open>h\<close>, and wrote \<open>ws\<close> to the disk in that order. Nothing else of the
  kernel changed but sleeping processes that were made runnable.
\<close>

definition apply_writes :: "(uint32 \<times> byte list) list \<Rightarrow> (uint32 \<Rightarrow> byte list) \<Rightarrow> (uint32 \<Rightarrow> byte list)" where
  "apply_writes ws d = fold (\<lambda>(bn, x) d. d(bn := x)) ws d"

definition cache_frame :: "'a bio_scheme \<Rightarrow> 'a bio_scheme \<Rightarrow> bool" where
  "cache_frame s s' \<longleftrightarrow> only_woken s s' \<and>
     s'\<lparr>procs := [], bufs := [], lru := [], disk := \<lambda>_. [], wrote := []\<rparr> =
     s\<lparr>procs := [], bufs := [], lru := [], disk := \<lambda>_. [], wrote := []\<rparr>"

definition cache_run :: "'a bio_scheme \<Rightarrow> 'a bio_scheme \<Rightarrow> (uint32 \<Rightarrow> byte list) \<Rightarrow> (uint32 \<Rightarrow> int) \<Rightarrow>
    (uint32 \<Rightarrow> bool) \<Rightarrow> (uint32 \<times> byte list) list \<Rightarrow> bool" where
  "cache_run s s' v r h ws \<longleftrightarrow> bio_inv s' \<and> cache_frame s s' \<and> fsval s' = v \<and> refs s' = r \<and> held s' = h \<and>
     wrote s' = wrote s @ ws \<and> disk s' = apply_writes ws (disk s)"

lemma apply_writes_simps [simp]:
  "apply_writes [] d = d" "apply_writes ((bn, x) # ws) d = apply_writes ws (d(bn := x))"
  "apply_writes (ws @ ws') d = apply_writes ws' (apply_writes ws d)"
  by (simp_all add: apply_writes_def)

lemma cache_frame_refl [simp]: "cache_frame s s"
  by (simp add: cache_frame_def)

lemma cache_frame_trans: "cache_frame s t \<Longrightarrow> cache_frame t u \<Longrightarrow> cache_frame s u"
  unfolding cache_frame_def using only_woken_trans by metis

lemma cache_frameD:
  assumes "cache_frame s s'"
  shows "cur s' = cur s" and "length (procs s') = length (procs s)" and "bio.more s' = bio.more s"
    and "pmem s' = pmem s" and "freelist s' = freelist s" and "ticks s' = ticks s"
proof -
  show "cur s' = cur s" "length (procs s') = length (procs s)"
    using assms by (simp_all add: cache_frame_def only_woken_def)
  have eq: "s'\<lparr>procs := [], bufs := [], lru := [], disk := \<lambda>_. [], wrote := []\<rparr> =
     s\<lparr>procs := [], bufs := [], lru := [], disk := \<lambda>_. [], wrote := []\<rparr>"
    using assms by (simp add: cache_frame_def)
  show "bio.more s' = bio.more s" using arg_cong [OF eq, of bio.more] by simp
  show "pmem s' = pmem s" using arg_cong [OF eq, of pmem] by simp
  show "freelist s' = freelist s" using arg_cong [OF eq, of freelist] by simp
  show "ticks s' = ticks s" using arg_cong [OF eq, of ticks] by simp
qed

lemma cache_run_refl: "bio_inv s \<Longrightarrow> cache_run s s (fsval s) (refs s) (held s) []"
  by (simp add: cache_run_def)

lemma cache_run_trans:
  assumes "cache_run s t v r h ws" and "cache_run t u v' r' h' ws'"
  shows "cache_run s u v' r' h' (ws @ ws')"
  using assms cache_frame_trans by (auto simp: cache_run_def)

lemma cache_runD:
  assumes "cache_run s s' v r h ws"
  shows "bio_inv s'" and "fsval s' = v" and "refs s' = r" and "held s' = h" and "disk s' = apply_writes ws (disk s)"
    and "wrote s' = wrote s @ ws" and "cache_frame s s'" and "cur s' = cur s"
    and "length (procs s') = length (procs s)" and "bio.more s' = bio.more s"
  using assms cache_frameD [of s s'] by (auto simp: cache_run_def)

lemma frame_bufs:
  assumes "s' = s\<lparr>bufs := x\<rparr>"
  shows "cache_frame s s' \<and> wrote s' = wrote s \<and> disk s' = disk s"
  using assms by (simp add: cache_frame_def only_woken_def)

lemma frame_release:
  assumes "s' = s\<lparr>procs := ps, bufs := x, lru := l\<rparr>" and "only_woken s s'"
  shows "cache_frame s s' \<and> wrote s' = wrote s \<and> disk s' = disk s"
  using assms by (simp add: cache_frame_def)

lemma run_bread:
  assumes "bio_inv s" and "cur s = Some i" "i < length (procs s)" and "\<not> held s bn"
    and "refs s bn > 0 \<or> card (in_use s) < NBUF"
  obtains b s' where "bread ROOTDEV bn s = Ok b s'" and "mine s' b bn"
    and "cache_run s s' (fsval s) ((refs s)(bn := refs s bn + 1)) ((held s)(bn := True)) []"
    and "\<And>c n. mine s c n \<Longrightarrow> mine s' c n"
proof -
  obtain b s' where *: "bread ROOTDEV bn s = Ok b s'" "bio_inv s'" "mine s' b bn" "s' = s\<lparr>bufs := bufs s'\<rparr>"
    "fsval s' = fsval s" "refs s' = (refs s)(bn := refs s bn + 1)" "held s' = (held s)(bn := True)"
    "\<forall>c n. mine s c n \<longrightarrow> mine s' c n"
    using bread_spec [OF assms] by blast
  with frame_bufs [OF *(4)] that show ?thesis by (simp add: cache_run_def)
qed

lemma run_set_data:
  assumes "bio_inv s" and "mine s b bn" and "length d = BSIZE"
  obtains s' where "set_data b d s = Ok () s'" and "cache_run s s' ((fsval s)(bn := d)) (refs s) (held s) []"
    and "\<And>c n. mine s c n \<Longrightarrow> mine s' c n"
proof -
  obtain s' where *: "set_data b d s = Ok () s'" "bio_inv s'" "s' = s\<lparr>bufs := bufs s'\<rparr>"
    "fsval s' = (fsval s)(bn := d)" "refs s' = refs s" "held s' = held s" "\<forall>c n. mine s c n \<longrightarrow> mine s' c n"
    using set_data_spec [OF assms] by blast
  with frame_bufs [OF *(3)] that show ?thesis by (simp add: cache_run_def)
qed

lemma run_bpin:
  assumes "bio_inv s" and "mine s b bn"
  obtains s' where "bpin b s = Ok () s'"
    and "cache_run s s' (fsval s) ((refs s)(bn := refs s bn + 1)) (held s) []"
    and "\<And>c n. mine s c n \<Longrightarrow> mine s' c n"
proof -
  obtain s' where *: "bpin b s = Ok () s'" "bio_inv s'" "s' = s\<lparr>bufs := bufs s'\<rparr>" "fsval s' = fsval s"
    "refs s' = (refs s)(bn := refs s bn + 1)" "held s' = held s" "\<forall>c n. mine s c n \<longrightarrow> mine s' c n"
    using bpin_spec [OF assms] by blast
  with frame_bufs [OF *(3)] that show ?thesis by (simp add: cache_run_def)
qed

lemma run_bunpin:
  assumes "bio_inv s" and "mine s b bn" and "refs s bn \<ge> 2"
  obtains s' where "bunpin b s = Ok () s'"
    and "cache_run s s' (fsval s) ((refs s)(bn := refs s bn - 1)) (held s) []"
    and "\<And>c n. mine s c n \<Longrightarrow> mine s' c n"
proof -
  obtain s' where *: "bunpin b s = Ok () s'" "bio_inv s'" "s' = s\<lparr>bufs := bufs s'\<rparr>" "fsval s' = fsval s"
    "refs s' = (refs s)(bn := refs s bn - 1)" "held s' = held s" "\<forall>c n. mine s c n \<longrightarrow> mine s' c n"
    using bunpin_spec [OF assms] by blast
  with frame_bufs [OF *(3)] that show ?thesis by (simp add: cache_run_def)
qed

lemma run_bwrite:
  assumes "bio_inv s" and "mine s b bn"
  obtains s' where "bwrite b s = Ok () s'"
    and "cache_run s s' (fsval s) (refs s) (held s) [(bn, fsval s bn)]"
    and "\<And>c n. mine s c n \<Longrightarrow> mine s' c n"
proof -
  obtain s' where *: "bwrite b s = Ok () s'" "bio_inv s'"
    "s' = s\<lparr>disk := (disk s)(bn := fsval s bn), wrote := wrote s @ [(bn, fsval s bn)]\<rparr>"
    "fsval s' = fsval s" "refs s' = refs s" "held s' = held s" "\<forall>c n. mine s c n \<longrightarrow> mine s' c n"
    using bwrite_spec [OF assms] by blast
  have "cache_frame s s' \<and> wrote s' = wrote s @ [(bn, fsval s bn)] \<and> disk s' = (disk s)(bn := fsval s bn)"
    unfolding *(3) by (simp add: cache_frame_def only_woken_def)
  with * that show ?thesis by (simp add: cache_run_def)
qed

lemma run_brelse:
  assumes "bio_inv s" and "mine s b bn" and "refs s bn = 1 \<Longrightarrow> fsval s bn = disk s bn"
  obtains s' where "brelse b s = Ok () s'"
    and "cache_run s s' (fsval s) ((refs s)(bn := refs s bn - 1)) ((held s)(bn := False)) []"
    and "\<And>c n. c \<noteq> b \<Longrightarrow> mine s c n \<Longrightarrow> mine s' c n"
proof -
  obtain s' where *: "brelse b s = Ok () s'" "bio_inv s'" "s' = s\<lparr>procs := procs s', bufs := bufs s', lru := lru s'\<rparr>"
    "only_woken s s'" "fsval s' = fsval s" "refs s' = (refs s)(bn := refs s bn - 1)"
    "held s' = (held s)(bn := False)" "\<forall>c n. c \<noteq> b \<longrightarrow> mine s c n \<longrightarrow> mine s' c n"
    using brelse_spec [OF assms] by blast
  with frame_release [OF *(3,4)] that show ?thesis by (simp add: cache_run_def)
qed

text \<open>Reading the data of a buffer the process holds.\<close>

lemma buf_data_mine: "bio_inv s \<Longrightarrow> mine s b bn \<Longrightarrow> buf_data b s = Ok (fsval s bn) s"
  using mine_view(2) [of s b bn] by (simp add: buf_data_def)


end
