(* ===== verification/Ondisk.thy ===== *)
theory Ondisk
  imports Bio
begin

text \<open>
  The on-disk format, \<^verbatim>\<open>kernel/fs.h\<close>: the super block, inodes and directory entries as the bytes of
  blocks. Numbers are little-endian, as a RISC-V load or store through a pointer into \<open>b->data\<close> sees them.

  \<open>slice\<close> and \<open>splice\<close> read and replace a run of bytes of a block; a C structure in a block is the slice
  at its offset.
\<close>

subsection \<open>Bytes of a block\<close>

definition slice :: "nat \<Rightarrow> nat \<Rightarrow> 'a list \<Rightarrow> 'a list" where
  "slice off n d = take n (drop off d)"

definition splice :: "nat \<Rightarrow> 'a list \<Rightarrow> 'a list \<Rightarrow> 'a list" where
  "splice off bs d = take off d @ bs @ drop (off + length bs) d"

lemma length_slice [simp]: "off + n \<le> length d \<Longrightarrow> length (slice off n d) = n"
  by (simp add: slice_def)

lemma length_splice [simp]: "off + length bs \<le> length d \<Longrightarrow> length (splice off bs d) = length d"
  by (simp add: splice_def)

lemma nth_slice: "i < n \<Longrightarrow> off + n \<le> length d \<Longrightarrow> slice off n d ! i = d ! (off + i)"
  by (simp add: slice_def)

lemma nth_splice:
  "off + length bs \<le> length d \<Longrightarrow> i < length d \<Longrightarrow>
    splice off bs d ! i = (if off \<le> i \<and> i < off + length bs then bs ! (i - off) else d ! i)"
  by (auto simp: splice_def nth_append)

lemma slice_splice: "off + length bs \<le> length d \<Longrightarrow> slice off (length bs) (splice off bs d) = bs"
  by (rule nth_equalityI) (simp_all add: nth_slice nth_splice)

lemma slice_splice_other:
  assumes "off + length bs \<le> length d" and "o2 + n \<le> length d" and "off + length bs \<le> o2 \<or> o2 + n \<le> off"
  shows "slice o2 n (splice off bs d) = slice o2 n d"
  using assms by (intro nth_equalityI) (auto simp: nth_slice nth_splice)

lemma slice_nil [simp]: "slice off 0 d = []"
  by (simp add: slice_def)

lemma slice_slice: "o2 + n \<le> m \<Longrightarrow> slice o2 n (slice off m d) = slice (off + o2) n d"
  by (simp add: slice_def take_drop min_def add.commute)

lemma splice_slice_same: "off + n \<le> length d \<Longrightarrow> splice off (slice off n d) d = d"
  by (rule nth_equalityI) (auto simp: nth_splice nth_slice)

text \<open>32- and 16-bit numbers at an offset of a block.\<close>

definition get32 :: "byte list \<Rightarrow> nat \<Rightarrow> uint32" where
  "get32 d off = le_dec (slice off 4 d)"

definition put32 :: "byte list \<Rightarrow> nat \<Rightarrow> uint32 \<Rightarrow> byte list" where
  "put32 d off v = splice off (le_enc 4 v) d"

definition get16 :: "byte list \<Rightarrow> nat \<Rightarrow> uint16" where
  "get16 d off = le_dec (slice off 2 d)"

definition put16 :: "byte list \<Rightarrow> nat \<Rightarrow> uint16 \<Rightarrow> byte list" where
  "put16 d off v = splice off (le_enc 2 v) d"

lemma length_put [simp]:
  "off + 4 \<le> length d \<Longrightarrow> length (put32 d off v) = length d"
  "off + 2 \<le> length d \<Longrightarrow> length (put16 d off w) = length d"
  by (simp_all add: put32_def put16_def)

lemma get_put32 [simp]: "off + 4 \<le> length d \<Longrightarrow> get32 (put32 d off v) off = v"
  using slice_splice [of off "le_enc 4 v" d] by (simp add: get32_def put32_def)

lemma get_put32_other:
  "off + 4 \<le> length d \<Longrightarrow> o2 + 4 \<le> length d \<Longrightarrow> off + 4 \<le> o2 \<or> o2 + 4 \<le> off \<Longrightarrow>
    get32 (put32 d off v) o2 = get32 d o2"
  by (simp add: get32_def put32_def slice_splice_other)

lemma get_put16 [simp]: "off + 2 \<le> length d \<Longrightarrow> get16 (put16 d off v) off = v"
  using slice_splice [of off "le_enc 2 v" d] by (simp add: get16_def put16_def)

lemma get_put16_other:
  "off + 2 \<le> length d \<Longrightarrow> o2 + 2 \<le> length d \<Longrightarrow> off + 2 \<le> o2 \<or> o2 + 2 \<le> off \<Longrightarrow>
    get16 (put16 d off v) o2 = get16 d o2"
  by (simp add: get16_def put16_def slice_splice_other)

subsection \<open>The super block\<close>

record superblock =
  sb_magic :: uint32
  sb_size :: uint32
  sb_nblocks :: uint32
  sb_ninodes :: uint32
  sb_nlog :: uint32
  sb_logstart :: uint32
  sb_inodestart :: uint32
  sb_bmapstart :: uint32

definition FSMAGIC :: uint32 where "FSMAGIC = 0x10203040"
definition ROOTINO :: uint32 where "ROOTINO = 1"
definition NDIRECT :: nat where "NDIRECT = 12"
definition NINDIRECT :: nat where "NINDIRECT = BSIZE div 4"
definition MAXFILE :: nat where "MAXFILE = NDIRECT + NINDIRECT"
definition DIRSIZ :: nat where "DIRSIZ = 14"

definition dec_superblock :: "byte list \<Rightarrow> superblock" where
  "dec_superblock d = \<lparr>sb_magic = get32 d 0, sb_size = get32 d 4, sb_nblocks = get32 d 8, sb_ninodes = get32 d 12,
     sb_nlog = get32 d 16, sb_logstart = get32 d 20, sb_inodestart = get32 d 24, sb_bmapstart = get32 d 28\<rparr>"

definition enc_superblock :: "superblock \<Rightarrow> byte list" where
  "enc_superblock sb = le_enc 4 (sb_magic sb) @ le_enc 4 (sb_size sb) @ le_enc 4 (sb_nblocks sb) @
     le_enc 4 (sb_ninodes sb) @ le_enc 4 (sb_nlog sb) @ le_enc 4 (sb_logstart sb) @
     le_enc 4 (sb_inodestart sb) @ le_enc 4 (sb_bmapstart sb)"

subsection \<open>Inodes\<close>

record dinode =
  di_type :: uint16
  di_major :: uint16
  di_minor :: uint16
  di_nlink :: uint16
  di_size :: uint32
  di_addrs :: "uint32 list"

definition DINODE_SIZE :: nat where "DINODE_SIZE = 64"
definition IPB :: nat where "IPB = BSIZE div DINODE_SIZE"

definition IBLOCK :: "uint32 \<Rightarrow> superblock \<Rightarrow> uint32" where
  "IBLOCK i sb = i div of_nat IPB + sb_inodestart sb"

definition BPB :: nat where "BPB = BSIZE * 8"

definition BBLOCK :: "uint32 \<Rightarrow> superblock \<Rightarrow> uint32" where
  "BBLOCK b sb = b div of_nat BPB + sb_bmapstart sb"

definition dec_dinode :: "byte list \<Rightarrow> dinode" where
  "dec_dinode d = \<lparr>di_type = get16 d 0, di_major = get16 d 2, di_minor = get16 d 4, di_nlink = get16 d 6,
     di_size = get32 d 8, di_addrs = map (\<lambda>i. get32 d (12 + 4 * i)) [0..<NDIRECT + 1]\<rparr>"

definition enc_dinode :: "dinode \<Rightarrow> byte list" where
  "enc_dinode di = le_enc 2 (di_type di) @ le_enc 2 (di_major di) @ le_enc 2 (di_minor di) @
     le_enc 2 (di_nlink di) @ le_enc 4 (di_size di) @ concat (map (le_enc 4) (di_addrs di))"

subsection \<open>Directory entries\<close>

record dirent =
  de_inum :: uint16
  de_name :: "byte list"

definition DIRENT_SIZE :: nat where "DIRENT_SIZE = 16"

definition dec_dirent :: "byte list \<Rightarrow> dirent" where
  "dec_dirent d = \<lparr>de_inum = get16 d 0, de_name = slice 2 DIRSIZ d\<rparr>"

definition enc_dirent :: "dirent \<Rightarrow> byte list" where
  "enc_dirent de = le_enc 2 (de_inum de) @ de_name de"

lemma slice_append1: "off + n \<le> length xs \<Longrightarrow> slice off n (xs @ ys) = slice off n xs"
  by (simp add: slice_def)

lemma slice_append2: "length xs \<le> off \<Longrightarrow> slice off n (xs @ ys) = slice (off - length xs) n ys"
  by (simp add: slice_def)

lemma slice_all: "length xs = n \<Longrightarrow> slice 0 n xs = xs"
  by (simp add: slice_def)

lemma dec_enc_superblock: "dec_superblock (enc_superblock sb) = sb"
  by (simp add: dec_superblock_def enc_superblock_def get32_def slice_append1 slice_append2 slice_all)

lemma dec_enc_dirent: "length (de_name de) = DIRSIZ \<Longrightarrow> dec_dirent (enc_dirent de) = de"
  by (simp add: dec_dirent_def enc_dirent_def get16_def slice_append1 slice_append2 slice_all)

lemma length_concat4: "length (concat (map (le_enc 4) ws)) = 4 * length ws"
  by (induction ws) simp_all

lemma slice_concat4: "i < length ws \<Longrightarrow> slice (4 * i) 4 (concat (map (le_enc 4) ws)) = le_enc 4 (ws ! i)"
proof (induction ws arbitrary: i)
  case (Cons w ws)
  show ?case
  proof (cases i)
    case (Suc j)
    then show ?thesis using Cons by (simp add: slice_append2)
  qed (simp add: slice_append1 slice_all)
qed simp

lemma length_enc_dinode: "length (di_addrs di) = NDIRECT + 1 \<Longrightarrow> length (enc_dinode di) = DINODE_SIZE"
  by (simp add: enc_dinode_def length_concat4 NDIRECT_def DINODE_SIZE_def)

lemma dec_enc_dinode:
  assumes "length (di_addrs di) = NDIRECT + 1"
  shows "dec_dinode (enc_dinode di) = di"
proof -
  have "map (\<lambda>i. get32 (enc_dinode di) (12 + 4 * i)) [0..<NDIRECT + 1] = di_addrs di"
    by (rule nth_equalityI) (use assms in \<open>simp_all add: get32_def enc_dinode_def slice_append2 slice_concat4 del: upt_Suc\<close>)
  then show ?thesis
    by (simp add: dec_dinode_def get16_def get32_def enc_dinode_def slice_append1 slice_append2 slice_all)
qed

end
