(* ===== verification/Log.thy ===== *)
theory Log
  imports Ondisk
begin

text \<open>
  The write-ahead log, \<^verbatim>\<open>kernel/log.c\<close>.

  The state is \<open>struct log\<close> with its in-memory header \<open>lh\<close>. The header block on the disk holds \<open>n\<close> at
  offset 0 and the home block numbers from offset 4. \<open>log.lock\<close> brackets the updates of the counters;
  commit runs outside it, with \<open>committing\<close> set. \<open>begin_op\<close> that has to wait is \<open>Block\<close>; it tests
  again when it is woken. \<open>log.lh.block\<close> has \<open>LOGSIZE\<close> entries: an access beyond it is undefined in C.

  The theorems: \<open>commit\<close> writes the log, then the header, then the home blocks, then the empty
  header, and at each point of that sequence \<open>recover_from_log\<close> after a restart leaves either the
  old or the new contents of all the blocks of the transaction.
\<close>

definition MAXOPBLOCKS :: int where "MAXOPBLOCKS = 10"
definition LOGSIZE :: int where "LOGSIZE = MAXOPBLOCKS * 3"

record log = bio +
  lg_start :: int
  lg_size :: int
  lg_outstanding :: int
  lg_committing :: bool
  lg_dev :: uint32
  lh_n :: int
  lh_block :: "uint32 list"

text \<open>The words of the header block, written through \<open>struct logheader *\<close>.\<close>

definition hdr_n :: "byte list \<Rightarrow> int" where
  "hdr_n d = sint (get32 d 0)"

definition hdr_block :: "byte list \<Rightarrow> nat \<Rightarrow> uint32" where
  "hdr_block d i = get32 d (4 + 4 * i)"

text \<open>The bodies of the loops of \<open>install_trans\<close> and \<open>write_log\<close>, for log block \<open>l\<close> and home block \<open>h\<close>.\<close>

definition install_block :: "bool \<Rightarrow> uint32 \<Rightarrow> uint32 \<Rightarrow> uint32 \<Rightarrow> (unit, 'a log_scheme) routine" where
  "install_block recovering dev l h =
     bind (bread dev l) (\<lambda>lbuf.
     bind (bread dev h) (\<lambda>dbuf.
     bind (buf_data lbuf) (\<lambda>data.
     bind (set_data dbuf data) (\<lambda>_.
     bind (bwrite dbuf) (\<lambda>_.
     bind (if \<not> recovering then bunpin dbuf else ret ()) (\<lambda>_.
     bind (brelse lbuf) (\<lambda>_.
     brelse dbuf)))))))"

definition install_trans :: "bool \<Rightarrow> (unit, 'a log_scheme) routine" where
  "install_trans recovering =
     bind (gets (\<lambda>s. nat (lh_n s))) (\<lambda>n. for_each [0..<n] (\<lambda>tail.
       bind (gets id) (\<lambda>s.
       install_block recovering (lg_dev s) (of_int (lg_start s + int tail + 1)) (lh_block s ! tail))))"

definition read_head :: "(unit, 'a log_scheme) routine" where
  "read_head =
     bind (gets id) (\<lambda>s.
     bind (bread (lg_dev s) (of_int (lg_start s))) (\<lambda>buf.
     bind (buf_data buf) (\<lambda>lh.
     bind (modify (\<lambda>s. s\<lparr>lh_n := hdr_n lh\<rparr>)) (\<lambda>_.
     bind (for_each [0..<nat (hdr_n lh)] (\<lambda>i.
       if int i \<ge> LOGSIZE then panic ''undefined behaviour: log.lh.block''
       else modify (\<lambda>s. s\<lparr>lh_block := (lh_block s)[i := hdr_block lh i]\<rparr>))) (\<lambda>_.
     brelse buf)))))"

definition write_head :: "(unit, 'a log_scheme) routine" where
  "write_head =
     bind (gets id) (\<lambda>s.
     bind (bread (lg_dev s) (of_int (lg_start s))) (\<lambda>buf.
     bind (buf_data buf) (\<lambda>hb.
     bind (set_data buf (put32 hb 0 (of_int (lh_n s)))) (\<lambda>_.
     bind (for_each [0..<nat (lh_n s)] (\<lambda>i.
       bind (buf_data buf) (\<lambda>hb. set_data buf (put32 hb (4 + 4 * i) (lh_block s ! i))))) (\<lambda>_.
     bind (bwrite buf) (\<lambda>_.
     brelse buf))))))"

definition recover_from_log :: "(unit, 'a log_scheme) routine" where
  "recover_from_log =
     bind read_head (\<lambda>_.
     bind (install_trans True) (\<lambda>_.
     bind (modify (\<lambda>s. s\<lparr>lh_n := 0\<rparr>)) (\<lambda>_.
     write_head)))"

text \<open>\<open>sizeof(struct logheader)\<close> is four bytes for \<open>n\<close> and for each block number.\<close>

definition initlog :: "uint32 \<Rightarrow> superblock \<Rightarrow> (unit, 'a log_scheme) routine" where
  "initlog dev sb =
     (if 4 + 4 * LOGSIZE \<ge> int BSIZE then panic ''initlog: too big logheader''
      else bind (modify (\<lambda>s. s\<lparr>lg_start := sint (sb_logstart sb), lg_size := sint (sb_nlog sb), lg_dev := dev\<rparr>)) (\<lambda>_.
        recover_from_log))"

definition begin_op :: "(unit, 'a log_scheme) routine" where
  "begin_op = bind (gets id) (\<lambda>s.
     if lg_committing s then sleep Log
     else if lh_n s + (lg_outstanding s + 1) * MAXOPBLOCKS > LOGSIZE then sleep Log
     else modify (\<lambda>s. s\<lparr>lg_outstanding := lg_outstanding s + 1\<rparr>))"

definition write_log_block :: "uint32 \<Rightarrow> uint32 \<Rightarrow> uint32 \<Rightarrow> (unit, 'a log_scheme) routine" where
  "write_log_block dev l h =
     bind (bread dev l) (\<lambda>to.
     bind (bread dev h) (\<lambda>from.
     bind (buf_data from) (\<lambda>data.
     bind (set_data to data) (\<lambda>_.
     bind (bwrite to) (\<lambda>_.
     bind (brelse from) (\<lambda>_.
     brelse to))))))"

definition write_log :: "(unit, 'a log_scheme) routine" where
  "write_log =
     bind (gets (\<lambda>s. nat (lh_n s))) (\<lambda>n. for_each [0..<n] (\<lambda>tail.
       bind (gets id) (\<lambda>s.
       write_log_block (lg_dev s) (of_int (lg_start s + int tail + 1)) (lh_block s ! tail))))"

definition commit :: "(unit, 'a log_scheme) routine" where
  "commit = bind (gets lh_n) (\<lambda>n.
     if n > 0 then
       bind write_log (\<lambda>_.
       bind write_head (\<lambda>_.
       bind (install_trans False) (\<lambda>_.
       bind (modify (\<lambda>s. s\<lparr>lh_n := 0\<rparr>)) (\<lambda>_.
       write_head))))
     else ret ())"

definition end_op :: "(unit, 'a log_scheme) routine" where
  "end_op =
     bind (modify (\<lambda>s. s\<lparr>lg_outstanding := lg_outstanding s - 1\<rparr>)) (\<lambda>_.
     bind (gets id) (\<lambda>s.
       if lg_committing s then panic ''log.committing''
       else if lg_outstanding s = 0 then
         bind (modify (\<lambda>s. s\<lparr>lg_committing := True\<rparr>)) (\<lambda>_.
         bind commit (\<lambda>_.
         bind (modify (\<lambda>s. s\<lparr>lg_committing := False\<rparr>)) (\<lambda>_.
         wakeup Log)))
       else wakeup Log))"

definition log_write :: "nat \<Rightarrow> (unit, 'a log_scheme) routine" where
  "log_write b = bind (gets id) (\<lambda>s.
     if lh_n s \<ge> LOGSIZE \<or> lh_n s \<ge> lg_size s - 1 then panic ''too big a transaction''
     else if lg_outstanding s < 1 then panic ''log_write outside of trans''
     else let bn = b_blockno (bufs s ! b);
              i = (case find_idx (\<lambda>x. x = bn) (take (nat (lh_n s)) (lh_block s)) of Some i \<Rightarrow> i | None \<Rightarrow> nat (lh_n s)) in
       bind (modify (\<lambda>s. s\<lparr>lh_block := (lh_block s)[i := bn]\<rparr>)) (\<lambda>_.
         if int i = lh_n s then bind (bpin b) (\<lambda>_. modify (\<lambda>s. s\<lparr>lh_n := lh_n s + 1\<rparr>)) else ret ()))"

subsection \<open>Copying a block to or from the log\<close>

lemma unused_clean: "bio_inv s \<Longrightarrow> refs s bn = 0 \<Longrightarrow> fsval s bn = disk s bn"
proof (cases "holder s bn")
  case (Some b)
  assume inv: "bio_inv s" and r: "refs s bn = 0"
  have "b < NBUF" "is_copy bn (bufs s ! b)" using holder_Some [OF inv] Some by auto
  moreover from this have "buf_ok (disk s) (bufs s ! b)" using inv by (simp add: bio_inv_def)
  ultimately show ?thesis using Some r by (auto simp: fsval_def refs_def buf_ok_def is_copy_def)
qed (simp add: fsval_def)

lemma log_fields:
  fixes s s' :: "'a log_scheme"
  assumes "bio.more s' = bio.more s"
  shows "lg_start s' = lg_start s" "lg_size s' = lg_size s" "lg_dev s' = lg_dev s" "lh_n s' = lh_n s"
    "lh_block s' = lh_block s" "lg_outstanding s' = lg_outstanding s" "lg_committing s' = lg_committing s"
  using assms by (cases s; cases s'; simp)+

lemma read_two:
  assumes inv: "bio_inv s" and cur: "cur s = Some i" "i < length (procs s)" and free: "\<not> held s l" "\<not> held s h"
    and ne: "l \<noteq> h" and room: "card (in_use s \<union> {l, h}) \<le> NBUF"
  obtains b c s1 s2 where "bread ROOTDEV l s = Ok b s1" and "bread ROOTDEV h s1 = Ok c s2"
    and "cache_run s s2 (fsval s) ((refs s)(l := refs s l + 1, h := refs s h + 1)) ((held s)(l := True, h := True)) []"
    and "mine s2 b l" and "mine s2 c h" and "b \<noteq> c"
proof -
  have fin: "finite (in_use s)" using busy_in_use [OF inv] by simp
  have room1: "refs s l > 0 \<or> card (in_use s) < NBUF"
  proof (cases "l \<in> in_use s")
    case True
    then show ?thesis by (simp add: in_use_def)
  next
    case False
    then have "card (in_use s) < card (in_use s \<union> {l, h})" using fin by (intro psubset_card_mono) auto
    then show ?thesis using room by simp
  qed
  obtain b s1 where b: "bread ROOTDEV l s = Ok b s1" "mine s1 b l"
      "cache_run s s1 (fsval s) ((refs s)(l := refs s l + 1)) ((held s)(l := True)) []"
    using run_bread [OF inv cur free(1) room1] by metis
  note d = cache_runD [OF b(3)]
  have use: "in_use s1 = insert l (in_use s)"
    using d(3) refs_nonneg [OF inv, of l] by (auto simp: in_use_def)
  have room2: "refs s1 h > 0 \<or> card (in_use s1) < NBUF"
  proof (cases "h \<in> in_use s1")
    case True
    then show ?thesis by (simp add: in_use_def)
  next
    case False
    then have "card (in_use s1) < card (in_use s \<union> {l, h})" using fin use by (intro psubset_card_mono) auto
    then show ?thesis using room by simp
  qed
  obtain c s2 where c: "bread ROOTDEV h s1 = Ok c s2" "mine s2 c h"
      "cache_run s1 s2 (fsval s1) ((refs s1)(h := refs s1 h + 1)) ((held s1)(h := True)) []"
      and keep: "\<And>e n. mine s1 e n \<Longrightarrow> mine s2 e n"
    using run_bread [OF d(1) _ _ _ room2] d cur free(2) ne by (metis fun_upd_other)
  have "cache_run s s2 (fsval s) ((refs s)(l := refs s l + 1, h := refs s h + 1)) ((held s)(l := True, h := True)) []"
    using cache_run_trans [OF b(3) c(3)] d ne by simp
  moreover have "b \<noteq> c" using mine_distinct [OF keep [OF b(2)] c(2)] ne by blast
  ultimately show ?thesis using that b(1) c(1,2) keep [OF b(2)] by blast
qed

text \<open>The body of \<open>write_log\<close>: the log block \<open>l\<close> gets the contents of the home block \<open>h\<close>.\<close>

lemma write_log_body:
  assumes inv: "bio_inv s" and cur: "cur s = Some i" "i < length (procs s)" and free: "\<not> held s l" "\<not> held s h"
    and ne: "l \<noteq> h" and room: "card (in_use s \<union> {l, h}) \<le> NBUF"
  obtains s' where "write_log_block ROOTDEV l h s = Ok () s'"
    and "cache_run s s' ((fsval s)(l := fsval s h)) (refs s) (held s) [(l, fsval s h)]"
proof -
  obtain b c s1 s2 where r: "bread ROOTDEV l s = Ok b s1" "bread ROOTDEV h s1 = Ok c s2"
    and run2: "cache_run s s2 (fsval s) ((refs s)(l := refs s l + 1, h := refs s h + 1)) ((held s)(l := True, h := True)) []"
    and m: "mine s2 b l" "mine s2 c h" "b \<noteq> c"
    using read_two [OF assms] by metis
  note d2 = cache_runD [OF run2]
  have data: "buf_data c s2 = Ok (fsval s h) s2" using buf_data_mine [OF d2(1) m(2)] d2(2) by simp
  obtain s3 where s3: "set_data b (fsval s h) s2 = Ok () s3" "mine s3 b l" "mine s3 c h"
    and run3: "cache_run s2 s3 ((fsval s2)(l := fsval s h)) (refs s2) (held s2) []"
    using run_set_data [OF d2(1) m(1) length_fsval [OF inv]] m by metis
  note d3 = cache_runD [OF run3]
  obtain s4 where s4: "bwrite b s3 = Ok () s4" "mine s4 b l" "mine s4 c h"
    and run4: "cache_run s3 s4 (fsval s3) (refs s3) (held s3) [(l, fsval s3 l)]"
    using run_bwrite [OF d3(1) s3(2)] s3 by metis
  note d4 = cache_runD [OF run4]
  have clean: "fsval s4 h = disk s4 h" if "refs s4 h = 1"
    using that d2 d3 d4 ne unused_clean [OF inv, of h] by simp
  obtain s5 where s5: "brelse c s4 = Ok () s5" "mine s5 b l"
    and run5: "cache_run s4 s5 (fsval s4) ((refs s4)(h := refs s4 h - 1)) ((held s4)(h := False)) []"
    using run_brelse [OF d4(1) s4(3) clean] s4(2) m(3) by metis
  note d5 = cache_runD [OF run5]
  obtain s6 where s6: "brelse b s5 = Ok () s6"
    and run6: "cache_run s5 s6 (fsval s5) ((refs s5)(l := refs s5 l - 1)) ((held s5)(l := False)) []"
    using run_brelse [OF d5(1) s5(2)] d2 d3 d4 d5 by (metis fun_upd_same apply_writes_simps(1,2))
  have "cache_run s s6 ((fsval s)(l := fsval s h)) (refs s) (held s) [(l, fsval s h)]"
    using cache_run_trans [OF run2 cache_run_trans [OF run3 cache_run_trans [OF run4 cache_run_trans [OF run5 run6]]]]
      d2 d3 d4 d5 free ne by (simp add: fun_upd_twist fun_upd_idem)
  then show ?thesis using that r data s3(1) s4(1) s5(1) s6 by (simp add: write_log_block_def bind_def)
qed

text \<open>The body of \<open>install_trans\<close>: the home block \<open>h\<close> gets the contents of the log block \<open>l\<close>.\<close>

lemma install_body:
  assumes inv: "bio_inv s" and cur: "cur s = Some i" "i < length (procs s)" and free: "\<not> held s l" "\<not> held s h"
    and ne: "l \<noteq> h" and room: "card (in_use s \<union> {l, h}) \<le> NBUF" and pinned: "\<not> rec \<Longrightarrow> refs s h > 0"
  obtains s' where "install_block rec ROOTDEV l h s = Ok () s'"
    and "cache_run s s' ((fsval s)(h := fsval s l)) ((refs s)(h := refs s h - (if rec then 0 else 1))) (held s)
      [(h, fsval s l)]"
proof -
  obtain b c s1 s2 where r: "bread ROOTDEV l s = Ok b s1" "bread ROOTDEV h s1 = Ok c s2"
    and run2: "cache_run s s2 (fsval s) ((refs s)(l := refs s l + 1, h := refs s h + 1)) ((held s)(l := True, h := True)) []"
    and m: "mine s2 b l" "mine s2 c h" "b \<noteq> c"
    using read_two [OF inv cur free ne room] by metis
  note d2 = cache_runD [OF run2]
  have data: "buf_data b s2 = Ok (fsval s l) s2" using buf_data_mine [OF d2(1) m(1)] d2(2) by simp
  obtain s3 where s3: "set_data c (fsval s l) s2 = Ok () s3" "mine s3 b l" "mine s3 c h"
    and run3: "cache_run s2 s3 ((fsval s2)(h := fsval s l)) (refs s2) (held s2) []"
    using run_set_data [OF d2(1) m(2) length_fsval [OF inv]] m by metis
  note d3 = cache_runD [OF run3]
  obtain s4 where s4: "bwrite c s3 = Ok () s4" "mine s4 b l" "mine s4 c h"
    and run4: "cache_run s3 s4 (fsval s3) (refs s3) (held s3) [(h, fsval s3 h)]"
    using run_bwrite [OF d3(1) s3(3)] s3 by metis
  note d4 = cache_runD [OF run4]
  define k :: int where "k = (if rec then 0 else 1)"
  obtain s5 where s5: "(if \<not> rec then bunpin c else ret ()) s4 = Ok () s5" "mine s5 b l" "mine s5 c h"
    and run5: "cache_run s4 s5 (fsval s4) ((refs s4)(h := refs s4 h - k)) (held s4) []"
  proof (cases rec)
    case True
    then show ?thesis using that [of s4] s4 cache_run_refl [OF d4(1)] by (simp add: k_def)
  next
    case False
    have "refs s4 h \<ge> 2" using pinned [OF False] d2 d3 d4 by simp
    from run_bunpin [OF d4(1) s4(3) this] obtain u where u: "bunpin c s4 = Ok () u"
        "cache_run s4 u (fsval s4) ((refs s4)(h := refs s4 h - 1)) (held s4) []" "mine u b l" "mine u c h"
      using s4(2,3) by metis
    then show ?thesis using that [of u] False by (simp add: k_def)
  qed
  note d5 = cache_runD [OF run5]
  have clean: "fsval s5 l = disk s5 l" if "refs s5 l = 1"
    using that d2 d3 d4 d5 ne unused_clean [OF inv, of l] by simp
  obtain s6 where s6: "brelse b s5 = Ok () s6" "mine s6 c h"
    and run6: "cache_run s5 s6 (fsval s5) ((refs s5)(l := refs s5 l - 1)) ((held s5)(l := False)) []"
    using run_brelse [OF d5(1) s5(2) clean] s5(3) m(3) by metis
  note d6 = cache_runD [OF run6]
  have clean': "fsval s6 h = disk s6 h" using d2 d3 d4 d5 d6 by simp
  obtain s7 where s7: "brelse c s6 = Ok () s7"
    and run7: "cache_run s6 s7 (fsval s6) ((refs s6)(h := refs s6 h - 1)) ((held s6)(h := False)) []"
    using run_brelse [OF d6(1) s6(2) clean'] by metis
  have "cache_run s s7 ((fsval s)(h := fsval s l)) ((refs s)(h := refs s h - k)) (held s) [(h, fsval s l)]"
    using cache_run_trans [OF run2 cache_run_trans [OF run3 cache_run_trans [OF run4 cache_run_trans [OF run5
        cache_run_trans [OF run6 run7]]]]] d2 d3 d4 d5 d6 free ne by (simp add: fun_upd_twist fun_upd_idem)
  then show ?thesis using that r data s3(1) s4(1) s5(1) s6(1) s7 by (simp add: install_block_def bind_def k_def)
qed

subsection \<open>The loops of the log\<close>

definition log_hd :: "int \<Rightarrow> uint32" where "log_hd st = of_int st"
definition log_blk :: "int \<Rightarrow> nat \<Rightarrow> uint32" where "log_blk st i = of_int (st + int i + 1)"

text \<open>The logged blocks \<open>bl\<close> are distinct and lie outside the log, whose blocks are distinct.\<close>

definition log_geom :: "int \<Rightarrow> uint32 list \<Rightarrow> bool" where
  "log_geom st bl \<longleftrightarrow> distinct bl \<and> distinct (log_hd st # map (log_blk st) [0..<length bl]) \<and>
     set bl \<inter> set (log_hd st # map (log_blk st) [0..<length bl]) = {}"

text \<open>A process that finds the header with the blocks \<open>bl\<close> can run the loops without waiting.\<close>

definition log_free :: "'a log_scheme \<Rightarrow> uint32 list \<Rightarrow> bool" where
  "log_free s bl \<longleftrightarrow> bio_inv s \<and> (\<exists>i<length (procs s). cur s = Some i) \<and> lg_dev s = ROOTDEV \<and>
     log_geom (lg_start s) bl \<and> (\<forall>b \<in> insert (log_hd (lg_start s)) (set bl \<union> log_blk (lg_start s) ` {..<length bl}). \<not> held s b)"

lemma apply_writes_other: "bn \<notin> fst ` set ws \<Longrightarrow> apply_writes ws d bn = d bn"
  by (induction ws arbitrary: d) auto

lemma log_free_run:
  assumes "log_free s bl" and "cache_run s s' v r (held s) ws"
  shows "log_free s' bl"
  using assms cache_runD [OF assms(2)] log_fields [of s' s] by (auto simp: log_free_def)

lemma log_geomD:
  assumes "log_geom st bl"
  shows "k < length bl \<Longrightarrow> log_blk st k \<noteq> log_hd st" and "k < length bl \<Longrightarrow> log_blk st k \<notin> set bl"
    and "log_hd st \<notin> set bl" and "log_hd st \<notin> log_blk st ` {..<length bl}"
proof -
  have *: "log_hd st \<notin> log_blk st ` {0..<length bl}" "set bl \<inter> log_blk st ` {0..<length bl} = {}"
    using assms by (simp_all add: log_geom_def)
  show "log_hd st \<notin> log_blk st ` {..<length bl}" using *(1) by (simp add: atLeast0LessThan)
  show "log_hd st \<notin> set bl" using assms by (simp add: log_geom_def)
  assume "k < length bl"
  then have "log_blk st k \<in> log_blk st ` {0..<length bl}" by simp
  with * show "log_blk st k \<noteq> log_hd st" "log_blk st k \<notin> set bl" by auto
qed

lemma log_freeD:
  assumes "log_free s bl" and "k < length bl"
  shows "\<not> held s (log_blk (lg_start s) k)" and "\<not> held s (bl ! k)" and "log_blk (lg_start s) k \<noteq> bl ! k"
    and "bl ! k \<notin> log_blk (lg_start s) ` {..<length bl}"
    and "log_blk (lg_start s) k \<notin> set bl"
proof -
  have "bl ! k \<in> set bl" using assms(2) by simp
  then show "\<not> held s (log_blk (lg_start s) k)" "\<not> held s (bl ! k)"
    using assms by (auto simp: log_free_def)
  show 1: "log_blk (lg_start s) k \<notin> set bl" using assms by (auto simp: log_free_def log_geom_def)
  have "set bl \<inter> log_blk (lg_start s) ` {..<length bl} = {}"
    using assms(1) by (simp add: log_free_def log_geom_def atLeast0LessThan)
  then show "bl ! k \<notin> log_blk (lg_start s) ` {..<length bl}" using \<open>bl ! k \<in> set bl\<close> by blast
  then show "log_blk (lg_start s) k \<noteq> bl ! k" using 1 \<open>bl ! k \<in> set bl\<close> by auto
qed

definition log_writes :: "int \<Rightarrow> uint32 list \<Rightarrow> (uint32 \<Rightarrow> byte list) \<Rightarrow> (uint32 \<times> byte list) list" where
  "log_writes st bl v = map (\<lambda>i. (log_blk st i, v (bl ! i))) [0..<length bl]"

definition home_writes :: "int \<Rightarrow> uint32 list \<Rightarrow> (uint32 \<Rightarrow> byte list) \<Rightarrow> (uint32 \<times> byte list) list" where
  "home_writes st bl v = map (\<lambda>i. (bl ! i, v (log_blk st i))) [0..<length bl]"

lemma write_log_spec:
  fixes s :: "'a log_scheme"
  assumes f: "log_free s bl" and n: "lh_n s = int (length bl)" and bl: "take (length bl) (lh_block s) = bl"
    and room: "card (in_use s \<union> set bl) < NBUF"
  obtains s' where "write_log s = Ok () s'"
    and "cache_run s s' (apply_writes (log_writes (lg_start s) bl (fsval s)) (fsval s)) (refs s) (held s)
      (log_writes (lg_start s) bl (fsval s))"
proof -
  let ?w = "\<lambda>k. map (\<lambda>i. (log_blk (lg_start s) i, fsval s (bl ! i))) [0..<k]"
  let ?body = "\<lambda>tail. bind (gets id) (\<lambda>s.
       write_log_block (lg_dev s) (of_int (lg_start s + int tail + 1)) (lh_block s ! tail))"
  have fin: "finite (in_use s)" using f busy_in_use by (simp add: log_free_def)
  have "\<exists>s'. for_each [0..<k] ?body s = Ok () s' \<and>
      cache_run s s' (apply_writes (?w k) (fsval s)) (refs s) (held s) (?w k)" if "k \<le> length bl" for k
    using that
  proof (induction k)
    case 0
    then show ?case using f cache_run_refl [of s] by (simp add: log_free_def)
  next
    case (Suc k)
    then have k: "k < length bl" by simp
    obtain t where t: "for_each [0..<k] ?body s = Ok () t"
      and run: "cache_run s t (apply_writes (?w k) (fsval s)) (refs s) (held s) (?w k)"
      using Suc.IH [OF less_imp_le [OF k]] by blast
    note d = cache_runD [OF run] and fl = log_fields [OF cache_runD(10) [OF run]]
    have ft: "log_free t bl" by (rule log_free_run [OF f run])
    obtain i where i: "cur t = Some i" "i < length (procs t)" and it: "bio_inv t" and dev: "lg_dev t = ROOTDEV"
      using ft by (auto simp: log_free_def)
    have "in_use t = in_use s" using d(3) by (simp add: in_use_def)
    moreover have "card (in_use s \<union> {log_blk (lg_start s) k, bl ! k}) \<le> card (insert (log_blk (lg_start s) k) (in_use s \<union> set bl))"
      using k fin by (intro card_mono) auto
    ultimately have "card (in_use t \<union> {log_blk (lg_start t) k, bl ! k}) \<le> NBUF"
      using room fin fl card_insert_if [of "in_use s \<union> set bl" "log_blk (lg_start s) k"] by (auto split: if_splits)
    from write_log_body [OF it i log_freeD(1-3) [OF ft k] this] obtain u where
      u: "write_log_block ROOTDEV (log_blk (lg_start t) k) (bl ! k) t = Ok () u"
      and runu: "cache_run t u ((fsval t)(log_blk (lg_start t) k := fsval t (bl ! k))) (refs t) (held t)
        [(log_blk (lg_start t) k, fsval t (bl ! k))]" by blast
    have "lh_block t ! k = bl ! k" using fl nth_take [OF k, of "lh_block s"] bl by simp
    then have ub: "?body k t = Ok () u" using u dev by (simp add: log_blk_def)
    have v: "fsval t (bl ! k) = fsval s (bl ! k)"
      unfolding d(2) using log_freeD(4) [OF f k] k by (intro apply_writes_other) auto
    have "for_each [0..<Suc k] ?body s = Ok () u" using t ub by (simp add: for_each_append bind_def)
    moreover have "cache_run s u (apply_writes (?w (Suc k)) (fsval s)) (refs s) (held s) (?w (Suc k))"
      using cache_run_trans [OF run runu] d v fl by simp
    ultimately show ?case by blast
  qed
  from this [of "length bl"] show ?thesis using that n by (auto simp: write_log_def log_writes_def)
qed

lemma install_trans_spec:
  fixes s :: "'a log_scheme"
  assumes f: "log_free s bl" and n: "lh_n s = int (length bl)" and bl: "take (length bl) (lh_block s) = bl"
    and room: "card (in_use s \<union> set bl) < NBUF" and pinned: "\<not> rec \<Longrightarrow> \<forall>b \<in> set bl. refs s b > 0"
  obtains s' where "install_trans rec s = Ok () s'"
    and "cache_run s s' (apply_writes (home_writes (lg_start s) bl (fsval s)) (fsval s))
      (\<lambda>b. if \<not> rec \<and> b \<in> set bl then refs s b - 1 else refs s b) (held s) (home_writes (lg_start s) bl (fsval s))"
proof -
  let ?w = "\<lambda>k. map (\<lambda>i. (bl ! i, fsval s (log_blk (lg_start s) i))) [0..<k]"
  let ?r = "\<lambda>k b. if \<not> rec \<and> b \<in> set (take k bl) then refs s b - 1 else refs s b"
  let ?body = "\<lambda>tail. bind (gets id) (\<lambda>s.
       install_block rec (lg_dev s) (of_int (lg_start s + int tail + 1)) (lh_block s ! tail))"
  have fin: "finite (in_use s)" using f busy_in_use by (simp add: log_free_def)
  have dist: "distinct bl" using f by (simp add: log_free_def log_geom_def)
  have "\<exists>s'. for_each [0..<k] ?body s = Ok () s' \<and>
      cache_run s s' (apply_writes (?w k) (fsval s)) (?r k) (held s) (?w k)" if "k \<le> length bl" for k
    using that
  proof (induction k)
    case 0
    then show ?case using f cache_run_refl [of s] by (simp add: log_free_def)
  next
    case (Suc k)
    then have k: "k < length bl" by simp
    obtain t where t: "for_each [0..<k] ?body s = Ok () t"
      and run: "cache_run s t (apply_writes (?w k) (fsval s)) (?r k) (held s) (?w k)"
      using Suc.IH [OF less_imp_le [OF k]] by blast
    note d = cache_runD [OF run] and fl = log_fields [OF cache_runD(10) [OF run]]
    have ft: "log_free t bl" by (rule log_free_run [OF f run])
    obtain i where i: "cur t = Some i" "i < length (procs t)" and it: "bio_inv t" and dev: "lg_dev t = ROOTDEV"
      using ft by (auto simp: log_free_def)
    have new: "bl ! k \<notin> set (take k bl)" using dist k by (auto simp: in_set_conv_nth nth_eq_iff_index_eq)
    then have rk: "refs t (bl ! k) = refs s (bl ! k)" using d(3) by simp
    have use: "in_use t \<subseteq> in_use s" using d(3) by (auto simp: in_use_def split: if_splits)
    have "card (in_use t \<union> {log_blk (lg_start s) k, bl ! k}) \<le> card (insert (log_blk (lg_start s) k) (in_use s \<union> set bl))"
      using k fin use by (intro card_mono) auto
    then have "card (in_use t \<union> {log_blk (lg_start t) k, bl ! k}) \<le> NBUF"
      using room fin fl card_insert_if [of "in_use s \<union> set bl" "log_blk (lg_start s) k"] by (auto split: if_splits)
    moreover have "refs t (bl ! k) > 0" if "\<not> rec" using pinned [OF that] rk k by simp
    ultimately obtain u where
      u: "install_block rec ROOTDEV (log_blk (lg_start t) k) (bl ! k) t = Ok () u"
      and runu: "cache_run t u ((fsval t)(bl ! k := fsval t (log_blk (lg_start t) k)))
        ((refs t)(bl ! k := refs t (bl ! k) - (if rec then 0 else 1))) (held t)
        [(bl ! k, fsval t (log_blk (lg_start t) k))]"
      using install_body [OF it i log_freeD(1-3) [OF ft k], of rec] by blast
    have "lh_block t ! k = bl ! k" using fl nth_take [OF k, of "lh_block s"] bl by simp
    then have ub: "?body k t = Ok () u" using u dev by (simp add: log_blk_def)
    have v: "fsval t (log_blk (lg_start s) k) = fsval s (log_blk (lg_start s) k)"
    proof -
      have "fst ` set (?w k) \<subseteq> set bl" using k by auto
      then show ?thesis unfolding d(2) using log_freeD(5) [OF f k] by (intro apply_writes_other) blast
    qed
    have r: "(refs t)(bl ! k := refs t (bl ! k) - (if rec then 0 else 1)) = ?r (Suc k)"
      using rk d(3) k by (auto simp: fun_eq_iff take_Suc_conv_app_nth)
    have "for_each [0..<Suc k] ?body s = Ok () u" using t ub by (simp add: for_each_append bind_def)
    moreover have "cache_run s u (apply_writes (?w (Suc k)) (fsval s)) (?r (Suc k)) (held s) (?w (Suc k))"
      using cache_run_trans [OF run runu [unfolded r]] d v fl by simp
    ultimately show ?case by blast
  qed
  from this [of "length bl"] show ?thesis using that n by (auto simp: install_trans_def home_writes_def)
qed

subsection \<open>The header block\<close>

definition enc_hdr :: "uint32 list \<Rightarrow> byte list \<Rightarrow> byte list" where
  "enc_hdr bl d = fold (\<lambda>i d. put32 d (4 + 4 * i) (bl ! i)) [0..<length bl] (put32 d 0 (of_nat (length bl)))"

lemma enc_hdr_upto:
  fixes bl :: "uint32 list"
  assumes "length d = BSIZE" and "k \<le> 200"
  shows "length (fold (\<lambda>i d. put32 d (4 + 4 * i) (bl ! i)) [0..<k] (put32 d 0 m)) = BSIZE \<and>
    get32 (fold (\<lambda>i d. put32 d (4 + 4 * i) (bl ! i)) [0..<k] (put32 d 0 m)) 0 = m \<and>
    (\<forall>i<k. get32 (fold (\<lambda>i d. put32 d (4 + 4 * i) (bl ! i)) [0..<k] (put32 d 0 m)) (4 + 4 * i) = bl ! i)"
  using assms(2)
proof (induction k)
  case 0
  then show ?case using assms(1) by (simp add: BSIZE_def)
next
  case (Suc k)
  then show ?case by (auto simp: BSIZE_def get_put32_other less_Suc_eq)
qed

lemma enc_hdr:
  assumes "length d = BSIZE" and "length bl \<le> 30"
  shows "length (enc_hdr bl d) = BSIZE" and "hdr_n (enc_hdr bl d) = int (length bl)"
    and "i < length bl \<Longrightarrow> hdr_block (enc_hdr bl d) i = bl ! i"
proof -
  have k: "length bl \<le> 200" using assms(2) by simp
  note e = enc_hdr_upto [OF assms(1) k, of bl "of_nat (length bl)", folded enc_hdr_def]
  show "length (enc_hdr bl d) = BSIZE" using e by blast
  have "sint (of_nat (length bl) :: uint32) = int (length bl)"
    using assms(2) by (simp add: signed_of_nat signed_take_bit_int_eq_self)
  then show "hdr_n (enc_hdr bl d) = int (length bl)" using e by (simp add: hdr_n_def)
  show "i < length bl \<Longrightarrow> hdr_block (enc_hdr bl d) i = bl ! i" using e by (simp add: hdr_block_def)
qed

lemma header_loop:
  assumes inv: "bio_inv s" and m: "mine s b hn" and v: "fsval s hn = put32 d 0 w" and d: "length d = BSIZE"
    and k: "k \<le> 200"
  shows "\<exists>s'. for_each [0..<k] (\<lambda>i. bind (buf_data b) (\<lambda>hb. set_data b (put32 hb (4 + 4 * i) (bl ! i)))) s = Ok () s' \<and>
    mine s' b hn \<and> cache_run s s' ((fsval s)(hn := fold (\<lambda>i d. put32 d (4 + 4 * i) (bl ! i)) [0..<k] (put32 d 0 w)))
      (refs s) (held s) []"
  using k
proof (induction k)
  case 0
  then show ?case using m v cache_run_refl [OF inv] by (simp add: fun_upd_idem)
next
  case (Suc k)
  define e where "e = fold (\<lambda>i d. put32 d (4 + 4 * i) (bl ! i)) [0..<k] (put32 d 0 w)"
  define x where "x = put32 e (4 + 4 * k) (bl ! k)"
  obtain t where t: "for_each [0..<k] (\<lambda>i. bind (buf_data b) (\<lambda>hb. set_data b (put32 hb (4 + 4 * i) (bl ! i)))) s = Ok () t"
      "mine t b hn" and run: "cache_run s t ((fsval s)(hn := e)) (refs s) (held s) []"
    using Suc.IH [OF Suc_leD [OF Suc.prems]] unfolding e_def by blast
  note dt = cache_runD [OF run]
  have data: "buf_data b t = Ok e t" using buf_data_mine [OF dt(1) t(2)] dt(2) by simp
  have len: "length x = BSIZE"
    using enc_hdr_upto [OF d, of k bl w] Suc.prems by (simp add: BSIZE_def x_def e_def)
  obtain u where u: "set_data b x t = Ok () u" "mine u b hn"
    and runu: "cache_run t u ((fsval t)(hn := x)) (refs t) (held t) []"
    using run_set_data [OF dt(1) t(2) len] t(2) by metis
  have "for_each [0..<Suc k] (\<lambda>i. bind (buf_data b) (\<lambda>hb. set_data b (put32 hb (4 + 4 * i) (bl ! i)))) s = Ok () u"
    using t(1) u(1) data by (simp add: for_each_append bind_def x_def)
  moreover have "fold (\<lambda>i d. put32 d (4 + 4 * i) (bl ! i)) [0..<Suc k] (put32 d 0 w) = x" by (simp add: x_def e_def)
  moreover have "cache_run s u ((fsval s)(hn := x)) (refs s) (held s) []"
    using cache_run_trans [OF run runu] unfolding dt(2-4) by simp
  ultimately show ?case using u(2) by metis
qed

lemma write_head_spec:
  fixes s :: "'a log_scheme"
  assumes inv: "bio_inv s" and cur: "cur s = Some i" "i < length (procs s)" and dev: "lg_dev s = ROOTDEV"
    and free: "\<not> held s (log_hd (lg_start s))" and room: "card (in_use s) < NBUF"
    and n: "lh_n s = int (length bl)" and bl: "take (length bl) (lh_block s) = bl" and len: "length bl \<le> 30"
  obtains s' where "write_head s = Ok () s'"
    and "cache_run s s' ((fsval s)(log_hd (lg_start s) := enc_hdr bl (fsval s (log_hd (lg_start s))))) (refs s) (held s)
      [(log_hd (lg_start s), enc_hdr bl (fsval s (log_hd (lg_start s))))]"
proof -
  let ?h = "log_hd (lg_start s)" and ?d = "fsval s (log_hd (lg_start s))"
  obtain b s1 where b: "bread ROOTDEV ?h s = Ok b s1" "mine s1 b ?h"
      and run1: "cache_run s s1 (fsval s) ((refs s)(?h := refs s ?h + 1)) ((held s)(?h := True)) []"
    using run_bread [OF inv cur free] room by metis
  note d1 = cache_runD [OF run1]
  have data: "buf_data b s1 = Ok ?d s1" using buf_data_mine [OF d1(1) b(2)] d1(2) by simp
  have ld: "length ?d = BSIZE" by (rule length_fsval [OF inv])
  have l0: "length (put32 ?d 0 (of_int (lh_n s))) = BSIZE" using ld by (simp add: BSIZE_def)
  obtain s2 where s2: "set_data b (put32 ?d 0 (of_int (lh_n s))) s1 = Ok () s2" "mine s2 b ?h"
    and run2: "cache_run s1 s2 ((fsval s1)(?h := put32 ?d 0 (of_int (lh_n s)))) (refs s1) (held s1) []"
    using run_set_data [OF d1(1) b(2) l0] b(2) by metis
  note d2 = cache_runD [OF run2]
  have "\<forall>i<length bl. lh_block s ! i = bl ! i" using bl by (metis nth_take)
  then have enc: "fold (\<lambda>i d. put32 d (4 + 4 * i) (lh_block s ! i)) [0..<length bl] (put32 ?d 0 (of_int (lh_n s))) = enc_hdr bl ?d"
    unfolding enc_hdr_def n by (intro fold_cong) auto
  obtain s3 where s3: "for_each [0..<length bl] (\<lambda>i. bind (buf_data b) (\<lambda>hb. set_data b (put32 hb (4 + 4 * i) (lh_block s ! i)))) s2 = Ok () s3"
      "mine s3 b ?h" and run3: "cache_run s2 s3 ((fsval s2)(?h := enc_hdr bl ?d)) (refs s2) (held s2) []"
    using header_loop [OF d2(1) s2(2) _ ld, of "of_int (lh_n s)" "length bl" "lh_block s"] d2(2) len enc by auto
  note d3 = cache_runD [OF run3]
  obtain s4 where s4: "bwrite b s3 = Ok () s4" "mine s4 b ?h"
    and run4: "cache_run s3 s4 (fsval s3) (refs s3) (held s3) [(?h, fsval s3 ?h)]"
    using run_bwrite [OF d3(1) s3(2)] s3(2) by metis
  note d4 = cache_runD [OF run4]
  have clean: "fsval s4 ?h = disk s4 ?h" using d3 d4 by simp
  obtain s5 where s5: "brelse b s4 = Ok () s5"
    and run5: "cache_run s4 s5 (fsval s4) ((refs s4)(?h := refs s4 ?h - 1)) ((held s4)(?h := False)) []"
    using run_brelse [OF d4(1) s4(2) clean] by metis
  have "cache_run s s5 ((fsval s)(?h := enc_hdr bl ?d)) (refs s) (held s) [(?h, enc_hdr bl ?d)]"
    using cache_run_trans [OF run1 cache_run_trans [OF run2 cache_run_trans [OF run3 cache_run_trans [OF run4 run5]]]]
      d1 d2 d3 d4 free by (simp add: fun_upd_idem)
  then show ?thesis using that b(1) data s2(1) s3(1) s4(1) s5 dev n by (simp add: write_head_def log_hd_def [symmetric] bind_def)
qed

subsection \<open>Commit\<close>

lemma apply_writes_at:
  "distinct (map fst ws) \<Longrightarrow> (bn, x) \<in> set ws \<Longrightarrow> apply_writes ws d bn = x"
proof (induction ws arbitrary: d)
  case (Cons w ws)
  obtain bn' x' where w: "w = (bn', x')" by fastforce
  show ?case
  proof (cases "(bn, x) = w")
    case True
    then have "bn \<notin> fst ` set ws" using Cons.prems(1) w by auto
    then show ?thesis using True w by (auto simp: apply_writes_other)
  next
    case False
    then show ?thesis using Cons w by auto
  qed
qed simp

lemma log_writes_at:
  assumes "log_geom st bl" and "i < length bl"
  shows "apply_writes (log_writes st bl v) d (log_blk st i) = v (bl ! i)"
  using assms by (intro apply_writes_at) (auto simp: log_writes_def log_geom_def o_def)

lemma fst_log_writes: "fst ` set (log_writes st bl v) = log_blk st ` {..<length bl}"
  by (force simp: log_writes_def)

lemma bio_log_fields [simp]:
  "bio_inv (s\<lparr>lh_n := n\<rparr>) = bio_inv s" "fsval (s\<lparr>lh_n := n\<rparr>) = fsval s" "refs (s\<lparr>lh_n := n\<rparr>) = refs s"
  "held (s\<lparr>lh_n := n\<rparr>) = held s" "mine (s\<lparr>lh_n := n\<rparr>) = mine s" "in_use (s\<lparr>lh_n := n\<rparr>) = in_use s"
  "bio_inv (s\<lparr>lh_block := l\<rparr>) = bio_inv s" "fsval (s\<lparr>lh_block := l\<rparr>) = fsval s" "refs (s\<lparr>lh_block := l\<rparr>) = refs s"
  "held (s\<lparr>lh_block := l\<rparr>) = held s" "mine (s\<lparr>lh_block := l\<rparr>) = mine s" "in_use (s\<lparr>lh_block := l\<rparr>) = in_use s"
  "bio_inv (s\<lparr>lg_outstanding := n\<rparr>) = bio_inv s" "fsval (s\<lparr>lg_outstanding := n\<rparr>) = fsval s"
  "refs (s\<lparr>lg_outstanding := n\<rparr>) = refs s" "held (s\<lparr>lg_outstanding := n\<rparr>) = held s"
  "mine (s\<lparr>lg_outstanding := n\<rparr>) = mine s" "in_use (s\<lparr>lg_outstanding := n\<rparr>) = in_use s"
  "bio_inv (s\<lparr>lg_committing := c\<rparr>) = bio_inv s" "fsval (s\<lparr>lg_committing := c\<rparr>) = fsval s"
  "refs (s\<lparr>lg_committing := c\<rparr>) = refs s" "held (s\<lparr>lg_committing := c\<rparr>) = held s"
  "mine (s\<lparr>lg_committing := c\<rparr>) = mine s" "in_use (s\<lparr>lg_committing := c\<rparr>) = in_use s"
  by (auto simp: bio_inv_def fsval_def refs_def held_def mine_def in_use_def holder_def fun_eq_iff split: option.splits)

lemma cache_frame_log:
  fixes s s' :: "'a log_scheme"
  assumes "cache_frame s s'"
  shows "cache_frame (s\<lparr>lh_n := n\<rparr>) (s'\<lparr>lh_n := n\<rparr>)" and "cache_frame (s\<lparr>lh_block := l\<rparr>) (s'\<lparr>lh_block := l\<rparr>)"
proof -
  show "cache_frame (s\<lparr>lh_n := n\<rparr>) (s'\<lparr>lh_n := n\<rparr>)"
    using assms by (cases s; cases s') (simp add: cache_frame_def only_woken_def)
  show "cache_frame (s\<lparr>lh_block := l\<rparr>) (s'\<lparr>lh_block := l\<rparr>)"
    using assms by (cases s; cases s') (simp add: cache_frame_def only_woken_def)
qed

lemma cache_run_log:
  fixes s s' :: "'a log_scheme"
  assumes "cache_run s s' v r h ws"
  shows "cache_run (s\<lparr>lh_n := n\<rparr>) (s'\<lparr>lh_n := n\<rparr>) v r h ws"
    and "cache_run (s\<lparr>lh_block := l\<rparr>) (s'\<lparr>lh_block := l\<rparr>) v r h ws"
  using assms by (simp_all add: cache_run_def cache_frame_log)

definition commit_writes :: "int \<Rightarrow> uint32 list \<Rightarrow> (uint32 \<Rightarrow> byte list) \<Rightarrow> (uint32 \<times> byte list) list" where
  "commit_writes st bl v = log_writes st bl v @ [(log_hd st, enc_hdr bl (v (log_hd st)))] @
     map (\<lambda>b. (b, v b)) bl @ [(log_hd st, enc_hdr [] (enc_hdr bl (v (log_hd st))))]"

text \<open>The transaction \<open>bl\<close> is in memory, its blocks pinned by the log and in use by nobody else.\<close>

definition log_full :: "'a log_scheme \<Rightarrow> uint32 list \<Rightarrow> bool" where
  "log_full s bl \<longleftrightarrow> log_free s bl \<and> lh_n s = int (length bl) \<and> take (length bl) (lh_block s) = bl \<and>
     length bl < NBUF \<and> in_use s = set bl"

lemma commit_spec:
  fixes s :: "'a log_scheme"
  assumes "log_full s bl" and ne: "bl \<noteq> []"
  obtains s' where "commit s = Ok () s'"
    and "cache_run (s\<lparr>lh_n := 0\<rparr>) s' (apply_writes (commit_writes (lg_start s) bl (fsval s)) (fsval s))
      (\<lambda>b. if b \<in> set bl then refs s b - 1 else refs s b) (held s) (commit_writes (lg_start s) bl (fsval s))"
proof -
  let ?st = "lg_start s" and ?v = "fsval s"
  have f: "log_free s bl" and n: "lh_n s = int (length bl)" and bl: "take (length bl) (lh_block s) = bl"
    and len: "length bl < NBUF" and use: "in_use s = set bl"
    using assms(1) by (auto simp: log_full_def)
  have geom: "log_geom ?st bl" and fh: "\<not> held s (log_hd ?st)" using f by (auto simp: log_free_def)
  have room: "card (set bl) < NBUF" using card_length [of bl] len by linarith
  have pinned: "refs s b > 0" if "b \<in> set bl" for b using that use by (auto simp: in_use_def)
  obtain s1 where s1: "write_log s = Ok () s1"
    and r1: "cache_run s s1 (apply_writes (log_writes ?st bl ?v) ?v) (refs s) (held s) (log_writes ?st bl ?v)"
    using write_log_spec [OF f n bl] room use by auto
  note d1 = cache_runD [OF r1] and l1 = log_fields [OF cache_runD(10) [OF r1]]
  have u1: "in_use s1 = set bl" using d1(3) use by (simp add: in_use_def)
  have f1: "log_free s1 bl" by (rule log_free_run [OF f r1])
  obtain i where i: "cur s1 = Some i" "i < length (procs s1)" and dev: "lg_dev s1 = ROOTDEV"
    using f1 by (auto simp: log_free_def)
  have hd1: "fsval s1 (log_hd ?st) = ?v (log_hd ?st)"
    unfolding d1(2) using log_geomD(4) [OF geom] by (intro apply_writes_other) (simp add: fst_log_writes)
  have le30: "length bl \<le> 30" using len by (simp add: NBUF_def)
  obtain s2 where s2: "write_head s1 = Ok () s2"
    and r2: "cache_run s1 s2 ((fsval s1)(log_hd ?st := enc_hdr bl (?v (log_hd ?st)))) (refs s1) (held s1)
      [(log_hd ?st, enc_hdr bl (?v (log_hd ?st)))]"
    using write_head_spec [OF d1(1) i dev _ _ _ _ le30] hd1 l1 n bl fh d1(4) u1 room by metis
  note d2 = cache_runD [OF r2] and l2 = log_fields [OF cache_runD(10) [OF r2]]
  have f2: "log_free s2 bl" using log_free_run [OF f1 r2] .
  have u2: "in_use s2 = set bl" using d2(3) u1 by (simp add: in_use_def)
  have p2: "\<forall>b \<in> set bl. refs s2 b > 0" using pinned d1(3) d2(3) by simp
  have v2: "fsval s2 (log_blk ?st k) = ?v (bl ! k)" if "k < length bl" for k
  proof -
    have "log_blk ?st k \<noteq> log_hd ?st" using log_geomD(1) [OF geom that] .
    then show ?thesis using d1(2) d2(2) log_writes_at [OF geom that] by simp
  qed
  have home: "home_writes (lg_start s2) bl (fsval s2) = map (\<lambda>b. (b, ?v b)) bl"
    using v2 l1(1) l2(1) by (intro nth_equalityI) (auto simp: home_writes_def)
  obtain s3 where s3: "install_trans False s2 = Ok () s3"
    and r3: "cache_run s2 s3 (apply_writes (map (\<lambda>b. (b, ?v b)) bl) (fsval s2))
      (\<lambda>b. if b \<in> set bl then refs s2 b - 1 else refs s2 b) (held s2) (map (\<lambda>b. (b, ?v b)) bl)"
    using install_trans_spec [OF f2, of False] l1 l2 n bl u2 room p2 home by auto
  note d3 = cache_runD [OF r3] and l3 = log_fields [OF cache_runD(10) [OF r3]]
  let ?t = "s3\<lparr>lh_n := 0\<rparr>" and ?h1 = "enc_hdr bl (?v (log_hd ?st))"
  have t: "cache_run (s\<lparr>lh_n := 0\<rparr>) ?t (fsval s3) (refs s3) (held s3) (log_writes ?st bl ?v @ [(log_hd ?st, ?h1)] @ map (\<lambda>b. (b, ?v b)) bl)"
    using cache_run_log(1) [OF cache_run_trans [OF r1 cache_run_trans [OF r2 r3]]] d3 by simp
  have "in_use ?t \<subseteq> set bl" using d3(3) u2 by (auto simp: in_use_def split: if_splits)
  then have room3: "card (in_use ?t) < NBUF" using room card_mono [of "set bl" "in_use ?t"] by simp
  have hd3: "fsval s3 (log_hd ?st) = ?h1"
    unfolding d3(2) using log_geomD(3) [OF geom] d2(2) by (subst apply_writes_other) auto
  have i3: "cur ?t = Some i" "i < length (procs ?t)" "lg_dev ?t = ROOTDEV" "lg_start ?t = ?st"
      "\<not> held ?t (log_hd ?st)" "bio_inv ?t"
    using i dev fh d1(4) d2 d3 l1 l2 l3 by simp_all
  obtain s4 where s4: "write_head ?t = Ok () s4"
    and r4: "cache_run ?t s4 ((fsval s3)(log_hd ?st := enc_hdr [] ?h1)) (refs s3) (held s3) [(log_hd ?st, enc_hdr [] ?h1)]"
    using write_head_spec [OF i3(6,1-3), of "[]"] i3 room3 hd3 by auto
  have "commit s = Ok () s4" using s1 s2 s3 s4 n ne by (simp add: commit_def bind_def)
  moreover have "cache_run (s\<lparr>lh_n := 0\<rparr>) s4 (apply_writes (commit_writes ?st bl ?v) ?v)
      (\<lambda>b. if b \<in> set bl then refs s b - 1 else refs s b) (held s) (commit_writes ?st bl ?v)"
    using cache_run_trans [OF t r4] unfolding d3(2-4) d2(2-4) d1(2-4) by (simp add: commit_writes_def)
  ultimately show ?thesis using that by blast
qed

subsection \<open>Recovery\<close>

text \<open>The transaction in the header block of a disk, and the disk that installing it gives.\<close>

definition disk_trans :: "int \<Rightarrow> (uint32 \<Rightarrow> byte list) \<Rightarrow> uint32 list" where
  "disk_trans st d = map (hdr_block (d (log_hd st))) [0..<nat (hdr_n (d (log_hd st)))]"

definition recover_writes :: "int \<Rightarrow> (uint32 \<Rightarrow> byte list) \<Rightarrow> (uint32 \<times> byte list) list" where
  "recover_writes st d = home_writes st (disk_trans st d) d @ [(log_hd st, enc_hdr [] (d (log_hd st)))]"

text \<open>A machine that has just booted: no buffer is in use.\<close>

definition log_cold :: "'a log_scheme \<Rightarrow> bool" where
  "log_cold s \<longleftrightarrow> bio_inv s \<and> (\<exists>i<length (procs s). cur s = Some i) \<and> lg_dev s = ROOTDEV \<and>
     length (lh_block s) = nat LOGSIZE \<and> in_use s = {}"

lemma cold_views:
  assumes "log_cold s"
  shows "fsval s = disk s" and "\<not> held s b" and "refs s b = 0"
proof -
  have inv: "bio_inv s" and use: "in_use s = {}" using assms by (simp_all add: log_cold_def)
  have r: "refs s b = 0" for b using use refs_nonneg [OF inv, of b] by (auto simp: in_use_def order_le_less)
  then show "fsval s = disk s" using unused_clean [OF inv] by blast
  show "refs s b = 0" by (rule r)
  show "\<not> held s b"
  proof
    assume "held s b"
    then obtain c where c: "holder s b = Some c" "sl_locked (b_lock (bufs s ! c))"
      by (auto simp: held_def split: option.splits)
    then have "buf_ok (disk s) (bufs s ! c)" using inv holder_Some [OF inv] by (auto simp: bio_inv_def)
    then show False using c r [of b] by (simp add: refs_def buf_ok_def)
  qed
qed

lemma read_loop:
  assumes "k \<le> length (lh_block s)" and "length (lh_block s) = nat LOGSIZE"
  shows "for_each [0..<k] (\<lambda>i. if int i \<ge> LOGSIZE then panic m else modify (\<lambda>s. s\<lparr>lh_block := (lh_block s)[i := f i]\<rparr>)) s =
    Ok () (s\<lparr>lh_block := map f [0..<k] @ drop k (lh_block s)\<rparr>)"
  using assms(1)
proof (induction k)
  case (Suc k)
  have "(map f [0..<k] @ drop k (lh_block s))[k := f k] = map f [0..<Suc k] @ drop (Suc k) (lh_block s)"
    using Suc.prems by (simp add: list_update_append Cons_nth_drop_Suc [symmetric])
  then show ?case using Suc assms(2) by (simp add: for_each_append bind_def LOGSIZE_def MAXOPBLOCKS_def)
qed simp

lemma read_head_spec:
  fixes s :: "'a log_scheme"
  assumes c: "log_cold s" and n: "nat (hdr_n (disk s (log_hd (lg_start s)))) \<le> nat LOGSIZE"
  obtains s' where "read_head s = Ok () s'"
    and "cache_run (s\<lparr>lh_n := hdr_n (disk s (log_hd (lg_start s))), lh_block := disk_trans (lg_start s) (disk s) @
      drop (nat (hdr_n (disk s (log_hd (lg_start s))))) (lh_block s)\<rparr>) s' (disk s) (refs s) (held s) []"
proof -
  let ?h = "log_hd (lg_start s)"
  let ?d = "disk s ?h" and ?n = "hdr_n (disk s ?h)" and ?l = "disk_trans (lg_start s) (disk s) @ drop (nat (hdr_n (disk s ?h))) (lh_block s)"
  obtain i where inv: "bio_inv s" and cur: "cur s = Some i" "i < length (procs s)" and dev: "lg_dev s = ROOTDEV"
    and use: "in_use s = {}" and lb: "length (lh_block s) = nat LOGSIZE"
    using c by (auto simp: log_cold_def)
  note cold = cold_views [OF c]
  have room: "card (in_use s) < NBUF" using use by (simp add: NBUF_def)
  obtain b s1 where b: "bread ROOTDEV ?h s = Ok b s1" "mine s1 b ?h"
      and run1: "cache_run s s1 (fsval s) ((refs s)(?h := refs s ?h + 1)) ((held s)(?h := True)) []"
    using run_bread [OF inv cur cold(2)] room by metis
  note d1 = cache_runD [OF run1] and l1 = log_fields [OF cache_runD(10) [OF run1]]
  have data: "buf_data b s1 = Ok (disk s ?h) s1" using buf_data_mine [OF d1(1) b(2)] d1(2) cold(1) by simp
  let ?s2 = "s1\<lparr>lh_n := ?n, lh_block := ?l\<rparr>"
  have loop: "for_each [0..<nat ?n] (\<lambda>i. if int i \<ge> LOGSIZE then panic ''undefined behaviour: log.lh.block''
      else modify (\<lambda>s. s\<lparr>lh_block := (lh_block s)[i := hdr_block ?d i]\<rparr>)) (s1\<lparr>lh_n := ?n\<rparr>) = Ok () ?s2"
    using read_loop [of "nat ?n" "s1\<lparr>lh_n := ?n\<rparr>"] n lb l1 by (simp add: disk_trans_def)
  have "bio_inv ?s2" "mine ?s2 b ?h" "fsval ?s2 ?h = disk ?s2 ?h" using d1 b cold(1) by simp_all
  then obtain s3 where s3: "brelse b ?s2 = Ok () s3"
    and run3: "cache_run ?s2 s3 (fsval ?s2) ((refs ?s2)(?h := refs ?s2 ?h - 1)) ((held ?s2)(?h := False)) []"
    using run_brelse [of ?s2 b ?h] by metis
  have "cache_run (s\<lparr>lh_n := ?n, lh_block := ?l\<rparr>) s3 (disk s) (refs s) (held s) []"
    using cache_run_trans [OF cache_run_log(2) [OF cache_run_log(1) [OF run1]] run3] cold
    by (simp add: d1(2-4) fun_upd_idem)
  moreover have "read_head s = Ok () s3"
    using b data loop s3 dev by (simp add: read_head_def log_hd_def [symmetric] bind_def)
  ultimately show ?thesis using that by blast
qed

definition sound_log :: "int \<Rightarrow> (uint32 \<Rightarrow> byte list) \<Rightarrow> bool" where
  "sound_log st d \<longleftrightarrow> 0 \<le> hdr_n (d (log_hd st)) \<and> hdr_n (d (log_hd st)) < LOGSIZE \<and> log_geom st (disk_trans st d)"

lemma recover_spec:
  fixes s :: "'a log_scheme"
  assumes c: "log_cold s" and ok: "sound_log (lg_start s) (disk s)"
  obtains s' l where "recover_from_log s = Ok () s'"
    and "cache_run (s\<lparr>lh_n := 0, lh_block := l\<rparr>) s' (apply_writes (recover_writes (lg_start s) (disk s)) (disk s))
      (refs s) (held s) (recover_writes (lg_start s) (disk s))"
proof -
  let ?st = "lg_start s" and ?h = "log_hd (lg_start s)" and ?bl = "disk_trans (lg_start s) (disk s)"
  let ?n = "hdr_n (disk s ?h)"
  let ?l = "?bl @ drop (nat ?n) (lh_block s)"
  have n: "0 \<le> ?n" "?n < LOGSIZE" and geom: "log_geom ?st ?bl" using ok by (auto simp: sound_log_def)
  have len: "length ?bl = nat ?n" by (simp add: disk_trans_def)
  note cold = cold_views [OF c]
  obtain s1 where s1: "read_head s = Ok () s1"
    and r1: "cache_run (s\<lparr>lh_n := ?n, lh_block := ?l\<rparr>) s1 (disk s) (refs s) (held s) []"
    using read_head_spec [OF c] n by (metis nat_mono less_imp_le)
  note d1 = cache_runD [OF r1] and l1 = log_fields [OF cache_runD(10) [OF r1]]
  have u1: "in_use s1 = {}" using d1(3) c by (simp add: in_use_def log_cold_def)
  have f1: "log_free s1 ?bl" using c d1 l1 geom cold(2) by (auto simp: log_free_def log_cold_def)
  have lt: "length ?bl < NBUF" using n len by (simp add: NBUF_def LOGSIZE_def MAXOPBLOCKS_def)
  then have room: "card (in_use s1 \<union> set ?bl) < NBUF" using u1 card_length [of ?bl] by simp
  have home: "home_writes (lg_start s1) ?bl (fsval s1) = home_writes ?st ?bl (disk s)" using l1 d1(2) by simp
  obtain s2 where s2: "install_trans True s1 = Ok () s2"
    and r2: "cache_run s1 s2 (apply_writes (home_writes ?st ?bl (disk s)) (fsval s1)) (refs s1) (held s1)
      (home_writes ?st ?bl (disk s))"
    using install_trans_spec [OF f1 _ _ room, of True] l1 len n home by auto
  note d2 = cache_runD [OF r2] and l2 = log_fields [OF cache_runD(10) [OF r2]]
  let ?t = "s2\<lparr>lh_n := 0\<rparr>"
  have eq: "s\<lparr>lh_n := ?n, lh_block := ?l\<rparr>\<lparr>lh_n := 0\<rparr> = s\<lparr>lh_n := 0, lh_block := ?l\<rparr>" by simp
  have t: "cache_run (s\<lparr>lh_n := 0, lh_block := ?l\<rparr>) ?t (fsval s2) (refs s2) (held s2) (home_writes ?st ?bl (disk s))"
    using cache_run_log(1) [OF cache_run_trans [OF r1 r2], of 0] unfolding eq d2(2-4) by simp
  have hd2: "fsval s2 ?h = disk s ?h"
    unfolding d2(2) d1(2) using log_geomD(3) [OF geom] by (intro apply_writes_other) (auto simp: home_writes_def)
  obtain i where i: "cur ?t = Some i" "i < length (procs ?t)" "lg_dev ?t = ROOTDEV" "lg_start ?t = ?st"
      "\<not> held ?t ?h" "bio_inv ?t" "in_use ?t = {}"
    using f1 l1 l2 d1(3,4) d2 cold(2,3) by (auto simp: log_free_def in_use_def)
  obtain s3 where s3: "write_head ?t = Ok () s3"
    and r3: "cache_run ?t s3 ((fsval s2)(?h := enc_hdr [] (disk s ?h))) (refs s2) (held s2) [(?h, enc_hdr [] (disk s ?h))]"
    using write_head_spec [OF i(6,1-3), of "[]"] i(4,5,7) hd2 by (auto simp: NBUF_def)
  have "recover_from_log s = Ok () s3" using s1 s2 s3 by (simp add: recover_from_log_def bind_def)
  moreover have "cache_run (s\<lparr>lh_n := 0, lh_block := ?l\<rparr>) s3 (apply_writes (recover_writes ?st (disk s)) (disk s))
      (refs s) (held s) (recover_writes ?st (disk s))"
    using cache_run_trans [OF t r3] unfolding d2(2-4) d1(2-4) by (simp add: recover_writes_def)
  ultimately show ?thesis using that by blast
qed

text \<open>The blocks of the log: the header and the blocks behind it.\<close>

definition log_area :: "int \<Rightarrow> uint32 list \<Rightarrow> uint32 set" where
  "log_area st bl = insert (log_hd st) (log_blk st ` {..<length bl})"

lemma recover_none:
  assumes "hdr_n (d (log_hd st)) = 0"
  shows "sound_log st d" and "b \<noteq> log_hd st \<Longrightarrow> apply_writes (recover_writes st d) d b = d b"
  using assms by (auto simp: sound_log_def recover_writes_def disk_trans_def home_writes_def log_geom_def
      LOGSIZE_def MAXOPBLOCKS_def)

lemma disk_trans_enc:
  assumes "d (log_hd st) = enc_hdr bl e" and "length e = BSIZE" and "length bl \<le> 30"
  shows "disk_trans st d = bl"
  unfolding disk_trans_def assms(1) using enc_hdr [OF assms(2,3)] by (intro nth_equalityI) auto

lemma recover_all:
  assumes geom: "log_geom st bl" and hd: "d (log_hd st) = enc_hdr bl e" and e: "length e = BSIZE" and len: "length bl < 30"
    and log: "\<And>i. i < length bl \<Longrightarrow> d (log_blk st i) = v (bl ! i)"
  shows "sound_log st d" and "b \<notin> log_area st bl \<Longrightarrow>
      apply_writes (recover_writes st d) d b = (if b \<in> set bl then v b else d b)"
proof -
  have tr: "disk_trans st d = bl" using disk_trans_enc [of d st, OF hd e] len by simp
  have n: "hdr_n (d (log_hd st)) = int (length bl)" using enc_hdr(2) [OF e, of bl] len hd by simp
  show "sound_log st d" using tr n geom len by (simp add: sound_log_def LOGSIZE_def MAXOPBLOCKS_def)
  have home: "home_writes st bl d = map (\<lambda>b. (b, v b)) bl"
    using log by (intro nth_equalityI) (auto simp: home_writes_def)
  have dist: "distinct bl" using geom by (simp add: log_geom_def)
  assume "b \<notin> log_area st bl"
  then have "b \<noteq> log_hd st" by (simp add: log_area_def)
  then have "apply_writes (recover_writes st d) d b = apply_writes (map (\<lambda>b. (b, v b)) bl) d b"
    by (simp add: recover_writes_def tr home)
  also have "\<dots> = (if b \<in> set bl then v b else d b)"
  proof (cases "b \<in> set bl")
    case True
    then show ?thesis using dist by (subst apply_writes_at [of _ b "v b"]) (auto simp: o_def)
  next
    case False
    then show ?thesis by (subst apply_writes_other) auto
  qed
  finally show "apply_writes (recover_writes st d) d b = (if b \<in> set bl then v b else d b)" .
qed

lemma commit_writes_new:
  assumes geom: "log_geom st bl" and same: "\<And>b. b \<notin> set bl \<Longrightarrow> v b = d b" and b: "b \<notin> log_area st bl"
  shows "apply_writes (commit_writes st bl v) d b = v b"
proof -
  let ?L = "log_writes st bl v" and ?H = "map (\<lambda>b. (b, v b)) bl"
  let ?e = "(apply_writes ?L d)(log_hd st := enc_hdr bl (v (log_hd st)))"
  have "apply_writes (commit_writes st bl v) d b = apply_writes ?H ?e b"
    using b by (simp add: commit_writes_def log_area_def)
  also have "\<dots> = v b"
  proof (cases "b \<in> set bl")
    case True
    then show ?thesis using geom by (intro apply_writes_at) (auto simp: log_geom_def o_def)
  next
    case False
    then have "apply_writes ?H ?e b = ?e b" by (intro apply_writes_other) auto
    also have "\<dots> = d b" using b by (simp add: log_area_def fst_log_writes apply_writes_other)
    finally show ?thesis using same [OF False] by simp
  qed
  finally show ?thesis .
qed

text \<open>The disk at each point of a commit: the log is sound and recovery gives the old or the new blocks.\<close>

lemma crash_point:
  assumes geom: "log_geom st bl" and len: "length bl < 30" and e: "length (v (log_hd st)) = BSIZE"
    and empty: "hdr_n (d (log_hd st)) = 0" and same: "\<And>b. b \<notin> set bl \<Longrightarrow> v b = d b"
    and dk_def: "dk = apply_writes (take k (commit_writes st bl v)) d"
  shows "sound_log st dk \<and> ((\<forall>b. b \<notin> log_area st bl \<longrightarrow> apply_writes (recover_writes st dk) dk b = d b) \<or>
    (\<forall>b. b \<notin> log_area st bl \<longrightarrow> apply_writes (recover_writes st dk) dk b = v b))"
proof -
  let ?L = "log_writes st bl v" and ?h1 = "enc_hdr bl (v (log_hd st))" and ?H = "map (\<lambda>b. (b, v b)) bl"
  have lL: "length ?L = length bl" by (simp add: log_writes_def)
  have off: "apply_writes (take j ?L) d b = d b" if "b \<notin> log_blk st ` {..<length bl}" for b j
    using that set_take_subset [of j ?L] fst_log_writes [of st bl v] by (intro apply_writes_other) force
  have "k \<le> length bl \<or> (\<exists>j. k = length bl + 1 + j \<and> j \<le> length bl) \<or> k \<ge> 2 * length bl + 2" by presburger
  then consider "k \<le> length bl" | j where "k = length bl + 1 + j" "j \<le> length bl" | "k \<ge> 2 * length bl + 2" by blast
  then show ?thesis
  proof cases
    case 1
    then have dk: "dk = apply_writes (take k ?L) d" by (simp add: dk_def commit_writes_def lL)
    have "dk (log_hd st) = d (log_hd st)" unfolding dk using off log_geomD(4) [OF geom] by blast
    then show ?thesis using recover_none [of dk st] empty off by (auto simp: dk log_area_def)
  next
    case (2 j)
    then have dk: "dk = apply_writes (take j ?H) ((apply_writes ?L d)(log_hd st := ?h1))"
      by (simp add: dk_def commit_writes_def lL)
    have un: "dk b = ((apply_writes ?L d)(log_hd st := ?h1)) b" if "b \<notin> set bl" for b
      unfolding dk using that set_take_subset [of j ?H] by (intro apply_writes_other) force
    have hd: "dk (log_hd st) = ?h1" using un log_geomD(3) [OF geom] by simp
    have lg: "dk (log_blk st i) = v (bl ! i)" if "i < length bl" for i
      using un log_geomD(1,2) [OF geom that] log_writes_at [OF geom that] by simp
    have "dk b = d b" if "b \<notin> log_area st bl" "b \<notin> set bl" for b
      using that un [of b] off [of b "length ?L"] by (simp add: log_area_def)
    then show ?thesis using recover_all [OF geom hd e len lg] same by auto
  next
    case 3
    then have dk: "dk = (apply_writes ?H ((apply_writes ?L d)(log_hd st := ?h1)))(log_hd st := enc_hdr [] ?h1)"
      by (simp add: dk_def commit_writes_def lL)
    have "hdr_n (dk (log_hd st)) = 0" using enc_hdr(1) [OF e, of bl] enc_hdr(2) [of ?h1 "[]"] len by (simp add: dk)
    moreover have "dk = apply_writes (commit_writes st bl v) d" using dk by (simp add: commit_writes_def)
    then have "dk b = v b" if "b \<notin> log_area st bl" for b using commit_writes_new [OF geom same that] by simp
    ultimately show ?thesis using recover_none [of dk st] by (auto simp: log_area_def)
  qed
qed

text \<open>
  C15: A transaction is atomic across a crash. From a state with the transaction \<open>bl\<close> in memory and an empty
  log on the disk, \<open>commit\<close> returns, empties the log and leaves the new contents of every block outside
  the log on the disk. If the machine stops after any number \<open>k\<close> of its disk writes and boots with a cold
  cache, \<open>recover_from_log\<close> returns, empties the log, and leaves either the old contents of all the blocks
  outside the log or the new contents of all of them.
\<close>

theorem commit_crash_atomic:
  fixes s :: "'a log_scheme"
  assumes "log_full s bl" and "bl \<noteq> []" and "hdr_n (disk s (log_hd (lg_start s))) = 0"
  shows "\<exists>s'. commit s = Ok () s' \<and> lh_n s' = 0 \<and> (\<forall>b. b \<notin> log_area (lg_start s) bl \<longrightarrow> disk s' b = fsval s b) \<and>
    (\<forall>k. \<forall>r :: 'a log_scheme. log_cold r \<and> lg_start r = lg_start s \<and>
       disk r = apply_writes (take k (drop (length (wrote s)) (wrote s'))) (disk s) \<longrightarrow>
       (\<exists>r'. recover_from_log r = Ok () r' \<and> lh_n r' = 0 \<and>
         ((\<forall>b. b \<notin> log_area (lg_start s) bl \<longrightarrow> disk r' b = disk s b) \<or>
          (\<forall>b. b \<notin> log_area (lg_start s) bl \<longrightarrow> disk r' b = fsval s b))))"
proof -
  let ?st = "lg_start s" and ?ws = "commit_writes (lg_start s) bl (fsval s)"
  obtain s' where s': "commit s = Ok () s'" and run: "cache_run (s\<lparr>lh_n := 0\<rparr>) s' (apply_writes ?ws (fsval s))
      (\<lambda>b. if b \<in> set bl then refs s b - 1 else refs s b) (held s) ?ws"
    by (rule commit_spec [OF assms(1,2)])
  note d = cache_runD [OF run] and l = log_fields [OF cache_runD(10) [OF run]]
  have inv: "bio_inv s" and geom: "log_geom ?st bl" and len: "length bl < 30" and use: "in_use s = set bl"
    using assms(1) by (auto simp: log_full_def log_free_def NBUF_def)
  have same: "fsval s b = disk s b" if "b \<notin> set bl" for b
    using that use refs_nonneg [OF inv, of b] unused_clean [OF inv, of b] by (auto simp: in_use_def order_le_less)
  note point = crash_point [of ?st bl "fsval s" "disk s", OF geom len length_fsval [OF inv] assms(3) same refl]
  have new: "disk s' b = fsval s b" if "b \<notin> log_area ?st bl" for b
    using commit_writes_new [of ?st bl "fsval s" "disk s", OF geom same that] d(5) by simp
  have "\<exists>r'. recover_from_log r = Ok () r' \<and> lh_n r' = 0 \<and>
       ((\<forall>b. b \<notin> log_area ?st bl \<longrightarrow> disk r' b = disk s b) \<or> (\<forall>b. b \<notin> log_area ?st bl \<longrightarrow> disk r' b = fsval s b))"
    if r: "log_cold r" "lg_start r = ?st" "disk r = apply_writes (take k (drop (length (wrote s)) (wrote s'))) (disk s)"
    for k and r :: "'a log_scheme"
  proof -
    have dr: "disk r = apply_writes (take k ?ws) (disk s)" using r(3) d(6) by simp
    have ok: "sound_log (lg_start r) (disk r)" using point [of k] unfolding dr r(2) by blast
    obtain r' m where r': "recover_from_log r = Ok () r'"
      and run': "cache_run (r\<lparr>lh_n := 0, lh_block := m\<rparr>) r' (apply_writes (recover_writes ?st (disk r)) (disk r))
        (refs r) (held r) (recover_writes ?st (disk r))"
      by (rule recover_spec [OF r(1) ok, unfolded r(2)])
    have "disk r' = apply_writes (recover_writes ?st (disk r)) (disk r)" "lh_n r' = 0"
      using cache_runD(5) [OF run'] log_fields(4) [OF cache_runD(10) [OF run']] by simp_all
    then show ?thesis using r' point [of k] unfolding dr by auto
  qed
  then show ?thesis using s' new l(4) by (intro exI [of _ s']) auto
qed

text \<open>A concrete machine: block 100 is modified in memory and logged, the disk is zero, the log starts at block 2.\<close>

definition free_buf :: buf where
  "free_buf = \<lparr>b_valid = False, b_disk = False, b_dev = 0, b_blockno = 0, b_lock = initsleeplock, b_refcnt = 0,
     b_data = replicate BSIZE 0\<rparr>"

definition cold_log :: log where
  "cold_log = \<lparr>pmem = (\<lambda>_. 0), freelist = 0, kend = 0x80100000,
     procs = [unused_slot\<lparr>p_state := RUNNING, p_pid := 1\<rparr>], cur = Some 0, nextpid = 2, initproc = Some 0,
     ticks = 0, sym_trampoline = 0x80007000, sym_forkret = 0x80001000,
     bufs = replicate NBUF free_buf, lru = [0..<NBUF], disk = (\<lambda>_. replicate BSIZE 0), wrote = [],
     lg_start = 2, lg_size = 30, lg_outstanding = 0, lg_committing = False, lg_dev = ROOTDEV, lh_n = 0,
     lh_block = replicate (nat LOGSIZE) 0\<rparr>"

definition demo_log :: log where
  "demo_log = cold_log\<lparr>bufs := (bufs cold_log)[0 := free_buf\<lparr>b_valid := True, b_dev := ROOTDEV, b_blockno := 100,
     b_refcnt := 1, b_data := replicate BSIZE 7\<rparr>], lh_n := 1, lh_block := (lh_block cold_log)[0 := 100]\<rparr>"

lemma nth_demo_bufs: "b < NBUF \<Longrightarrow> bufs demo_log ! b = (if b = 0 then free_buf\<lparr>b_valid := True, b_dev := ROOTDEV,
     b_blockno := 100, b_refcnt := 1, b_data := replicate BSIZE 7\<rparr> else free_buf)"
  by (simp add: demo_log_def cold_log_def nth_list_update NBUF_def)

lemma bio_inv_demo: "bio_inv demo_log"
proof -
  have "is_copy bn (bufs demo_log ! b) \<longleftrightarrow> b = 0 \<and> bn = 100" if "b < NBUF" for b bn
    using that by (auto simp: nth_demo_bufs is_copy_def free_buf_def ROOTDEV_def)
  moreover have "buf_ok (disk demo_log) (bufs demo_log ! b)" if "b < NBUF" for b
    using that by (simp add: nth_demo_bufs buf_ok_def free_buf_def initsleeplock_def)
  ultimately show ?thesis
    unfolding bio_inv_def by (auto simp: demo_log_def cold_log_def)
qed

lemma holder_demo: "holder demo_log bn = (if bn = 100 then Some 0 else None)"
proof -
  have "is_copy n (bufs demo_log ! b) \<longleftrightarrow> b = 0 \<and> n = 100" if "b < NBUF" for b n
    using that by (auto simp: nth_demo_bufs is_copy_def free_buf_def ROOTDEV_def)
  then show ?thesis using holder_Some [OF bio_inv_demo, of bn 0] holder_None [OF bio_inv_demo, of bn]
    by (auto simp: NBUF_def)
qed

lemma log_full_demo: "log_full demo_log [100]"
proof -
  have "bufs demo_log ! 0 = free_buf\<lparr>b_valid := True, b_dev := ROOTDEV, b_blockno := 100, b_refcnt := 1,
      b_data := replicate BSIZE 7\<rparr>" by (simp add: nth_demo_bufs NBUF_def)
  then have views: "refs demo_log bn = (if bn = 100 then 1 else 0)" "\<not> held demo_log bn" for bn
    by (auto simp: refs_def held_def holder_demo free_buf_def initsleeplock_def)
  show ?thesis unfolding log_full_def log_free_def
    using bio_inv_demo views
    by (auto simp: log_geom_def log_hd_def log_blk_def demo_log_def cold_log_def in_use_def NBUF_def LOGSIZE_def MAXOPBLOCKS_def
        take_update_swap)
qed

theorem commit_crash_atomic_witness:
  "\<exists>s'. commit demo_log = Ok () s' \<and> lh_n s' = 0 \<and> disk s' 100 = replicate BSIZE 7"
proof -
  have "hdr_n (disk demo_log (log_hd (lg_start demo_log))) = 0"
    by (simp add: demo_log_def cold_log_def hdr_n_def get32_def slice_def BSIZE_def numeral_eq_Suc)
  from commit_crash_atomic [OF log_full_demo _ this] obtain s' where s': "commit demo_log = Ok () s'" "lh_n s' = 0"
      "\<forall>b. b \<notin> log_area (lg_start demo_log) [100] \<longrightarrow> disk s' b = fsval demo_log b" by auto
  have "100 \<notin> log_area (lg_start demo_log) [100]"
    by (auto simp: log_area_def log_hd_def log_blk_def demo_log_def cold_log_def)
  moreover have "fsval demo_log 100 = replicate BSIZE 7"
    by (simp add: fsval_def holder_demo nth_demo_bufs NBUF_def)
  ultimately show ?thesis using s' by auto
qed

subsection \<open>Transactions\<close>

definition logged :: "'a log_scheme \<Rightarrow> uint32 list" where
  "logged s = take (nat (lh_n s)) (lh_block s)"

definition hdr_ok :: "'a log_scheme \<Rightarrow> bool" where
  "hdr_ok s \<longleftrightarrow> 0 \<le> lh_n s \<and> lh_n s \<le> LOGSIZE \<and> length (lh_block s) = nat LOGSIZE \<and> distinct (logged s)"

text \<open>\<open>log_write\<close> in a transaction with room records the block once.\<close>

lemma log_write_eval:
  assumes h: "hdr_ok s" and room: "lh_n s < LOGSIZE" "lh_n s < lg_size s - 1" and out: "lg_outstanding s \<ge> 1"
  shows "log_write b s = (if b_blockno (bufs s ! b) \<in> set (logged s) then Ok () s
    else bpin b (s\<lparr>lh_block := (lh_block s)[nat (lh_n s) := b_blockno (bufs s ! b)], lh_n := lh_n s + 1\<rparr>))"
proof -
  let ?bn = "b_blockno (bufs s ! b)"
  have n: "nat (lh_n s) < length (lh_block s)" "0 \<le> lh_n s" using h room(1) by (auto simp: hdr_ok_def)
  show ?thesis
  proof (cases "find_idx (\<lambda>x. x = ?bn) (logged s)")
    case None
    then have "?bn \<notin> set (logged s)" by (auto simp: find_idx_None_iff)
    then show ?thesis using None room out n by (simp add: log_write_def logged_def bpin_def)
  next
    case (Some i)
    then have i: "i < nat (lh_n s)" "logged s ! i = ?bn" using n by (auto simp: find_idx_Some_iff logged_def)
    then have "?bn = lh_block s ! i" by (simp add: logged_def)
    then have "(lh_block s)[i := ?bn] = lh_block s" by simp
    moreover have "?bn \<in> set (logged s)" using i n by (metis length_take logged_def min.absorb4 nth_mem)
    moreover have "int i \<noteq> lh_n s" using i(1) by linarith
    ultimately show ?thesis using Some room out by (simp add: log_write_def logged_def)
  qed
qed

lemma logged_snoc:
  assumes "hdr_ok s" and "lh_n s < LOGSIZE"
  shows "logged (s\<lparr>lh_block := (lh_block s)[nat (lh_n s) := x], lh_n := lh_n s + 1\<rparr>) = logged s @ [x]"
proof -
  have "nat (lh_n s) < length (lh_block s)" "nat (lh_n s + 1) = Suc (nat (lh_n s))"
    using assms by (auto simp: hdr_ok_def)
  then show ?thesis by (simp add: logged_def take_Suc_conv_app_nth)
qed

lemma log_write_many:
  assumes "hdr_ok s" and "logged s = []" and "lg_size s = LOGSIZE" and "lg_outstanding s \<ge> 1"
    and "distinct (map (\<lambda>b. b_blockno (bufs s ! b)) bs)" and "int (length bs) < LOGSIZE"
  shows "\<exists>s'. for_each bs log_write s = Ok () s' \<and> hdr_ok s' \<and> logged s' = map (\<lambda>b. b_blockno (bufs s ! b)) bs \<and>
    lh_n s' = int (length bs) \<and> lg_size s' = LOGSIZE \<and> lg_outstanding s' = lg_outstanding s \<and>
    (\<forall>b. b_blockno (bufs s' ! b) = b_blockno (bufs s ! b))"
  using assms(5,6)
proof (induction bs rule: rev_induct)
  case Nil
  have "lh_n s = 0" using assms(1,2) by (auto simp: hdr_ok_def logged_def)
  then show ?case using assms by simp
next
  case (snoc b bs)
  then obtain t where t: "for_each bs log_write s = Ok () t" "hdr_ok t" "logged t = map (\<lambda>b. b_blockno (bufs s ! b)) bs"
    "lh_n t = int (length bs)" "lg_size t = LOGSIZE" "lg_outstanding t = lg_outstanding s"
    and bn: "\<forall>b. b_blockno (bufs t ! b) = b_blockno (bufs s ! b)" by auto
  have room: "lh_n t < LOGSIZE" "lh_n t < lg_size t - 1" "lg_outstanding t \<ge> 1" using t snoc.prems assms(4) by auto
  let ?u = "t\<lparr>lh_block := (lh_block t)[nat (lh_n t) := b_blockno (bufs t ! b)], lh_n := lh_n t + 1\<rparr>"
  have new: "b_blockno (bufs t ! b) \<notin> set (logged t)" using snoc.prems(1) t(3) bn by auto
  have lg: "logged ?u = logged t @ [b_blockno (bufs t ! b)]" by (rule logged_snoc [OF t(2) room(1)])
  obtain u where u: "bpin b ?u = Ok () u" "u = ?u\<lparr>bufs := (bufs t)[b := (bufs t ! b)\<lparr>b_refcnt := b_refcnt (bufs t ! b) + 1\<rparr>]\<rparr>"
    by (simp add: bpin_def)
  have "log_write b t = Ok () u" using log_write_eval [OF t(2) room] new u(1) by simp
  then have "for_each (bs @ [b]) log_write s = Ok () u" using t(1) by (simp add: for_each_append bind_def)
  moreover have "logged u = map (\<lambda>b. b_blockno (bufs s ! b)) (bs @ [b])" using lg t(3) bn by (simp add: u(2) logged_def)
  moreover have "hdr_ok u" using t(2) room lg new by (simp add: hdr_ok_def u(2) logged_def)
  moreover have "\<forall>c. b_blockno (bufs u ! c) = b_blockno (bufs s ! c)" using bn by (auto simp: u(2) list_update_nth)
  ultimately show ?case using t(4-6) by (intro exI [of _ u]) (simp add: u(2))
qed

text \<open>
  C17: The log has room for one block less than \<open>begin_op\<close> gives out. On an idle log of \<open>LOGSIZE\<close> blocks, as
  \<^verbatim>\<open>mkfs\<close> makes it, three operations are admitted, with \<open>MAXOPBLOCKS\<close> blocks reserved for each. When they
  write that many distinct blocks, the last \<open>log_write\<close> panics.
\<close>

theorem reserved_transaction_panics:
  assumes "hdr_ok s" and "lh_n s = 0" and "lg_outstanding s = 0" and "\<not> lg_committing s" and "lg_size s = LOGSIZE"
    and "length bs = nat (3 * MAXOPBLOCKS)" and "distinct (map (\<lambda>b. b_blockno (bufs s ! b)) bs)"
  shows "\<exists>s'. for_each [1, 2, 3::nat] (\<lambda>_. begin_op) s = Ok () s' \<and>
    for_each bs log_write s' = Panic ''too big a transaction''"
proof -
  let ?s = "s\<lparr>lg_outstanding := 3\<rparr>"
  have three: "for_each [1, 2, 3::nat] (\<lambda>_. begin_op) s = Ok () ?s"
    using assms(2-4) by (simp add: begin_op_def bind_def LOGSIZE_def MAXOPBLOCKS_def)
  obtain cs b where bs: "bs = cs @ [b]" using assms(6) by (cases bs rule: rev_cases) (auto simp: MAXOPBLOCKS_def)
  have l: "logged ?s = []" "hdr_ok ?s" using assms(1,2) by (simp_all add: logged_def hdr_ok_def)
  have "int (length cs) < LOGSIZE" using assms(6) bs by (simp add: LOGSIZE_def MAXOPBLOCKS_def)
  then obtain t where t: "for_each cs log_write ?s = Ok () t" "lh_n t = int (length cs)" "lg_size t = LOGSIZE"
    using log_write_many [OF l(2,1), of cs] assms(5,7) bs by auto
  have "log_write b t = Panic ''too big a transaction''"
    using t(2,3) assms(6) bs by (simp add: log_write_def LOGSIZE_def MAXOPBLOCKS_def)
  then show ?thesis using three t(1) bs by (simp add: for_each_append bind_def)
qed

definition many_blocks :: log where
  "many_blocks = cold_log\<lparr>bufs := map (\<lambda>b. free_buf\<lparr>b_blockno := of_nat b\<rparr>) [0..<NBUF]\<rparr>"

theorem reserved_transaction_panics_witness:
  "\<exists>s'. for_each [1, 2, 3::nat] (\<lambda>_. begin_op) many_blocks = Ok () s' \<and>
    for_each [0..<NBUF] log_write s' = Panic ''too big a transaction''"
proof (rule reserved_transaction_panics)
  have eq: "map (\<lambda>b. b_blockno (bufs many_blocks ! b)) [0..<NBUF] = map (\<lambda>b. of_nat b) [0..<NBUF]"
    by (rule nth_equalityI) (simp_all add: many_blocks_def)
  have "inj_on (\<lambda>b. of_nat b :: uint32) {0..<NBUF}"
    by (auto simp: inj_on_def NBUF_def word_unat_eq_iff unat_of_nat)
  then show "distinct (map (\<lambda>b. b_blockno (bufs many_blocks ! b)) [0..<NBUF])"
    unfolding eq by (simp add: distinct_map)
qed (simp_all add: many_blocks_def cold_log_def hdr_ok_def logged_def LOGSIZE_def MAXOPBLOCKS_def NBUF_def)

end
