(* ===== verification/Fs.thy ===== *)
theory Fs
  imports Log
begin

text \<open>
  Blocks, inodes and file contents, \<^verbatim>\<open>kernel/fs.c\<close> up to \<open>writei\<close>; directories and paths are in
  theory \<open>Dir\<close>.

  The state adds the in-memory super block \<open>sb\<close> and the inode table \<open>itable\<close>; a \<open>struct inode *\<close> is an
  index into it, a null pointer is \<open>None\<close>. \<open>itable.lock\<close> brackets the accesses to the table; the sleep lock
  of an inode protects its other fields. Block numbers and sizes are \<open>uint\<close> and wrap as in C.

  \<open>readi\<close> and \<open>writei\<close> move bytes to and from user memory, kernel memory, or a local variable of the
  kernel. A local variable has no address in the model: \<open>readi\<close> also returns the bytes it copied, and
  \<open>writei\<close> gets the bytes as an argument.
\<close>

definition NINODE :: nat where "NINODE = 50"
definition T_DIR :: uint16 where "T_DIR = 1"
definition T_FILE :: uint16 where "T_FILE = 2"
definition T_DEVICE :: uint16 where "T_DEVICE = 3"

record inode =
  i_dev :: uint32
  i_inum :: uint32
  i_ref :: int
  i_lock :: sleeplock
  i_valid :: bool
  i_type :: uint16
  i_major :: uint16
  i_minor :: uint16
  i_nlink :: uint16
  i_size :: uint32
  i_addrs :: "uint32 list"

record fs = log +
  sb :: superblock
  itable :: "inode list"

definition upd_inode :: "nat \<Rightarrow> (inode \<Rightarrow> inode) \<Rightarrow> (unit, 'a fs_scheme) routine" where
  "upd_inode i f = modify (\<lambda>s. s\<lparr>itable := (itable s)[i := f (itable s ! i)]\<rparr>)"

definition inode_lock :: "nat \<Rightarrow> 'a fs_scheme \<Rightarrow> sleeplock" where
  "inode_lock i s = i_lock (itable s ! i)"

definition upd_inode_lock :: "nat \<Rightarrow> 'a fs_scheme lock_upd" where
  "upd_inode_lock i f s = s\<lparr>itable := (itable s)[i := (itable s ! i)\<lparr>i_lock := f (i_lock (itable s ! i))\<rparr>]\<rparr>"

subsection \<open>The super block and the free map\<close>

definition readsb :: "uint32 \<Rightarrow> (unit, 'a fs_scheme) routine" where
  "readsb dev =
     bind (bread dev 1) (\<lambda>bp.
     bind (buf_data bp) (\<lambda>d.
     bind (modify (\<lambda>s. s\<lparr>sb := dec_superblock d\<rparr>)) (\<lambda>_.
     brelse bp)))"

definition fsinit :: "uint32 \<Rightarrow> (unit, 'a fs_scheme) routine" where
  "fsinit dev =
     bind (readsb dev) (\<lambda>_.
     bind (gets sb) (\<lambda>sb.
       if sb_magic sb \<noteq> FSMAGIC then panic ''invalid file system'' else initlog dev sb))"

definition bzero :: "uint32 \<Rightarrow> uint32 \<Rightarrow> (unit, 'a fs_scheme) routine" where
  "bzero dev bno =
     bind (bread dev bno) (\<lambda>bp.
     bind (set_data bp (replicate BSIZE 0)) (\<lambda>_.
     bind (log_write bp) (\<lambda>_.
     brelse bp)))"

text \<open>Bit \<open>bi\<close> of a bitmap block.\<close>

definition map_bit :: "byte list \<Rightarrow> nat \<Rightarrow> bool" where
  "map_bit d bi = bit (d ! (bi div 8)) (bi mod 8)"

definition set_map_bit :: "byte list \<Rightarrow> nat \<Rightarrow> bool \<Rightarrow> byte list" where
  "set_map_bit d bi v = d[bi div 8 := (if v then d ! (bi div 8) OR push_bit (bi mod 8) 1
     else d ! (bi div 8) AND NOT (push_bit (bi mod 8) 1))]"

primrec balloc_from :: "uint32 \<Rightarrow> nat list \<Rightarrow> (uint32, 'a fs_scheme) routine" where
  "balloc_from dev [] = panic ''balloc: out of blocks''"
| "balloc_from dev (b # rest) =
     bind (gets sb) (\<lambda>sb.
     bind (bread dev (BBLOCK (of_nat b) sb)) (\<lambda>bp.
     bind (buf_data bp) (\<lambda>d.
       case find (\<lambda>bi. b + bi < unat (sb_size sb) \<and> \<not> map_bit d bi) [0..<BPB] of
         Some bi \<Rightarrow>
           bind (set_data bp (set_map_bit d bi True)) (\<lambda>_.
           bind (log_write bp) (\<lambda>_.
           bind (brelse bp) (\<lambda>_.
           bind (bzero dev (of_nat (b + bi))) (\<lambda>_.
           ret (of_nat (b + bi))))))
       | None \<Rightarrow> bind (brelse bp) (\<lambda>_. balloc_from dev rest))))"

text \<open>\<open>b\<close> runs through the multiples of \<open>BPB\<close> below the size of the file system.\<close>

definition balloc :: "uint32 \<Rightarrow> (uint32, 'a fs_scheme) routine" where
  "balloc dev = bind (gets sb) (\<lambda>sb.
     balloc_from dev (map (\<lambda>i. i * BPB) [0..<(unat (sb_size sb) + BPB - 1) div BPB]))"

definition bfree :: "uint32 \<Rightarrow> uint32 \<Rightarrow> (unit, 'a fs_scheme) routine" where
  "bfree dev b =
     bind (gets sb) (\<lambda>sb.
     bind (bread dev (BBLOCK b sb)) (\<lambda>bp.
     bind (buf_data bp) (\<lambda>d.
       let bi = unat b mod BPB in
       if \<not> map_bit d bi then panic ''freeing free block''
       else
         bind (set_data bp (set_map_bit d bi False)) (\<lambda>_.
         bind (log_write bp) (\<lambda>_.
         brelse bp)))))"

subsection \<open>The inode table\<close>

definition iinit :: "(unit, 'a fs_scheme) routine" where
  "iinit = for_each [0..<NINODE] (\<lambda>i. upd_inode i (\<lambda>ip. ip\<lparr>i_lock := initsleeplock\<rparr>))"

definition iget :: "uint32 \<Rightarrow> uint32 \<Rightarrow> (nat, 'a fs_scheme) routine" where
  "iget dev inum =
     bind (gets (\<lambda>s. find_idx (\<lambda>ip. i_ref ip > 0 \<and> i_dev ip = dev \<and> i_inum ip = inum) (itable s))) (\<lambda>found.
       case found of
         Some i \<Rightarrow> bind (upd_inode i (\<lambda>ip. ip\<lparr>i_ref := i_ref ip + 1\<rparr>)) (\<lambda>_. ret i)
       | None \<Rightarrow>
           bind (gets (\<lambda>s. find_idx (\<lambda>ip. i_ref ip = 0) (itable s))) (\<lambda>empty.
             case empty of
               None \<Rightarrow> panic ''iget: no inodes''
             | Some i \<Rightarrow>
                 bind (upd_inode i (\<lambda>ip. ip\<lparr>i_dev := dev, i_inum := inum, i_ref := 1, i_valid := False\<rparr>)) (\<lambda>_.
                 ret i)))"

definition idup :: "nat \<Rightarrow> (nat, 'a fs_scheme) routine" where
  "idup ip = bind (upd_inode ip (\<lambda>x. x\<lparr>i_ref := i_ref x + 1\<rparr>)) (\<lambda>_. ret ip)"

text \<open>The place of inode \<open>inum\<close> in its block, \<open>(struct dinode *)bp->data + inum%IPB\<close>.\<close>

definition dinode_off :: "uint32 \<Rightarrow> nat" where
  "dinode_off inum = (unat inum mod IPB) * DINODE_SIZE"

definition get_dinode :: "uint32 \<Rightarrow> byte list \<Rightarrow> dinode" where
  "get_dinode inum d = dec_dinode (slice (dinode_off inum) DINODE_SIZE d)"

definition put_dinode :: "uint32 \<Rightarrow> dinode \<Rightarrow> byte list \<Rightarrow> byte list" where
  "put_dinode inum di d = splice (dinode_off inum) (enc_dinode di) d"

primrec ialloc_from :: "uint32 \<Rightarrow> uint16 \<Rightarrow> nat list \<Rightarrow> (nat, 'a fs_scheme) routine" where
  "ialloc_from dev type [] = panic ''ialloc: no inodes''"
| "ialloc_from dev type (inum # rest) =
     bind (gets sb) (\<lambda>sb.
     bind (bread dev (IBLOCK (of_nat inum) sb)) (\<lambda>bp.
     bind (buf_data bp) (\<lambda>d.
       if di_type (get_dinode (of_nat inum) d) = 0 then
         bind (set_data bp (put_dinode (of_nat inum) \<lparr>di_type = type, di_major = 0, di_minor = 0, di_nlink = 0,
           di_size = 0, di_addrs = replicate (NDIRECT + 1) 0\<rparr> d)) (\<lambda>_.
         bind (log_write bp) (\<lambda>_.
         bind (brelse bp) (\<lambda>_.
         iget dev (of_nat inum))))
       else bind (brelse bp) (\<lambda>_. ialloc_from dev type rest))))"

definition ialloc :: "uint32 \<Rightarrow> uint16 \<Rightarrow> (nat, 'a fs_scheme) routine" where
  "ialloc dev type = bind (gets sb) (\<lambda>sb. ialloc_from dev type [1..<unat (sb_ninodes sb)])"

definition iupdate :: "nat \<Rightarrow> (unit, 'a fs_scheme) routine" where
  "iupdate i =
     bind (gets (\<lambda>s. (sb s, itable s ! i))) (\<lambda>(sb, ip).
     bind (bread (i_dev ip) (IBLOCK (i_inum ip) sb)) (\<lambda>bp.
     bind (buf_data bp) (\<lambda>d.
     bind (set_data bp (put_dinode (i_inum ip) \<lparr>di_type = i_type ip, di_major = i_major ip, di_minor = i_minor ip,
       di_nlink = i_nlink ip, di_size = i_size ip, di_addrs = i_addrs ip\<rparr> d)) (\<lambda>_.
     bind (log_write bp) (\<lambda>_.
     brelse bp)))))"

definition ilock :: "nat option \<Rightarrow> (unit, 'a fs_scheme) routine" where
  "ilock p = (case p of None \<Rightarrow> panic ''ilock'' | Some i \<Rightarrow>
     bind (gets (\<lambda>s. i_ref (itable s ! i))) (\<lambda>r.
     if r < 1 then panic ''ilock''
     else
       bind (acquiresleep (inode_lock i) (upd_inode_lock i) (InodeLock i)) (\<lambda>_.
       bind (gets (\<lambda>s. (sb s, itable s ! i))) (\<lambda>(sb, ip).
         if \<not> i_valid ip then
           bind (bread (i_dev ip) (IBLOCK (i_inum ip) sb)) (\<lambda>bp.
           bind (buf_data bp) (\<lambda>d.
             let dip = get_dinode (i_inum ip) d in
             bind (upd_inode i (\<lambda>x. x\<lparr>i_type := di_type dip, i_major := di_major dip, i_minor := di_minor dip,
               i_nlink := di_nlink dip, i_size := di_size dip, i_addrs := di_addrs dip\<rparr>)) (\<lambda>_.
             bind (brelse bp) (\<lambda>_.
             bind (upd_inode i (\<lambda>x. x\<lparr>i_valid := True\<rparr>)) (\<lambda>_.
             if di_type dip = 0 then panic ''ilock: no type'' else ret ())))))
         else ret ()))))"

definition iunlock :: "nat option \<Rightarrow> (unit, 'a fs_scheme) routine" where
  "iunlock p = (case p of None \<Rightarrow> panic ''iunlock'' | Some i \<Rightarrow>
     bind (holdingsleep (inode_lock i)) (\<lambda>h.
     bind (gets (\<lambda>s. i_ref (itable s ! i))) (\<lambda>r.
     if \<not> h \<or> r < 1 then panic ''iunlock'' else releasesleep (upd_inode_lock i) (InodeLock i))))"

subsection \<open>The blocks of a file\<close>

definition bmap :: "nat \<Rightarrow> uint32 \<Rightarrow> (uint32, 'a fs_scheme) routine" where
  "bmap i bn =
     bind (gets (\<lambda>s. itable s ! i)) (\<lambda>ip.
     if unat bn < NDIRECT then
       let addr = i_addrs ip ! unat bn in
       if addr = 0 then
         bind (balloc (i_dev ip)) (\<lambda>addr.
         bind (upd_inode i (\<lambda>x. x\<lparr>i_addrs := (i_addrs x)[unat bn := addr]\<rparr>)) (\<lambda>_. ret addr))
       else ret addr
     else let bn = bn - of_nat NDIRECT in
     if unat bn < NINDIRECT then
       bind (if i_addrs ip ! NDIRECT = 0 then
         bind (balloc (i_dev ip)) (\<lambda>addr.
         bind (upd_inode i (\<lambda>x. x\<lparr>i_addrs := (i_addrs x)[NDIRECT := addr]\<rparr>)) (\<lambda>_. ret addr))
         else ret (i_addrs ip ! NDIRECT)) (\<lambda>ind.
       bind (bread (i_dev ip) ind) (\<lambda>bp.
       bind (buf_data bp) (\<lambda>a.
       bind (if get32 a (4 * unat bn) = 0 then
         bind (balloc (i_dev ip)) (\<lambda>addr.
         bind (set_data bp (put32 a (4 * unat bn) addr)) (\<lambda>_.
         bind (log_write bp) (\<lambda>_. ret addr)))
         else ret (get32 a (4 * unat bn))) (\<lambda>addr.
       bind (brelse bp) (\<lambda>_. ret addr)))))
     else panic ''bmap: out of range'')"

definition itrunc :: "nat \<Rightarrow> (unit, 'a fs_scheme) routine" where
  "itrunc ip =
     bind (for_each [0..<NDIRECT] (\<lambda>i.
       bind (gets (\<lambda>s. itable s ! ip)) (\<lambda>x.
         if i_addrs x ! i \<noteq> 0 then
           bind (bfree (i_dev x) (i_addrs x ! i)) (\<lambda>_.
           upd_inode ip (\<lambda>x. x\<lparr>i_addrs := (i_addrs x)[i := 0]\<rparr>))
         else ret ()))) (\<lambda>_.
     bind (gets (\<lambda>s. itable s ! ip)) (\<lambda>x.
     bind (if i_addrs x ! NDIRECT \<noteq> 0 then
         bind (bread (i_dev x) (i_addrs x ! NDIRECT)) (\<lambda>bp.
         bind (for_each [0..<NINDIRECT] (\<lambda>j.
           bind (buf_data bp) (\<lambda>a.
             if get32 a (4 * j) \<noteq> 0 then bfree (i_dev x) (get32 a (4 * j)) else ret ()))) (\<lambda>_.
         bind (brelse bp) (\<lambda>_.
         bind (bfree (i_dev x) (i_addrs x ! NDIRECT)) (\<lambda>_.
         upd_inode ip (\<lambda>x. x\<lparr>i_addrs := (i_addrs x)[NDIRECT := 0]\<rparr>)))))
       else ret ()) (\<lambda>_.
     bind (upd_inode ip (\<lambda>x. x\<lparr>i_size := 0\<rparr>)) (\<lambda>_.
     iupdate ip))))"

definition iput :: "nat \<Rightarrow> (unit, 'a fs_scheme) routine" where
  "iput i =
     bind (gets (\<lambda>s. itable s ! i)) (\<lambda>ip.
     bind (if i_ref ip = 1 \<and> i_valid ip \<and> i_nlink ip = 0 then
         bind (acquiresleep (inode_lock i) (upd_inode_lock i) (InodeLock i)) (\<lambda>_.
         bind (itrunc i) (\<lambda>_.
         bind (upd_inode i (\<lambda>x. x\<lparr>i_type := 0\<rparr>)) (\<lambda>_.
         bind (iupdate i) (\<lambda>_.
         bind (upd_inode i (\<lambda>x. x\<lparr>i_valid := False\<rparr>)) (\<lambda>_.
         releasesleep (upd_inode_lock i) (InodeLock i))))))
       else ret ()) (\<lambda>_.
     upd_inode i (\<lambda>x. x\<lparr>i_ref := i_ref x - 1\<rparr>)))"

definition iunlockput :: "nat \<Rightarrow> (unit, 'a fs_scheme) routine" where
  "iunlockput i = bind (iunlock (Some i)) (\<lambda>_. iput i)"

record stat =
  st_dev :: uint32
  st_ino :: uint32
  st_type :: uint16
  st_nlink :: uint16
  st_size :: uint64

definition stati :: "nat \<Rightarrow> 'a fs_scheme \<Rightarrow> stat" where
  "stati i s = (let ip = itable s ! i in
     \<lparr>st_dev = i_dev ip, st_ino = i_inum ip, st_type = i_type ip, st_nlink = i_nlink ip, st_size = ucast (i_size ip)\<rparr>)"

subsection \<open>File contents\<close>

datatype kdst = DstUser uint64 | DstKernel uint64 | DstLocal
datatype ksrc = SrcUser uint64 | SrcKernel uint64 | SrcLocal "byte list"

text \<open>\<open>either_copyout(user_dst, dst + tot, src, len)\<close> and \<open>either_copyin(dst, user_src, src + tot, len)\<close>.\<close>

definition copy_to :: "kdst \<Rightarrow> uint32 \<Rightarrow> byte list \<Rightarrow> (int, 'a ptab_scheme) routine" where
  "copy_to dst tot bs = (case dst of
     DstUser a \<Rightarrow> either_copyout True (a + ucast tot) bs
   | DstKernel a \<Rightarrow> either_copyout False (a + ucast tot) bs
   | DstLocal \<Rightarrow> ret 0)"

definition copy_from :: "ksrc \<Rightarrow> uint32 \<Rightarrow> nat \<Rightarrow> (int \<times> byte list, 'a ptab_scheme) routine" where
  "copy_from src tot m = (case src of
     SrcUser a \<Rightarrow> either_copyin True (a + ucast tot) m
   | SrcKernel a \<Rightarrow> either_copyin False (a + ucast tot) m
   | SrcLocal bs \<Rightarrow> ret (0, slice (unat tot) m bs))"

text \<open>The bytes of one iteration: \<open>min(n - tot, BSIZE - off%BSIZE)\<close>.\<close>

definition chunk :: "uint32 \<Rightarrow> uint32 \<Rightarrow> uint32 \<Rightarrow> uint32" where
  "chunk n tot off = min (n - tot) (of_nat BSIZE - off mod of_nat BSIZE)"

lemma unat_chunk:
  assumes "tot < n"
  shows "unat (chunk n tot off) = min (unat n - unat tot) (BSIZE - unat off mod BSIZE)"
proof -
  have d: "unat (n - tot) = unat n - unat tot" using assms by (simp add: unat_sub word_le_less_eq)
  have o: "unat (off mod of_nat BSIZE) = unat off mod BSIZE" by (simp add: unat_mod BSIZE_def)
  then have "unat (off mod of_nat BSIZE :: uint32) \<le> unat (of_nat BSIZE :: uint32)" by (simp add: BSIZE_def less_imp_le)
  then have r: "unat (of_nat BSIZE - off mod of_nat BSIZE) = BSIZE - unat off mod BSIZE"
    using o by (simp add: unat_sub word_le_nat_alt) (simp add: BSIZE_def)
  show ?thesis unfolding chunk_def using d r by (simp add: min_def word_le_nat_alt)
qed

lemma chunk_pos:
  assumes "tot < n"
  shows "0 < unat (chunk n tot off)" and "unat (chunk n tot off) \<le> unat n - unat tot"
    and "unat (chunk n tot off) \<le> BSIZE - unat off mod BSIZE"
    and "unat off mod BSIZE + unat (chunk n tot off) \<le> BSIZE"
    and "unat (chunk n tot off) = unat n - unat tot \<or> unat off mod BSIZE + unat (chunk n tot off) = BSIZE"
proof -
  have "unat tot < unat n" using assms by (simp add: word_less_nat_alt)
  moreover have "unat off mod BSIZE < BSIZE" by (simp add: BSIZE_def)
  ultimately show "0 < unat (chunk n tot off)" "unat (chunk n tot off) \<le> unat n - unat tot"
      "unat (chunk n tot off) \<le> BSIZE - unat off mod BSIZE" "unat off mod BSIZE + unat (chunk n tot off) \<le> BSIZE"
      "unat (chunk n tot off) = unat n - unat tot \<or> unat off mod BSIZE + unat (chunk n tot off) = BSIZE"
    unfolding unat_chunk [OF assms, of off] by (auto simp: min_def)
qed

lemma chunk_measure:
  assumes "tot < n"
  shows "unat n - unat (tot + chunk n tot off) < unat n - unat tot"
proof -
  note c = chunk_pos(1,2) [OF assms, of off]
  have "unat tot + unat (chunk n tot off) \<le> unat n" using c assms by (simp add: word_less_nat_alt)
  then have "unat (tot + chunk n tot off) = unat tot + unat (chunk n tot off)"
    by (intro unat_add_lem [THEN iffD1]) (meson le_less_trans unsigned_less)
  then show ?thesis using c by linarith
qed

function readi_from :: "nat \<Rightarrow> kdst \<Rightarrow> uint32 \<Rightarrow> uint32 \<Rightarrow> uint32 \<Rightarrow> byte list \<Rightarrow> (int \<times> byte list, 'a fs_scheme) routine" where
  "readi_from i dst off n tot got =
     (if tot < n then
        bind (bmap i (off div of_nat BSIZE)) (\<lambda>bn.
        bind (gets (\<lambda>s. i_dev (itable s ! i))) (\<lambda>dev.
        bind (bread dev bn) (\<lambda>bp.
        let m = chunk n tot off in
        bind (buf_data bp) (\<lambda>d.
        let bs = slice (unat off mod BSIZE) (unat m) d in
        bind (copy_to dst tot bs) (\<lambda>r.
          if r = -1 then bind (brelse bp) (\<lambda>_. ret (-1, got))
          else bind (brelse bp) (\<lambda>_. readi_from i dst (off + m) n (tot + m) (got @ bs)))))))
      else ret (sint tot, got))"
  by pat_completeness auto
termination
  by (relation "measure (\<lambda>(i, dst, off, n, tot, got). unat n - unat tot)") (auto simp: chunk_measure)

declare readi_from.simps [simp del]

definition readi :: "nat \<Rightarrow> kdst \<Rightarrow> uint32 \<Rightarrow> uint32 \<Rightarrow> (int \<times> byte list, 'a fs_scheme) routine" where
  "readi i dst off n =
     bind (gets (\<lambda>s. i_size (itable s ! i))) (\<lambda>size.
       if off > size \<or> off + n < off then ret (0, [])
       else readi_from i dst off (if off + n > size then size - off else n) 0 [])"

text \<open>The loop of \<open>writei\<close> ends with the offset and the count it reached.\<close>

function writei_from :: "nat \<Rightarrow> ksrc \<Rightarrow> uint32 \<Rightarrow> uint32 \<Rightarrow> uint32 \<Rightarrow> (uint32 \<times> uint32, 'a fs_scheme) routine" where
  "writei_from i src off n tot =
     (if tot < n then
        bind (bmap i (off div of_nat BSIZE)) (\<lambda>bn.
        bind (gets (\<lambda>s. i_dev (itable s ! i))) (\<lambda>dev.
        bind (bread dev bn) (\<lambda>bp.
        let m = chunk n tot off in
        bind (copy_from src tot (unat m)) (\<lambda>(r, bs).
        bind (buf_data bp) (\<lambda>d.
        bind (set_data bp (splice (unat off mod BSIZE) bs d)) (\<lambda>_.
          if r = -1 then bind (brelse bp) (\<lambda>_. ret (off, tot))
          else
            bind (log_write bp) (\<lambda>_.
            bind (brelse bp) (\<lambda>_. writei_from i src (off + m) n (tot + m)))))))))
      else ret (off, tot))"
  by pat_completeness auto
termination
  by (relation "measure (\<lambda>(i, src, off, n, tot). unat n - unat tot)") (auto simp: chunk_measure)

declare writei_from.simps [simp del]

definition writei :: "nat \<Rightarrow> ksrc \<Rightarrow> uint32 \<Rightarrow> uint32 \<Rightarrow> (int, 'a fs_scheme) routine" where
  "writei i src off n =
     bind (gets (\<lambda>s. i_size (itable s ! i))) (\<lambda>size.
       if off > size \<or> off + n < off then ret (-1)
       else if off + n > of_nat (MAXFILE * BSIZE) then ret (-1)
       else
         bind (writei_from i src off n 0) (\<lambda>(off, tot).
         bind (if off > size then upd_inode i (\<lambda>x. x\<lparr>i_size := off\<rparr>) else ret ()) (\<lambda>_.
         bind (iupdate i) (\<lambda>_.
         ret (sint tot)))))"

end
