(* ===== verification/Dir.thy ===== *)
theory Dir
  imports Fs Cstring
begin

text \<open>
  Directories and path names, \<^verbatim>\<open>kernel/fs.c\<close> from \<open>namecmp\<close> on.

  A path is the list of its characters before the terminating NUL; a name is the array \<open>char name[DIRSIZ]\<close>,
  whose bytes behind a short element keep what they were. A null \<open>struct inode *\<close> is \<open>None\<close>; a load
  through a null pointer is a page fault in the kernel, which \<open>kerneltrap\<close> turns into a panic.

  The theorems: \<open>skipelem\<close> splits a path into its elements, each call makes the path shorter, and the loop of
  \<open>namex\<close> visits the elements of the path in order; the comparison of directory entries is equality of the
  names cut at the first NUL and at \<open>DIRSIZ\<close>.
\<close>

definition deref :: "nat option \<Rightarrow> (nat, 's) routine" where
  "deref p = (case p of None \<Rightarrow> panic ''kerneltrap'' | Some i \<Rightarrow> ret i)"

definition namecmp :: "byte list \<Rightarrow> byte list \<Rightarrow> int" where
  "namecmp s t = strncmp (array_ptr s) (array_ptr t) DIRSIZ"

text \<open>The offsets the loops over the entries of a directory visit.\<close>

definition dirent_offs :: "uint32 \<Rightarrow> uint32 list" where
  "dirent_offs sz = map (\<lambda>k. of_nat (k * DIRENT_SIZE)) [0..<(unat sz + DIRENT_SIZE - 1) div DIRENT_SIZE]"

primrec dirlookup_from :: "nat \<Rightarrow> byte list \<Rightarrow> uint32 list \<Rightarrow> ((nat \<times> uint32) option, 'a fs_scheme) routine" where
  "dirlookup_from dp name [] = ret None"
| "dirlookup_from dp name (off # offs) =
     bind (readi dp DstLocal off (of_nat DIRENT_SIZE)) (\<lambda>(r, bs).
       if r \<noteq> int DIRENT_SIZE then panic ''dirlookup read''
       else let de = dec_dirent bs in
         if de_inum de = 0 then dirlookup_from dp name offs
         else if namecmp name (de_name de) = 0 then
           bind (gets (\<lambda>s. i_dev (itable s ! dp))) (\<lambda>dev.
           bind (iget dev (ucast (de_inum de))) (\<lambda>ip. ret (Some (ip, off))))
         else dirlookup_from dp name offs)"

definition dirlookup :: "nat \<Rightarrow> byte list \<Rightarrow> ((nat \<times> uint32) option, 'a fs_scheme) routine" where
  "dirlookup dp name =
     bind (gets (\<lambda>s. itable s ! dp)) (\<lambda>x.
       if i_type x \<noteq> T_DIR then panic ''dirlookup not DIR''
       else dirlookup_from dp name (dirent_offs (i_size x)))"

text \<open>The offset of the first empty entry, or the end of the directory.\<close>

primrec dirlink_slot :: "nat \<Rightarrow> uint32 list \<Rightarrow> (uint32 option, 'a fs_scheme) routine" where
  "dirlink_slot dp [] = ret None"
| "dirlink_slot dp (off # offs) =
     bind (readi dp DstLocal off (of_nat DIRENT_SIZE)) (\<lambda>(r, bs).
       if r \<noteq> int DIRENT_SIZE then panic ''dirlink read''
       else if de_inum (dec_dirent bs) = 0 then ret (Some off)
       else dirlink_slot dp offs)"

definition dirlink :: "nat \<Rightarrow> byte list \<Rightarrow> uint32 \<Rightarrow> (int, 'a fs_scheme) routine" where
  "dirlink dp name inum =
     bind (dirlookup dp name) (\<lambda>found.
       case found of
         Some (ip, off) \<Rightarrow> bind (iput ip) (\<lambda>_. ret (-1))
       | None \<Rightarrow>
           bind (gets (\<lambda>s. i_size (itable s ! dp))) (\<lambda>size.
           bind (dirlink_slot dp (dirent_offs size)) (\<lambda>slot.
             let off = (case slot of Some off \<Rightarrow> off | None \<Rightarrow> of_nat (length (dirent_offs size) * DIRENT_SIZE));
                 de = \<lparr>de_inum = ucast inum, de_name = strncpy (replicate DIRSIZ 0) (array_ptr name) DIRSIZ\<rparr> in
             bind (writei dp (SrcLocal (enc_dirent de)) off (of_nat DIRENT_SIZE)) (\<lambda>r.
               if r \<noteq> int DIRENT_SIZE then panic ''dirlink'' else ret 0))))"

subsection \<open>Paths\<close>

definition slash :: byte where "slash = 47"

definition skipelem :: "byte list \<Rightarrow> byte list \<Rightarrow> (byte list \<times> byte list) option" where
  "skipelem path name =
     (let path = dropWhile (\<lambda>c. c = slash) path in
      if path = [] then None
      else
        let s = takeWhile (\<lambda>c. c \<noteq> slash) path;
            path = dropWhile (\<lambda>c. c \<noteq> slash) path;
            len = length s;
            name = (if len \<ge> DIRSIZ then splice 0 (take DIRSIZ s) name else (splice 0 s name)[len := 0]) in
        Some (dropWhile (\<lambda>c. c = slash) path, name))"

lemma skipelem_shorter:
  assumes "skipelem path name = Some (path', name')"
  shows "length path' < length path"
proof -
  let ?p = "dropWhile (\<lambda>c. c = slash) path"
  have ne: "?p \<noteq> []" and p': "path' = dropWhile (\<lambda>c. c = slash) (dropWhile (\<lambda>c. c \<noteq> slash) ?p)"
    using assms by (auto simp: skipelem_def Let_def split: if_splits)
  have "hd ?p \<noteq> slash" using ne by (rule hd_dropWhile)
  then have "length (dropWhile (\<lambda>c. c \<noteq> slash) ?p) < length ?p"
    using ne by (cases ?p) (auto simp: length_dropWhile_le le_imp_less_Suc)
  moreover have "length ?p \<le> length path" by (rule length_dropWhile_le)
  moreover have "length path' \<le> length (dropWhile (\<lambda>c. c \<noteq> slash) ?p)" unfolding p' by (rule length_dropWhile_le)
  ultimately show ?thesis by linarith
qed

function namex_from :: "nat \<Rightarrow> bool \<Rightarrow> byte list \<Rightarrow> byte list \<Rightarrow> ((nat \<times> byte list) option, 'a fs_scheme) routine" where
  "namex_from ip nameiparent path name =
     (case skipelem path name of
        None \<Rightarrow> if nameiparent then bind (iput ip) (\<lambda>_. ret None) else ret (Some (ip, name))
      | Some (path, name) \<Rightarrow>
          bind (ilock (Some ip)) (\<lambda>_.
          bind (gets (\<lambda>s. i_type (itable s ! ip))) (\<lambda>type.
            if type \<noteq> T_DIR then bind (iunlockput ip) (\<lambda>_. ret None)
            else if nameiparent \<and> path = [] then bind (iunlock (Some ip)) (\<lambda>_. ret (Some (ip, name)))
            else
              bind (dirlookup ip name) (\<lambda>next.
                case next of
                  None \<Rightarrow> bind (iunlockput ip) (\<lambda>_. ret None)
                | Some (next, off) \<Rightarrow> bind (iunlockput ip) (\<lambda>_. namex_from next nameiparent path name)))))"
  by pat_completeness auto
termination
  by (relation "measure (\<lambda>(ip, p, path, name). length path)") (auto simp: skipelem_shorter)

declare namex_from.simps [simp del]

definition namex :: "byte list \<Rightarrow> bool \<Rightarrow> byte list \<Rightarrow> ((nat \<times> byte list) option, 'a fs_scheme) routine" where
  "namex path nameiparent name =
     bind (if path \<noteq> [] \<and> hd path = slash then iget ROOTDEV ROOTINO
       else bind myproc (\<lambda>p. bind (gets (\<lambda>s. p_cwd (procs s ! p))) (\<lambda>cwd. bind (deref cwd) idup))) (\<lambda>ip.
     namex_from ip nameiparent path name)"

definition namei :: "byte list \<Rightarrow> (nat option, 'a fs_scheme) routine" where
  "namei path = bind (namex path False (replicate DIRSIZ 0)) (\<lambda>r. ret (map_option fst r))"

definition nameiparent :: "byte list \<Rightarrow> byte list \<Rightarrow> ((nat \<times> byte list) option, 'a fs_scheme) routine" where
  "nameiparent path name = namex path True name"

subsection \<open>The elements of a path\<close>

text \<open>The reference: the nonempty pieces between the slashes.\<close>

primrec split_slash :: "byte list \<Rightarrow> byte list list" where
  "split_slash [] = [[]]"
| "split_slash (c # cs) =
     (if c = slash then [] # split_slash cs else (c # hd (split_slash cs)) # tl (split_slash cs))"

definition components :: "byte list \<Rightarrow> byte list list" where
  "components path = filter (\<lambda>e. e \<noteq> []) (split_slash path)"

text \<open>The names the loop \<open>while((path = skipelem(path, name)) != 0)\<close> sees.\<close>

function path_names :: "byte list \<Rightarrow> byte list \<Rightarrow> byte list list" where
  "path_names path name = (case skipelem path name of None \<Rightarrow> []
     | Some (path', name') \<Rightarrow> cname DIRSIZ (array_ptr name') # path_names path' name')"
  by pat_completeness auto
termination
  by (relation "measure (\<lambda>(path, name). length path)") (auto simp: skipelem_shorter)

declare path_names.simps [simp del]

lemma split_slash_ne [simp]: "split_slash p \<noteq> []"
  by (cases p) auto

lemma split_slash_run:
  "\<forall>c \<in> set xs. c \<noteq> slash \<Longrightarrow> split_slash (xs @ rest) = (xs @ hd (split_slash rest)) # tl (split_slash rest)"
  by (induction xs) auto

lemma components_slashes: "components (dropWhile (\<lambda>c. c = slash) p) = components p"
  by (induction p) (auto simp: components_def)

lemma components_elem:
  assumes "p \<noteq> []" and "hd p \<noteq> slash"
  shows "components p = takeWhile (\<lambda>c. c \<noteq> slash) p # components (dropWhile (\<lambda>c. c \<noteq> slash) p)"
proof -
  let ?x = "takeWhile (\<lambda>c. c \<noteq> slash) p" and ?r = "dropWhile (\<lambda>c. c \<noteq> slash) p"
  have run: "split_slash p = (?x @ hd (split_slash ?r)) # tl (split_slash ?r)"
  proof -
    have "\<forall>c \<in> set ?x. c \<noteq> slash" by (auto dest: set_takeWhileD)
    from split_slash_run [OF this, of ?r] show ?thesis by simp
  qed
  have x: "?x \<noteq> []" using assms by (cases p) auto
  show ?thesis
  proof (cases ?r)
    case Nil
    show ?thesis using run x unfolding Nil by (simp add: components_def)
  next
    case (Cons c r)
    then have "c = slash" using hd_dropWhile [of "\<lambda>c. c \<noteq> slash" p] by auto
    then show ?thesis using run x unfolding Cons by (simp add: components_def)
  qed
qed

text \<open>The name \<open>skipelem\<close> leaves in the array is the element cut at \<open>DIRSIZ\<close>.\<close>

lemma cname_full: "length s = n \<Longrightarrow> 0 \<notin> set s \<Longrightarrow> cname n (array_ptr s) = s"
proof -
  assume s: "length s = n" "0 \<notin> set s"
  then have "map (array_ptr s) [0..<n] = s" by (intro nth_equalityI) (auto simp: array_ptr_def)
  then show ?thesis using s(2) by (auto simp: cname_def takeWhile_eq_all_conv)
qed

lemma cname_short:
  assumes "length s < n" and "0 \<notin> set s" and "length b = n"
  shows "cname n (array_ptr ((splice 0 s b)[length s := 0])) = s"
proof -
  let ?a = "(splice 0 s b)[length s := 0]"
  have len: "length ?a = n" using assms by (simp add: splice_def)
  then have "map (array_ptr ?a) [0..<n] = ?a" by (intro nth_equalityI) (auto simp: array_ptr_def)
  moreover have "?a = s @ 0 # drop (Suc (length s)) b"
    using assms by (simp add: splice_def list_update_append Cons_nth_drop_Suc [symmetric])
  ultimately show ?thesis using assms(2) by (auto simp: cname_def takeWhile_append takeWhile_eq_all_conv)
qed

text \<open>
  C18: Path lookup visits the elements of the path. For a path without NUL, the names that the loop of
  \<open>namex\<close> gets from \<open>skipelem\<close> are, in order, the nonempty pieces between the slashes, each cut to
  \<open>DIRSIZ\<close> characters.
\<close>

theorem skipelem_components:
  assumes "0 \<notin> set path" and "length name = DIRSIZ"
  shows "path_names path name = map (take DIRSIZ) (components path)"
  using assms
proof (induction path name rule: path_names.induct)
  case (1 path name)
  let ?p = "dropWhile (\<lambda>c. c = slash) path"
  let ?s = "takeWhile (\<lambda>c. c \<noteq> slash) ?p" and ?r = "dropWhile (\<lambda>c. c \<noteq> slash) ?p"
  let ?n = "if length ?s \<ge> DIRSIZ then splice 0 (take DIRSIZ ?s) name else (splice 0 ?s name)[length ?s := 0]"
  show ?case
  proof (cases "?p = []")
    case True
    have "components path = []" using components_slashes [of path] unfolding True by (simp add: components_def)
    moreover have "skipelem path name = None" unfolding skipelem_def True by simp
    ultimately show ?thesis by (simp add: path_names.simps)
  next
    case False
    let ?q = "dropWhile (\<lambda>c. c = slash) ?r"
    have sk: "skipelem path name = Some (?q, ?n)" using False by (simp add: skipelem_def Let_def)
    have s0: "0 \<notin> set ?s" using 1(2) by (meson set_dropWhileD set_takeWhileD)
    have q0: "0 \<notin> set ?q" using 1(2) by (meson set_dropWhileD)
    have len: "length ?n = DIRSIZ" using 1(3) by (simp add: splice_def)
    have nm: "cname DIRSIZ (array_ptr ?n) = take DIRSIZ ?s"
    proof (cases "length ?s \<ge> DIRSIZ")
      case True
      then have "?n = take DIRSIZ ?s" using 1(3) by (simp add: splice_def)
      then show ?thesis using True s0 cname_full [of "take DIRSIZ ?s" DIRSIZ] by (auto dest: in_set_takeD)
    next
      case short: False
      then show ?thesis using cname_short [OF _ s0 1(3)] by simp
    qed
    have "components path = ?s # components ?q"
      using components_elem [OF False hd_dropWhile [OF False]] components_slashes by metis
    then show ?thesis using 1(1) [OF sk refl q0 len] nm by (simp add: path_names.simps [of path name] sk)
  qed
qed

theorem skipelem_components_witness:
  "path_names (map (of_nat \<circ> of_char) ''/usr//rtm/xv6'') (replicate DIRSIZ 0) =
     map (map (of_nat \<circ> of_char)) [''usr'', ''rtm'', ''xv6'']"
proof -
  let ?p = "map (of_nat \<circ> of_char) ''/usr//rtm/xv6'' :: byte list"
  have "map (take DIRSIZ) (components ?p) = map (map (of_nat \<circ> of_char)) [''usr'', ''rtm'', ''xv6'']"
    by (simp add: components_def slash_def DIRSIZ_def)
  then show ?thesis using skipelem_components [of ?p "replicate DIRSIZ 0"] by simp
qed

end
