(* ===== verification/Ring.thy ===== *)
theory Ring
  imports Prelude
begin

text \<open>
  Circular buffers with free-running counters, as in \<^verbatim>\<open>kernel/pipe.c\<close>, \<^verbatim>\<open>kernel/console.c\<close> and
  \<^verbatim>\<open>kernel/uart.c\<close>: an array of \<open>n\<close> slots, a read counter \<open>r\<close> and a write counter \<open>w\<close> that are never
  reduced, so that they wrap at the width of their type. The slot of a counter is the counter modulo
  \<open>n\<close>, which is a function of the wrapped counter because \<open>n\<close> divides \<open>2 ^ w\<close>.

  \<open>ring n buf r w\<close> is the queue the buffer holds. The locale \<open>ring_buffer\<close> states what the three users
  rely on about the size; storing at the write counter appends, loading at the read counter removes from
  the front.
\<close>

definition ring :: "nat \<Rightarrow> 'b list \<Rightarrow> 'w::len word \<Rightarrow> 'w word \<Rightarrow> 'b list" where
  "ring n buf r w = map (\<lambda>k. buf ! (unat (r + of_nat k) mod n)) [0..<unat (w - r)]"

locale ring_buffer =
  fixes n :: nat and width :: "'w::len itself"
  assumes pos: "0 < n" and divides: "n dvd 2 ^ LENGTH('w)" and below: "n < 2 ^ LENGTH('w)"
begin

text \<open>Counters less than \<open>n\<close> apart use different slots.\<close>

lemma slot_add: "unat (r + of_nat k :: 'w word) mod n = (unat r + k) mod n"
proof -
  have "unat (r + of_nat k :: 'w word) = (unat r + k) mod 2 ^ LENGTH('w)"
    by (simp add: unat_word_ariths unat_of_nat mod_simps)
  then show ?thesis using divides by (simp add: mod_mod_cancel)
qed

lemma slots_differ:
  assumes "j < k" and "k - j < n"
  shows "unat (r + of_nat j :: 'w word) mod n \<noteq> unat (r + of_nat k :: 'w word) mod n"
proof
  assume "unat (r + of_nat j :: 'w word) mod n = unat (r + of_nat k :: 'w word) mod n"
  then have "(unat r + k) mod n = (unat r + j) mod n" by (simp add: slot_add)
  then have "n dvd (unat r + k) - (unat r + j)" using assms(1) by (simp add: mod_eq_dvd_iff_nat)
  then have "n dvd k - j" by simp
  then show False using assms by (auto dest: dvd_imp_le)
qed

lemma next_counter:
  fixes r w :: "'w word"
  assumes "unat (w - r) < n"
  shows "unat (w + 1 - r) = Suc (unat (w - r))" and "r + of_nat (unat (w - r)) = w"
proof -
  have eq: "w + 1 - r = (w - r) + 1" by simp
  have "unat (w - r) + 1 < 2 ^ LENGTH('w)" using assms below by linarith
  then have "unat ((w - r) + 1) = unat (w - r) + 1"
    by (simp add: unat_word_ariths)
  then show "unat (w + 1 - r) = Suc (unat (w - r))" unfolding eq by simp
  show "r + of_nat (unat (w - r)) = w" by simp
qed

lemma ring_push:
  fixes r w :: "'w word"
  assumes "unat (w - r) < n" and "length buf = n"
  shows "ring n (buf[unat w mod n := x]) r (w + 1) = ring n buf r w @ [x]"
proof -
  have slot: "unat w mod n < n" using pos by simp
  have keep: "buf[unat w mod n := x] ! (unat (r + of_nat k) mod n) = buf ! (unat (r + of_nat k) mod n)"
    if "k < unat (w - r)" for k
  proof -
    have "unat (w - r) - k < n" using assms(1) by linarith
    then have "unat (r + of_nat k) mod n \<noteq> unat w mod n"
      using slots_differ [OF that, of r] next_counter(2) [OF assms(1)] by simp
    then show ?thesis by simp
  qed
  have new: "buf[unat w mod n := x] ! (unat (r + of_nat (unat (w - r))) mod n) = x"
    using assms(2) slot next_counter(2) [OF assms(1)] by simp
  show ?thesis using keep new by (simp add: ring_def next_counter(1) [OF assms(1)])
qed

lemma ring_pop:
  fixes r w :: "'w word"
  assumes "r \<noteq> w"
  shows "ring n buf r w = buf ! (unat r mod n) # ring n buf (r + 1) w"
proof -
  have "w - r \<noteq> 0" using assms by simp
  then obtain m where m: "unat (w - r) = Suc m" by (cases "unat (w - r)") (auto simp: unat_eq_0)
  have eq: "w - (r + 1) = (w - r) - 1" by simp
  have "unat (w - (r + 1)) = m" unfolding eq unat_minus_one [OF \<open>w - r \<noteq> 0\<close>] using m by simp
  moreover have "[0..<Suc m] = 0 # map Suc [0..<m]" by (simp add: upt_conv_Cons map_Suc_upt del: upt_Suc)
  ultimately show ?thesis using m by (simp add: ring_def o_def add.assoc del: upt_Suc)
qed

lemma ring_empty [simp]: "ring n buf r r = []"
  by (simp add: ring_def)

lemma length_ring: "length (ring n buf r w) = unat (w - r)"
  by (simp add: ring_def)

lemma ring_full:
  fixes r w :: "'w word"
  shows "w = r + of_nat n \<longleftrightarrow> unat (w - r) = n"
proof
  assume "w = r + of_nat n"
  then have "w - r = of_nat n" by simp
  then show "unat (w - r) = n" using below by (simp add: unat_of_nat)
next
  assume "unat (w - r) = n"
  then have "of_nat (unat (w - r)) = (of_nat n :: 'w word)" by simp
  then have "w - r = of_nat n" by simp
  then show "w = r + of_nat n" by (metis diff_add_cancel add.commute)
qed

text \<open>A counter between the two splits the queue.\<close>

lemma ring_split:
  fixes r w e :: "'w word"
  assumes "unat (w - r) \<le> unat (e - r)"
  shows "ring n buf r e = ring n buf r w @ ring n buf w e" and "unat (e - w) = unat (e - r) - unat (w - r)"
proof -
  have "e - w = (e - r) - (w - r)" by simp
  then show d: "unat (e - w) = unat (e - r) - unat (w - r)"
    using assms by (metis unat_sub word_le_nat_alt)
  have shift: "r + of_nat (unat (w - r) + k) = w + of_nat k" for k by simp
  have "[0..<unat (e - r)] = [0..<unat (w - r)] @ map (\<lambda>k. unat (w - r) + k) [0..<unat (e - w)]"
    using assms d upt_add_eq_append [of 0 "unat (w - r)" "unat (e - w)"]
    by (simp add: add.commute [of "unat (w - r)"] map_add_upt)
  then show "ring n buf r e = ring n buf r w @ ring n buf w e"
    by (simp add: ring_def o_def shift del: of_nat_add)
qed

lemma ring_unpush:
  fixes r w :: "'w word"
  assumes "r \<noteq> w"
  shows "ring n buf r w = ring n buf r (w - 1) @ [buf ! (unat (w - 1) mod n)]"
proof -
  have ne: "w - r \<noteq> 0" using assms by simp
  have "unat (w - 1 - r) = unat (w - r) - 1"
    using unat_minus_one [OF ne] by (simp add: algebra_simps)
  moreover have "unat (w - r) > 0" using ne by (simp add: unat_gt_0)
  ultimately have m: "unat (w - r) = Suc (unat (w - 1 - r))" by simp
  have "r + of_nat (unat (w - 1 - r)) = w - 1" by simp
  then show ?thesis by (simp add: ring_def m)
qed

end

end
