(* ===== verification/Printf.thy ===== *)
theory Printf
  imports Prelude
begin

text \<open>
  Formatted output, \<^verbatim>\<open>kernel/printf.c\<close>: the characters that \<open>printint\<close>, \<open>printptr\<close> and \<open>printf\<close> pass to
  \<open>consputc\<close>, in order. \<open>printf\<close> brackets its output with \<open>pr.lock\<close>; theory \<open>Console\<close> sends the
  characters to the device. The variable arguments are a list of tagged values; an argument that is
  missing or of another type than the conversion expects is undefined in C and has no result here.

  The theorem: \<open>printint\<close> prints the numeral of its argument, signed or unsigned, and does not overrun its buffer of 16 bytes,
  for every base that its table of digits and the buffer allow.
\<close>

definition chars :: "string \<Rightarrow> byte list" where
  "chars s = map (\<lambda>c. of_nat (of_char c)) s"

definition digits :: "byte list" where
  "digits = chars ''0123456789abcdef''"

lemma div_step_less: "0 < x div b \<Longrightarrow> Suc 0 < b \<Longrightarrow> x div b < (x :: nat)"
  by (cases "x = 0") simp_all

text \<open>The \<open>do\<close> loop of \<open>printint\<close>: the digits, lowest first. The kernel passes base 10 or 16.\<close>

function int_digits :: "nat \<Rightarrow> nat \<Rightarrow> byte list" where
  "int_digits base x = digits ! (x mod base) # (if x div base = 0 \<or> base \<le> 1 then [] else int_digits base (x div base))"
  by pat_completeness auto
termination by (relation "measure (\<lambda>(base, x). x)") (auto simp: div_step_less)

declare int_digits.simps [simp del]

definition printint :: "int \<Rightarrow> nat \<Rightarrow> bool \<Rightarrow> byte list" where
  "printint xx base sign =
     (let neg = sign \<and> xx < 0;
          x = (if neg then of_int (int32 (- xx)) else of_int xx :: uint32);
          buf = int_digits base (unat x) @ (if neg then chars ''-'' else []) in
      rev buf)"

primrec ptr_digits :: "nat \<Rightarrow> uint64 \<Rightarrow> byte list" where
  "ptr_digits 0 x = []"
| "ptr_digits (Suc i) x = digits ! unat (drop_bit 60 x) # ptr_digits i (push_bit 4 x)"

definition printptr :: "uint64 \<Rightarrow> byte list" where
  "printptr x = chars ''0x'' @ ptr_digits 16 x"

datatype parg = AInt int | APtr uint64 | AStr "byte list option"

fun printf_chars :: "byte list \<Rightarrow> parg list \<Rightarrow> byte list option" where
  "printf_chars [] ap = Some []"
| "printf_chars [c] ap = Some (if c = 37 then [] else [c])"
| "printf_chars (c # d # fmt) ap =
     (if c \<noteq> 37 then map_option (Cons c) (printf_chars (d # fmt) ap)
      else if d = 100 then (case ap of AInt n # ap \<Rightarrow> map_option (append (printint n 10 True)) (printf_chars fmt ap) | _ \<Rightarrow> None)
      else if d = 120 then (case ap of AInt n # ap \<Rightarrow> map_option (append (printint n 16 True)) (printf_chars fmt ap) | _ \<Rightarrow> None)
      else if d = 112 then (case ap of APtr p # ap \<Rightarrow> map_option (append (printptr p)) (printf_chars fmt ap) | _ \<Rightarrow> None)
      else if d = 115 then (case ap of AStr s # ap \<Rightarrow>
         map_option (append (case s of None \<Rightarrow> chars ''(null)'' | Some s \<Rightarrow> s)) (printf_chars fmt ap) | _ \<Rightarrow> None)
      else if d = 37 then map_option (Cons 37) (printf_chars fmt ap)
      else map_option (append [37, d]) (printf_chars fmt ap))"

subsection \<open>Numerals\<close>

text \<open>The value of a digit character and of a numeral, highest digit first.\<close>

definition digit_val :: "byte \<Rightarrow> nat" where
  "digit_val c = (if c \<ge> 97 then unat c - 97 + 10 else unat c - 48)"

definition numeral_val :: "nat \<Rightarrow> byte list \<Rightarrow> int" where
  "numeral_val base ds = (case ds of [] \<Rightarrow> 0 | d # rest \<Rightarrow>
     if d = 45 then - foldl (\<lambda>n c. int base * n + int (digit_val c)) 0 rest
     else foldl (\<lambda>n c. int base * n + int (digit_val c)) 0 ds)"

lemma digit_val_digits: "k < 16 \<Longrightarrow> digit_val (digits ! k) = k \<and> digits ! k \<noteq> 45"
proof -
  assume "k < 16"
  moreover have "\<forall>k \<in> set [0..<16]. digit_val (digits ! k) = k \<and> digits ! k \<noteq> 45"
    by (simp add: digits_def chars_def digit_val_def upt_rec)
  ultimately show ?thesis by simp
qed

lemma foldl_int_digits:
  assumes "1 < base" and "base \<le> 16"
  shows "foldl (\<lambda>n c. int base * n + int (digit_val c)) 0 (rev (int_digits base x)) = int x"
proof (induction x rule: less_induct)
  case (less x)
  have d: "digit_val (digits ! (x mod base)) = x mod base"
    using digit_val_digits [of "x mod base"] assms mod_less_divisor [of base x] by linarith
  show ?case
  proof (cases "x div base = 0")
    case True
    then have "x < base" using assms(1) by (simp add: div_eq_0_iff)
    then show ?thesis using True d by (simp add: int_digits.simps [of base x])
  next
    case False
    then have "x div base < x" using assms(1) by (simp add: div_step_less)
    then have "foldl (\<lambda>n c. int base * n + int (digit_val c)) 0 (rev (int_digits base (x div base))) = int (x div base)"
      by (rule less.IH)
    moreover have "int base * int (x div base) + int (x mod base) = int x"
      by (metis mult_div_mod_eq of_nat_add of_nat_mult)
    ultimately show ?thesis using False assms(1) d by (simp add: int_digits.simps [of base x])
  qed
qed

lemma int_digits_hd: "1 < base \<Longrightarrow> base \<le> 16 \<Longrightarrow> \<forall>c \<in> set (int_digits base x). c \<noteq> 45"
proof (induction base x rule: int_digits.induct)
  case (1 base x)
  have "x mod base < 16" using 1(2,3) mod_less_divisor [of base x] by linarith
  then show ?case using 1 digit_val_digits [of "x mod base"] by (subst int_digits.simps) auto
qed

lemma length_int_digits: "1 < base \<Longrightarrow> x < base ^ n \<Longrightarrow> length (int_digits base x) \<le> max 1 n"
proof (induction n arbitrary: x)
  case 0
  then show ?case by (simp add: int_digits.simps)
next
  case (Suc n)
  have "x div base < base ^ n" using Suc.prems by (simp add: div_less_iff_less_mult mult.commute)
  then have "length (int_digits base (x div base)) \<le> max 1 n" using Suc.IH Suc.prems(1) by blast
  moreover have "x div base \<noteq> 0 \<Longrightarrow> n \<noteq> 0" using \<open>x div base < base ^ n\<close> by (cases n) auto
  ultimately show ?case by (subst int_digits.simps) auto
qed

lemma int_digits_ne: "int_digits base x \<noteq> []"
  by (subst int_digits.simps) simp

lemma printint_numeral:
  fixes x :: uint32
  assumes b: "5 \<le> base" "base \<le> 16" and x: "x = (if neg then of_int (int32 (- xx)) else of_int xx)"
    and p: "printint xx base sign = rev (int_digits base (unat x) @ (if neg then chars ''-'' else []))"
  shows "numeral_val base (printint xx base sign) = (if neg then - int (unat x) else int (unat x))" and "length (printint xx base sign) \<le> 15"
proof -
  have "(5 :: nat) ^ 14 \<le> base ^ 14" using b(1) by (rule power_mono) simp
  then have "unat x < base ^ 14" using unsigned_less [where 'a = nat, of x] by simp
  then have len: "length (int_digits base (unat x)) \<le> 14" using length_int_digits [of base "unat x" 14] b(1) by simp
  have val: "foldl (\<lambda>n c. int base * n + int (digit_val c)) 0 (rev (int_digits base (unat x))) = int (unat x)"
    using b by (intro foldl_int_digits) simp_all
  obtain d ds where ds: "rev (int_digits base (unat x)) = d # ds"
    using int_digits_ne [of base "unat x"] by (cases "rev (int_digits base (unat x))") auto
  then have "d \<noteq> 45" using int_digits_hd [of base "unat x"] arg_cong [OF ds, of set] b by auto
  then have v: "numeral_val base (d # ds) = int (unat x)" "numeral_val base (45 # d # ds) = - int (unat x)"
    using val by (simp_all add: numeral_val_def ds)
  have l: "length (d # ds) \<le> 14" using len unfolding ds [symmetric] length_rev .
  have e: "printint xx base sign = (if neg then [45] else []) @ d # ds" unfolding p by (simp add: ds chars_def)
  show "numeral_val base (printint xx base sign) = (if neg then - int (unat x) else int (unat x))" unfolding e using v by simp
  show "length (printint xx base sign) \<le> 15" unfolding e using l by simp
qed

text \<open>
  C19: The kernel prints numbers correctly. For every \<open>int\<close> but the least, whose negation overflows, and every base from 5, below
  which the buffer is too small, to 16, the number of digits, the characters that \<open>printint\<close> sends are the signed numeral of
  \<open>xx\<close> or, when it is not asked for the sign, the numeral of \<open>xx\<close> as an unsigned number, and the buffer of 16 bytes is not overrun.
\<close>

theorem printint_numerals:
  assumes "5 \<le> base" and "base \<le> 16" and "- INT_MAX \<le> xx" and "xx \<le> INT_MAX"
  shows "numeral_val base (printint xx base True) = xx \<and> numeral_val base (printint xx base False) = xx mod 2 ^ 32 \<and>
    length (printint xx base sign) \<le> 16"
proof (intro conjI)
  have u: "int (unat (of_int y :: uint32)) = y" if "0 \<le> y" "y \<le> INT_MAX" for y
    using that by (simp add: unsigned_of_int take_bit_int_eq_self INT_MAX_def)
  show "numeral_val base (printint xx base True) = xx"
  proof (cases "xx < 0")
    case True
    then have "int32 (- xx) = - xx" using assms(3) by (intro int32_id) (simp_all add: INT_MAX_def)
    then show ?thesis using printint_numeral(1) [OF assms(1,2) refl, where neg = True and xx = xx and sign = True] True u [of "- xx"] assms(3)
      by (simp add: printint_def)
  next
    case False
    then show ?thesis using printint_numeral(1) [OF assms(1,2) refl, where neg = False and xx = xx and sign = True] u [of xx] assms(4) by (simp add: printint_def)
  qed
  have "int (unat (of_int xx :: uint32)) = xx mod 2 ^ 32" by (simp add: unsigned_of_int take_bit_eq_mod)
  then show "numeral_val base (printint xx base False) = xx mod 2 ^ 32"
    using printint_numeral(1) [OF assms(1,2) refl, where neg = False and xx = xx and sign = False] by (simp add: printint_def)
  show "length (printint xx base sign) \<le> 16"
    using printint_numeral(2) [OF assms(1,2) refl, where neg = "sign \<and> xx < 0" and xx = xx and sign = sign] by (simp add: printint_def Let_def)
qed

theorem printint_numerals_witness:
  "numeral_val 16 (printint (-255) 16 True) = -255 \<and> numeral_val 16 (printint (-255) 16 False) = 4294967041 \<and> length (printint (-255) 16 True) \<le> 16"
  using printint_numerals [of 16 "-255" True] by (simp add: INT_MAX_def)

end
