(* ===== verification/Console.thy ===== *)
theory Console
  imports Dir Ring Printf
begin

text \<open>
  The serial line and the console, \<^verbatim>\<open>kernel/uart.c\<close>, \<^verbatim>\<open>kernel/console.c\<close> and \<open>procdump\<close> of
  \<^verbatim>\<open>kernel/proc.c\<close>.

  The 16550 is outside the kernel. \<open>u_lsr\<close> and \<open>u_rhr\<close> are the values that the next reads of its line
  status and receive registers will give, in order, whatever they are; when the list of statuses has
  run out the transmitter stays idle and nothing more is received. \<open>u_writes\<close> is the trace of the writes to
  its registers. So a loop that waits for the transmitter ends. \<open>panicked\<close> stops every CPU in these
  routines; a panic ends a run of the model, so it is never set here.

  A system call that sleeps in the middle of a transfer keeps its place in local variables: the
  routines with suffix \<open>_from\<close> start from that place and return either their result or the place where they
  went to sleep.

  The theorem: the input interrupt handler with its circular buffer implements a line discipline on two
  queues, the finished lines and the line being edited.
\<close>

subsection \<open>Calls that sleep in the middle\<close>

datatype ('a, 'r) progress = Done 'a | Wait 'r

definition wait_at :: "'r \<Rightarrow> ('a, 's) routine \<Rightarrow> (('a, 'r) progress, 's) routine" where
  "wait_at r m s = (case m s of Ok x s' \<Rightarrow> Ok (Done x) s' | Block s' \<Rightarrow> Ok (Wait r) s' | Panic msg \<Rightarrow> Panic msg)"

definition finish :: "(('a, 'r) progress, 's) routine \<Rightarrow> ('a, 's) routine" where
  "finish m s = (case m s of Ok (Done x) s' \<Rightarrow> Ok x s' | Ok (Wait r) s' \<Rightarrow> Block s' | Block s' \<Rightarrow> Block s'
     | Panic msg \<Rightarrow> Panic msg)"

subsection \<open>State\<close>

datatype dev_fns = ConsoleFns

record cons = fs +
  u_lsr :: "byte list"
  u_rhr :: "byte list"
  u_writes :: "(nat \<times> byte) list"
  uart_tx_buf :: "byte list"
  uart_tx_w :: uint64
  uart_tx_r :: uint64
  cons_buf :: "byte list"
  cons_r :: uint32
  cons_w :: uint32
  cons_e :: uint32
  devsw :: "dev_fns option list"

definition UART_TX_BUF_SIZE :: nat where "UART_TX_BUF_SIZE = 32"
definition INPUT_BUF :: nat where "INPUT_BUF = 128"
definition NDEV :: nat where "NDEV = 10"
definition CONSOLE :: nat where "CONSOLE = 1"

definition THR :: nat where "THR = 0"
definition IER :: nat where "IER = 1"
definition FCR :: nat where "FCR = 2"
definition LCR :: nat where "LCR = 3"
definition LSR_RX_READY :: byte where "LSR_RX_READY = 1"
definition LSR_TX_IDLE :: byte where "LSR_TX_IDLE = push_bit 5 1"

subsection \<open>The serial line\<close>

definition read_lsr :: "(byte, 'a cons_scheme) routine" where
  "read_lsr = (\<lambda>s. case u_lsr s of [] \<Rightarrow> Ok LSR_TX_IDLE s | x # xs \<Rightarrow> Ok x (s\<lparr>u_lsr := xs\<rparr>))"

definition read_rhr :: "(byte, 'a cons_scheme) routine" where
  "read_rhr = (\<lambda>s. case u_rhr s of [] \<Rightarrow> Ok 0 s | x # xs \<Rightarrow> Ok x (s\<lparr>u_rhr := xs\<rparr>))"

definition WriteReg :: "nat \<Rightarrow> byte \<Rightarrow> (unit, 'a cons_scheme) routine" where
  "WriteReg reg v = modify (\<lambda>s. s\<lparr>u_writes := u_writes s @ [(reg, v)]\<rparr>)"

definition uartinit :: "(unit, 'a cons_scheme) routine" where
  "uartinit =
     bind (WriteReg IER 0) (\<lambda>_.
     bind (WriteReg LCR (push_bit 7 1)) (\<lambda>_.
     bind (WriteReg 0 3) (\<lambda>_.
     bind (WriteReg 1 0) (\<lambda>_.
     bind (WriteReg LCR 3) (\<lambda>_.
     bind (WriteReg FCR (1 OR push_bit 1 3)) (\<lambda>_.
     WriteReg IER (push_bit 1 1 OR 1)))))))"

text \<open>One turn of the loop of \<open>uartstart\<close> sends a character; the loop runs until the buffer is empty.\<close>

primrec uartstart_loop :: "nat \<Rightarrow> (unit, 'a cons_scheme) routine" where
  "uartstart_loop 0 = ret ()"
| "uartstart_loop (Suc k) =
     bind (gets id) (\<lambda>s.
       if uart_tx_w s = uart_tx_r s then ret ()
       else bind read_lsr (\<lambda>lsr.
         if lsr AND LSR_TX_IDLE = 0 then ret ()
         else let c = uart_tx_buf s ! (unat (uart_tx_r s) mod UART_TX_BUF_SIZE) in
           bind (modify (\<lambda>s. s\<lparr>uart_tx_r := uart_tx_r s + 1\<rparr>)) (\<lambda>_.
           bind (wakeup UartTx) (\<lambda>_.
           bind (WriteReg THR c) (\<lambda>_.
           uartstart_loop k)))))"

definition uartstart :: "(unit, 'a cons_scheme) routine" where
  "uartstart = bind (gets (\<lambda>s. unat (uart_tx_w s - uart_tx_r s))) uartstart_loop"

definition uartputc :: "byte \<Rightarrow> (unit, 'a cons_scheme) routine" where
  "uartputc c =
     bind (gets id) (\<lambda>s.
       if uart_tx_w s = uart_tx_r s + of_nat UART_TX_BUF_SIZE then sleep UartTx
       else
         bind (modify (\<lambda>s. s\<lparr>uart_tx_buf := (uart_tx_buf s)[unat (uart_tx_w s) mod UART_TX_BUF_SIZE := c],
           uart_tx_w := uart_tx_w s + 1\<rparr>)) (\<lambda>_.
         uartstart))"

text \<open>\<open>while((ReadReg(LSR) & LSR_TX_IDLE) == 0);\<close> skips the statuses of a busy transmitter.\<close>

definition uartputc_sync :: "byte \<Rightarrow> (unit, 'a cons_scheme) routine" where
  "uartputc_sync c =
     bind (modify (\<lambda>s. s\<lparr>u_lsr := drop 1 (dropWhile (\<lambda>x. x AND LSR_TX_IDLE = 0) (u_lsr s))\<rparr>)) (\<lambda>_.
     WriteReg THR c)"

definition uartgetc :: "(int, 'a cons_scheme) routine" where
  "uartgetc = bind read_lsr (\<lambda>lsr. if lsr AND 1 \<noteq> 0 then bind read_rhr (\<lambda>c. ret (uint c)) else ret (-1))"

subsection \<open>The console\<close>

definition BACKSPACE :: int where "BACKSPACE = 0x100"

definition ctrl :: "char \<Rightarrow> int" where
  "ctrl x = of_char x - 64"

definition consputc :: "int \<Rightarrow> (unit, 'a cons_scheme) routine" where
  "consputc c =
     (if c = BACKSPACE then
        bind (uartputc_sync 8) (\<lambda>_. bind (uartputc_sync 32) (\<lambda>_. uartputc_sync 8))
      else uartputc_sync (of_int c))"

definition printf :: "string \<Rightarrow> parg list \<Rightarrow> (unit, 'a cons_scheme) routine" where
  "printf fmt ap = (case printf_chars (chars fmt) ap of
     None \<Rightarrow> panic ''undefined behaviour: printf arguments''
   | Some cs \<Rightarrow> for_each cs (\<lambda>c. consputc (uint c)))"

definition state_name :: "procstate \<Rightarrow> string" where
  "state_name st = (case st of UNUSED \<Rightarrow> ''unused'' | SLEEPING \<Rightarrow> ''sleep '' | RUNNABLE \<Rightarrow> ''runble''
     | RUNNING \<Rightarrow> ''run   '' | ZOMBIE \<Rightarrow> ''zombie'' | USED \<Rightarrow> ''???'')"

definition procdump :: "(unit, 'a cons_scheme) routine" where
  "procdump =
     bind (printf [CHR 0x0A] []) (\<lambda>_.
     bind (gets procs) (\<lambda>ps.
     for_each ps (\<lambda>p.
       if p_state p = UNUSED then ret ()
       else
         bind (printf ''%d %s %s'' [AInt (p_pid p), AStr (Some (chars (state_name (p_state p)))),
           AStr (Some (takeWhile (\<lambda>c. c \<noteq> 0) (p_name p)))]) (\<lambda>_.
         printf [CHR 0x0A] []))))"

text \<open>The loop of \<open>consolewrite\<close> from character \<open>i\<close> on.\<close>

function consolewrite_from :: "bool \<Rightarrow> uint64 \<Rightarrow> int \<Rightarrow> int \<Rightarrow> ((int, int) progress, 'a cons_scheme) routine" where
  "consolewrite_from user_src src n i =
     (if i < n then
        bind (either_copyin user_src (src + of_int i) 1) (\<lambda>(r, bs).
          if r = -1 then ret (Done i)
          else bind (wait_at () (uartputc (hd bs))) (\<lambda>w.
            case w of Wait _ \<Rightarrow> ret (Wait i) | Done _ \<Rightarrow> consolewrite_from user_src src n (i + 1)))
      else ret (Done i))"
  by pat_completeness auto
termination by (relation "measure (\<lambda>(u, src, n, i). nat (n - i))") auto

declare consolewrite_from.simps [simp del]

definition consolewrite :: "bool \<Rightarrow> uint64 \<Rightarrow> int \<Rightarrow> (int, 'a cons_scheme) routine" where
  "consolewrite user_src src n = finish (consolewrite_from user_src src n 0)"

text \<open>The loop of \<open>consoleread\<close> with \<open>n\<close> of \<open>target\<close> characters to go.\<close>

function consoleread_from ::
  "bool \<Rightarrow> uint64 \<Rightarrow> int \<Rightarrow> int \<Rightarrow> ((int, uint64 \<times> int) progress, 'a cons_scheme) routine" where
  "consoleread_from user_dst dst n target =
     (if n > 0 then
        bind (gets id) (\<lambda>s.
          if cons_r s = cons_w s then
            bind myproc (\<lambda>p. bind (gets (\<lambda>s. p_killed (procs s ! p))) (\<lambda>killed.
              if killed then ret (Done (-1)) else wait_at (dst, n) (sleep ConsRead)))
          else let c = cons_buf s ! (unat (cons_r s) mod INPUT_BUF) in
            if uint c = ctrl (CHR ''D'') then
              bind (modify (\<lambda>s. if n < target then s else s\<lparr>cons_r := cons_r s + 1\<rparr>)) (\<lambda>_. ret (Done (target - n)))
            else
              bind (modify (\<lambda>s. s\<lparr>cons_r := cons_r s + 1\<rparr>)) (\<lambda>_.
              bind (either_copyout user_dst dst [c]) (\<lambda>r.
                if r = -1 then ret (Done (target - n))
                else if c = 10 then ret (Done (target - (n - 1)))
                else consoleread_from user_dst (dst + 1) (n - 1) target)))
      else ret (Done (target - n)))"
  by pat_completeness auto
termination by (relation "measure (\<lambda>(u, dst, n, target). nat n)") auto

declare consoleread_from.simps [simp del]

definition consoleread :: "bool \<Rightarrow> uint64 \<Rightarrow> int \<Rightarrow> (int, 'a cons_scheme) routine" where
  "consoleread user_dst dst n = finish (consoleread_from user_dst dst n n)"

primrec kill_line :: "nat \<Rightarrow> (unit, 'a cons_scheme) routine" where
  "kill_line 0 = ret ()"
| "kill_line (Suc k) =
     bind (gets id) (\<lambda>s.
       if cons_e s \<noteq> cons_w s \<and> cons_buf s ! (unat (cons_e s - 1) mod INPUT_BUF) \<noteq> 10 then
         bind (modify (\<lambda>s. s\<lparr>cons_e := cons_e s - 1\<rparr>)) (\<lambda>_.
         bind (consputc BACKSPACE) (\<lambda>_. kill_line k))
       else ret ())"

definition consoleintr :: "int \<Rightarrow> (unit, 'a cons_scheme) routine" where
  "consoleintr c =
     (if c = ctrl (CHR ''P'') then procdump
      else if c = ctrl (CHR ''U'') then bind (gets (\<lambda>s. unat (cons_e s - cons_w s))) kill_line
      else if c = ctrl (CHR ''H'') \<or> c = 0x7f then
        bind (gets id) (\<lambda>s.
          if cons_e s \<noteq> cons_w s then
            bind (modify (\<lambda>s. s\<lparr>cons_e := cons_e s - 1\<rparr>)) (\<lambda>_. consputc BACKSPACE)
          else ret ())
      else
        bind (gets id) (\<lambda>s.
          if c \<noteq> 0 \<and> unat (cons_e s - cons_r s) < INPUT_BUF then
            let c = (if c = 13 then 10 else c) in
            bind (consputc c) (\<lambda>_.
            bind (modify (\<lambda>s. s\<lparr>cons_buf := (cons_buf s)[unat (cons_e s) mod INPUT_BUF := of_int c],
              cons_e := cons_e s + 1\<rparr>)) (\<lambda>_.
            bind (gets id) (\<lambda>s.
              if c = 10 \<or> c = ctrl (CHR ''D'') \<or> cons_e s = cons_r s + of_nat INPUT_BUF then
                bind (modify (\<lambda>s. s\<lparr>cons_w := cons_e s\<rparr>)) (\<lambda>_. wakeup ConsRead)
              else ret ())))
          else ret ()))"

definition consoleinit :: "(unit, 'a cons_scheme) routine" where
  "consoleinit =
     bind uartinit (\<lambda>_.
     modify (\<lambda>s. s\<lparr>devsw := (devsw s)[CONSOLE := Some ConsoleFns]\<rparr>))"

text \<open>
  The receive loop of \<open>uartintr\<close>: each turn consumes a status, so it ends within the number of statuses that
  report a character, plus one.
\<close>

primrec uartintr_loop :: "nat \<Rightarrow> (unit, 'a cons_scheme) routine" where
  "uartintr_loop 0 = ret ()"
| "uartintr_loop (Suc k) =
     bind uartgetc (\<lambda>c. if c = -1 then ret () else bind (consoleintr c) (\<lambda>_. uartintr_loop k))"

definition uartintr :: "(unit, 'a cons_scheme) routine" where
  "uartintr =
     bind (gets (\<lambda>s. Suc (length (u_lsr s)))) (\<lambda>k.
     bind (uartintr_loop k) (\<lambda>_.
     uartstart))"

subsection \<open>The circular buffers as queues\<close>


interpretation cons_ring: ring_buffer INPUT_BUF "TYPE(32)"
  by unfold_locales (simp_all add: INPUT_BUF_def)







definition demo_cons :: cons where
  "demo_cons = \<lparr>pmem = (\<lambda>_. 0), freelist = 0, kend = 0x80100000,
     procs = [unused_slot\<lparr>p_state := RUNNING, p_pid := 1\<rparr>], cur = Some 0, nextpid = 2, initproc = Some 0,
     ticks = 0, sym_trampoline = 0x80007000, sym_forkret = 0x80001000,
     bufs = replicate NBUF free_buf, lru = [0..<NBUF], disk = (\<lambda>_. replicate BSIZE 0), wrote = [],
     lg_start = 2, lg_size = 30, lg_outstanding = 0, lg_committing = False, lg_dev = ROOTDEV, lh_n = 0,
     lh_block = replicate (nat LOGSIZE) 0,
     sb = dec_superblock (replicate BSIZE 0), itable = [],
     u_lsr = [0], u_rhr = [], u_writes = [], uart_tx_buf = replicate UART_TX_BUF_SIZE 0,
     uart_tx_w = -1, uart_tx_r = -1, cons_buf = replicate INPUT_BUF 0, cons_r = -1, cons_w = -1, cons_e = -1,
     devsw = replicate NDEV None\<rparr>"


subsection \<open>The line discipline\<close>

text \<open>The specification: finished input, and the line being edited.\<close>

definition line_intr :: "int \<Rightarrow> byte list \<times> byte list \<Rightarrow> byte list \<times> byte list" where
  "line_intr c ql = (let (q, l) = ql in
     if c = ctrl (CHR ''P'') then (q, l)
     else if c = ctrl (CHR ''U'') then (q, [])
     else if c = ctrl (CHR ''H'') \<or> c = 0x7f then (q, butlast l)
     else if c = 0 \<or> length q + length l \<ge> INPUT_BUF then (q, l)
     else let c = (if c = 13 then 10 else c); l = l @ [of_int c] in
       if c = 10 \<or> c = ctrl (CHR ''D'') \<or> length q + length l = INPUT_BUF then (q @ l, []) else (q, l))"

definition line_state :: "'a cons_scheme \<Rightarrow> byte list \<times> byte list" where
  "line_state s = (ring INPUT_BUF (cons_buf s) (cons_r s) (cons_w s), ring INPUT_BUF (cons_buf s) (cons_w s) (cons_e s))"

definition cons_ok :: "'a cons_scheme \<Rightarrow> bool" where
  "cons_ok s \<longleftrightarrow> length (cons_buf s) = INPUT_BUF \<and> unat (cons_e s - cons_r s) \<le> INPUT_BUF \<and>
     unat (cons_w s - cons_r s) \<le> unat (cons_e s - cons_r s) \<and> 10 \<notin> set (snd (line_state s))"

text \<open>Routines that only write to the serial line.\<close>

definition out_only :: "(unit, 'a cons_scheme) routine \<Rightarrow> bool" where
  "out_only f \<longleftrightarrow> (\<forall>s. \<exists>l w. f s = Ok () (s\<lparr>u_lsr := l, u_writes := w\<rparr>))"

lemma out_only_ret: "out_only (ret ())"
  unfolding out_only_def by (intro allI, rule_tac x = "u_lsr s" in exI, rule_tac x = "u_writes s" in exI) simp

lemma out_only_bind:
  assumes "out_only f" and "out_only g"
  shows "out_only (bind f (\<lambda>_. g))"
  unfolding out_only_def
proof
  fix s
  obtain l w where f: "f s = Ok () (s\<lparr>u_lsr := l, u_writes := w\<rparr>)" using assms(1) unfolding out_only_def by blast
  obtain l' w' where "g (s\<lparr>u_lsr := l, u_writes := w\<rparr>) = Ok () (s\<lparr>u_lsr := l, u_writes := w\<rparr>\<lparr>u_lsr := l', u_writes := w'\<rparr>)"
    using assms(2) unfolding out_only_def by blast
  then show "\<exists>l w. bind f (\<lambda>_. g) s = Ok () (s\<lparr>u_lsr := l, u_writes := w\<rparr>)" using f by (auto simp: bind_def)
qed

lemma out_only_gets: "(\<And>x. out_only (f x)) \<Longrightarrow> out_only (bind (gets g) f)"
  unfolding out_only_def bind_gets_eval by blast

lemma out_only_sync: "out_only (uartputc_sync c)"
  unfolding out_only_def uartputc_sync_def WriteReg_def by auto

lemma out_only_consputc: "out_only (consputc c)"
  unfolding consputc_def by (auto intro: out_only_bind out_only_sync)

lemma out_only_for_each: "(\<And>x. x \<in> set xs \<Longrightarrow> out_only (f x)) \<Longrightarrow> out_only (for_each xs f)"
  by (induction xs) (auto intro: out_only_ret out_only_bind)

lemma out_only_printf: "printf_chars (chars fmt) ap \<noteq> None \<Longrightarrow> out_only (printf fmt ap)"
  unfolding printf_def by (cases "printf_chars (chars fmt) ap") (simp_all add: out_only_for_each out_only_consputc)

lemma out_only_procdump: "out_only procdump"
proof -
  have nl: "out_only (printf [CHR 0x0A] [])" by (rule out_only_printf) (simp add: chars_def)
  have line: "out_only (printf ''%d %s %s'' [AInt n, AStr (Some x), AStr (Some y)])" for n x y
    by (rule out_only_printf) (simp add: chars_def)
  have body: "out_only (for_each ps (\<lambda>p. if p_state p = UNUSED then ret ()
      else bind (printf ''%d %s %s'' [AInt (p_pid p), AStr (Some (chars (state_name (p_state p)))),
        AStr (Some (takeWhile (\<lambda>c. c \<noteq> 0) (p_name p)))]) (\<lambda>_. printf [CHR 0x0A] [])))" for ps
    by (rule out_only_for_each) (simp add: out_only_ret out_only_bind line nl)
  show ?thesis unfolding procdump_def by (intro out_only_bind [OF nl] out_only_gets body)
qed

lemma out_only_lines:
  assumes "out_only f"
  obtains s' where "f s = Ok () s'" and "line_state s' = line_state s" and "cons_ok s' = cons_ok s"
    and "cons_buf s' = cons_buf s" and "cons_r s' = cons_r s" and "cons_w s' = cons_w s" and "cons_e s' = cons_e s"
proof -
  obtain l w where f: "f s = Ok () (s\<lparr>u_lsr := l, u_writes := w\<rparr>)" using assms unfolding out_only_def by blast
  show ?thesis by (rule that [OF f]) (simp_all add: line_state_def cons_ok_def)
qed

lemma line_erase:
  assumes "cons_ok s" and "cons_e s \<noteq> cons_w s"
  shows "cons_ok (s\<lparr>cons_e := cons_e s - 1\<rparr>)"
    and "line_state (s\<lparr>cons_e := cons_e s - 1\<rparr>) = (fst (line_state s), butlast (snd (line_state s)))"
    and "unat (cons_e s - 1 - cons_w s) < unat (cons_e s - cons_w s)"
    and "last (snd (line_state s)) = cons_buf s ! (unat (cons_e s - 1) mod INPUT_BUF)"
proof -
  let ?l = "ring INPUT_BUF (cons_buf s) (cons_w s) (cons_e s)"
  have un: "?l = ring INPUT_BUF (cons_buf s) (cons_w s) (cons_e s - 1) @ [cons_buf s ! (unat (cons_e s - 1) mod INPUT_BUF)]"
    using assms(2) by (intro cons_ring.ring_unpush) simp
  then have "length ?l = Suc (length (ring INPUT_BUF (cons_buf s) (cons_w s) (cons_e s - 1)))" by simp
  then have d: "unat (cons_e s - cons_w s) = Suc (unat (cons_e s - 1 - cons_w s))" by (simp add: cons_ring.length_ring)
  then show "unat (cons_e s - 1 - cons_w s) < unat (cons_e s - cons_w s)" by simp
  show ls: "line_state (s\<lparr>cons_e := cons_e s - 1\<rparr>) = (fst (line_state s), butlast (snd (line_state s)))"
    by (simp add: line_state_def un)
  show "last (snd (line_state s)) = cons_buf s ! (unat (cons_e s - 1) mod INPUT_BUF)" by (simp add: line_state_def un)
  have le: "unat (cons_w s - cons_r s) \<le> unat (cons_e s - cons_r s)" using assms(1) by (simp add: cons_ok_def)
  have "unat (cons_e s - cons_w s) = unat (cons_e s - cons_r s) - unat (cons_w s - cons_r s)"
    by (rule cons_ring.ring_split(2) [OF le])
  then have gt: "unat (cons_w s - cons_r s) < unat (cons_e s - cons_r s)" using d by simp
  then have "cons_e s - cons_r s \<noteq> 0" by auto
  then have "unat (cons_e s - 1 - cons_r s) = unat (cons_e s - cons_r s) - 1"
    using unat_minus_one [of "cons_e s - cons_r s"] by (simp add: algebra_simps)
  moreover have "set (butlast (snd (line_state s))) \<subseteq> set (snd (line_state s))" by (auto dest: in_set_butlastD)
  ultimately show "cons_ok (s\<lparr>cons_e := cons_e s - 1\<rparr>)" using assms(1) gt ls by (auto simp: cons_ok_def)
qed

lemma kill_line_spec:
  assumes "cons_ok s" and "unat (cons_e s - cons_w s) \<le> k"
  shows "\<exists>s'. kill_line k s = Ok () s' \<and> cons_ok s' \<and> line_state s' = (fst (line_state s), [])"
  using assms
proof (induction k arbitrary: s)
  case 0
  then have "cons_e s = cons_w s" by (simp add: unat_eq_0)
  then show ?case using 0 by (simp add: line_state_def)
next
  case (Suc k)
  show ?case
  proof (cases "cons_e s = cons_w s")
    case True
    then show ?thesis using Suc.prems by (simp add: line_state_def)
  next
    case False
    note e = line_erase [OF Suc.prems(1) False]
    have "snd (line_state s) \<noteq> []"
      using False by (simp add: line_state_def ring_def unat_eq_0)
    then have "cons_buf s ! (unat (cons_e s - 1) mod INPUT_BUF) \<noteq> 10"
      using e(4) Suc.prems(1) last_in_set [of "snd (line_state s)"] by (auto simp: cons_ok_def)
    let ?t = "s\<lparr>cons_e := cons_e s - 1\<rparr>"
    obtain u where u: "consputc BACKSPACE ?t = Ok () u" "line_state u = line_state ?t" "cons_ok u = cons_ok ?t"
        "cons_w u = cons_w ?t" "cons_e u = cons_e ?t"
      using out_only_lines [OF out_only_consputc] by metis
    have "unat (cons_e u - cons_w u) \<le> k" using u(4,5) e(3) Suc.prems(2) by simp
    then obtain v where v: "kill_line k u = Ok () v" "cons_ok v" "line_state v = (fst (line_state u), [])"
      using Suc.IH [of u] u(3) e(1) by auto
    then show ?thesis
      using False \<open>cons_buf s ! _ \<noteq> 10\<close> u(1,2) e(2) by (auto simp: bind_def)
  qed
qed

lemma line_append:
  assumes "cons_ok s" and "unat (cons_e s - cons_r s) < INPUT_BUF"
    and t_def: "t = s\<lparr>cons_buf := (cons_buf s)[unat (cons_e s) mod INPUT_BUF := b], cons_e := cons_e s + 1\<rparr>"
  shows "line_state t = (fst (line_state s), snd (line_state s) @ [b])"
    and "unat (cons_e t - cons_r t) = Suc (unat (cons_e s - cons_r s))"
    and "unat (cons_w t - cons_r t) \<le> unat (cons_e t - cons_r t)"
proof -
  have le: "unat (cons_w s - cons_r s) \<le> unat (cons_e s - cons_r s)" and len: "length (cons_buf s) = INPUT_BUF"
    using assms(1) by (simp_all add: cons_ok_def)
  show d: "unat (cons_e t - cons_r t) = Suc (unat (cons_e s - cons_r s))"
    using cons_ring.next_counter(1) [OF assms(2)] by (simp add: t_def)
  then show le': "unat (cons_w t - cons_r t) \<le> unat (cons_e t - cons_r t)" using le by (simp add: t_def)
  have "ring INPUT_BUF (cons_buf t) (cons_r t) (cons_e t) = ring INPUT_BUF (cons_buf s) (cons_r s) (cons_e s) @ [b]"
    using cons_ring.ring_push [OF assms(2) len, of b] by (simp add: t_def)
  then have "ring INPUT_BUF (cons_buf t) (cons_r t) (cons_w t) @ ring INPUT_BUF (cons_buf t) (cons_w t) (cons_e t) =
      ring INPUT_BUF (cons_buf s) (cons_r s) (cons_w s) @ ring INPUT_BUF (cons_buf s) (cons_w s) (cons_e s) @ [b]"
    using cons_ring.ring_split(1) [OF le', of "cons_buf t"] cons_ring.ring_split(1) [OF le, of "cons_buf s"] by simp
  moreover have "length (ring INPUT_BUF (cons_buf t) (cons_r t) (cons_w t)) = length (ring INPUT_BUF (cons_buf s) (cons_r s) (cons_w s))"
    by (simp add: cons_ring.length_ring t_def)
  ultimately show "line_state t = (fst (line_state s), snd (line_state s) @ [b])"
    by (simp add: line_state_def append_eq_append_conv)
qed

lemma length_line_state:
  "cons_ok s \<Longrightarrow> length (fst (line_state s)) + length (snd (line_state s)) = unat (cons_e s - cons_r s)"
  using cons_ring.ring_split(2) [of "cons_w s" "cons_r s" "cons_e s"]
  by (simp add: line_state_def cons_ring.length_ring cons_ok_def)

lemma line_commit:
  assumes "unat (cons_w s - cons_r s) \<le> unat (cons_e s - cons_r s)"
  shows "line_state (s\<lparr>cons_w := cons_e s\<rparr>) = (fst (line_state s) @ snd (line_state s), [])"
  using cons_ring.ring_split(1) [OF assms, of "cons_buf s"] by (simp add: line_state_def)

lemma consoleintr_char:
  assumes ok: "cons_ok s" and c: "0 < c" "c < 256" "c \<noteq> ctrl (CHR ''P'')" "c \<noteq> ctrl (CHR ''U'')"
    "c \<noteq> ctrl (CHR ''H'')" "c \<noteq> 0x7f" and room: "unat (cons_e s - cons_r s) < INPUT_BUF"
  shows "\<exists>s'. consoleintr c s = Ok () s' \<and> cons_ok s' \<and> line_state s' = line_intr c (line_state s)"
proof -
  define k where "k = (if c = 13 then 10 else c)"
  have "uint (of_int k :: byte) = k" using c by (simp add: k_def unsigned_of_int take_bit_int_eq_self)
  then have kr: "(of_int k = (10 :: byte)) \<longleftrightarrow> k = 10" by auto
  obtain t where t: "consputc k s = Ok () t" "line_state t = line_state s" "cons_ok t" "cons_r t = cons_r s"
      "cons_e t = cons_e s" using out_only_lines [OF out_only_consputc] ok by metis
  define u where "u = t\<lparr>cons_buf := (cons_buf t)[unat (cons_e t) mod INPUT_BUF := of_int k], cons_e := cons_e t + 1\<rparr>"
  have rt: "unat (cons_e t - cons_r t) < INPUT_BUF" using room t by simp
  note a = line_append [OF t(3) rt u_def]
  let ?q = "fst (line_state s)" and ?l = "snd (line_state s)"
  have lu: "line_state u = (?q, ?l @ [of_int k])" using a(1) t(2) by simp
  have len: "length ?q + length ?l = unat (cons_e s - cons_r s)" by (rule length_line_state [OF ok])
  have full: "cons_e u = cons_r u + of_nat INPUT_BUF \<longleftrightarrow> Suc (length ?q + length ?l) = INPUT_BUF"
    using cons_ring.ring_full [of "cons_e u" "cons_r u"] a(2) t len by simp
  have bu: "length (cons_buf u) = INPUT_BUF" "unat (cons_e u - cons_r u) \<le> INPUT_BUF"
    using t(3) a(2) rt by (simp_all add: u_def cons_ok_def)
  have run: "consoleintr c s = (if k = 10 \<or> k = ctrl (CHR ''D'') \<or> cons_e u = cons_r u + of_nat INPUT_BUF
      then bind (modify (\<lambda>s. s\<lparr>cons_w := cons_e s\<rparr>)) (\<lambda>_. wakeup ConsRead) u else Ok () u)"
    using c room t(1) by (simp add: consoleintr_def Let_def k_def [symmetric] bind_def u_def)
  have spec: "line_intr c (line_state s) = (if k = 10 \<or> k = ctrl (CHR ''D'') \<or> Suc (length ?q + length ?l) = INPUT_BUF
      then (?q @ ?l @ [of_int k], []) else (?q, ?l @ [of_int k]))"
    using c room len by (simp add: line_intr_def Let_def k_def [symmetric] case_prod_beta)
  show ?thesis
  proof (cases "k = 10 \<or> k = ctrl (CHR ''D'') \<or> Suc (length ?q + length ?l) = INPUT_BUF")
    case True
    obtain ps where ps: "wakeup ConsRead (u\<lparr>cons_w := cons_e u\<rparr>) = Ok () (u\<lparr>cons_w := cons_e u\<rparr>\<lparr>procs := ps\<rparr>)"
      using wakeup_eval by blast
    let ?v = "u\<lparr>cons_w := cons_e u, procs := ps\<rparr>"
    have "line_state ?v = line_state (u\<lparr>cons_w := cons_e u\<rparr>)" by (simp add: line_state_def)
    then have lv: "line_state ?v = (?q @ ?l @ [of_int k], [])" using line_commit [OF a(3)] lu by simp
    moreover have "cons_ok ?v" using lv bu by (simp add: cons_ok_def)
    ultimately show ?thesis using run spec True full ps by auto
  next
    case False
    then have "cons_ok u" using lu bu a(3) kr t(2,3) by (auto simp: cons_ok_def)
    then show ?thesis using run spec False full lu by auto
  qed
qed

text \<open>
  C21: The console implements its line discipline. From any state of the circular buffer, and whatever the
  serial line reports while characters are echoed, handling input character \<open>c\<close> changes the finished input and
  the line being edited as the specification says: control-U clears the line, backspace removes its last
  character, a character that finds the buffer full is dropped, a carriage return becomes a newline,
  and a newline, control-D or a full buffer hands the line to the readers.
\<close>

theorem console_line_discipline:
  assumes "cons_ok s" and "0 \<le> c" and "c < 256"
  shows "\<exists>s'. consoleintr c s = Ok () s' \<and> cons_ok s' \<and> line_state s' = line_intr c (line_state s)"
proof -
  have len: "length (fst (line_state s)) + length (snd (line_state s)) = unat (cons_e s - cons_r s)"
    by (rule length_line_state [OF assms(1)])
  have ctrls: "ctrl (CHR ''P'') = 16" "ctrl (CHR ''U'') = 21" "ctrl (CHR ''H'') = 8" by (simp_all add: ctrl_def)
  consider "c = 16" | "c = 21" | "c = 8 \<or> c = 0x7f" | "c = 0 \<or> unat (cons_e s - cons_r s) \<ge> INPUT_BUF" "c \<notin> {16, 21, 8, 0x7f}"
    | "0 < c" "c \<notin> {16, 21, 8, 0x7f}" "unat (cons_e s - cons_r s) < INPUT_BUF" using assms(2) by fastforce
  then show ?thesis
  proof cases
    case 1
    obtain t where "procdump s = Ok () t" "line_state t = line_state s" "cons_ok t = cons_ok s"
      using out_only_lines [OF out_only_procdump] by metis
    then show ?thesis using 1 assms(1) by (simp add: consoleintr_def line_intr_def ctrls case_prod_beta)
  next
    case 2
    then show ?thesis using kill_line_spec [OF assms(1) order_refl]
      by (simp add: consoleintr_def line_intr_def ctrls case_prod_beta)
  next
    case 3
    show ?thesis
    proof (cases "cons_e s = cons_w s")
      case True
      then have "snd (line_state s) = []" by (simp add: line_state_def)
      then show ?thesis using True 3 assms(1) by (auto simp: consoleintr_def line_intr_def ctrls case_prod_beta prod_eq_iff)
    next
      case False
      let ?t = "s\<lparr>cons_e := cons_e s - 1\<rparr>"
      obtain u where "consputc BACKSPACE ?t = Ok () u" "line_state u = line_state ?t" "cons_ok u = cons_ok ?t"
        using out_only_lines [OF out_only_consputc] by metis
      then show ?thesis using False 3 line_erase(1,2) [OF assms(1) False]
        by (auto simp: consoleintr_def line_intr_def ctrls case_prod_beta bind_def)
    qed
  next
    case 4
    then show ?thesis using assms(1) len by (auto simp: consoleintr_def line_intr_def ctrls case_prod_beta)
  next
    case 5
    then show ?thesis using consoleintr_char [OF assms(1) 5(1) assms(3) _ _ _ _ 5(3)] by (auto simp: ctrls)
  qed
qed

theorem console_line_discipline_witness:
  "\<exists>s'. consoleintr 13 demo_cons = Ok () s' \<and> line_state s' = ([10], [])"
proof -
  have "cons_ok demo_cons" "line_state demo_cons = ([], [])"
    by (simp_all add: cons_ok_def line_state_def demo_cons_def)
  then show ?thesis
    using console_line_discipline [of demo_cons 13] by (auto simp: line_intr_def ctrl_def INPUT_BUF_def)
qed

end
