(* ===== verification/Pipe.thy ===== *)
theory Pipe
  imports Console
begin

text \<open>
  Pipes, \<^verbatim>\<open>kernel/pipe.c\<close>, and the tables of \<^verbatim>\<open>kernel/file.h\<close>; \<open>pipealloc\<close> is in theory \<open>File\<close>
  with the routines it calls.

  A pipe lives in a page of its own; \<open>pipes\<close> gives the structure in the page at an address, and the address
  is the \<open>struct pipe *\<close>. The addresses of its two counters are its sleep channels. A reader that finds the
  pipe empty sleeps before it has done anything, so it calls \<open>piperead\<close> anew when it is woken; a writer that
  finds it full has written \<open>i\<close> bytes and goes on from there (\<open>pipewrite_from\<close>).
  \<open>stat_pad\<close> is what the four bytes of padding of a \<open>struct stat\<close> on the kernel stack hold.

  The theorem: a pipe is a queue of at most 512 bytes, through wrap-around of its 32-bit counters.
\<close>

datatype fdtype = FD_NONE | FD_PIPE | FD_INODE | FD_DEVICE

record kfile =
  f_type :: fdtype
  f_ref :: int
  f_readable :: bool
  f_writable :: bool
  f_pipe :: uint64
  f_ip :: "nat option"
  f_off :: uint32
  f_major :: uint16

definition PIPESIZE :: nat where "PIPESIZE = 512"

record pipe =
  pi_data :: "byte list"
  pi_nread :: uint32
  pi_nwrite :: uint32
  pi_readopen :: bool
  pi_writeopen :: bool

record files = cons +
  ftable :: "kfile list"
  pipes :: "uint64 \<Rightarrow> pipe"
  stat_pad :: "byte list"

definition upd_pipe :: "uint64 \<Rightarrow> (pipe \<Rightarrow> pipe) \<Rightarrow> (unit, 'a files_scheme) routine" where
  "upd_pipe pi f = modify (\<lambda>s. s\<lparr>pipes := (pipes s)(pi := f (pipes s pi))\<rparr>)"

definition pipeclose :: "uint64 \<Rightarrow> bool \<Rightarrow> (unit, 'a files_scheme) routine" where
  "pipeclose pi writable =
     bind (if writable then
         bind (upd_pipe pi (\<lambda>p. p\<lparr>pi_writeopen := False\<rparr>)) (\<lambda>_. wakeup (PipeRead (unat pi)))
       else
         bind (upd_pipe pi (\<lambda>p. p\<lparr>pi_readopen := False\<rparr>)) (\<lambda>_. wakeup (PipeWrite (unat pi)))) (\<lambda>_.
     bind (gets (\<lambda>s. pipes s pi)) (\<lambda>p.
       if \<not> pi_readopen p \<and> \<not> pi_writeopen p then kfree pi else ret ()))"

function pipewrite_from :: "uint64 \<Rightarrow> uint64 \<Rightarrow> int \<Rightarrow> int \<Rightarrow> ((int, int) progress, 'a files_scheme) routine" where
  "pipewrite_from pi addr n i =
     (if i < n then
        bind myproc (\<lambda>pr.
        bind (gets (\<lambda>s. (pipes s pi, procs s ! pr))) (\<lambda>(p, proc).
          if \<not> pi_readopen p \<or> p_killed proc then ret (Done (-1))
          else if pi_nwrite p = pi_nread p + of_nat PIPESIZE then
            bind (wakeup (PipeRead (unat pi))) (\<lambda>_. wait_at i (sleep (PipeWrite (unat pi))))
          else
            bind (copyin (p_pagetable proc) (addr + of_int i) 1) (\<lambda>(r, ch).
              if r = -1 then bind (wakeup (PipeRead (unat pi))) (\<lambda>_. ret (Done i))
              else
                bind (upd_pipe pi (\<lambda>p. p\<lparr>pi_data := (pi_data p)[unat (pi_nwrite p) mod PIPESIZE := hd ch],
                  pi_nwrite := pi_nwrite p + 1\<rparr>)) (\<lambda>_.
                pipewrite_from pi addr n (i + 1)))))
      else bind (wakeup (PipeRead (unat pi))) (\<lambda>_. ret (Done i)))"
  by pat_completeness auto
termination by (relation "measure (\<lambda>(pi, addr, n, i). nat (n - i))") auto

declare pipewrite_from.simps [simp del]

definition pipewrite :: "uint64 \<Rightarrow> uint64 \<Rightarrow> int \<Rightarrow> (int, 'a files_scheme) routine" where
  "pipewrite pi addr n = finish (pipewrite_from pi addr n 0)"

function piperead_from :: "uint64 \<Rightarrow> uint64 \<Rightarrow> int \<Rightarrow> int \<Rightarrow> (int, 'a files_scheme) routine" where
  "piperead_from pi addr n i =
     (if i < n then
        bind myproc (\<lambda>pr.
        bind (gets (\<lambda>s. (pipes s pi, procs s ! pr))) (\<lambda>(p, proc).
          if pi_nread p = pi_nwrite p then ret i
          else
            bind (upd_pipe pi (\<lambda>p. p\<lparr>pi_nread := pi_nread p + 1\<rparr>)) (\<lambda>_.
            bind (copyout (p_pagetable proc) (addr + of_int i) [pi_data p ! (unat (pi_nread p) mod PIPESIZE)]) (\<lambda>r.
              if r = -1 then ret i else piperead_from pi addr n (i + 1)))))
      else ret i)"
  by pat_completeness auto
termination by (relation "measure (\<lambda>(pi, addr, n, i). nat (n - i))") auto

declare piperead_from.simps [simp del]

definition piperead :: "uint64 \<Rightarrow> uint64 \<Rightarrow> int \<Rightarrow> (int, 'a files_scheme) routine" where
  "piperead pi addr n =
     bind myproc (\<lambda>pr.
     bind (gets (\<lambda>s. (pipes s pi, procs s ! pr))) (\<lambda>(p, proc).
       if pi_nread p = pi_nwrite p \<and> pi_writeopen p then
         if p_killed proc then ret (-1) else sleep (PipeRead (unat pi))
       else
         bind (piperead_from pi addr n 0) (\<lambda>i.
         bind (wakeup (PipeWrite (unat pi))) (\<lambda>_.
         ret i))))"

subsection \<open>A pipe as a queue\<close>

interpretation pipe_ring: ring_buffer PIPESIZE "TYPE(32)"
  by unfold_locales (simp_all add: PIPESIZE_def)

definition pipe_queue :: "pipe \<Rightarrow> byte list" where
  "pipe_queue p = ring PIPESIZE (pi_data p) (pi_nread p) (pi_nwrite p)"

definition pipe_ok :: "pipe \<Rightarrow> bool" where
  "pipe_ok p \<longleftrightarrow> length (pi_data p) = PIPESIZE \<and> unat (pi_nwrite p - pi_nread p) \<le> PIPESIZE"

lemma length_pipe_queue: "length (pipe_queue p) = unat (pi_nwrite p - pi_nread p)"
  by (simp add: pipe_queue_def pipe_ring.length_ring)



lemma pipe_pop:
  assumes "pipe_ok p" and "pi_nread p \<noteq> pi_nwrite p"
  shows "pipe_queue p = pi_data p ! (unat (pi_nread p) mod PIPESIZE) # pipe_queue (p\<lparr>pi_nread := pi_nread p + 1\<rparr>)"
    and "pipe_ok (p\<lparr>pi_nread := pi_nread p + 1\<rparr>)"
proof -
  show *: "pipe_queue p = pi_data p ! (unat (pi_nread p) mod PIPESIZE) # pipe_queue (p\<lparr>pi_nread := pi_nread p + 1\<rparr>)"
    using pipe_ring.ring_pop [OF assms(2), of "pi_data p"] by (simp add: pipe_queue_def)
  then have "length (pipe_queue (p\<lparr>pi_nread := pi_nread p + 1\<rparr>)) < length (pipe_queue p)" by simp
  then show "pipe_ok (p\<lparr>pi_nread := pi_nread p + 1\<rparr>)" using assms(1) by (simp add: pipe_ok_def length_pipe_queue)
qed

text \<open>Address spaces depend on the memory alone.\<close>

lemma user_cong:
  fixes s :: "'a kmem_scheme" and s' :: "'b kmem_scheme"
  assumes "pmem s' = pmem s" and "freelist s' = freelist s" and "kend s' = kend s"
  shows "pt_inv s' root = pt_inv s root" and "uspace s' root = uspace s root" and "uaddr s' root va = uaddr s root va"
    and "ubyte s' root va = ubyte s root va" and "ubytes s' root va n = ubytes s root va n"
    and "umapped s' root va n = umapped s root va n" and "free_pages s' = free_pages s"
  using assms by (simp_all add: pt_inv_def kmem_inv_def kpage_def free_pages_def uspace_def pa_of_def uaddr_def Let_def
      ubyte_def ubytes_def umapped_def)

definition pipe_caller :: "'a files_scheme \<Rightarrow> uint64 \<Rightarrow> bool" where
  "pipe_caller s root \<longleftrightarrow> (\<exists>i<length (procs s). cur s = Some i \<and> p_state (procs s ! i) = RUNNING \<and>
     p_pagetable (procs s ! i) = root) \<and> pt_inv s root"





text \<open>
  \<open>took_from pi root a m s k s'\<close>: a reader of up to \<open>m\<close> bytes to address \<open>a\<close> moved the first \<open>k\<close> bytes of the
  pipe to user memory. If it stopped at an address that is not mapped, one more byte is gone.
\<close>

definition took_from :: "uint64 \<Rightarrow> uint64 \<Rightarrow> uint64 \<Rightarrow> nat \<Rightarrow> 'a files_scheme \<Rightarrow> nat \<Rightarrow> 'a files_scheme \<Rightarrow> bool" where
  "took_from pi root a m s k s' \<longleftrightarrow> k \<le> m \<and> k \<le> length (pipe_queue (pipes s pi)) \<and> pipe_ok (pipes s' pi) \<and>
     pt_inv s' root \<and> uspace s' root \<and> (\<forall>vb. uaddr s' root vb = uaddr s root vb) \<and>
     (\<forall>j<k. ubyte s' root (a + of_nat j) = Some (pipe_queue (pipes s pi) ! j)) \<and>
     (\<forall>vb. unat (vb - a) \<ge> k \<longrightarrow> ubyte s' root vb = ubyte s root vb) \<and>
     (if k < m \<and> k < length (pipe_queue (pipes s pi))
      then ubyte s root (a + of_nat k) = None \<and> pipe_queue (pipes s' pi) = drop (Suc k) (pipe_queue (pipes s pi))
      else pipe_queue (pipes s' pi) = drop k (pipe_queue (pipes s pi)))"

lemma copyout_byte_cases:
  fixes s :: "'a kmem_scheme"
  assumes "pt_inv s root" and "uspace s root"
  obtains (unmapped) "ubyte s root va = None" and "copyout root va [b] s = Ok (-1) s"
    | (mapped) s' where "ubyte s root va \<noteq> None" and "copyout root va [b] s = Ok 0 s'" and "copied_out root va [b] True s s'"
proof -
  have m: "umapped s root va (length [b]) \<longleftrightarrow> ubyte s root va \<noteq> None" by (simp add: umapped_def)
  obtain s' where s': "copyout root va [b] s = Ok (if umapped s root va (length [b]) then 0 else -1) s'"
      "copied_out root va [b] (umapped s root va (length [b])) s s'"
    using copyout_spec [OF assms, of "[b]" va] by auto
  show ?thesis
  proof (cases "ubyte s root va = None")
    case True
    then have "uaddr s root va = None" by (simp add: ubyte_def)
    then have "copyout root va [b] s = Ok (-1) s"
      using walkaddr_uaddr [OF assms(1), of va] by (subst copyout.simps) (simp add: bind_def Let_def)
    then show ?thesis using True by (intro unmapped)
  next
    case False
    then show ?thesis using s' m by (intro mapped [of s']) auto
  qed
qed

lemma copied_out_frame:
  fixes s :: "'a files_scheme"
  assumes "copied_out root va src ok s s'"
  shows "pipes s' = pipes s" "procs s' = procs s" "cur s' = cur s"
proof -
  have eq: "s' = s\<lparr>pmem := pmem s'\<rparr>" using assms by (simp add: copied_out_def)
  show "pipes s' = pipes s" "procs s' = procs s" "cur s' = cur s"
    using arg_cong [OF eq, of pipes] arg_cong [OF eq, of procs] arg_cong [OF eq, of cur] by simp_all
qed

lemma took_from_Suc:
  fixes s :: "'a files_scheme"
  assumes s1: "s1 = s\<lparr>pipes := (pipes s)(pi := q)\<rparr>" and q: "pipe_queue (pipes s pi) = b # pipe_queue q"
    and c: "copied_out root a [b] True s1 s2" and w: "took_from pi root (a + 1) m s2 k s'"
    and mapped: "ubyte s root a \<noteq> None" and small: "length (pipe_queue q) < 2 ^ 64 - 1"
  shows "took_from pi root a (Suc m) s (Suc k) s'"
proof -
  have pipe: "pipes s2 pi = q" using copied_out_frame [OF c] s1 by simp
  have cong: "ubyte s1 root vb = ubyte s root vb" "uaddr s1 root vb = uaddr s root vb" for vb
    using user_cong(3,4) [of s1 s] by (simp_all add: s1)
  have k: "k \<le> length (pipe_queue q)" "k < 2 ^ 64 - 1" using w small pipe by (auto simp: took_from_def)
  have here: "ubyte s2 root a = Some b" using c by (simp add: copied_out_def)
  have away: "ubyte s2 root vb = ubyte s root vb" if "unat (vb - a) \<ge> 1" for vb
    using c that cong by (simp add: copied_out_def)
  have last: "unat (a - (a + 1)) = 2 ^ 64 - 1" by (simp add: unat_word_ariths unsigned_minus_1_eq_mask mask_eq_exp_minus_1)
  have "ubyte s' root a = Some b" using w here k(2) last by (simp add: took_from_def)
  moreover have "ubyte s' root (a + of_nat (Suc j)) = Some (pipe_queue q ! j)" if "j < k" for j
    using w that pipe by (simp add: took_from_def add.assoc)
  ultimately have moved: "ubyte s' root (a + of_nat j) = Some ((b # pipe_queue q) ! j)" if "j < Suc k" for j
    using that by (cases j) auto
  have "ubyte s' root vb = ubyte s root vb" if "unat (vb - a) \<ge> Suc k" for vb
  proof -
    have "vb - a \<noteq> 0" using that by auto
    then have "unat (vb - (a + 1)) = unat (vb - a) - 1" using unat_minus_one [of "vb - a"] by (simp add: algebra_simps)
    then show ?thesis using w that away [of vb] by (simp add: took_from_def)
  qed
  moreover have "ubyte s2 root (a + 1 + of_nat k) = ubyte s root (a + 1 + of_nat k)"
  proof (rule away)
    have "unat (a + 1 + of_nat k - a) = Suc k" using k(2) by (simp add: unat_of_nat unat_word_ariths)
    then show "unat (a + 1 + of_nat k - a) \<ge> 1" by simp
  qed
  ultimately show ?thesis using w moved pipe q c cong
    by (auto simp: took_from_def copied_out_def add.assoc)
qed

lemma piperead_from_spec:
  fixes s :: "'a files_scheme"
  assumes "pipe_caller s root" and "uspace s root" and "pipe_ok (pipes s pi)" and "i \<le> n"
  shows "\<exists>k s'. piperead_from pi addr n i s = Ok (i + int k) s' \<and> took_from pi root (addr + of_int i) (nat (n - i)) s k s'"
  using assms
proof (induction "nat (n - i)" arbitrary: i s)
  case 0
  then have "i = n" by simp
  then show ?case using 0
    by (intro exI [of _ 0] exI [of _ s]) (simp add: piperead_from.simps took_from_def pipe_caller_def)
next
  case (Suc m)
  then have i: "i < n" by simp
  obtain p where p: "cur s = Some p" "p_pagetable (procs s ! p) = root" and pt: "pt_inv s root"
    using Suc.prems(1) by (auto simp: pipe_caller_def)
  let ?q = "pipes s pi"
  note unfold = piperead_from.simps [of pi addr n i]
  show ?case
  proof (cases "pi_nread ?q = pi_nwrite ?q")
    case True
    then have "pipe_queue ?q = []" using length_pipe_queue [of ?q] by simp
    then show ?thesis using True i p pt Suc.prems
      by (intro exI [of _ 0] exI [of _ s]) (simp add: unfold myproc_def bind_def took_from_def)
  next
    case False
    define q where "q = ?q\<lparr>pi_nread := pi_nread ?q + 1\<rparr>"
    define b where "b = pi_data ?q ! (unat (pi_nread ?q) mod PIPESIZE)"
    define s1 where "s1 = s\<lparr>pipes := (pipes s)(pi := q)\<rparr>"
    note q = pipe_pop [OF Suc.prems(3) False, folded q_def b_def]
    have cong: "pt_inv s1 root" "uspace s1 root" "\<And>vb. ubyte s1 root vb = ubyte s root vb" "\<And>vb. uaddr s1 root vb = uaddr s root vb"
      using user_cong(1-4) [of s1 s] pt Suc.prems(2) by (simp_all add: s1_def)
    have run: "piperead_from pi addr n i s = bind (copyout root (addr + of_int i) [b])
        (\<lambda>r. if r = -1 then ret i else piperead_from pi addr n (i + 1)) s1"
      using i p False by (subst unfold) (simp add: myproc_def bind_def upd_pipe_def s1_def q_def b_def)
    show ?thesis
    proof (cases rule: copyout_byte_cases [OF cong(1,2), of "addr + of_int i" b])
      case 1
      then show ?thesis using run i q cong
        by (intro exI [of _ 0] exI [of _ s1]) (simp add: bind_def took_from_def s1_def)
    next
      case (2 s2)
      note fr = copied_out_frame [OF 2(3)]
      have c: "pipe_caller s2 root" "uspace s2 root"
        using 2(3) fr Suc.prems(1) by (auto simp: pipe_caller_def copied_out_def s1_def)
      have m: "m = nat (n - (i + 1))" "i + 1 \<le> n" "nat (n - i) = Suc (nat (n - (i + 1)))" using Suc.hyps(2) i by auto
      obtain k s' where ks: "piperead_from pi addr n (i + 1) s2 = Ok (i + 1 + int k) s'"
          "took_from pi root (addr + of_int i + 1) (nat (n - (i + 1))) s2 k s'"
        using Suc.hyps(1) [OF m(1) c _ m(2)] fr(1) q(2) by (auto simp: s1_def algebra_simps)
      have "length (pipe_queue q) < 2 ^ 64 - 1" using q(2) by (simp add: pipe_ok_def length_pipe_queue PIPESIZE_def)
      from took_from_Suc [OF s1_def q(1) 2(3) ks(2) _ this] show ?thesis
        using run 2(1,2) cong(3) ks(1) m(3) by (intro exI [of _ "Suc k"] exI [of _ s']) (simp add: bind_def)
    qed
  qed
qed


definition demo_files :: files where
  "demo_files = cons.extend
     (demo_cons\<lparr>pmem := pmem demo, freelist := freelist demo, kend := kend demo,
        procs := [unused_slot\<lparr>p_state := RUNNING, p_pid := 1, p_pagetable := 0x87ff0000\<rparr>]\<rparr>)
     (files.fields []
       (\<lambda>_. \<lparr>pi_data = replicate PIPESIZE 7, pi_nread = -1, pi_nwrite = 0, pi_readopen = True, pi_writeopen = True\<rparr>) [1, 2, 3, 4])"

lemma demo_files_simps:
  "pmem demo_files = pmem demo" "freelist demo_files = freelist demo" "kend demo_files = kend demo"
  "procs demo_files = [unused_slot\<lparr>p_state := RUNNING, p_pid := 1, p_pagetable := 0x87ff0000\<rparr>]" "cur demo_files = Some 0"
  "pipes demo_files pi = \<lparr>pi_data = replicate PIPESIZE 7, pi_nread = -1, pi_nwrite = 0, pi_readopen = True, pi_writeopen = True\<rparr>"
  by (simp_all add: demo_files_def demo_cons_def cons.extend_def files.fields_def)

lemma demo_files_ok:
  "pipe_caller demo_files 0x87ff0000" "uspace demo_files 0x87ff0000" "pipe_ok (pipes demo_files pi)"
  "pipe_queue (pipes demo_files pi) = [7]" "ubyte demo_files 0x87ff0000 va = ubyte demo 0x87ff0000 va"
proof -
  note cong = user_cong [of demo_files demo, OF demo_files_simps(1-3)]
  show "pipe_caller demo_files 0x87ff0000" using cong(1) demo_inv by (simp add: pipe_caller_def demo_files_simps)
  show "uspace demo_files 0x87ff0000" using cong(2) demo_uspace by simp
  show "pipe_ok (pipes demo_files pi)" by (simp add: pipe_ok_def demo_files_simps PIPESIZE_def)
  show "pipe_queue (pipes demo_files pi) = [7]" by (simp add: pipe_queue_def ring_def demo_files_simps PIPESIZE_def)
  show "ubyte demo_files 0x87ff0000 va = ubyte demo 0x87ff0000 va" using cong(4) by simp
qed


text \<open>
  C23: a read from a pipe that holds bytes, or whose writing end is closed, returns the number \<open>k\<close> of bytes moved:
  the first \<open>k\<close> bytes of the queue are in the buffer and gone from the queue, and no other user byte changes. It
  moves as many bytes as it can; only when it meets an address that is not mapped is one byte more gone.
\<close>

theorem piperead_takes:
  fixes s :: "'a files_scheme"
  assumes "pipe_caller s root" and "uspace s root" and "pipe_ok (pipes s pi)" and "0 \<le> n"
    and "pipe_queue (pipes s pi) \<noteq> [] \<or> pi_writeopen (pipes s pi) = False"
  shows "\<exists>k s'. piperead pi a n s = Ok (int k) s' \<and> int k \<le> n \<and> k \<le> length (pipe_queue (pipes s pi)) \<and> pipe_ok (pipes s' pi) \<and>
     (\<forall>j<k. ubyte s' root (a + of_nat j) = Some (pipe_queue (pipes s pi) ! j)) \<and>
     (\<forall>vb. unat (vb - a) \<ge> k \<longrightarrow> ubyte s' root vb = ubyte s root vb) \<and>
     (if int k < n \<and> k < length (pipe_queue (pipes s pi))
      then ubyte s root (a + of_nat k) = None \<and> pipe_queue (pipes s' pi) = drop (Suc k) (pipe_queue (pipes s pi))
      else pipe_queue (pipes s' pi) = drop k (pipe_queue (pipes s pi)))"
proof -
  obtain k s1 where s1: "piperead_from pi a n 0 s = Ok (int k) s1" "took_from pi root a (nat n) s k s1"
    using piperead_from_spec [OF assms(1-4), of a] by auto
  obtain ps where ps: "wakeup (PipeWrite (unat pi)) s1 = Ok () (s1\<lparr>procs := ps\<rparr>)" using wakeup_eval by blast
  have "pi_nread (pipes s pi) = pi_nwrite (pipes s pi) \<Longrightarrow> pipe_queue (pipes s pi) = []"
    using length_pipe_queue [of "pipes s pi"] by simp
  then have "piperead pi a n s = Ok (int k) (s1\<lparr>procs := ps\<rparr>)"
    using assms(1,5) s1(1) ps by (auto simp: piperead_def pipe_caller_def myproc_def bind_def)
  moreover have "ubyte (s1\<lparr>procs := ps\<rparr>) root vb = ubyte s1 root vb" for vb by (rule user_cong(4)) simp_all
  ultimately show ?thesis using s1(2) assms(4)
    by (intro exI [of _ k] exI [of _ "s1\<lparr>procs := ps\<rparr>"]) (auto simp: took_from_def)
qed

theorem piperead_takes_witness:
  "\<exists>s'. piperead 0x87fe0000 16 3 demo_files = Ok 1 s' \<and> ubyte s' 0x87ff0000 16 = Some 7 \<and> pipe_queue (pipes s' 0x87fe0000) = []"
proof -
  obtain k s' where r: "piperead 0x87fe0000 16 3 demo_files = Ok (int k) s'" "k \<le> 1"
      "\<forall>j<k. ubyte s' 0x87ff0000 (16 + of_nat j) = Some ([7] ! j)"
      "if int k < 3 \<and> k < 1 then ubyte demo_files 0x87ff0000 (16 + of_nat k) = None \<and> pipe_queue (pipes s' 0x87fe0000) = drop (Suc k) [7]
       else pipe_queue (pipes s' 0x87fe0000) = drop k [7]"
    using piperead_takes [OF demo_files_ok(1,2,3), of 3 "0x87fe0000" 16] unfolding demo_files_ok(4) by auto
  then have "k = 1" using demo_byte by (cases "k = 0") (auto simp: demo_files_ok(5))
  then show ?thesis using r by auto
qed

end
