(* ===== verification/File.thy ===== *)
theory File
  imports Pipe Dir
begin

text \<open>
  Open files, \<^verbatim>\<open>kernel/file.c\<close>, and \<open>pipealloc\<close> of \<^verbatim>\<open>kernel/pipe.c\<close>.

  A \<open>struct file *\<close> is an index into \<open>ftable\<close>. Reading and writing go to the pipe, to the device that
  \<open>devsw\<close> names, or to the inode; \<open>filewrite\<close> splits what it writes to an inode into pieces that one log
  transaction holds.
\<close>

definition NFILE :: nat where "NFILE = 100"

definition upd_file :: "nat \<Rightarrow> (kfile \<Rightarrow> kfile) \<Rightarrow> (unit, 'a files_scheme) routine" where
  "upd_file f g = modify (\<lambda>s. s\<lparr>ftable := (ftable s)[f := g (ftable s ! f)]\<rparr>)"

definition filealloc :: "(nat option, 'a files_scheme) routine" where
  "filealloc =
     bind (gets (\<lambda>s. find_idx (\<lambda>f. f_ref f = 0) (ftable s))) (\<lambda>found.
       case found of
         None \<Rightarrow> ret None
       | Some f \<Rightarrow> bind (upd_file f (\<lambda>x. x\<lparr>f_ref := 1\<rparr>)) (\<lambda>_. ret (Some f)))"

definition filedup :: "nat \<Rightarrow> (nat, 'a files_scheme) routine" where
  "filedup f =
     bind (gets (\<lambda>s. f_ref (ftable s ! f))) (\<lambda>r.
       if r < 1 then panic ''filedup''
       else bind (upd_file f (\<lambda>x. x\<lparr>f_ref := f_ref x + 1\<rparr>)) (\<lambda>_. ret f))"

definition fileclose :: "nat \<Rightarrow> (unit, 'a files_scheme) routine" where
  "fileclose f =
     bind (gets (\<lambda>s. f_ref (ftable s ! f))) (\<lambda>r.
       if r < 1 then panic ''fileclose''
       else
         bind (upd_file f (\<lambda>x. x\<lparr>f_ref := f_ref x - 1\<rparr>)) (\<lambda>_.
         bind (gets (\<lambda>s. ftable s ! f)) (\<lambda>ff.
           if f_ref ff > 0 then ret ()
           else
             bind (upd_file f (\<lambda>x. x\<lparr>f_ref := 0, f_type := FD_NONE\<rparr>)) (\<lambda>_.
               if f_type ff = FD_PIPE then pipeclose (f_pipe ff) (f_writable ff)
               else if f_type ff = FD_INODE \<or> f_type ff = FD_DEVICE then
                 bind begin_op (\<lambda>_.
                 bind (deref (f_ip ff)) (\<lambda>ip.
                 bind (iput ip) (\<lambda>_.
                 end_op)))
               else ret ()))))"

text \<open>The bytes of a \<open>struct stat\<close>.\<close>

definition enc_stat :: "stat \<Rightarrow> byte list \<Rightarrow> byte list" where
  "enc_stat st pad = le_enc 4 (st_dev st) @ le_enc 4 (st_ino st) @ le_enc 2 (st_type st) @ le_enc 2 (st_nlink st) @
     pad @ le_enc 8 (st_size st)"

definition filestat :: "nat \<Rightarrow> uint64 \<Rightarrow> (int, 'a files_scheme) routine" where
  "filestat f addr =
     bind myproc (\<lambda>p.
     bind (gets (\<lambda>s. ftable s ! f)) (\<lambda>ff.
       if f_type ff = FD_INODE \<or> f_type ff = FD_DEVICE then
         bind (ilock (f_ip ff)) (\<lambda>_.
         bind (deref (f_ip ff)) (\<lambda>ip.
         bind (gets (stati ip)) (\<lambda>st.
         bind (iunlock (f_ip ff)) (\<lambda>_.
         bind (gets (\<lambda>s. (p_pagetable (procs s ! p), stat_pad s))) (\<lambda>(pt, pad).
         bind (copyout pt addr (enc_stat st pad)) (\<lambda>r.
           if r < 0 then ret (-1) else ret 0))))))
       else ret (-1)))"

text \<open>\<open>devsw[major]\<close>, if \<open>major\<close> is a device with functions.\<close>

definition dev_of :: "uint16 \<Rightarrow> 'a cons_scheme \<Rightarrow> dev_fns option" where
  "dev_of major s = (if sint major < 0 \<or> sint major \<ge> int NDEV then None else devsw s ! unat major)"

definition fileread :: "nat \<Rightarrow> uint64 \<Rightarrow> int \<Rightarrow> (int, 'a files_scheme) routine" where
  "fileread f addr n =
     bind (gets (\<lambda>s. ftable s ! f)) (\<lambda>ff.
       if \<not> f_readable ff then ret (-1)
       else case f_type ff of
         FD_PIPE \<Rightarrow> piperead (f_pipe ff) addr n
       | FD_DEVICE \<Rightarrow> bind (gets (dev_of (f_major ff))) (\<lambda>d.
           case d of None \<Rightarrow> ret (-1) | Some ConsoleFns \<Rightarrow> consoleread True addr n)
       | FD_INODE \<Rightarrow>
           bind (ilock (f_ip ff)) (\<lambda>_.
           bind (deref (f_ip ff)) (\<lambda>ip.
           bind (gets (\<lambda>s. f_off (ftable s ! f))) (\<lambda>off.
           bind (readi ip (DstUser addr) off (of_int n)) (\<lambda>(r, bs).
           bind (if r > 0 then upd_file f (\<lambda>x. x\<lparr>f_off := f_off x + of_int r\<rparr>) else ret ()) (\<lambda>_.
           bind (iunlock (f_ip ff)) (\<lambda>_.
           ret r))))))
       | FD_NONE \<Rightarrow> panic ''fileread'')"

definition filewrite_max :: int where
  "filewrite_max = (MAXOPBLOCKS - 1 - 1 - 2) div 2 * int BSIZE"

function filewrite_from :: "nat \<Rightarrow> nat option \<Rightarrow> uint64 \<Rightarrow> int \<Rightarrow> int \<Rightarrow> (int, 'a files_scheme) routine" where
  "filewrite_from f p addr n i =
     (if i < n then
        let n1 = min (n - i) filewrite_max in
        bind begin_op (\<lambda>_.
        bind (ilock p) (\<lambda>_.
        bind (deref p) (\<lambda>ip.
        bind (gets (\<lambda>s. f_off (ftable s ! f))) (\<lambda>off.
        bind (writei ip (SrcUser (addr + of_int i)) off (of_int n1)) (\<lambda>r.
        bind (if r > 0 then upd_file f (\<lambda>x. x\<lparr>f_off := f_off x + of_int r\<rparr>) else ret ()) (\<lambda>_.
        bind (iunlock p) (\<lambda>_.
        bind end_op (\<lambda>_.
          if r \<noteq> n1 then ret i else filewrite_from f p addr n (i + r)))))))))
      else ret i)"
  by pat_completeness auto
termination
  by (relation "measure (\<lambda>(f, p, addr, n, i). nat (n - i))")
    (auto simp: filewrite_max_def MAXOPBLOCKS_def BSIZE_def)

declare filewrite_from.simps [simp del]

definition filewrite :: "nat \<Rightarrow> uint64 \<Rightarrow> int \<Rightarrow> (int, 'a files_scheme) routine" where
  "filewrite f addr n =
     bind (gets (\<lambda>s. ftable s ! f)) (\<lambda>ff.
       if \<not> f_writable ff then ret (-1)
       else case f_type ff of
         FD_PIPE \<Rightarrow> pipewrite (f_pipe ff) addr n
       | FD_DEVICE \<Rightarrow> bind (gets (dev_of (f_major ff))) (\<lambda>d.
           case d of None \<Rightarrow> ret (-1) | Some ConsoleFns \<Rightarrow> consolewrite True addr n)
       | FD_INODE \<Rightarrow> bind (filewrite_from f (f_ip ff) addr n 0) (\<lambda>i. ret (if i = n then n else -1))
       | FD_NONE \<Rightarrow> panic ''filewrite'')"

text \<open>\<open>pipealloc\<close> returns its result and the two files; on failure it closes what it had got.\<close>

definition pipealloc_bad :: "uint64 \<Rightarrow> nat option \<Rightarrow> nat option \<Rightarrow> (int \<times> nat option \<times> nat option, 'a files_scheme) routine" where
  "pipealloc_bad pi f0 f1 =
     bind (if pi \<noteq> 0 then kfree pi else ret ()) (\<lambda>_.
     bind (case f0 of Some f \<Rightarrow> fileclose f | None \<Rightarrow> ret ()) (\<lambda>_.
     bind (case f1 of Some f \<Rightarrow> fileclose f | None \<Rightarrow> ret ()) (\<lambda>_.
     ret (-1, f0, f1))))"

definition pipealloc :: "(int \<times> nat option \<times> nat option, 'a files_scheme) routine" where
  "pipealloc =
     bind filealloc (\<lambda>f0. case f0 of None \<Rightarrow> pipealloc_bad 0 None None | Some a \<Rightarrow>
     bind filealloc (\<lambda>f1. case f1 of None \<Rightarrow> pipealloc_bad 0 f0 None | Some b \<Rightarrow>
     bind kalloc (\<lambda>pi.
       if pi = 0 then pipealloc_bad pi f0 f1
       else
         bind (upd_pipe pi (\<lambda>p. p\<lparr>pi_readopen := True, pi_writeopen := True, pi_nwrite := 0, pi_nread := 0\<rparr>)) (\<lambda>_.
         bind (upd_file a (\<lambda>x. x\<lparr>f_type := FD_PIPE, f_readable := True, f_writable := False, f_pipe := pi\<rparr>)) (\<lambda>_.
         bind (upd_file b (\<lambda>x. x\<lparr>f_type := FD_PIPE, f_readable := False, f_writable := True, f_pipe := pi\<rparr>)) (\<lambda>_.
         ret (0, f0, f1)))))))"

end
