(* ===== verification/Sysarg.thy ===== *)
theory Sysarg
  imports File
begin

text \<open>
  System call arguments: the first part of \<^verbatim>\<open>kernel/syscall.c\<close>, and \<open>argfd\<close> and \<open>fdalloc\<close> of
  \<^verbatim>\<open>kernel/sysfile.c\<close>.

  Arguments are the saved registers \<open>a0\<close> to \<open>a5\<close> in the trapframe page of the caller. A C \<open>int\<close> is the
  signed value of the low 32 bits of the register. \<open>fetchstr\<close> and \<open>argstr\<close> return the characters before the
  NUL beside the length; \<open>argfd\<close> returns the descriptor and the file, or \<open>None\<close> where C returns \<open>-1\<close>.
\<close>

definition MAXPATH :: nat where "MAXPATH = 128"
definition MAXARG :: nat where "MAXARG = 32"

definition fetchaddr :: "uint64 \<Rightarrow> (int \<times> uint64, 'a ptab_scheme) routine" where
  "fetchaddr addr =
     bind myproc (\<lambda>p.
     bind (gets (\<lambda>s. procs s ! p)) (\<lambda>proc.
       if addr \<ge> p_sz proc \<or> addr + 8 > p_sz proc then ret (-1, 0)
       else bind (copyin (p_pagetable proc) addr 8) (\<lambda>(r, bs).
         if r \<noteq> 0 then ret (-1, 0) else ret (0, le_dec bs))))"

definition fetchstr :: "uint64 \<Rightarrow> nat \<Rightarrow> (int \<times> byte list, 'a ptab_scheme) routine" where
  "fetchstr addr mx =
     bind myproc (\<lambda>p.
     bind (gets (\<lambda>s. p_pagetable (procs s ! p))) (\<lambda>pt.
     bind (copyinstr pt addr mx) (\<lambda>(err, bs).
       if err < 0 then ret (err, bs)
       else let str = takeWhile (\<lambda>c. c \<noteq> 0) bs in ret (int (length str), str))))"

definition argraw :: "nat \<Rightarrow> (uint64, 'a ptab_scheme) routine" where
  "argraw n =
     bind myproc (\<lambda>p.
       if n = 0 then gets (tf_load p tf_a0)
       else if n = 1 then gets (tf_load p tf_a1)
       else if n = 2 then gets (tf_load p tf_a2)
       else if n = 3 then gets (tf_load p tf_a3)
       else if n = 4 then gets (tf_load p tf_a4)
       else if n = 5 then gets (tf_load p tf_a5)
       else panic ''argraw'')"

definition argint :: "nat \<Rightarrow> (int, 'a ptab_scheme) routine" where
  "argint n = bind (argraw n) (\<lambda>v. ret (sint (ucast v :: uint32)))"

definition argaddr :: "nat \<Rightarrow> (uint64, 'a ptab_scheme) routine" where
  "argaddr n = argraw n"

definition argstr :: "nat \<Rightarrow> nat \<Rightarrow> (int \<times> byte list, 'a ptab_scheme) routine" where
  "argstr n mx = bind (argaddr n) (\<lambda>addr. fetchstr addr mx)"

definition argfd :: "nat \<Rightarrow> ((int \<times> nat) option, 'a ptab_scheme) routine" where
  "argfd n =
     bind (argint n) (\<lambda>fd.
       if fd < 0 \<or> fd \<ge> int NOFILE then ret None
       else bind myproc (\<lambda>p.
         bind (gets (\<lambda>s. p_ofile (procs s ! p) ! nat fd)) (\<lambda>f.
           ret (map_option (\<lambda>f. (fd, f)) f))))"

definition set_ofile :: "nat \<Rightarrow> nat \<Rightarrow> nat option \<Rightarrow> (unit, 'a ptab_scheme) routine" where
  "set_ofile p fd f = upd_proc p (\<lambda>x. x\<lparr>p_ofile := (p_ofile x)[fd := f]\<rparr>)"

definition fdalloc :: "nat \<Rightarrow> (int, 'a ptab_scheme) routine" where
  "fdalloc f =
     bind myproc (\<lambda>p.
     bind (gets (\<lambda>s. find_idx (\<lambda>x. x = None) (p_ofile (procs s ! p)))) (\<lambda>found.
       case found of
         None \<Rightarrow> ret (-1)
       | Some fd \<Rightarrow> bind (set_ofile p fd (Some f)) (\<lambda>_. ret (int fd))))"

end
