(* ===== verification/Sysfile.thy ===== *)
theory Sysfile
  imports Sysarg
begin

text \<open>
  The system calls on files and directories, \<^verbatim>\<open>kernel/sysfile.c\<close>; \<open>sys_exec\<close> is in theory \<open>Exec\<close>,
  \<open>sys_mmap\<close> and \<open>sys_munmap\<close> are in theory \<open>Mmap\<close>.

  A call returns the \<open>uint64\<close> that goes to the user's \<open>a0\<close>; \<open>-1\<close> is the error. The arrays for paths and
  names on the kernel stack are values of the model.
\<close>

definition O_RDONLY :: int where "O_RDONLY = 0"
definition O_WRONLY :: int where "O_WRONLY = 1"
definition O_RDWR :: int where "O_RDWR = 2"
definition O_CREATE :: int where "O_CREATE = 0x200"
definition O_TRUNC :: int where "O_TRUNC = 0x400"

definition sys_dup :: "(uint64, 'a files_scheme) routine" where
  "sys_dup =
     bind (argfd 0) (\<lambda>a. case a of None \<Rightarrow> ret (-1) | Some (_, f) \<Rightarrow>
     bind (fdalloc f) (\<lambda>fd.
       if fd < 0 then ret (-1)
       else bind (filedup f) (\<lambda>_. ret (of_int fd))))"

definition sys_read :: "(uint64, 'a files_scheme) routine" where
  "sys_read =
     bind (argfd 0) (\<lambda>a. case a of None \<Rightarrow> ret (-1) | Some (_, f) \<Rightarrow>
     bind (argint 2) (\<lambda>n.
     bind (argaddr 1) (\<lambda>p.
     bind (fileread f p n) (\<lambda>r. ret (of_int r)))))"

definition sys_write :: "(uint64, 'a files_scheme) routine" where
  "sys_write =
     bind (argfd 0) (\<lambda>a. case a of None \<Rightarrow> ret (-1) | Some (_, f) \<Rightarrow>
     bind (argint 2) (\<lambda>n.
     bind (argaddr 1) (\<lambda>p.
     bind (filewrite f p n) (\<lambda>r. ret (of_int r)))))"

definition sys_close :: "(uint64, 'a files_scheme) routine" where
  "sys_close =
     bind (argfd 0) (\<lambda>a. case a of None \<Rightarrow> ret (-1) | Some (fd, f) \<Rightarrow>
     bind myproc (\<lambda>p.
     bind (set_ofile p (nat fd) None) (\<lambda>_.
     bind (fileclose f) (\<lambda>_. ret 0))))"

definition sys_fstat :: "(uint64, 'a files_scheme) routine" where
  "sys_fstat =
     bind (argfd 0) (\<lambda>a. case a of None \<Rightarrow> ret (-1) | Some (_, f) \<Rightarrow>
     bind (argaddr 1) (\<lambda>st.
     bind (filestat f st) (\<lambda>r. ret (of_int r))))"

subsection \<open>Links\<close>

definition sys_link_bad :: "nat \<Rightarrow> (uint64, 'a fs_scheme) routine" where
  "sys_link_bad ip =
     bind (ilock (Some ip)) (\<lambda>_.
     bind (upd_inode ip (\<lambda>x. x\<lparr>i_nlink := i_nlink x - 1\<rparr>)) (\<lambda>_.
     bind (iupdate ip) (\<lambda>_.
     bind (iunlockput ip) (\<lambda>_.
     bind end_op (\<lambda>_. ret (-1))))))"

definition sys_link :: "(uint64, 'a files_scheme) routine" where
  "sys_link =
     bind (argstr 0 MAXPATH) (\<lambda>(r0, old). if r0 < 0 then ret (-1) else
     bind (argstr 1 MAXPATH) (\<lambda>(r1, new). if r1 < 0 then ret (-1) else
     bind begin_op (\<lambda>_.
     bind (namei old) (\<lambda>i. case i of None \<Rightarrow> bind end_op (\<lambda>_. ret (-1)) | Some ip \<Rightarrow>
     bind (ilock (Some ip)) (\<lambda>_.
     bind (gets (\<lambda>s. i_type (itable s ! ip))) (\<lambda>type.
       if type = T_DIR then bind (iunlockput ip) (\<lambda>_. bind end_op (\<lambda>_. ret (-1)))
       else
         bind (upd_inode ip (\<lambda>x. x\<lparr>i_nlink := i_nlink x + 1\<rparr>)) (\<lambda>_.
         bind (iupdate ip) (\<lambda>_.
         bind (iunlock (Some ip)) (\<lambda>_.
         bind (nameiparent new (replicate DIRSIZ 0)) (\<lambda>d. case d of None \<Rightarrow> sys_link_bad ip | Some (dp, name) \<Rightarrow>
         bind (ilock (Some dp)) (\<lambda>_.
         bind (gets itable) (\<lambda>t.
         bind (if i_dev (t ! dp) \<noteq> i_dev (t ! ip) then ret (-1) else dirlink dp name (i_inum (t ! ip))) (\<lambda>l.
           if l < 0 then bind (iunlockput dp) (\<lambda>_. sys_link_bad ip)
           else
             bind (iunlockput dp) (\<lambda>_.
             bind (iput ip) (\<lambda>_.
             bind end_op (\<lambda>_. ret 0))))))))))))))))"

primrec isdirempty_from :: "nat \<Rightarrow> uint32 list \<Rightarrow> (bool, 'a fs_scheme) routine" where
  "isdirempty_from dp [] = ret True"
| "isdirempty_from dp (off # offs) =
     bind (readi dp DstLocal off (of_nat DIRENT_SIZE)) (\<lambda>(r, bs).
       if r \<noteq> int DIRENT_SIZE then panic ''isdirempty: readi''
       else if de_inum (dec_dirent bs) \<noteq> 0 then ret False
       else isdirempty_from dp offs)"

definition isdirempty :: "nat \<Rightarrow> (bool, 'a fs_scheme) routine" where
  "isdirempty dp = bind (gets (\<lambda>s. i_size (itable s ! dp))) (\<lambda>size. isdirempty_from dp (drop 2 (dirent_offs size)))"

definition dot :: "byte list" where "dot = [46, 0]"
definition dotdot :: "byte list" where "dotdot = [46, 46, 0]"

definition sys_unlink :: "(uint64, 'a files_scheme) routine" where
  "sys_unlink =
     bind (argstr 0 MAXPATH) (\<lambda>(r, path). if r < 0 then ret (-1) else
     bind begin_op (\<lambda>_.
     bind (nameiparent path (replicate DIRSIZ 0)) (\<lambda>d. case d of None \<Rightarrow> bind end_op (\<lambda>_. ret (-1)) | Some (dp, name) \<Rightarrow>
     bind (ilock (Some dp)) (\<lambda>_.
     let bad = bind (iunlockput dp) (\<lambda>_. bind end_op (\<lambda>_. ret (-1))) in
       if namecmp name dot = 0 \<or> namecmp name dotdot = 0 then bad
       else
         bind (dirlookup dp name) (\<lambda>i. case i of None \<Rightarrow> bad | Some (ip, off) \<Rightarrow>
         bind (ilock (Some ip)) (\<lambda>_.
         bind (gets (\<lambda>s. itable s ! ip)) (\<lambda>x.
           if sint (i_nlink x) < 1 then panic ''unlink: nlink < 1''
           else
             bind (if i_type x = T_DIR then isdirempty ip else ret True) (\<lambda>empty.
               if \<not> empty then bind (iunlockput ip) (\<lambda>_. bad)
               else
                 bind (writei dp (SrcLocal (replicate DIRENT_SIZE 0)) off (of_nat DIRENT_SIZE)) (\<lambda>w.
                   if w \<noteq> int DIRENT_SIZE then panic ''unlink: writei''
                   else
                     bind (if i_type x = T_DIR
                       then bind (upd_inode dp (\<lambda>y. y\<lparr>i_nlink := i_nlink y - 1\<rparr>)) (\<lambda>_. iupdate dp)
                       else ret ()) (\<lambda>_.
                     bind (iunlockput dp) (\<lambda>_.
                     bind (upd_inode ip (\<lambda>y. y\<lparr>i_nlink := i_nlink y - 1\<rparr>)) (\<lambda>_.
                     bind (iupdate ip) (\<lambda>_.
                     bind (iunlockput ip) (\<lambda>_.
                     bind end_op (\<lambda>_. ret 0)))))))))))))))"

subsection \<open>Creation and opening\<close>

definition create :: "byte list \<Rightarrow> uint16 \<Rightarrow> uint16 \<Rightarrow> uint16 \<Rightarrow> (nat option, 'a fs_scheme) routine" where
  "create path type major minor =
     bind (nameiparent path (replicate DIRSIZ 0)) (\<lambda>d. case d of None \<Rightarrow> ret None | Some (dp, name) \<Rightarrow>
     bind (ilock (Some dp)) (\<lambda>_.
     bind (dirlookup dp name) (\<lambda>i.
       case i of
         Some (ip, off) \<Rightarrow>
           bind (iunlockput dp) (\<lambda>_.
           bind (ilock (Some ip)) (\<lambda>_.
           bind (gets (\<lambda>s. i_type (itable s ! ip))) (\<lambda>t.
             if type = T_FILE \<and> (t = T_FILE \<or> t = T_DEVICE) then ret (Some ip)
             else bind (iunlockput ip) (\<lambda>_. ret None))))
       | None \<Rightarrow>
           bind (gets (\<lambda>s. i_dev (itable s ! dp))) (\<lambda>dev.
           bind (ialloc dev type) (\<lambda>ip.
           bind (ilock (Some ip)) (\<lambda>_.
           bind (upd_inode ip (\<lambda>x. x\<lparr>i_major := major, i_minor := minor, i_nlink := 1\<rparr>)) (\<lambda>_.
           bind (iupdate ip) (\<lambda>_.
           bind (gets (\<lambda>s. (i_inum (itable s ! ip), i_inum (itable s ! dp)))) (\<lambda>(inum, dinum).
           bind (if type = T_DIR then
               bind (upd_inode dp (\<lambda>x. x\<lparr>i_nlink := i_nlink x + 1\<rparr>)) (\<lambda>_.
               bind (iupdate dp) (\<lambda>_.
               bind (dirlink ip dot inum) (\<lambda>l1. if l1 < 0 then panic ''create dots'' else
               bind (dirlink ip dotdot dinum) (\<lambda>l2. if l2 < 0 then panic ''create dots'' else
               ret ()))))
             else ret ()) (\<lambda>_.
           bind (dirlink dp name inum) (\<lambda>l. if l < 0 then panic ''create: dirlink'' else
           bind (iunlockput dp) (\<lambda>_.
           ret (Some ip)))))))))))))"

text \<open>The part of \<open>sys_open\<close> that finds or creates the inode; \<open>None\<close> after it has ended the transaction.\<close>

definition open_inode :: "byte list \<Rightarrow> int \<Rightarrow> (nat option, 'a fs_scheme) routine" where
  "open_inode path omode =
     (if omode AND O_CREATE \<noteq> 0 then
        bind (create path T_FILE 0 0) (\<lambda>i. case i of None \<Rightarrow> bind end_op (\<lambda>_. ret None) | Some ip \<Rightarrow> ret (Some ip))
      else
        bind (namei path) (\<lambda>i. case i of None \<Rightarrow> bind end_op (\<lambda>_. ret None) | Some ip \<Rightarrow>
        bind (ilock (Some ip)) (\<lambda>_.
        bind (gets (\<lambda>s. i_type (itable s ! ip))) (\<lambda>type.
          if type = T_DIR \<and> omode \<noteq> O_RDONLY then
            bind (iunlockput ip) (\<lambda>_. bind end_op (\<lambda>_. ret None))
          else ret (Some ip)))))"

definition sys_open :: "(uint64, 'a files_scheme) routine" where
  "sys_open =
     bind (argstr 0 MAXPATH) (\<lambda>(n, path). if n < 0 then ret (-1) else
     bind (argint 1) (\<lambda>omode.
     bind begin_op (\<lambda>_.
     bind (open_inode path omode) (\<lambda>i. case i of None \<Rightarrow> ret (-1) | Some ip \<Rightarrow>
     bind (gets (\<lambda>s. itable s ! ip)) (\<lambda>x.
     let fail = bind (iunlockput ip) (\<lambda>_. bind end_op (\<lambda>_. ret (-1))) in
       if i_type x = T_DEVICE \<and> (sint (i_major x) < 0 \<or> sint (i_major x) \<ge> int NDEV) then fail
       else
         bind filealloc (\<lambda>a. case a of None \<Rightarrow> fail | Some f \<Rightarrow>
         bind (fdalloc f) (\<lambda>fd.
           if fd < 0 then bind (fileclose f) (\<lambda>_. fail)
           else
             bind (if i_type x = T_DEVICE then upd_file f (\<lambda>y. y\<lparr>f_type := FD_DEVICE, f_major := i_major x\<rparr>)
               else upd_file f (\<lambda>y. y\<lparr>f_type := FD_INODE, f_off := 0\<rparr>)) (\<lambda>_.
             bind (upd_file f (\<lambda>y. y\<lparr>f_ip := Some ip, f_readable := (omode AND O_WRONLY = 0),
               f_writable := (omode AND O_WRONLY \<noteq> 0 \<or> omode AND O_RDWR \<noteq> 0)\<rparr>)) (\<lambda>_.
             bind (if omode AND O_TRUNC \<noteq> 0 \<and> i_type x = T_FILE then itrunc ip else ret ()) (\<lambda>_.
             bind (iunlock (Some ip)) (\<lambda>_.
             bind end_op (\<lambda>_. ret (of_int fd)))))))))))))"

definition sys_mkdir :: "(uint64, 'a files_scheme) routine" where
  "sys_mkdir =
     bind begin_op (\<lambda>_.
     bind (argstr 0 MAXPATH) (\<lambda>(r, path).
     bind (if r < 0 then ret None else create path T_DIR 0 0) (\<lambda>i.
       case i of
         None \<Rightarrow> bind end_op (\<lambda>_. ret (-1))
       | Some ip \<Rightarrow> bind (iunlockput ip) (\<lambda>_. bind end_op (\<lambda>_. ret 0)))))"

definition sys_mknod :: "(uint64, 'a files_scheme) routine" where
  "sys_mknod =
     bind begin_op (\<lambda>_.
     bind (argstr 0 MAXPATH) (\<lambda>(r, path).
     bind (if r < 0 then ret None else
       bind (argint 1) (\<lambda>major.
       bind (argint 2) (\<lambda>minor.
       create path T_DEVICE (of_int major) (of_int minor)))) (\<lambda>i.
       case i of
         None \<Rightarrow> bind end_op (\<lambda>_. ret (-1))
       | Some ip \<Rightarrow> bind (iunlockput ip) (\<lambda>_. bind end_op (\<lambda>_. ret 0)))))"

definition sys_chdir :: "(uint64, 'a files_scheme) routine" where
  "sys_chdir =
     bind myproc (\<lambda>p.
     bind begin_op (\<lambda>_.
     bind (argstr 0 MAXPATH) (\<lambda>(r, path).
     bind (if r < 0 then ret None else namei path) (\<lambda>i. case i of None \<Rightarrow> bind end_op (\<lambda>_. ret (-1)) | Some ip \<Rightarrow>
     bind (ilock (Some ip)) (\<lambda>_.
     bind (gets (\<lambda>s. i_type (itable s ! ip))) (\<lambda>type.
       if type \<noteq> T_DIR then bind (iunlockput ip) (\<lambda>_. bind end_op (\<lambda>_. ret (-1)))
       else
         bind (iunlock (Some ip)) (\<lambda>_.
         bind (gets (\<lambda>s. p_cwd (procs s ! p))) (\<lambda>cwd.
         bind (deref cwd) (\<lambda>cwd.
         bind (iput cwd) (\<lambda>_.
         bind end_op (\<lambda>_.
         bind (upd_proc p (\<lambda>x. x\<lparr>p_cwd := Some ip\<rparr>)) (\<lambda>_.
         ret 0))))))))))))"

subsection \<open>Pipes\<close>

definition sys_pipe :: "(uint64, 'a files_scheme) routine" where
  "sys_pipe =
     bind myproc (\<lambda>p.
     bind (argaddr 0) (\<lambda>fdarray.
     bind pipealloc (\<lambda>(r, rf, wf).
       if r < 0 then ret (-1)
       else
         bind (deref rf) (\<lambda>rf. bind (deref wf) (\<lambda>wf.
         bind (fdalloc rf) (\<lambda>fd0.
         bind (if fd0 < 0 then ret (-1) else fdalloc wf) (\<lambda>fd1.
           if fd1 < 0 then
             bind (if fd0 \<ge> 0 then set_ofile p (nat fd0) None else ret ()) (\<lambda>_.
             bind (fileclose rf) (\<lambda>_.
             bind (fileclose wf) (\<lambda>_. ret (-1))))
           else
             bind (gets (\<lambda>s. p_pagetable (procs s ! p))) (\<lambda>pt.
             bind (copyout pt fdarray (le_enc 4 (of_int fd0 :: uint32))) (\<lambda>c0.
             bind (if c0 < 0 then ret c0 else copyout pt (fdarray + 4) (le_enc 4 (of_int fd1 :: uint32))) (\<lambda>c1.
               if c1 < 0 then
                 bind (set_ofile p (nat fd0) None) (\<lambda>_.
                 bind (set_ofile p (nat fd1) None) (\<lambda>_.
                 bind (fileclose rf) (\<lambda>_.
                 bind (fileclose wf) (\<lambda>_. ret (-1)))))
               else ret 0))))))))))"

end
