(* ===== verification/Mmap.thy ===== *)
theory Mmap
  imports Sysarg
begin

text \<open>
  Memory-mapped files: \<open>sys_mmap\<close> and \<open>sys_munmap\<close> of \<^verbatim>\<open>kernel/sysfile.c\<close>, and the page-fault branch of
  \<open>usertrap\<close> in \<^verbatim>\<open>kernel/trap.c\<close>.

  \<open>mmap\<close> only records the mapping in one of the 16 slots \<open>p->vma\<close> and grows the process; a page is read
  from the file when the process touches it. \<open>vma_end\<close> is \<open>vma.addr + vma.len\<close>, a \<open>uint64\<close>.
\<close>

definition PROT_READ :: int where "PROT_READ = 1"
definition PROT_WRITE :: int where "PROT_WRITE = 2"
definition MAP_SHARED :: int where "MAP_SHARED = 1"
definition MAP_PRIVATE :: int where "MAP_PRIVATE = 2"

definition NVMA :: nat where "NVMA = 16"

definition vma_end :: "vm_area_struct \<Rightarrow> uint64" where
  "vma_end v = v_addr v + of_int (v_len v)"

definition upd_vma :: "nat \<Rightarrow> nat \<Rightarrow> (vm_area_struct \<Rightarrow> vm_area_struct) \<Rightarrow> (unit, 'a ptab_scheme) routine" where
  "upd_vma p i f = upd_proc p (\<lambda>x. x\<lparr>p_vma := (p_vma x)[i := f (p_vma x ! i)]\<rparr>)"

text \<open>\<open>len/PGSIZE\<close> for an \<open>int\<close> rounds towards zero; it is converted to the \<open>uint64\<close> argument.\<close>

definition len_pages :: "int \<Rightarrow> uint64" where
  "len_pages len = of_int (if len < 0 then - (- len div 4096) else len div 4096)"

definition sys_mmap :: "(uint64, 'a files_scheme) routine" where
  "sys_mmap =
     bind myproc (\<lambda>p.
     bind (argint 1) (\<lambda>len.
     bind (argint 2) (\<lambda>prot.
     bind (argint 3) (\<lambda>flag.
     bind (argint 4) (\<lambda>fd.
       if fd \<ge> int NOFILE then ret (-1)
       else if fd < 0 then panic ''undefined behaviour: ofile[fd]''
       else
         bind (gets (\<lambda>s. p_ofile (procs s ! p) ! nat fd)) (\<lambda>fo.
         bind (deref fo) (\<lambda>f.
         bind (gets (\<lambda>s. ftable s ! f)) (\<lambda>ff.
           if \<not> f_writable ff \<and> prot AND PROT_WRITE \<noteq> 0 \<and> flag AND MAP_PRIVATE = 0 then ret (-1)
           else
             bind (filedup f) (\<lambda>_.
             bind (gets (\<lambda>s. procs s ! p)) (\<lambda>x.
               case find_idx (\<lambda>v. \<not> v_valid v) (p_vma x) of
                 None \<Rightarrow> ret (-1)
               | Some i \<Rightarrow>
                   bind (upd_vma p i (\<lambda>v. \<lparr>v_addr = p_sz x, v_len = len, v_prot = prot, v_flag = flag, v_f = Some f,
                     v_offset = 0, v_fd = fd, v_valid = True\<rparr>)) (\<lambda>_.
                   bind (upd_proc p (\<lambda>x. x\<lparr>p_sz := p_sz x + of_int len\<rparr>)) (\<lambda>_.
                   gets (\<lambda>s. v_addr (p_vma (procs s ! p) ! i))))))))))))))"

definition sys_munmap :: "(uint64, 'a files_scheme) routine" where
  "sys_munmap =
     bind myproc (\<lambda>p.
     bind (argaddr 0) (\<lambda>addr.
     bind (argint 1) (\<lambda>len.
     bind (gets (\<lambda>s. find_idx (\<lambda>v. v_valid v \<and> v_addr v \<le> addr \<and> vma_end v \<ge> addr + of_int len)
       (p_vma (procs s ! p)))) (\<lambda>found.
       case found of
         None \<Rightarrow> ret (-1)
       | Some i \<Rightarrow>
           bind (gets (\<lambda>s. p_vma (procs s ! p) ! i)) (\<lambda>v.
           bind (if v_flag v AND MAP_SHARED \<noteq> 0
             then bind (deref (v_f v)) (\<lambda>f. bind (filewrite f addr len) (\<lambda>_. ret ())) else ret ()) (\<lambda>_.
           bind (upd_vma p i (\<lambda>v. if addr = v_addr v then v\<lparr>v_addr := addr + of_int len\<rparr> else v)) (\<lambda>_.
           bind (upd_vma p i (\<lambda>v. v\<lparr>v_len := v_len v - len\<rparr>)) (\<lambda>_.
           bind (gets (\<lambda>s. p_vma (procs s ! p) ! i)) (\<lambda>v.
           bind (if v_len v = 0 then
               bind (deref (v_f v)) (\<lambda>f.
               bind (fileclose f) (\<lambda>_.
               upd_vma p i (\<lambda>v. v\<lparr>v_valid := False\<rparr>)))
             else ret ()) (\<lambda>_.
           bind (gets (\<lambda>s. p_pagetable (procs s ! p))) (\<lambda>pt.
           bind (uvmunmap pt addr (len_pages len) False) (\<lambda>_.
           ret 0))))))))))))"

subsection \<open>The page fault\<close>

definition set_killed :: "nat \<Rightarrow> (unit, 'a ptab_scheme) routine" where
  "set_killed p = upd_proc p (\<lambda>x. x\<lparr>p_killed := True\<rparr>)"

definition vma_perm :: "int \<Rightarrow> uint64" where
  "vma_perm prot = PTE_U OR (if prot AND PROT_READ \<noteq> 0 then PTE_R else 0) OR (if prot AND PROT_WRITE \<noteq> 0 then PTE_W else 0)"

text \<open>The scan of the slots: it stops at a slot that covers the address once it has got a page.\<close>

primrec fault_scan :: "nat \<Rightarrow> uint64 \<Rightarrow> nat list \<Rightarrow> (unit, 'a files_scheme) routine" where
  "fault_scan p va [] = ret ()"
| "fault_scan p va (i # is) =
     bind (gets (\<lambda>s. p_vma (procs s ! p) ! i)) (\<lambda>v.
       if v_valid v \<and> v_addr v \<le> va \<and> va < vma_end v then
         bind kalloc (\<lambda>mem.
           if mem = 0 then bind (set_killed p) (\<lambda>_. fault_scan p va is)
           else
             bind (memset_page mem 0) (\<lambda>_.
             bind (deref (v_f v)) (\<lambda>f.
             bind (gets (\<lambda>s. f_ip (ftable s ! f))) (\<lambda>ip.
             bind (ilock ip) (\<lambda>_.
             bind (deref ip) (\<lambda>i.
             bind (readi i (DstKernel mem) (ucast (va - v_addr v)) (ucast PGSIZE)) (\<lambda>_.
             bind (iunlock ip) (\<lambda>_.
             bind (gets (\<lambda>s. p_pagetable (procs s ! p))) (\<lambda>pt.
             bind (mappages pt (PGROUNDDOWN va) PGSIZE mem (vma_perm (v_prot v))) (\<lambda>r.
               if r \<noteq> 0 then bind (kfree mem) (\<lambda>_. set_killed p) else ret ()))))))))))
       else fault_scan p va is)"

definition page_fault :: "nat \<Rightarrow> uint64 \<Rightarrow> (unit, 'a files_scheme) routine" where
  "page_fault p va =
     bind (gets (\<lambda>s. (p_sz (procs s ! p), tf_load p tf_sp s))) (\<lambda>(sz, sp).
     bind (if va \<ge> sz \<or> va < sp then set_killed p else ret ()) (\<lambda>_.
     fault_scan p va [0..<NVMA]))"

end
