(* ===== verification/Process.thy ===== *)
theory Process
  imports Mmap
begin

text \<open>
  Creation and end of processes, \<^verbatim>\<open>kernel/proc.c\<close>: \<open>userinit\<close>, \<open>fork\<close> and \<open>exit\<close>, which also
  handle open files and mapped files.
\<close>

definition initcode :: "byte list" where
  "initcode = [
     0x17, 0x05, 0x00, 0x00, 0x13, 0x05, 0x45, 0x02,
     0x97, 0x05, 0x00, 0x00, 0x93, 0x85, 0x35, 0x02,
     0x93, 0x08, 0x70, 0x00, 0x73, 0x00, 0x00, 0x00,
     0x93, 0x08, 0x20, 0x00, 0x73, 0x00, 0x00, 0x00,
     0xef, 0xf0, 0x9f, 0xff, 0x2f, 0x69, 0x6e, 0x69,
     0x74, 0x00, 0x00, 0x24, 0x00, 0x00, 0x00, 0x00,
     0x00, 0x00, 0x00, 0x00]"

definition userinit :: "(unit, 'a files_scheme) routine" where
  "userinit =
     bind allocproc (\<lambda>a.
     bind (modify (\<lambda>s. s\<lparr>initproc := a\<rparr>)) (\<lambda>_.
     bind (deref a) (\<lambda>p.
     bind (gets (\<lambda>s. p_pagetable (procs s ! p))) (\<lambda>pt.
     bind (uvminit pt initcode) (\<lambda>_.
     bind (upd_proc p (\<lambda>x. x\<lparr>p_sz := PGSIZE\<rparr>)) (\<lambda>_.
     bind (tf_store p tf_epc 0) (\<lambda>_.
     bind (tf_store p tf_sp PGSIZE) (\<lambda>_.
     bind (upd_proc p (\<lambda>x. x\<lparr>p_name := safestrcpy (p_name x) (array_ptr (chars ''initcode'')) 16\<rparr>)) (\<lambda>_.
     bind (namei [slash]) (\<lambda>cwd.
     bind (upd_proc p (\<lambda>x. x\<lparr>p_cwd := cwd\<rparr>)) (\<lambda>_.
     upd_proc p (\<lambda>x. x\<lparr>p_state := RUNNABLE\<rparr>))))))))))))"

text \<open>The loop of \<open>fork\<close> over the mapped files, and the one over the descriptors.\<close>

definition fork_vmas :: "nat \<Rightarrow> nat \<Rightarrow> (unit, 'a files_scheme) routine" where
  "fork_vmas p np = for_each [0..<NVMA] (\<lambda>i.
     bind (gets (\<lambda>s. p_vma (procs s ! p) ! i)) (\<lambda>v.
       if v_valid v then
         bind (upd_vma np i (\<lambda>_. v)) (\<lambda>_.
         bind (deref (v_f v)) (\<lambda>f.
         bind (filedup f) (\<lambda>_. ret ())))
       else ret ()))"

definition fork_files :: "nat \<Rightarrow> nat \<Rightarrow> (unit, 'a files_scheme) routine" where
  "fork_files p np = for_each [0..<NOFILE] (\<lambda>i.
     bind (gets (\<lambda>s. p_ofile (procs s ! p) ! i)) (\<lambda>fo.
       case fo of
         None \<Rightarrow> ret ()
       | Some f \<Rightarrow> bind (filedup f) (\<lambda>f. set_ofile np i (Some f))))"

definition fork :: "(int, 'a files_scheme) routine" where
  "fork =
     bind myproc (\<lambda>p.
     bind allocproc (\<lambda>a. case a of None \<Rightarrow> ret (-1) | Some np \<Rightarrow>
     bind (gets (\<lambda>s. (procs s ! p, procs s ! np))) (\<lambda>(x, nx).
     bind (uvmcopy (p_pagetable x) (p_pagetable nx) (p_sz x)) (\<lambda>r.
       if r < 0 then bind (freeproc np) (\<lambda>_. ret (-1))
       else
         bind (upd_proc np (\<lambda>y. y\<lparr>p_sz := p_sz x\<rparr>)) (\<lambda>_.
         bind (fork_vmas p np) (\<lambda>_.
         bind (modify (\<lambda>s. s\<lparr>pmem := mwrite (pmem s) (p_trapframe nx) (mread (pmem s) (p_trapframe x) tf_size)\<rparr>)) (\<lambda>_.
         bind (tf_store np tf_a0 0) (\<lambda>_.
         bind (fork_files p np) (\<lambda>_.
         bind (deref (p_cwd x)) (\<lambda>cwd.
         bind (idup cwd) (\<lambda>cwd.
         bind (upd_proc np (\<lambda>y. y\<lparr>p_cwd := Some cwd, p_name := safestrcpy (p_name y) (array_ptr (p_name x)) 16\<rparr>)) (\<lambda>_.
         bind (gets (\<lambda>s. p_pid (procs s ! np))) (\<lambda>pid.
         bind (upd_proc np (\<lambda>y. y\<lparr>p_parent := Some p\<rparr>)) (\<lambda>_.
         bind (fork_runnable np) (\<lambda>_.
         ret pid)))))))))))))))"

definition exit_files :: "nat \<Rightarrow> (unit, 'a files_scheme) routine" where
  "exit_files p = for_each [0..<NOFILE] (\<lambda>fd.
     bind (gets (\<lambda>s. p_ofile (procs s ! p) ! fd)) (\<lambda>fo.
       case fo of
         None \<Rightarrow> ret ()
       | Some f \<Rightarrow> bind (fileclose f) (\<lambda>_. set_ofile p fd None)))"

definition exit_vmas :: "nat \<Rightarrow> (unit, 'a files_scheme) routine" where
  "exit_vmas p = for_each [0..<NVMA] (\<lambda>i.
     bind (gets (\<lambda>s. p_vma (procs s ! p) ! i)) (\<lambda>v.
       if v_valid v then
         bind (deref (v_f v)) (\<lambda>f.
         bind (if v_flag v AND MAP_SHARED \<noteq> 0 then bind (filewrite f (v_addr v) (v_len v)) (\<lambda>_. ret ()) else ret ()) (\<lambda>_.
         bind (fileclose f) (\<lambda>_.
         bind (upd_vma p i (\<lambda>v. v\<lparr>v_valid := False\<rparr>)) (\<lambda>_.
         bind (gets (\<lambda>s. p_pagetable (procs s ! p))) (\<lambda>pt.
         uvmunmap pt (v_addr v) (len_pages (v_len v)) False)))))
       else ret ()))"

definition exit :: "int \<Rightarrow> ('b, 'a files_scheme) routine" where
  "exit status =
     bind myproc (\<lambda>p.
     bind (gets initproc) (\<lambda>ip.
       if ip = Some p then panic ''init exiting''
       else
         bind (exit_files p) (\<lambda>_.
         bind (exit_vmas p) (\<lambda>_.
         bind begin_op (\<lambda>_.
         bind (gets (\<lambda>s. p_cwd (procs s ! p))) (\<lambda>cwd.
         bind (deref cwd) (\<lambda>cwd.
         bind (iput cwd) (\<lambda>_.
         bind end_op (\<lambda>_.
         bind (upd_proc p (\<lambda>x. x\<lparr>p_cwd := None\<rparr>)) (\<lambda>_.
         bind (reparent p) (\<lambda>_.
         bind (gets (\<lambda>s. p_parent (procs s ! p))) (\<lambda>parent.
         bind (wakeup (case parent of None \<Rightarrow> Null | Some q \<Rightarrow> Proc q)) (\<lambda>_.
         exit_zombie status)))))))))))))"

end
