(* ===== verification/Exec.thy ===== *)
theory Exec
  imports Mmap
begin

text \<open>
  Program loading: \<^verbatim>\<open>kernel/elf.h\<close>, \<^verbatim>\<open>kernel/exec.c\<close> and \<open>sys_exec\<close> of \<^verbatim>\<open>kernel/sysfile.c\<close>.

  \<open>argv\<close> is the list of the addresses before the null entry; the strings are in the pages at these
  addresses. \<open>exec_load\<close> and \<open>push_args\<close> are the two loops of \<open>exec\<close>, and say whether the code goes to
  \<open>bad\<close>. \<open>loadseg\<close> visits the offsets \<open>0, PGSIZE, ...\<close> below \<open>sz\<close>.
\<close>

record elfhdr =
  eh_magic :: uint32
  eh_elf :: "byte list"
  eh_type :: uint16
  eh_machine :: uint16
  eh_version :: uint32
  eh_entry :: uint64
  eh_phoff :: uint64
  eh_shoff :: uint64
  eh_flags :: uint32
  eh_ehsize :: uint16
  eh_phentsize :: uint16
  eh_phnum :: uint16
  eh_shentsize :: uint16
  eh_shnum :: uint16
  eh_shstrndx :: uint16

record proghdr =
  ph_type :: uint32
  ph_flags :: uint32
  ph_off :: uint64
  ph_vaddr :: uint64
  ph_paddr :: uint64
  ph_filesz :: uint64
  ph_memsz :: uint64
  ph_align :: uint64

definition ELF_MAGIC :: uint32 where "ELF_MAGIC = 0x464C457F"
definition ELF_PROG_LOAD :: uint32 where "ELF_PROG_LOAD = 1"
definition ELFHDR_SIZE :: nat where "ELFHDR_SIZE = 64"
definition PROGHDR_SIZE :: nat where "PROGHDR_SIZE = 56"

definition get64 :: "byte list \<Rightarrow> nat \<Rightarrow> uint64" where
  "get64 d off = le_dec (slice off 8 d)"

definition dec_elfhdr :: "byte list \<Rightarrow> elfhdr" where
  "dec_elfhdr d = \<lparr>eh_magic = get32 d 0, eh_elf = slice 4 12 d, eh_type = get16 d 16, eh_machine = get16 d 18,
     eh_version = get32 d 20, eh_entry = get64 d 24, eh_phoff = get64 d 32, eh_shoff = get64 d 40, eh_flags = get32 d 48,
     eh_ehsize = get16 d 52, eh_phentsize = get16 d 54, eh_phnum = get16 d 56, eh_shentsize = get16 d 58,
     eh_shnum = get16 d 60, eh_shstrndx = get16 d 62\<rparr>"

definition dec_proghdr :: "byte list \<Rightarrow> proghdr" where
  "dec_proghdr d = \<lparr>ph_type = get32 d 0, ph_flags = get32 d 4, ph_off = get64 d 8, ph_vaddr = get64 d 16,
     ph_paddr = get64 d 24, ph_filesz = get64 d 32, ph_memsz = get64 d 40, ph_align = get64 d 48\<rparr>"

subsection \<open>Segments\<close>

primrec loadseg_from :: "uint64 \<Rightarrow> uint64 \<Rightarrow> nat \<Rightarrow> uint32 \<Rightarrow> uint32 \<Rightarrow> uint32 list \<Rightarrow> (int, 'a fs_scheme) routine" where
  "loadseg_from pagetable va ip offset sz [] = ret 0"
| "loadseg_from pagetable va ip offset sz (i # is) =
     bind (walkaddr pagetable (va + ucast i)) (\<lambda>pa.
       if pa = 0 then panic ''loadseg: address should exist''
       else
         let n = (if sz - i < ucast PGSIZE then sz - i else ucast PGSIZE) in
         bind (readi ip (DstKernel pa) (offset + i) n) (\<lambda>(r, bs).
           if of_int r \<noteq> n then ret (-1) else loadseg_from pagetable va ip offset sz is))"

definition loadseg :: "uint64 \<Rightarrow> uint64 \<Rightarrow> nat \<Rightarrow> uint32 \<Rightarrow> uint32 \<Rightarrow> (int, 'a fs_scheme) routine" where
  "loadseg pagetable va ip offset sz =
     loadseg_from pagetable va ip offset sz (map (\<lambda>k. of_nat (k * 4096)) [0..<(unat sz + 4095) div 4096])"

primrec exec_load :: "uint64 \<Rightarrow> nat \<Rightarrow> uint32 \<Rightarrow> nat \<Rightarrow> uint64 \<Rightarrow> (bool \<times> uint64, 'a fs_scheme) routine" where
  "exec_load pagetable ip off 0 sz = ret (True, sz)"
| "exec_load pagetable ip off (Suc n) sz =
     bind (readi ip DstLocal off (of_nat PROGHDR_SIZE)) (\<lambda>(r, bs).
       if r \<noteq> int PROGHDR_SIZE then ret (False, sz)
       else let ph = dec_proghdr bs in
         if ph_type ph \<noteq> ELF_PROG_LOAD then exec_load pagetable ip (off + of_nat PROGHDR_SIZE) n sz
         else if ph_memsz ph < ph_filesz ph then ret (False, sz)
         else if ph_vaddr ph + ph_memsz ph < ph_vaddr ph then ret (False, sz)
         else
           bind (uvmalloc pagetable sz (ph_vaddr ph + ph_memsz ph)) (\<lambda>sz1.
             if sz1 = 0 then ret (False, sz)
             else if ph_vaddr ph mod PGSIZE \<noteq> 0 then ret (False, sz1)
             else
               bind (loadseg pagetable (ph_vaddr ph) ip (ucast (ph_off ph)) (ucast (ph_filesz ph))) (\<lambda>l.
                 if l < 0 then ret (False, sz1)
                 else exec_load pagetable ip (off + of_nat PROGHDR_SIZE) n sz1)))"

subsection \<open>The stack of the new program\<close>

text \<open>A kernel string; no terminator anywhere in memory would make \<open>strlen\<close> run on.\<close>

definition kstrlen :: "uint64 \<Rightarrow> (nat, 'a kmem_scheme) routine" where
  "kstrlen a = bind (gets (\<lambda>s. strlen (mem_ptr (pmem s) a))) (\<lambda>n.
     case n of Some n \<Rightarrow> ret n | None \<Rightarrow> panic ''undefined behaviour: string without end'')"

primrec push_args :: "uint64 \<Rightarrow> uint64 \<Rightarrow> uint64 list \<Rightarrow> uint64 \<Rightarrow> uint64 list \<Rightarrow>
    ((uint64 \<times> uint64 list) option, 'a kmem_scheme) routine" where
  "push_args pagetable stackbase [] sp ustack = ret (Some (sp, ustack))"
| "push_args pagetable stackbase (arg # argv) sp ustack =
     (if length ustack \<ge> MAXARG then ret None
      else
        bind (kstrlen arg) (\<lambda>n.
        let sp = sp - of_nat (n + 1); sp = sp - sp mod 16 in
          if sp < stackbase then ret None
          else
            bind (gets (\<lambda>s. mread (pmem s) arg (n + 1))) (\<lambda>str.
            bind (copyout pagetable sp str) (\<lambda>r.
              if r < 0 then ret None
              else push_args pagetable stackbase argv sp (ustack @ [sp])))))"

definition exec_bad :: "uint64 \<Rightarrow> uint64 \<Rightarrow> nat option \<Rightarrow> (int, 'a fs_scheme) routine" where
  "exec_bad pagetable sz i =
     bind (if pagetable \<noteq> 0 then proc_freepagetable pagetable sz else ret ()) (\<lambda>_.
     bind (case i of None \<Rightarrow> ret () | Some ip \<Rightarrow> bind (iunlockput ip) (\<lambda>_. end_op)) (\<lambda>_.
     ret (-1)))"

text \<open>\<open>last\<close>: the part of the path behind its last slash.\<close>

definition last_elem :: "byte list \<Rightarrow> byte list" where
  "last_elem path = rev (takeWhile (\<lambda>c. c \<noteq> slash) (rev path))"

text \<open>\<open>exec\<close> from the allocation of the stack on.\<close>

definition exec_image :: "nat \<Rightarrow> uint64 \<Rightarrow> uint64 \<Rightarrow> uint64 \<Rightarrow> byte list \<Rightarrow> uint64 list \<Rightarrow> (int, 'a fs_scheme) routine" where
  "exec_image p pagetable sz entry path argv =
     bind (gets (\<lambda>s. p_sz (procs s ! p))) (\<lambda>oldsz.
     let sz = PGROUNDUP sz in
     bind (uvmalloc pagetable sz (sz + 2 * PGSIZE)) (\<lambda>sz1.
       if sz1 = 0 then exec_bad pagetable sz None
       else
         bind (uvmclear pagetable (sz1 - 2 * PGSIZE)) (\<lambda>_.
         let stackbase = sz1 - PGSIZE in
         bind (push_args pagetable stackbase argv sz1 []) (\<lambda>a.
           case a of
             None \<Rightarrow> exec_bad pagetable sz1 None
           | Some (sp, ustack) \<Rightarrow>
             let argc = length ustack in
             if argc \<ge> MAXARG then panic ''undefined behaviour: ustack[argc]''
             else let sp = sp - of_nat ((argc + 1) * 8); sp = sp - sp mod 16 in
             if sp < stackbase then exec_bad pagetable sz1 None
             else
               bind (copyout pagetable sp (concat (map (le_enc 8) (ustack @ [0])))) (\<lambda>r.
                 if r < 0 then exec_bad pagetable sz1 None
                 else
                   bind (tf_store p tf_a1 sp) (\<lambda>_.
                   bind (upd_proc p (\<lambda>x. x\<lparr>p_name := safestrcpy (p_name x) (array_ptr (last_elem path)) 16\<rparr>)) (\<lambda>_.
                   bind (gets (\<lambda>s. p_pagetable (procs s ! p))) (\<lambda>oldpagetable.
                   bind (upd_proc p (\<lambda>x. x\<lparr>p_pagetable := pagetable, p_sz := sz1\<rparr>)) (\<lambda>_.
                   bind (tf_store p tf_epc entry) (\<lambda>_.
                   bind (tf_store p tf_sp sp) (\<lambda>_.
                   bind (proc_freepagetable oldpagetable oldsz) (\<lambda>_.
                   ret (int argc)))))))))))))"

definition exec :: "byte list \<Rightarrow> uint64 list \<Rightarrow> (int, 'a fs_scheme) routine" where
  "exec path argv =
     bind myproc (\<lambda>p.
     bind begin_op (\<lambda>_.
     bind (namei path) (\<lambda>i. case i of None \<Rightarrow> bind end_op (\<lambda>_. ret (-1)) | Some ip \<Rightarrow>
     bind (ilock (Some ip)) (\<lambda>_.
     bind (readi ip DstLocal 0 (of_nat ELFHDR_SIZE)) (\<lambda>(r, bs).
       let elf = dec_elfhdr bs in
       if r \<noteq> int ELFHDR_SIZE \<or> eh_magic elf \<noteq> ELF_MAGIC then exec_bad 0 0 (Some ip)
       else
         bind (proc_pagetable p) (\<lambda>pagetable.
           if pagetable = 0 then exec_bad 0 0 (Some ip)
           else
             bind (exec_load pagetable ip (ucast (eh_phoff elf)) (unat (eh_phnum elf)) 0) (\<lambda>(ok, sz).
               if \<not> ok then exec_bad pagetable sz (Some ip)
               else
                 bind (iunlockput ip) (\<lambda>_.
                 bind end_op (\<lambda>_.
                 exec_image p pagetable sz (eh_entry elf) path argv)))))))))"

subsection \<open>The system call\<close>

text \<open>The loop that fetches the arguments; \<open>n\<close> entries of \<open>argv\<close> are left.\<close>

primrec exec_args :: "nat \<Rightarrow> uint64 \<Rightarrow> uint64 list \<Rightarrow> (bool \<times> uint64 list, 'a ptab_scheme) routine" where
  "exec_args 0 uargv argv = ret (False, argv)"
| "exec_args (Suc n) uargv argv =
     bind (fetchaddr (uargv + of_nat (8 * length argv))) (\<lambda>(r, uarg).
       if r < 0 then ret (False, argv)
       else if uarg = 0 then ret (True, argv)
       else
         bind kalloc (\<lambda>pg.
           if pg = 0 then ret (False, argv)
           else
             bind (fetchstr uarg (unat PGSIZE)) (\<lambda>(f, str).
             bind (modify (\<lambda>s. s\<lparr>pmem := mwrite (pmem s) pg (if f < 0 then str else str @ [0])\<rparr>)) (\<lambda>_.
               if f < 0 then ret (False, argv @ [pg])
               else exec_args n uargv (argv @ [pg])))))"

definition sys_exec :: "(uint64, 'a fs_scheme) routine" where
  "sys_exec =
     bind (argstr 0 MAXPATH) (\<lambda>(r, path). if r < 0 then ret (-1) else
     bind (argaddr 1) (\<lambda>uargv.
     bind (exec_args MAXARG uargv []) (\<lambda>(ok, argv).
       if \<not> ok then bind (for_each argv kfree) (\<lambda>_. ret (-1))
       else
         bind (exec path argv) (\<lambda>res.
         bind (for_each argv kfree) (\<lambda>_.
         ret (of_int res))))))"

end
