(* ===== verification/Trap.thy ===== *)
theory Trap
  imports Process Exec Sysfile
begin

text \<open>
  System calls on processes (\<^verbatim>\<open>kernel/sysproc.c\<close>), the system call table (\<^verbatim>\<open>kernel/syscall.c\<close>) and the
  trap handlers (\<^verbatim>\<open>kernel/trap.c\<close>).

  A handler gets the control registers it reads as an argument (\<open>csrs\<close>); the interrupt that the PLIC hands
  out is the argument \<open>irq\<close>, and the registers that \<open>usertrapret\<close> and \<open>kerneltrap\<close> write are part of their
  result. The handler of a disk interrupt is an argument too: its model has the state of the driver, in theory
  \<open>Virtio\<close>.
\<close>

subsection \<open>System calls on processes\<close>

definition sys_exit :: "(uint64, 'a files_scheme) routine" where
  "sys_exit = bind (argint 0) (\<lambda>n. exit n)"

definition sys_getpid :: "(uint64, 'a files_scheme) routine" where
  "sys_getpid = bind myproc (\<lambda>p. gets (\<lambda>s. of_int (p_pid (procs s ! p))))"

definition sys_fork :: "(uint64, 'a files_scheme) routine" where
  "sys_fork = bind fork (\<lambda>r. ret (of_int r))"

definition sys_wait :: "(uint64, 'a files_scheme) routine" where
  "sys_wait = bind (argaddr 0) (\<lambda>p. bind (wait p) (\<lambda>r. ret (of_int r)))"

text \<open>The old size is returned as an \<open>int\<close>.\<close>

definition sys_sbrk :: "(uint64, 'a files_scheme) routine" where
  "sys_sbrk =
     bind (argint 0) (\<lambda>n.
     bind myproc (\<lambda>p.
     bind (gets (\<lambda>s. sint (ucast (p_sz (procs s ! p)) :: uint32))) (\<lambda>addr.
     bind (growproc n) (\<lambda>r.
       if r < 0 then ret (-1) else ret (of_int addr)))))"

text \<open>The loop of \<open>sys_sleep\<close> after \<open>ticks0\<close> has been read; a woken caller enters it again.\<close>

definition sys_sleep_from :: "uint32 \<Rightarrow> int \<Rightarrow> (uint64, 'a files_scheme) routine" where
  "sys_sleep_from ticks0 n =
     bind (gets ticks) (\<lambda>t.
       if t - ticks0 < of_int n then
         bind myproc (\<lambda>p.
         bind (gets (\<lambda>s. p_killed (procs s ! p))) (\<lambda>killed.
           if killed then ret (-1) else sleep Ticks))
       else ret 0)"

definition sys_sleep :: "(uint64, 'a files_scheme) routine" where
  "sys_sleep = bind (argint 0) (\<lambda>n. bind (gets ticks) (\<lambda>ticks0. sys_sleep_from ticks0 n))"

definition sys_kill :: "(uint64, 'a files_scheme) routine" where
  "sys_kill = bind (argint 0) (\<lambda>pid. bind (kill pid) (\<lambda>r. ret (of_int r)))"

definition sys_uptime :: "(uint64, 'a files_scheme) routine" where
  "sys_uptime = gets (\<lambda>s. ucast (ticks s))"

subsection \<open>Dispatch\<close>

text \<open>Entry \<open>num\<close> of the table \<open>syscalls\<close>, numbered as in \<^verbatim>\<open>kernel/syscall.h\<close>; entry 0 is null.\<close>

definition syscalls :: "(uint64, 'a files_scheme) routine list" where
  "syscalls = [sys_fork, sys_exit, sys_wait, sys_pipe, sys_read, sys_kill, sys_exec, sys_fstat, sys_chdir, sys_dup,
     sys_getpid, sys_sbrk, sys_sleep, sys_uptime, sys_open, sys_write, sys_mknod, sys_unlink, sys_link, sys_mkdir,
     sys_close, sys_mmap, sys_munmap]"

definition syscall :: "(unit, 'a files_scheme) routine" where
  "syscall =
     bind myproc (\<lambda>p.
     bind (gets (tf_load p tf_a7)) (\<lambda>a7.
     let num = sint (ucast a7 :: uint32) in
       if num > 0 \<and> num \<le> int (length (syscalls :: (uint64, 'a files_scheme) routine list)) then
         bind (syscalls ! (nat num - 1)) (\<lambda>r. tf_store p tf_a0 r)
       else
         bind (gets (\<lambda>s. procs s ! p)) (\<lambda>x.
         bind (printf ''%d %s: unknown sys call %d\<newline>''
           [AInt (p_pid x), AStr (Some (takeWhile (\<lambda>c. c \<noteq> 0) (p_name x))), AInt num]) (\<lambda>_.
         tf_store p tf_a0 (-1)))))"

subsection \<open>Interrupts\<close>

record csrs =
  scause :: uint64
  stval :: uint64
  sepc :: uint64
  sstatus :: uint64
  hart :: nat

definition SSTATUS_SPP :: uint64 where "SSTATUS_SPP = push_bit 8 1"
definition SSTATUS_SPIE :: uint64 where "SSTATUS_SPIE = push_bit 5 1"
definition SSTATUS_SIE :: uint64 where "SSTATUS_SIE = push_bit 1 1"
definition UART0_IRQ :: int where "UART0_IRQ = 10"
definition VIRTIO0_IRQ :: int where "VIRTIO0_IRQ = 1"

definition clockintr :: "(unit, 'a ptab_scheme) routine" where
  "clockintr = bind (modify (\<lambda>s. s\<lparr>ticks := ticks s + 1\<rparr>)) (\<lambda>_. wakeup Ticks)"

definition devintr :: "(unit, 'a files_scheme) routine \<Rightarrow> int \<Rightarrow> csrs \<Rightarrow> (int, 'a files_scheme) routine" where
  "devintr virtio_disk_intr irq c =
     (if scause c AND 0x8000000000000000 \<noteq> 0 \<and> scause c AND 0xff = 9 then
        bind (if irq = UART0_IRQ then uartintr
          else if irq = VIRTIO0_IRQ then virtio_disk_intr
          else if irq \<noteq> 0 then printf ''unexpected interrupt irq=%d\<newline>'' [AInt irq]
          else ret ()) (\<lambda>_. ret 1)
      else if scause c = 0x8000000000000001 then
        bind (if hart c = 0 then clockintr else ret ()) (\<lambda>_. ret 2)
      else ret 0)"

subsection \<open>Traps\<close>

text \<open>What \<open>usertrapret\<close> leaves in the control registers: \<open>sstatus\<close>, \<open>sepc\<close> and the \<open>satp\<close> for \<open>userret\<close>.\<close>

definition MAKE_SATP :: "uint64 \<Rightarrow> uint64" where
  "MAKE_SATP pagetable = push_bit 60 8 OR drop_bit 12 pagetable"

definition usertrapret :: "uint64 \<Rightarrow> uint64 \<Rightarrow> csrs \<Rightarrow> (uint64 \<times> uint64 \<times> uint64, 'a ptab_scheme) routine" where
  "usertrapret kernel_satp usertrap_addr c =
     bind myproc (\<lambda>p.
     bind (tf_store p tf_kernel_satp kernel_satp) (\<lambda>_.
     bind (gets (\<lambda>s. p_kstack (procs s ! p))) (\<lambda>kstack.
     bind (tf_store p tf_kernel_sp (kstack + PGSIZE)) (\<lambda>_.
     bind (tf_store p tf_kernel_trap usertrap_addr) (\<lambda>_.
     bind (tf_store p tf_kernel_hartid (of_nat (hart c))) (\<lambda>_.
     bind (gets (tf_load p tf_epc)) (\<lambda>epc.
     bind (gets (\<lambda>s. p_pagetable (procs s ! p))) (\<lambda>pt.
     let x = (sstatus c AND NOT SSTATUS_SPP) OR SSTATUS_SPIE in
     ret (x, epc, MAKE_SATP pt)))))))))"

text \<open>\<open>usertrap\<close> up to its call of \<open>usertrapret\<close>.\<close>

definition usertrap :: "(unit, 'a files_scheme) routine \<Rightarrow> int \<Rightarrow> csrs \<Rightarrow> (unit, 'a files_scheme) routine" where
  "usertrap virtio_disk_intr irq c =
     (if sstatus c AND SSTATUS_SPP \<noteq> 0 then panic ''usertrap: not from user mode''
      else
        bind myproc (\<lambda>p.
        bind (tf_store p tf_epc (sepc c)) (\<lambda>_.
        bind (if scause c = 8 then
            bind (gets (\<lambda>s. p_killed (procs s ! p))) (\<lambda>killed.
            bind (if killed then exit (-1) else ret ()) (\<lambda>_.
            bind (gets (tf_load p tf_epc)) (\<lambda>epc.
            bind (tf_store p tf_epc (epc + 4)) (\<lambda>_.
            bind syscall (\<lambda>_. ret 0)))))
          else
            bind (devintr virtio_disk_intr irq c) (\<lambda>which_dev.
              if which_dev \<noteq> 0 then ret which_dev
              else if scause c = 13 \<or> scause c = 15 then bind (page_fault p (stval c)) (\<lambda>_. ret 0)
              else
                bind (gets (\<lambda>s. p_pid (procs s ! p))) (\<lambda>pid.
                bind (printf ''usertrap(): unexpected scause %p pid=%d\<newline>'' [APtr (scause c), AInt pid]) (\<lambda>_.
                bind (printf ''            sepc=%p stval=%p\<newline>'' [APtr (sepc c), APtr (stval c)]) (\<lambda>_.
                bind (set_killed p) (\<lambda>_. ret 0)))))) (\<lambda>which_dev.
        bind (gets (\<lambda>s. p_killed (procs s ! p))) (\<lambda>killed.
        bind (if killed then exit (-1) else ret ()) (\<lambda>_.
          if which_dev = 2 then yield else ret ()))))))"

text \<open>\<open>kerneltrap\<close>; it restores \<open>sepc\<close> and \<open>sstatus\<close>, which it returns.\<close>

definition kerneltrap :: "(unit, 'a files_scheme) routine \<Rightarrow> int \<Rightarrow> csrs \<Rightarrow> (uint64 \<times> uint64, 'a files_scheme) routine" where
  "kerneltrap virtio_disk_intr irq c =
     (if sstatus c AND SSTATUS_SPP = 0 then panic ''kerneltrap: not from supervisor mode''
      else if sstatus c AND SSTATUS_SIE \<noteq> 0 then panic ''kerneltrap: interrupts enabled''
      else
        bind (devintr virtio_disk_intr irq c) (\<lambda>which_dev.
          if which_dev = 0 then
            bind (printf ''scause %p\<newline>'' [APtr (scause c)]) (\<lambda>_.
            bind (printf ''sepc=%p stval=%p\<newline>'' [APtr (sepc c), APtr (stval c)]) (\<lambda>_.
            panic ''kerneltrap''))
          else
            bind (gets (\<lambda>s. which_dev = 2 \<and> (case cur s of None \<Rightarrow> False | Some p \<Rightarrow> p_state (procs s ! p) = RUNNING))) (\<lambda>y.
            bind (if y then yield else ret ()) (\<lambda>_.
            ret (sepc c, sstatus c)))))"

text \<open>\<open>forkret\<close> up to its call of \<open>usertrapret\<close>; \<open>first\<close> is its static variable.\<close>

definition forkret :: "bool \<Rightarrow> (bool, 'a fs_scheme) routine" where
  "forkret first =
     bind myproc (\<lambda>_. if first then bind (fsinit ROOTDEV) (\<lambda>_. ret False) else ret first)"

end
