(* ===== verification/Virtio.thy ===== *)
theory Virtio
  imports Trap
begin

text \<open>
  The disk driver, \<^verbatim>\<open>kernel/virtio_disk.c\<close> and \<^verbatim>\<open>kernel/virtio.h\<close>.

  The state adds \<open>struct disk\<close>: the descriptors, the two rings and the driver's own tables. Pointers in
  descriptors are the objects the driver points them to (\<open>daddr\<close>). \<open>vd_regs\<close> records the writes to the device
  registers; what the device answers to reads at boot is an argument of \<open>virtio_disk_init\<close>.

  \<open>virtio_disk_rw\<close> is split where it sleeps: \<open>rw_start\<close> gets descriptors and posts the request, \<open>rw_wait\<close>
  waits for its completion and frees the descriptors. \<open>free_chain\<close> follows \<open>next\<close> pointers with a bound on the
  number of steps that is never reached (\<open>free_chain_terminates\<close>).
\<close>

subsection \<open>Data\<close>

definition NUM :: nat where "NUM = 8"
definition VRING_DESC_F_NEXT :: uint16 where "VRING_DESC_F_NEXT = 1"
definition VRING_DESC_F_WRITE :: uint16 where "VRING_DESC_F_WRITE = 2"
definition VIRTIO_BLK_T_IN :: uint32 where "VIRTIO_BLK_T_IN = 0"
definition VIRTIO_BLK_T_OUT :: uint32 where "VIRTIO_BLK_T_OUT = 1"

datatype daddr = NullAddr | OpsAddr nat | DataAddr nat | StatusAddr nat

record virtq_desc =
  d_addr :: daddr
  d_len :: uint32
  d_flags :: uint16
  d_next :: uint16

record virtio_blk_req =
  req_type :: uint32
  req_reserved :: uint32
  req_sector :: uint64

record vdisk = files +
  vd_desc :: "virtq_desc list"
  avail_idx :: uint16
  avail_ring :: "uint16 list"
  used_dev_idx :: uint16
  used_ring :: "uint32 list"
  vd_free :: "bool list"
  used_idx :: uint16
  info_b :: "nat option list"
  info_status :: "byte list"
  vd_ops :: "virtio_blk_req list"
  vd_regs :: "(nat \<times> uint32) list"

definition null_desc :: virtq_desc where
  "null_desc = \<lparr>d_addr = NullAddr, d_len = 0, d_flags = 0, d_next = 0\<rparr>"

subsection \<open>Initialisation\<close>

definition VIRTIO_MMIO_DRIVER_FEATURES :: nat where "VIRTIO_MMIO_DRIVER_FEATURES = 0x020"
definition VIRTIO_MMIO_GUEST_PAGE_SIZE :: nat where "VIRTIO_MMIO_GUEST_PAGE_SIZE = 0x028"
definition VIRTIO_MMIO_QUEUE_SEL :: nat where "VIRTIO_MMIO_QUEUE_SEL = 0x030"
definition VIRTIO_MMIO_QUEUE_NUM :: nat where "VIRTIO_MMIO_QUEUE_NUM = 0x038"
definition VIRTIO_MMIO_QUEUE_PFN :: nat where "VIRTIO_MMIO_QUEUE_PFN = 0x040"
definition VIRTIO_MMIO_QUEUE_NOTIFY :: nat where "VIRTIO_MMIO_QUEUE_NOTIFY = 0x050"
definition VIRTIO_MMIO_INTERRUPT_ACK :: nat where "VIRTIO_MMIO_INTERRUPT_ACK = 0x064"
definition VIRTIO_MMIO_STATUS :: nat where "VIRTIO_MMIO_STATUS = 0x070"

definition VIRTIO_CONFIG_S_ACKNOWLEDGE :: uint32 where "VIRTIO_CONFIG_S_ACKNOWLEDGE = 1"
definition VIRTIO_CONFIG_S_DRIVER :: uint32 where "VIRTIO_CONFIG_S_DRIVER = 2"
definition VIRTIO_CONFIG_S_DRIVER_OK :: uint32 where "VIRTIO_CONFIG_S_DRIVER_OK = 4"
definition VIRTIO_CONFIG_S_FEATURES_OK :: uint32 where "VIRTIO_CONFIG_S_FEATURES_OK = 8"

text \<open>The bits the driver clears: \<open>BLK_F_RO\<close>, \<open>BLK_F_SCSI\<close>, \<open>BLK_F_CONFIG_WCE\<close>, \<open>BLK_F_MQ\<close>, \<open>F_ANY_LAYOUT\<close>,
  \<open>RING_F_INDIRECT_DESC\<close> and \<open>RING_F_EVENT_IDX\<close>.\<close>

definition refused_features :: "nat list" where
  "refused_features = [5, 7, 11, 12, 27, 29, 28]"

record mmio_boot =
  magic_value :: uint32
  version_reg :: uint32
  device_id :: uint32
  vendor_id :: uint32
  device_features :: uint32
  queue_num_max :: uint32

definition write_mmio :: "nat \<Rightarrow> uint32 \<Rightarrow> (unit, 'a vdisk_scheme) routine" where
  "write_mmio r v = modify (\<lambda>s. s\<lparr>vd_regs := vd_regs s @ [(r, v)]\<rparr>)"

definition virtio_disk_init :: "mmio_boot \<Rightarrow> uint64 \<Rightarrow> (unit, 'a vdisk_scheme) routine" where
  "virtio_disk_init m pages =
     (if magic_value m \<noteq> 0x74726976 \<or> version_reg m \<noteq> 1 \<or> device_id m \<noteq> 2 \<or> vendor_id m \<noteq> 0x554d4551
      then panic ''could not find virtio disk''
      else
        let status = VIRTIO_CONFIG_S_ACKNOWLEDGE in
        bind (write_mmio VIRTIO_MMIO_STATUS status) (\<lambda>_.
        let status = status OR VIRTIO_CONFIG_S_DRIVER in
        bind (write_mmio VIRTIO_MMIO_STATUS status) (\<lambda>_.
        bind (write_mmio VIRTIO_MMIO_DRIVER_FEATURES
          (fold (\<lambda>b f. f AND NOT (push_bit b 1)) refused_features (device_features m))) (\<lambda>_.
        let status = status OR VIRTIO_CONFIG_S_FEATURES_OK in
        bind (write_mmio VIRTIO_MMIO_STATUS status) (\<lambda>_.
        let status = status OR VIRTIO_CONFIG_S_DRIVER_OK in
        bind (write_mmio VIRTIO_MMIO_STATUS status) (\<lambda>_.
        bind (write_mmio VIRTIO_MMIO_GUEST_PAGE_SIZE (ucast PGSIZE)) (\<lambda>_.
        bind (write_mmio VIRTIO_MMIO_QUEUE_SEL 0) (\<lambda>_.
          if queue_num_max m = 0 then panic ''virtio disk has no queue 0''
          else if queue_num_max m < of_nat NUM then panic ''virtio disk max queue too short''
          else
            bind (write_mmio VIRTIO_MMIO_QUEUE_NUM (of_nat NUM)) (\<lambda>_.
            bind (modify (\<lambda>s. s\<lparr>vd_desc := replicate NUM null_desc, avail_idx := 0, avail_ring := replicate NUM 0,
              used_dev_idx := 0, used_ring := replicate NUM 0\<rparr>)) (\<lambda>_.
            bind (write_mmio VIRTIO_MMIO_QUEUE_PFN (ucast (drop_bit 12 pages))) (\<lambda>_.
            modify (\<lambda>s. s\<lparr>vd_free := replicate NUM True\<rparr>))))))))))))"

subsection \<open>Descriptors\<close>

definition upd_desc :: "nat \<Rightarrow> (virtq_desc \<Rightarrow> virtq_desc) \<Rightarrow> (unit, 'a vdisk_scheme) routine" where
  "upd_desc i f = modify (\<lambda>s. s\<lparr>vd_desc := (vd_desc s)[i := f (vd_desc s ! i)]\<rparr>)"

definition alloc_desc :: "(nat option, 'a vdisk_scheme) routine" where
  "alloc_desc =
     bind (gets (\<lambda>s. find_idx (\<lambda>f. f) (vd_free s))) (\<lambda>found.
       case found of
         None \<Rightarrow> ret None
       | Some i \<Rightarrow> bind (modify (\<lambda>s. s\<lparr>vd_free := (vd_free s)[i := False]\<rparr>)) (\<lambda>_. ret (Some i)))"

definition free_desc :: "nat \<Rightarrow> (unit, 'a vdisk_scheme) routine" where
  "free_desc i =
     (if i \<ge> NUM then panic ''free_desc 1''
      else
        bind (gets (\<lambda>s. vd_free s ! i)) (\<lambda>f.
          if f then panic ''free_desc 2''
          else
            bind (upd_desc i (\<lambda>_. null_desc)) (\<lambda>_.
            bind (modify (\<lambda>s. s\<lparr>vd_free := (vd_free s)[i := True]\<rparr>)) (\<lambda>_.
            wakeup DiskFree))))"

primrec free_chain_from :: "nat \<Rightarrow> nat \<Rightarrow> (unit, 'a vdisk_scheme) routine" where
  "free_chain_from 0 i = panic ''free_chain: bound''"
| "free_chain_from (Suc n) i =
     bind (gets (\<lambda>s. vd_desc s ! i)) (\<lambda>d.
     bind (free_desc i) (\<lambda>_.
       if d_flags d AND VRING_DESC_F_NEXT \<noteq> 0 then free_chain_from n (unat (d_next d)) else ret ()))"

definition free_chain :: "nat \<Rightarrow> (unit, 'a vdisk_scheme) routine" where
  "free_chain i = free_chain_from (NUM + 1) i"

text \<open>\<open>None\<close> is the result \<open>-1\<close>, after giving back what it had.\<close>

definition alloc3_desc :: "((nat \<times> nat \<times> nat) option, 'a vdisk_scheme) routine" where
  "alloc3_desc =
     bind alloc_desc (\<lambda>a0. case a0 of None \<Rightarrow> ret None | Some i0 \<Rightarrow>
     bind alloc_desc (\<lambda>a1. case a1 of None \<Rightarrow> bind (free_desc i0) (\<lambda>_. ret None) | Some i1 \<Rightarrow>
     bind alloc_desc (\<lambda>a2. case a2 of
         None \<Rightarrow> bind (free_desc i0) (\<lambda>_. bind (free_desc i1) (\<lambda>_. ret None))
       | Some i2 \<Rightarrow> ret (Some (i0, i1, i2)))))"

subsection \<open>Requests\<close>

definition rw_start :: "nat \<Rightarrow> bool \<Rightarrow> (nat, 'a vdisk_scheme) routine" where
  "rw_start b write =
     bind (gets (\<lambda>s. ucast (b_blockno (bufs s ! b) * of_nat (BSIZE div 512)))) (\<lambda>sector.
     bind alloc3_desc (\<lambda>a. case a of None \<Rightarrow> sleep DiskFree | Some (i0, i1, i2) \<Rightarrow>
     bind (modify (\<lambda>s. s\<lparr>vd_ops := (vd_ops s)[i0 := \<lparr>req_type = (if write then VIRTIO_BLK_T_OUT else VIRTIO_BLK_T_IN),
       req_reserved = 0, req_sector = sector\<rparr>]\<rparr>)) (\<lambda>_.
     bind (upd_desc i0 (\<lambda>_. \<lparr>d_addr = OpsAddr i0, d_len = 16, d_flags = VRING_DESC_F_NEXT, d_next = of_nat i1\<rparr>)) (\<lambda>_.
     bind (upd_desc i1 (\<lambda>_. \<lparr>d_addr = DataAddr b, d_len = of_nat BSIZE,
       d_flags = (if write then 0 else VRING_DESC_F_WRITE) OR VRING_DESC_F_NEXT, d_next = of_nat i2\<rparr>)) (\<lambda>_.
     bind (modify (\<lambda>s. s\<lparr>info_status := (info_status s)[i0 := 0xff]\<rparr>)) (\<lambda>_.
     bind (upd_desc i2 (\<lambda>_. \<lparr>d_addr = StatusAddr i0, d_len = 1, d_flags = VRING_DESC_F_WRITE, d_next = 0\<rparr>)) (\<lambda>_.
     bind (upd_buf b (\<lambda>x. x\<lparr>b_disk := True\<rparr>)) (\<lambda>_.
     bind (modify (\<lambda>s. s\<lparr>info_b := (info_b s)[i0 := Some b]\<rparr>)) (\<lambda>_.
     bind (modify (\<lambda>s. s\<lparr>avail_ring := (avail_ring s)[unat (avail_idx s) mod NUM := of_nat i0]\<rparr>)) (\<lambda>_.
     bind (modify (\<lambda>s. s\<lparr>avail_idx := avail_idx s + 1\<rparr>)) (\<lambda>_.
     bind (write_mmio VIRTIO_MMIO_QUEUE_NOTIFY 0) (\<lambda>_.
     ret i0))))))))))))"

definition rw_wait :: "nat \<Rightarrow> nat \<Rightarrow> (unit, 'a vdisk_scheme) routine" where
  "rw_wait b i0 =
     bind (gets (\<lambda>s. b_disk (bufs s ! b))) (\<lambda>d.
       if d then sleep (DiskBuf b)
       else
         bind (modify (\<lambda>s. s\<lparr>info_b := (info_b s)[i0 := None]\<rparr>)) (\<lambda>_.
         free_chain i0))"

definition virtio_disk_rw :: "nat \<Rightarrow> bool \<Rightarrow> (unit, 'a vdisk_scheme) routine" where
  "virtio_disk_rw b write = bind (rw_start b write) (\<lambda>i0. rw_wait b i0)"

text \<open>The body of the loop of \<open>virtio_disk_intr\<close>.\<close>

definition disk_intr_turn :: "(unit, 'a vdisk_scheme) routine" where
  "disk_intr_turn =
     bind (gets (\<lambda>s. unat (used_ring s ! (unat (used_idx s) mod NUM)))) (\<lambda>i.
       if i \<ge> NUM then panic ''undefined behaviour: disk.info[id]''
       else
         bind (gets (\<lambda>s. (info_status s ! i, info_b s ! i))) (\<lambda>(status, ib).
           if status \<noteq> 0 then panic ''virtio_disk_intr status''
           else
             bind (deref ib) (\<lambda>b.
             bind (upd_buf b (\<lambda>x. x\<lparr>b_disk := False\<rparr>)) (\<lambda>_.
             bind (wakeup (DiskBuf b)) (\<lambda>_.
             modify (\<lambda>s. s\<lparr>used_idx := used_idx s + 1\<rparr>))))))"

primrec disk_intr_from :: "nat \<Rightarrow> (unit, 'a vdisk_scheme) routine" where
  "disk_intr_from 0 = panic ''virtio_disk_intr: bound''"
| "disk_intr_from (Suc n) =
     bind (gets (\<lambda>s. used_idx s \<noteq> used_dev_idx s)) (\<lambda>more.
       if more then bind disk_intr_turn (\<lambda>_. disk_intr_from n) else ret ())"

text \<open>
  The handler with the device at rest: the counters are of 16 bits, so the bound on the turns is not reached. Theory \<open>Diskdrv\<close> lets the
  device add entries between two turns. \<open>interrupt_status\<close> is what the register holds.
\<close>

definition virtio_disk_intr :: "uint32 \<Rightarrow> (unit, 'a vdisk_scheme) routine" where
  "virtio_disk_intr interrupt_status =
     bind (write_mmio VIRTIO_MMIO_INTERRUPT_ACK (interrupt_status AND 3)) (\<lambda>_. disk_intr_from 65536)"

subsection \<open>Freeing a chain ends\<close>

definition taken :: "'a vdisk_scheme \<Rightarrow> nat" where
  "taken s = length (filter (\<lambda>f. \<not> f) (vd_free s))"

lemma free_desc_cases:
  fixes s :: "'a vdisk_scheme"
  assumes "length (vd_free s) = NUM"
  obtains (Panic) msg where "free_desc i s = Panic msg" and "msg \<noteq> ''free_chain: bound''"
    | (Ok) ps where "i < NUM" and "\<not> vd_free s ! i"
        and "free_desc i s = Ok () (s\<lparr>vd_desc := (vd_desc s)[i := null_desc], vd_free := (vd_free s)[i := True], procs := ps\<rparr>)"
        and "only_woken s (s\<lparr>procs := ps\<rparr>)"
proof -
  consider "i \<ge> NUM" | "i < NUM" "vd_free s ! i" | "i < NUM" "\<not> vd_free s ! i" by linarith
  then show ?thesis
  proof cases
    case 3
    let ?s = "s\<lparr>vd_desc := (vd_desc s)[i := null_desc], vd_free := (vd_free s)[i := True]\<rparr>"
    obtain ps where "wakeup DiskFree ?s = Ok () (?s\<lparr>procs := ps\<rparr>)" "only_woken ?s (?s\<lparr>procs := ps\<rparr>)"
      using wakeup_eval by blast
    then show ?thesis using 3 by (intro Ok [of ps]) (simp_all add: free_desc_def bind_def upd_desc_def only_woken_def)
  qed (auto intro: Panic simp: free_desc_def)
qed

lemma taken_free:
  assumes "i < length fs" and "\<not> fs ! i"
  shows "length (filter (\<lambda>f. \<not> f) fs) = Suc (length (filter (\<lambda>f. \<not> f) (fs[i := True])))"
  using assms
proof (induction fs arbitrary: i)
  case (Cons f fs)
  then show ?case by (cases i) auto
qed simp

lemma free_chain_from_bound:
  fixes s :: "'a vdisk_scheme"
  assumes "length (vd_free s) = NUM" and "taken s < n" and "taken s < m"
  shows "free_chain_from n i s = free_chain_from m i s" and "free_chain_from n i s \<noteq> Panic ''free_chain: bound''"
proof -
  have "free_chain_from n i s = free_chain_from m i s \<and> free_chain_from n i s \<noteq> Panic ''free_chain: bound''"
    using assms
  proof (induction n arbitrary: s i m)
    case (Suc n)
    obtain m' where m: "m = Suc m'" using Suc.prems(3) by (cases m) auto
    let ?d = "vd_desc s ! i"
    show ?case
    proof (cases rule: free_desc_cases [OF Suc.prems(1), of i])
      case (1 msg)
      then show ?thesis by (simp add: m bind_def)
    next
      case (2 ps)
      define s1 where "s1 = s\<lparr>vd_desc := (vd_desc s)[i := null_desc], vd_free := (vd_free s)[i := True], procs := ps\<rparr>"
      have "taken s = Suc (taken s1)" using taken_free [of i "vd_free s"] 2 Suc.prems(1) by (simp add: taken_def s1_def)
      moreover have "length (vd_free s1) = NUM" using Suc.prems(1) by (simp add: s1_def)
      ultimately show ?thesis using Suc.IH [of s1 m' "unat (d_next ?d)"] 2(3) Suc.prems m
        by (auto simp: bind_def s1_def [symmetric])
    qed
  qed simp
  then show "free_chain_from n i s = free_chain_from m i s" "free_chain_from n i s \<noteq> Panic ''free_chain: bound''"
    by blast+
qed

text \<open>
  C24: \<open>free_chain\<close> ends from every descriptor, whatever the \<open>next\<close> pointers are: the bound on its steps makes no
  difference, as every step frees a descriptor that was in use and panics at one that was not.
\<close>

theorem free_chain_terminates:
  fixes s :: "'a vdisk_scheme"
  assumes "length (vd_free s) = NUM" and "n \<ge> NUM + 1"
  shows "free_chain_from n i s = free_chain i s \<and> free_chain i s \<noteq> Panic ''free_chain: bound''"
proof -
  have "taken s \<le> NUM" unfolding taken_def assms(1) [symmetric] by (rule length_filter_le)
  then show ?thesis using free_chain_from_bound [OF assms(1), of n "NUM + 1" i] free_chain_from_bound(2) [OF assms(1), of "NUM + 1" "NUM + 1" i]
      assms(2) by (simp add: free_chain_def)
qed

definition demo_vdisk :: vdisk where
  "demo_vdisk = files.extend demo_files (vdisk.fields
     [null_desc\<lparr>d_flags := 1, d_next := 1\<rparr>, null_desc\<lparr>d_flags := 1, d_next := 0\<rparr>, null_desc, null_desc, null_desc, null_desc,
       null_desc, null_desc]
     0 (replicate NUM 0) 0 (replicate NUM 0) [False, False, True, True, True, True, True, True] 0
     (replicate NUM None) (replicate NUM 0) (replicate NUM \<lparr>req_type = 0, req_reserved = 0, req_sector = 0\<rparr>) [])"

text \<open>The witness: two descriptors that point to each other.\<close>

theorem free_chain_terminates_witness:
  "free_chain_from 100 0 demo_vdisk = free_chain 0 demo_vdisk \<and> free_chain 0 demo_vdisk = Panic ''free_desc 2''"
proof -
  have "length (vd_free demo_vdisk) = NUM"
    by (simp add: demo_vdisk_def files.extend_def vdisk.fields_def NUM_def)
  then have "free_chain_from 100 0 demo_vdisk = free_chain 0 demo_vdisk"
    using free_chain_terminates [of demo_vdisk 100 0] by (simp add: NUM_def)
  moreover have "free_chain 0 demo_vdisk = Panic ''free_desc 2''"
    by (simp add: free_chain_def NUM_def numeral_eq_Suc bind_def free_desc_def upd_desc_def wakeup_def
        demo_vdisk_def files.extend_def vdisk.fields_def null_desc_def VRING_DESC_F_NEXT_def)
  ultimately show ?thesis by simp
qed

end
