(* ===== verification/Diskdrv.thy ===== *)
theory Diskdrv
  imports Virtio
begin

text \<open>
  The disk driver with the device and the processes that use it: requests in flight, and what a caller of
  \<open>virtio_disk_rw\<close> gets.

  The steps: a process posts a request for a buffer it holds, or sleeps for want of descriptors; the device takes the next
  entry of the \<open>avail\<close> ring; it completes one of the requests it has taken, in any order, or reports that it failed; the interrupt
  handler runs one turn of its loop; a waiting process sleeps or ends its request; and other code runs, which touches neither
  the driver nor buffers in flight. The device (documented behaviour of a virtio block device) has a counter into the \<open>avail\<close> ring and a list of the
  heads it has read there; it follows the descriptor chain of a head, reads the header, moves one block, stores the status and
  adds an entry to the used ring (\<open>dev_complete\<close>, \<open>dev_fail\<close>). It does nothing for a chain that is not a block request. The flights are
  bookkeeping of the proofs: neither the driver nor the device reads them.

  The theorems: no descriptor is lost or used twice, and no routine of the driver panics, except the handler when the device has reported a
  failure; the device gets exactly the requests that were posted; a process ends its request only after the device has moved the
  block; and that move is what \<open>disk_rw\<close> of theory \<open>Bio\<close> does.
\<close>

datatype phase = Posted | Moved | Failed | Seen

record flight =
  fl_1 :: nat
  fl_2 :: nat
  fl_b :: nat
  fl_w :: bool
  fl_phase :: phase

type_synonym flights = "nat \<Rightarrow> flight option"

record vdev =
  dv_last :: uint16
  dv_work :: "nat list"

subsection \<open>The device\<close>

primrec dev_chain :: "nat \<Rightarrow> virtq_desc list \<Rightarrow> nat \<Rightarrow> virtq_desc list" where
  "dev_chain 0 ds i = []"
| "dev_chain (Suc n) ds i = ds ! i # (if d_flags (ds ! i) AND VRING_DESC_F_NEXT \<noteq> 0 then dev_chain n ds (unat (d_next (ds ! i))) else [])"

text \<open>The request of a chain: header, data and status, which the device may write as the flags say.\<close>

definition dev_request :: "'a vdisk_scheme \<Rightarrow> nat \<Rightarrow> (virtio_blk_req \<times> nat \<times> nat) option" where
  "dev_request s h = (case dev_chain NUM (vd_desc s) h of
       [d0, d1, d2] \<Rightarrow> (case (d_addr d0, d_addr d1, d_addr d2) of
           (OpsAddr k, DataAddr b, StatusAddr j) \<Rightarrow>
             if d_len d0 = 16 \<and> d_len d1 = of_nat BSIZE \<and> d_len d2 = 1 \<and> d_flags d2 AND VRING_DESC_F_WRITE \<noteq> 0 \<and>
               (d_flags d1 AND VRING_DESC_F_WRITE \<noteq> 0) = (req_type (vd_ops s ! k) = VIRTIO_BLK_T_IN)
             then Some (vd_ops s ! k, b, j) else None
         | _ \<Rightarrow> None)
     | _ \<Rightarrow> None)"

definition dev_move :: "virtio_blk_req \<Rightarrow> nat \<Rightarrow> 'a vdisk_scheme \<Rightarrow> 'a vdisk_scheme" where
  "dev_move req b s = (let bn = ucast (req_sector req div 2) in
     if req_type req = VIRTIO_BLK_T_OUT
     then s\<lparr>disk := (disk s)(bn := b_data (bufs s ! b)), wrote := wrote s @ [(bn, b_data (bufs s ! b))]\<rparr>
     else s\<lparr>bufs := (bufs s)[b := (bufs s ! b)\<lparr>b_data := disk s bn\<rparr>]\<rparr>)"

definition dev_report :: "nat \<Rightarrow> nat \<Rightarrow> byte \<Rightarrow> 'a vdisk_scheme \<Rightarrow> 'a vdisk_scheme" where
  "dev_report h j e s = s\<lparr>info_status := (info_status s)[j := e],
     used_ring := (used_ring s)[unat (used_dev_idx s) mod NUM := of_nat h], used_dev_idx := used_dev_idx s + 1\<rparr>"

definition dev_complete :: "nat \<Rightarrow> 'a vdisk_scheme \<Rightarrow> 'a vdisk_scheme" where
  "dev_complete h s = (case dev_request s h of None \<Rightarrow> s | Some (req, b, j) \<Rightarrow> dev_report h j 0 (dev_move req b s))"

text \<open>A read that fails may leave anything in the buffer.\<close>

definition dev_fail :: "nat \<Rightarrow> byte \<Rightarrow> byte list \<Rightarrow> 'a vdisk_scheme \<Rightarrow> 'a vdisk_scheme" where
  "dev_fail h e data s = (case dev_request s h of None \<Rightarrow> s
     | Some (req, b, j) \<Rightarrow> dev_report h j e
         (if req_type req = VIRTIO_BLK_T_IN then s\<lparr>bufs := (bufs s)[b := (bufs s ! b)\<lparr>b_data := data\<rparr>]\<rparr> else s))"

subsection \<open>Steps\<close>

definition mark :: "phase \<Rightarrow> nat \<Rightarrow> flights \<Rightarrow> flights" where
  "mark ph h fl = fl(h := map_option (\<lambda>r. r\<lparr>fl_phase := ph\<rparr>) (fl h))"

definition in_flight :: "flights \<Rightarrow> nat \<Rightarrow> bool" where
  "in_flight fl b \<longleftrightarrow> (\<exists>h r. fl h = Some r \<and> fl_b r = b)"

text \<open>What code outside the driver may change.\<close>

definition outside :: "flights \<Rightarrow> vdisk \<Rightarrow> vdisk \<Rightarrow> bool" where
  "outside fl s s' \<longleftrightarrow> vd_desc s' = vd_desc s \<and> used_dev_idx s' = used_dev_idx s \<and> used_ring s' = used_ring s \<and>
     avail_idx s' = avail_idx s \<and> avail_ring s' = avail_ring s \<and>
     vd_free s' = vd_free s \<and> used_idx s' = used_idx s \<and> info_b s' = info_b s \<and> info_status s' = info_status s \<and>
     vd_ops s' = vd_ops s \<and> length (bufs s') = length (bufs s) \<and> (\<forall>b. in_flight fl b \<longrightarrow> bufs s' ! b = bufs s ! b)"

text \<open>The entry of the used ring the handler reads next.\<close>

definition next_used :: "vdisk \<Rightarrow> nat" where
  "next_used s = unat (used_ring s ! (unat (used_idx s) mod NUM))"

inductive drv_step :: "vdisk \<times> flights \<times> vdev \<Rightarrow> vdisk \<times> flights \<times> vdev \<Rightarrow> bool" where
  post: "\<not> in_flight fl b \<Longrightarrow> b < length (bufs s) \<Longrightarrow> unat (b_blockno (bufs s ! b)) < 2 ^ 31 \<Longrightarrow> rw_start b w s = Ok h s' \<Longrightarrow>
    drv_step (s, fl, d) (s', fl(h \<mapsto> \<lparr>fl_1 = unat (d_next (vd_desc s' ! h)),
      fl_2 = unat (d_next (vd_desc s' ! unat (d_next (vd_desc s' ! h)))), fl_b = b, fl_w = w, fl_phase = Posted\<rparr>), d)"
| no_post: "rw_start b w s = Block s' \<Longrightarrow> drv_step (s, fl, d) (s', fl, d)"
| fetch: "dv_last d \<noteq> avail_idx s \<Longrightarrow> drv_step (s, fl, d)
    (s, fl, \<lparr>dv_last = dv_last d + 1, dv_work = dv_work d @ [unat (avail_ring s ! (unat (dv_last d) mod NUM))]\<rparr>)"
| complete: "h \<in> set (dv_work d) \<Longrightarrow>
    drv_step (s, fl, d) (dev_complete h s, mark Moved h fl, d\<lparr>dv_work := remove1 h (dv_work d)\<rparr>)"
| fails: "h \<in> set (dv_work d) \<Longrightarrow> e \<noteq> 0 \<Longrightarrow>
    drv_step (s, fl, d) (dev_fail h e data s, mark Failed h fl, d\<lparr>dv_work := remove1 h (dv_work d)\<rparr>)"
| turn: "used_idx s \<noteq> used_dev_idx s \<Longrightarrow> disk_intr_turn s = Ok () s' \<Longrightarrow> drv_step (s, fl, d) (s', mark Seen (next_used s) fl, d)"
| wait: "fl h = Some r \<Longrightarrow> rw_wait (fl_b r) h s = Block s' \<Longrightarrow> drv_step (s, fl, d) (s', fl, d)"
| finish: "fl h = Some r \<Longrightarrow> rw_wait (fl_b r) h s = Ok () s' \<Longrightarrow> drv_step (s, fl, d) (s', fl(h := None), d)"
| other: "outside fl s s' \<Longrightarrow> drv_step (s, fl, d) (s', fl, d)"

inductive drv_reachable :: "vdisk \<times> flights \<times> vdev \<Rightarrow> bool" where
  init: "virtio_disk_init m pages s0 = Ok () s \<Longrightarrow> length (info_b s) = NUM \<Longrightarrow> length (info_status s) = NUM \<Longrightarrow>
    length (vd_ops s) = NUM \<Longrightarrow> used_idx s = 0 \<Longrightarrow> drv_reachable (s, Map.empty, \<lparr>dv_last = 0, dv_work = []\<rparr>)"
| step: "drv_reachable x \<Longrightarrow> drv_step x y \<Longrightarrow> drv_reachable y"

subsection \<open>The invariant\<close>

definition flight_ok :: "vdisk \<Rightarrow> nat \<Rightarrow> flight \<Rightarrow> bool" where
  "flight_ok s h r \<longleftrightarrow> h < NUM \<and> fl_1 r < NUM \<and> fl_2 r < NUM \<and> distinct [h, fl_1 r, fl_2 r] \<and>
     \<not> vd_free s ! h \<and> \<not> vd_free s ! fl_1 r \<and> \<not> vd_free s ! fl_2 r \<and>
     vd_desc s ! h = \<lparr>d_addr = OpsAddr h, d_len = 16, d_flags = VRING_DESC_F_NEXT, d_next = of_nat (fl_1 r)\<rparr> \<and>
     vd_desc s ! fl_1 r = \<lparr>d_addr = DataAddr (fl_b r), d_len = of_nat BSIZE,
       d_flags = (if fl_w r then 0 else VRING_DESC_F_WRITE) OR VRING_DESC_F_NEXT, d_next = of_nat (fl_2 r)\<rparr> \<and>
     vd_desc s ! fl_2 r = \<lparr>d_addr = StatusAddr h, d_len = 1, d_flags = VRING_DESC_F_WRITE, d_next = 0\<rparr> \<and>
     vd_ops s ! h = \<lparr>req_type = (if fl_w r then VIRTIO_BLK_T_OUT else VIRTIO_BLK_T_IN), req_reserved = 0,
       req_sector = ucast (b_blockno (bufs s ! fl_b r) * of_nat (BSIZE div 512))\<rparr> \<and>
     unat (b_blockno (bufs s ! fl_b r)) < 2 ^ 31 \<and> info_b s ! h = Some (fl_b r) \<and> fl_b r < length (bufs s) \<and>
     b_disk (bufs s ! fl_b r) = (fl_phase r \<noteq> Seen) \<and> (fl_phase r = Moved \<longrightarrow> info_status s ! h = 0) \<and>
     (fl_phase r = Failed \<longrightarrow> info_status s ! h \<noteq> 0)"

definition descs :: "nat \<Rightarrow> flight \<Rightarrow> nat set" where
  "descs h r = {h, fl_1 r, fl_2 r}"

definition heads :: "phase set \<Rightarrow> flights \<Rightarrow> nat set" where
  "heads P fl = {h. \<exists>r. fl h = Some r \<and> fl_phase r \<in> P}"

definition done_heads :: "vdisk \<Rightarrow> nat list" where
  "done_heads s = map unat (ring NUM (used_ring s) (used_idx s) (used_dev_idx s))"

definition drv_inv :: "vdisk \<times> flights \<Rightarrow> bool" where
  "drv_inv x \<longleftrightarrow> (let (s, fl) = x in
     length (vd_desc s) = NUM \<and> length (vd_free s) = NUM \<and> length (used_ring s) = NUM \<and> length (info_b s) = NUM \<and>
     length (info_status s) = NUM \<and> length (vd_ops s) = NUM \<and>
     (\<forall>h r. fl h = Some r \<longrightarrow> flight_ok s h r) \<and>
     (\<forall>h h' r r'. fl h = Some r \<longrightarrow> fl h' = Some r' \<longrightarrow> h \<noteq> h' \<longrightarrow> descs h r \<inter> descs h' r' = {} \<and> fl_b r \<noteq> fl_b r') \<and>
     unat (used_dev_idx s - used_idx s) \<le> NUM \<and> distinct (done_heads s) \<and> set (done_heads s) = heads {Moved, Failed} fl \<and>
     (\<forall>i<NUM. \<not> vd_free s ! i \<longrightarrow> (\<exists>h r. fl h = Some r \<and> i \<in> descs h r)))"

text \<open>What the device has still to do: the entries of the \<open>avail\<close> ring it has not read, and the requests it has taken.\<close>

definition todo :: "vdisk \<Rightarrow> vdev \<Rightarrow> nat list" where
  "todo s d = map unat (ring NUM (avail_ring s) (dv_last d) (avail_idx s)) @ dv_work d"

definition dev_inv :: "vdisk \<Rightarrow> flights \<Rightarrow> vdev \<Rightarrow> bool" where
  "dev_inv s fl d \<longleftrightarrow> length (avail_ring s) = NUM \<and> unat (avail_idx s - dv_last d) \<le> NUM \<and> distinct (todo s d) \<and> set (todo s d) = heads {Posted} fl"

lemma mark_iff: "mark ph h fl x = Some y \<longleftrightarrow> (if x = h then \<exists>r. fl h = Some r \<and> y = r\<lparr>fl_phase := ph\<rparr> else fl x = Some y)"
  by (auto simp: mark_def)

lemma heads_mark: "fl h \<noteq> None \<Longrightarrow> heads P (mark ph h fl) = (if ph \<in> P then insert h (heads P fl) else heads P fl - {h})"
  by (rule set_eqI, case_tac "x = h") (auto simp: heads_def mark_iff)

interpretation used_queue: ring_buffer NUM "TYPE(16)"
  by unfold_locales (simp_all add: NUM_def)

lemma flight_frame:
  assumes "flight_ok s h r"
    and "\<And>i. i \<in> descs h r \<Longrightarrow> vd_desc s' ! i = vd_desc s ! i \<and> vd_free s' ! i = vd_free s ! i"
    and "vd_ops s' ! h = vd_ops s ! h" and "info_b s' ! h = info_b s ! h" and "info_status s' ! h = info_status s ! h"
    and "length (bufs s') = length (bufs s)" and "b_disk (bufs s' ! fl_b r) = b_disk (bufs s ! fl_b r)"
    and "b_blockno (bufs s' ! fl_b r) = b_blockno (bufs s ! fl_b r)"
  shows "flight_ok s' h r"
  using assms by (auto simp: flight_ok_def descs_def)

lemma drv_invD:
  assumes "drv_inv (s, fl)"
  shows "length (vd_desc s) = NUM" "length (vd_free s) = NUM" "length (used_ring s) = NUM" "length (info_b s) = NUM"
    "length (info_status s) = NUM" "length (vd_ops s) = NUM" "unat (used_dev_idx s - used_idx s) \<le> NUM"
    "distinct (done_heads s)" "set (done_heads s) = heads {Moved, Failed} fl"
    "fl h = Some r \<Longrightarrow> flight_ok s h r"
    "fl h = Some r \<Longrightarrow> fl h' = Some r' \<Longrightarrow> h \<noteq> h' \<Longrightarrow> descs h r \<inter> descs h' r' = {}"
    "fl h = Some r \<Longrightarrow> fl h' = Some r' \<Longrightarrow> h \<noteq> h' \<Longrightarrow> fl_b r \<noteq> fl_b r'"
    "i < NUM \<Longrightarrow> \<not> vd_free s ! i \<Longrightarrow> \<exists>h r. fl h = Some r \<and> i \<in> descs h r"
  using assms unfolding drv_inv_def Let_def prod.case by blast+

text \<open>A change of phase concerns neither descriptors nor buffers.\<close>

lemma marked_descs: "(\<exists>h r. mark ph k fl h = Some r \<and> i \<in> descs h r) \<longleftrightarrow> (\<exists>h r. fl h = Some r \<and> i \<in> descs h r)"
proof -
  have "descs h (r\<lparr>fl_phase := ph\<rparr>) = descs h r" for h r by (simp add: descs_def)
  then show ?thesis unfolding mark_iff by (metis (full_types))
qed

lemma marked_apart:
  assumes "drv_inv (s, fl)"
  shows "\<forall>x y r1 r2. mark ph h fl x = Some r1 \<longrightarrow> mark ph h fl y = Some r2 \<longrightarrow> x \<noteq> y \<longrightarrow> descs x r1 \<inter> descs y r2 = {} \<and> fl_b r1 \<noteq> fl_b r2"
proof (intro allI impI)
  fix x y r1 r2
  assume "mark ph h fl x = Some r1" "mark ph h fl y = Some r2" "x \<noteq> y"
  then obtain q1 q2 where q: "fl x = Some q1" "fl y = Some q2" "descs x r1 = descs x q1" "fl_b r1 = fl_b q1" "descs y r2 = descs y q2" "fl_b r2 = fl_b q2"
    by (auto simp: mark_iff descs_def split: if_splits)
  then show "descs x r1 \<inter> descs y r2 = {} \<and> fl_b r1 \<noteq> fl_b r2" using drv_invD(11,12) [OF assms q(1,2) \<open>x \<noteq> y\<close>] by simp
qed

text \<open>Steps that leave the flights and their resources alone.\<close>

lemma drv_inv_frame:
  assumes inv: "drv_inv (s, fl)" and len: "length (vd_desc s') = NUM" "vd_free s' = vd_free s"
    and desc: "\<And>i. i < NUM \<Longrightarrow> \<not> vd_free s ! i \<Longrightarrow> vd_desc s' ! i = vd_desc s ! i"
    and same: "used_dev_idx s' = used_dev_idx s" "used_ring s' = used_ring s" "used_idx s' = used_idx s" "info_b s' = info_b s"
      "info_status s' = info_status s" "vd_ops s' = vd_ops s" "length (bufs s') = length (bufs s)"
    and bufs: "\<And>b. in_flight fl b \<Longrightarrow> bufs s' ! b = bufs s ! b"
  shows "drv_inv (s', fl)"
proof -
  have ok: "flight_ok s' h r" if "fl h = Some r" for h r
  proof -
    have f: "flight_ok s h r" using drv_invD(10) [OF inv that] .
    then have *: "vd_desc s' ! i = vd_desc s ! i \<and> vd_free s' ! i = vd_free s ! i" if "i \<in> descs h r" for i
      using that desc [of i] len(2) by (auto simp: flight_ok_def descs_def)
    have "bufs s' ! fl_b r = bufs s ! fl_b r" using that bufs by (auto simp: in_flight_def)
    then show ?thesis using same by (intro flight_frame [OF f *]) simp_all
  qed
  have "done_heads s' = done_heads s" using same by (simp add: done_heads_def)
  then show ?thesis using inv len same ok unfolding drv_inv_def Let_def prod.case by simp
qed

subsection \<open>The device step\<close>

lemma sector_block:
  fixes bn :: uint32
  assumes "unat bn < 2 ^ 31"
  shows "ucast ((ucast (bn * of_nat (BSIZE div 512)) :: uint64) div 2) = bn"
proof -
  have "unat (bn * of_nat (BSIZE div 512)) = unat bn * 2" using assms by (simp add: BSIZE_def unat_word_ariths)
  then have "unat (ucast (bn * of_nat (BSIZE div 512)) :: uint64) = unat bn * 2"
    using assms by (simp add: unsigned_ucast_eq take_bit_nat_eq_self)
  then have u: "unat ((ucast (bn * of_nat (BSIZE div 512)) :: uint64) div 2) = unat bn" by (simp add: unat_div)
  have "ucast w = (of_nat (unat w) :: uint32)" for w :: uint64 by simp
  then have "ucast ((ucast (bn * of_nat (BSIZE div 512)) :: uint64) div 2) = (of_nat (unat bn) :: uint32)"
    by (simp only: u)
  then show ?thesis by simp
qed

lemma dev_request_flight:
  assumes "flight_ok s h r"
  shows "dev_request s h = Some (vd_ops s ! h, fl_b r, h)"
proof -
  have n: "unat (d_next (vd_desc s ! h)) = fl_1 r" "unat (d_next (vd_desc s ! fl_1 r)) = fl_2 r"
    using assms by (simp_all add: flight_ok_def NUM_def unat_of_nat)
  have g: "d_flags (vd_desc s ! h) AND VRING_DESC_F_NEXT \<noteq> 0" "d_flags (vd_desc s ! fl_1 r) AND VRING_DESC_F_NEXT \<noteq> 0"
      "d_flags (vd_desc s ! fl_2 r) AND VRING_DESC_F_NEXT = 0" "d_flags (vd_desc s ! fl_2 r) AND VRING_DESC_F_WRITE \<noteq> 0"
      "(d_flags (vd_desc s ! fl_1 r) AND VRING_DESC_F_WRITE \<noteq> 0) = (req_type (vd_ops s ! h) = VIRTIO_BLK_T_IN)"
    using assms by (simp_all add: flight_ok_def VRING_DESC_F_NEXT_def VRING_DESC_F_WRITE_def VIRTIO_BLK_T_OUT_def VIRTIO_BLK_T_IN_def)
  obtain m where N: "NUM = Suc (Suc (Suc m))" by (simp add: NUM_def numeral_eq_Suc)
  have "dev_chain NUM (vd_desc s) h = [vd_desc s ! h, vd_desc s ! fl_1 r, vd_desc s ! fl_2 r]" unfolding N using n g(1-3) by simp
  moreover have "d_addr (vd_desc s ! h) = OpsAddr h" "d_addr (vd_desc s ! fl_1 r) = DataAddr (fl_b r)" "d_addr (vd_desc s ! fl_2 r) = StatusAddr h"
      "d_len (vd_desc s ! h) = 16" "d_len (vd_desc s ! fl_1 r) = of_nat BSIZE" "d_len (vd_desc s ! fl_2 r) = 1"
    using assms by (simp_all add: flight_ok_def)
  ultimately show ?thesis using g(4,5) by (simp add: dev_request_def)
qed

text \<open>What the transfer of data leaves alone.\<close>

definition data_only :: "vdisk \<Rightarrow> vdisk \<Rightarrow> bool" where
  "data_only s s1 \<longleftrightarrow> vd_desc s1 = vd_desc s \<and> vd_free s1 = vd_free s \<and> info_b s1 = info_b s \<and> vd_ops s1 = vd_ops s \<and> used_idx s1 = used_idx s \<and>
     used_ring s1 = used_ring s \<and> used_dev_idx s1 = used_dev_idx s \<and> info_status s1 = info_status s \<and>
     avail_ring s1 = avail_ring s \<and> avail_idx s1 = avail_idx s \<and> length (bufs s1) = length (bufs s) \<and>
     (\<forall>c. b_disk (bufs s1 ! c) = b_disk (bufs s ! c) \<and> b_blockno (bufs s1 ! c) = b_blockno (bufs s ! c))"

text \<open>The device moves the block as \<open>disk_rw\<close> does, and reports it.\<close>

lemma dev_complete_eval:
  assumes "flight_ok s h r"
  obtains s1 where "disk_rw (fl_b r) (fl_w r) s = Ok () s1" and "data_only s s1" and "dev_complete h s = dev_report h h 0 s1"
proof -
  have "disk_rw (fl_b r) (fl_w r) s = Ok () (dev_move (vd_ops s ! h) (fl_b r) s)"
    using assms sector_block [of "b_blockno (bufs s ! fl_b r)"]
    by (simp add: flight_ok_def disk_rw_def dev_move_def Let_def VIRTIO_BLK_T_OUT_def VIRTIO_BLK_T_IN_def)
  moreover have "data_only s (dev_move (vd_ops s ! h) (fl_b r) s)" by (simp add: data_only_def dev_move_def Let_def list_update_nth)
  ultimately show ?thesis by (rule that) (simp add: dev_complete_def dev_request_flight [OF assms])
qed

lemma dev_fail_eval:
  assumes "flight_ok s h r"
  obtains s1 where "data_only s s1" and "dev_fail h e data s = dev_report h h e s1"
proof
  let ?s1 = "if req_type (vd_ops s ! h) = VIRTIO_BLK_T_IN then s\<lparr>bufs := (bufs s)[fl_b r := (bufs s ! fl_b r)\<lparr>b_data := data\<rparr>]\<rparr> else s"
  show "data_only s ?s1" by (simp add: data_only_def list_update_nth)
  show "dev_fail h e data s = dev_report h h e ?s1" by (simp add: dev_fail_def dev_request_flight [OF assms])
qed

lemma report_keeps:
  assumes inv: "drv_inv (s, fl)" and h: "fl h = Some r" and ph: "fl_phase r = Posted" and keep: "data_only s s1"
    and e: "ph' = (if e = 0 then Moved else Failed)"
  shows "drv_inv (dev_report h h e s1, mark ph' h fl)"
proof -
  let ?t = "dev_report h h e s1" and ?fl = "mark ph' h fl"
  note f = drv_invD(10) [OF inv h] and k = keep [unfolded data_only_def]
  have hn: "h < NUM" using f by (simp add: flight_ok_def)
  have notin: "h \<notin> set (done_heads s)" using drv_invD(9) [OF inv] h ph by (auto simp: heads_def)
  have "set (done_heads s) \<union> {h} \<subseteq> {0..<NUM}"
    using drv_invD(9,10) [OF inv] hn by (auto simp: flight_ok_def heads_def)
  then have "card (set (done_heads s) \<union> {h}) \<le> NUM" using card_mono [of "{0..<NUM}"] by fastforce
  then have room: "unat (used_dev_idx s - used_idx s) < NUM"
    using notin distinct_card [OF drv_invD(8) [OF inv]] by (simp add: done_heads_def used_queue.length_ring)
  have q: "done_heads ?t = done_heads s @ [h]"
    using used_queue.ring_push [OF room drv_invD(3) [OF inv]] hn k by (simp add: done_heads_def dev_report_def unat_of_nat NUM_def)
  have len: "unat (used_dev_idx s + 1 - used_idx s) \<le> NUM" using used_queue.next_counter(1) [OF room] room by simp
  have other: "flight_ok ?t h' r'" if "fl h' = Some r'" "h' \<noteq> h" for h' r'
    using that(2) k by (intro flight_frame [OF drv_invD(10) [OF inv that(1)]]) (simp_all add: dev_report_def)
  have this_one: "flight_ok ?t h (r\<lparr>fl_phase := ph'\<rparr>)"
    using f ph k drv_invD(5) [OF inv] by (simp add: dev_report_def flight_ok_def e)
  have a: "\<forall>h' r'. ?fl h' = Some r' \<longrightarrow> flight_ok ?t h' r'" using other this_one h by (auto simp: mark_iff split: if_split_asm)
  have b: "\<forall>x y r1 r2. ?fl x = Some r1 \<longrightarrow> ?fl y = Some r2 \<longrightarrow> x \<noteq> y \<longrightarrow> descs x r1 \<inter> descs y r2 = {} \<and> fl_b r1 \<noteq> fl_b r2"
    by (rule marked_apart [OF inv])
  have c: "set (done_heads ?t) = heads {Moved, Failed} ?fl" using q drv_invD(9) [OF inv] by (simp add: heads_mark h e)
  have g: "\<forall>i<NUM. \<not> vd_free ?t ! i \<longrightarrow> (\<exists>h r. ?fl h = Some r \<and> i \<in> descs h r)"
    using marked_descs drv_invD(13) [OF inv] k by (simp add: dev_report_def)
  show ?thesis using a b c g q notin len drv_invD(1-6,8) [OF inv] k unfolding drv_inv_def Let_def prod.case
    by (simp add: dev_report_def)
qed

lemma dev_inv_frame:
  assumes "dev_inv s fl d" and "avail_ring s' = avail_ring s" "avail_idx s' = avail_idx s" and "heads {Posted} fl' = heads {Posted} fl"
  shows "dev_inv s' fl' d"
  using assms by (simp add: dev_inv_def todo_def)

lemma report_dev_inv:
  assumes d: "dev_inv s fl d" and w: "h \<in> set (dv_work d)" and h: "fl h = Some r" and ph: "ph \<noteq> Posted" and k: "data_only s s1"
  shows "dev_inv (dev_report h j e s1) (mark ph h fl) (d\<lparr>dv_work := remove1 h (dv_work d)\<rparr>)"
proof -
  let ?q = "map unat (ring NUM (avail_ring s) (dv_last d) (avail_idx s))"
  have td: "todo (dev_report h j e s1) (d\<lparr>dv_work := remove1 h (dv_work d)\<rparr>) = ?q @ remove1 h (dv_work d)"
    using k by (simp add: todo_def dev_report_def data_only_def)
  have dist: "distinct (?q @ dv_work d)" and set: "set (?q @ dv_work d) = heads {Posted} fl" using d by (simp_all add: dev_inv_def todo_def)
  have "set (?q @ remove1 h (dv_work d)) = heads {Posted} fl - {h}" using dist set w by (auto simp: set_remove1_eq)
  then have "set (?q @ remove1 h (dv_work d)) = heads {Posted} (mark ph h fl)" using ph by (simp add: heads_mark h)
  moreover have "distinct (?q @ remove1 h (dv_work d))" using dist by (auto simp: set_remove1_eq)
  ultimately show ?thesis using d k unfolding dev_inv_def td by (simp add: dev_report_def data_only_def)
qed

lemma fetch_dev_inv:
  assumes d: "dev_inv s fl d" and ne: "dv_last d \<noteq> avail_idx s"
  shows "dev_inv s fl \<lparr>dv_last = dv_last d + 1, dv_work = dv_work d @ [unat (avail_ring s ! (unat (dv_last d) mod NUM))]\<rparr>"
proof -
  let ?d = "\<lparr>dv_last = dv_last d + 1, dv_work = dv_work d @ [unat (avail_ring s ! (unat (dv_last d) mod NUM))]\<rparr>"
  have q: "todo s d = unat (avail_ring s ! (unat (dv_last d) mod NUM)) # map unat (ring NUM (avail_ring s) (dv_last d + 1) (avail_idx s)) @ dv_work d"
    using used_queue.ring_pop [OF ne, of "avail_ring s"] by (simp add: todo_def)
  have q': "todo s ?d = map unat (ring NUM (avail_ring s) (dv_last d + 1) (avail_idx s)) @ dv_work d @ [unat (avail_ring s ! (unat (dv_last d) mod NUM))]"
    by (simp add: todo_def)
  have "distinct (todo s d)" using d by (simp add: dev_inv_def)
  then have "distinct (todo s ?d)" "set (todo s ?d) = set (todo s d)" unfolding q q' by auto
  moreover have "unat (avail_idx s - dv_last ?d) \<le> NUM"
    using d arg_cong [OF used_queue.ring_pop [OF ne, of "avail_ring s"], of length] by (simp add: dev_inv_def used_queue.length_ring)
  ultimately show ?thesis using d by (simp add: dev_inv_def)
qed

subsection \<open>The interrupt handler\<close>

text \<open>One turn of the loop: the driver sees that the request of the next head is done, or panics because it failed.\<close>

lemma turn_cases:
  assumes inv: "drv_inv (s, fl)" and ne: "used_idx s \<noteq> used_dev_idx s"
  obtains (failed) r where "fl (next_used s) = Some r" and "fl_phase r = Failed" and "disk_intr_turn s = Panic ''virtio_disk_intr status''"
    | (seen) r bs ps where "fl (next_used s) = Some r" and "fl_phase r = Moved"
        and "disk_intr_turn s = Ok () (s\<lparr>bufs := bs, procs := ps, used_idx := used_idx s + 1\<rparr>)"
        and "drv_inv (s\<lparr>bufs := bs, procs := ps, used_idx := used_idx s + 1\<rparr>, mark Seen (next_used s) fl)"
proof -
  define h where "h = next_used s"
  have q: "done_heads s = h # map unat (ring NUM (used_ring s) (used_idx s + 1) (used_dev_idx s))"
    using used_queue.ring_pop [OF ne, of "used_ring s"] by (simp add: done_heads_def h_def next_used_def)
  then have "h \<in> heads {Moved, Failed} fl" using drv_invD(9) [OF inv] by auto
  then obtain r where r: "fl h = Some r" "fl_phase r = Moved \<or> fl_phase r = Failed" by (auto simp: heads_def)
  note f = drv_invD(10) [OF inv r(1)]
  have hn: "h < NUM" "unat (used_ring s ! (unat (used_idx s) mod NUM)) = h" using f by (simp_all add: flight_ok_def h_def next_used_def)
  show ?thesis
  proof (cases "fl_phase r = Failed")
    case True
    then show ?thesis using r(1) f hn by (intro failed [of r]) (simp_all add: disk_intr_turn_def flight_ok_def h_def)
  next
    case False
    then have m: "fl_phase r = Moved" using r(2) by blast
    let ?b = "fl_b r" let ?bs = "(bufs s)[fl_b r := (bufs s ! fl_b r)\<lparr>b_disk := False\<rparr>]"
    obtain ps where ps: "wakeup (DiskBuf ?b) (s\<lparr>bufs := ?bs\<rparr>) = Ok () ((s\<lparr>bufs := ?bs\<rparr>)\<lparr>procs := ps\<rparr>)" using wakeup_eval by blast
    define t where "t = s\<lparr>bufs := ?bs, procs := ps, used_idx := used_idx s + 1\<rparr>"
    let ?fl = "mark Seen h fl"
    have b: "?b < length (bufs s)" using f by (simp add: flight_ok_def)
    have "flight_ok t h' r'" if "fl h' = Some r'" "h' \<noteq> h" for h' r'
      using drv_invD(12) [OF inv that(1) r(1) that(2)] by (intro flight_frame [OF drv_invD(10) [OF inv that(1)]]) (simp_all add: t_def)
    moreover have "flight_ok t h (r\<lparr>fl_phase := Seen\<rparr>)" using f b by (simp add: flight_ok_def t_def)
    ultimately have a: "\<forall>h' r'. ?fl h' = Some r' \<longrightarrow> flight_ok t h' r'" using r(1) by (auto simp: mark_iff)
    have dq: "done_heads s = h # done_heads t" using q by (simp add: done_heads_def t_def)
    have nd: "h \<notin> set (done_heads t)" "distinct (done_heads t)" using drv_invD(8) [OF inv] dq by auto
    have "insert h (set (done_heads t)) = heads {Moved, Failed} fl" using drv_invD(9) [OF inv] dq by simp
    then have c: "set (done_heads t) = heads {Moved, Failed} ?fl" using nd(1) by (auto simp: heads_mark r(1))
    have "length (done_heads s) \<le> NUM" using drv_invD(7) [OF inv] by (simp add: done_heads_def used_queue.length_ring)
    then have "length (done_heads t) \<le> NUM" using dq by simp
    then have "unat (used_dev_idx t - used_idx t) \<le> NUM" by (simp add: done_heads_def used_queue.length_ring)
    then have inv': "drv_inv (t, ?fl)"
      using a c nd(2) marked_apart [OF inv] marked_descs drv_invD(1-6,13) [OF inv] unfolding drv_inv_def Let_def prod.case by (simp add: t_def)
    have "disk_intr_turn s = Ok () t"
      using f m hn ps by (simp add: disk_intr_turn_def bind_def deref_def upd_buf_def t_def flight_ok_def)
    then show ?thesis using seen [where r = r and bs = ?bs and ps = ps] r(1) m inv' by (simp add: t_def h_def)
  qed
qed

text \<open>All the requests the device has reported.\<close>

definition saw :: "flights \<Rightarrow> flights" where
  "saw fl h = map_option (\<lambda>r. if fl_phase r = Moved then r\<lparr>fl_phase := Seen\<rparr> else r) (fl h)"

lemma disk_intr_from_keeps:
  assumes "drv_inv (s, fl)" and "unat (used_dev_idx s - used_idx s) < n"
  shows "(\<exists>s'. disk_intr_from n s = Ok () s' \<and> drv_inv (s', saw fl)) \<or>
    disk_intr_from n s = Panic ''virtio_disk_intr status'' \<and> (\<exists>h r. fl h = Some r \<and> fl_phase r = Failed)"
  using assms
proof (induction n arbitrary: s fl)
  case (Suc n)
  show ?case
  proof (cases "used_idx s = used_dev_idx s")
    case True
    then have "done_heads s = []" by (simp add: done_heads_def)
    then have "fl_phase r \<noteq> Moved" if "fl h = Some r" for h r using drv_invD(9) [OF Suc.prems(1)] that by (auto simp: heads_def)
    then have "saw fl = fl" by (intro ext) (auto simp: saw_def map_option_case split: option.splits)
    then show ?thesis using True Suc.prems by simp
  next
    case ne: False
    show ?thesis
    proof (cases rule: turn_cases [OF Suc.prems(1) ne])
      case (1 r)
      then show ?thesis using ne by (auto simp: bind_def)
    next
      case (2 r bs ps)
      define t where "t = s\<lparr>bufs := bs, procs := ps, used_idx := used_idx s + 1\<rparr>"
      have "used_dev_idx s - used_idx s \<noteq> 0" using ne by simp
      from unat_minus_one [OF this] have "unat (used_dev_idx t - used_idx t) < n"
        using Suc.prems(2) \<open>used_dev_idx s - used_idx s \<noteq> 0\<close> unat_eq_0 [of "used_dev_idx s - used_idx s"] by (simp add: t_def algebra_simps)
      moreover have "saw (mark Seen (next_used s) fl) = saw fl" using 2(1,2) by (intro ext) (simp add: saw_def mark_def)
      moreover have "(\<exists>h r. mark Seen (next_used s) fl h = Some r \<and> fl_phase r = Failed) \<longrightarrow> (\<exists>h r. fl h = Some r \<and> fl_phase r = Failed)"
        by (auto simp: mark_iff split: if_splits)
      ultimately have "(\<exists>s'. disk_intr_from n t = Ok () s' \<and> drv_inv (s', saw fl)) \<or>
          disk_intr_from n t = Panic ''virtio_disk_intr status'' \<and> (\<exists>h r. fl h = Some r \<and> fl_phase r = Failed)"
        using Suc.IH [OF 2(4) [folded t_def]] by auto
      moreover have "disk_intr_from (Suc n) s = disk_intr_from n t" using ne 2(3) by (simp add: t_def bind_def)
      ultimately show ?thesis by simp
    qed
  qed
qed simp

lemma intr_eval:
  assumes inv: "drv_inv (s, fl)"
  shows "(\<exists>s'. virtio_disk_intr st s = Ok () s' \<and> (\<forall>h r. fl h = Some r \<longrightarrow> fl_phase r = Moved \<longrightarrow> \<not> b_disk (bufs s' ! fl_b r))) \<or>
    virtio_disk_intr st s = Panic ''virtio_disk_intr status'' \<and> (\<exists>h r. fl h = Some r \<and> fl_phase r = Failed)"
proof -
  define t where "t = s\<lparr>vd_regs := vd_regs s @ [(VIRTIO_MMIO_INTERRUPT_ACK, st AND 3)]\<rparr>"
  have t: "drv_inv (t, fl)" by (rule drv_inv_frame [OF inv]) (use drv_invD(1) [OF inv] in \<open>simp_all add: t_def\<close>)
  have eq: "virtio_disk_intr st s = disk_intr_from 65536 t" by (simp add: virtio_disk_intr_def write_mmio_def t_def)
  have "unat (used_dev_idx t - used_idx t) < 65536" using unsigned_less [where w = "used_dev_idx t - used_idx t"] by simp
  from disk_intr_from_keeps [OF t this] consider s' where "disk_intr_from 65536 t = Ok () s'" "drv_inv (s', saw fl)"
    | "disk_intr_from 65536 t = Panic ''virtio_disk_intr status''" "\<exists>h r. fl h = Some r \<and> fl_phase r = Failed" by blast
  then show ?thesis
  proof cases
    case (1 s')
    have "\<not> b_disk (bufs s' ! fl_b r)" if "fl h = Some r" "fl_phase r = Moved" for h r
      using drv_invD(10) [OF 1(2), of h "r\<lparr>fl_phase := Seen\<rparr>"] that by (simp add: saw_def flight_ok_def)
    then show ?thesis using 1(1) eq by auto
  qed (use eq in simp)
qed

subsection \<open>Posting a request\<close>

lemma alloc_desc_cases:
  fixes s :: "'a vdisk_scheme"
  obtains (none) "alloc_desc s = Ok None s"
    | (got) i where "i < length (vd_free s)" and "vd_free s ! i"
        and "alloc_desc s = Ok (Some i) (s\<lparr>vd_free := (vd_free s)[i := False]\<rparr>)"
proof (cases "find_idx (\<lambda>f. f) (vd_free s)")
  case None
  then show ?thesis by (intro none) (simp add: alloc_desc_def)
next
  case (Some i)
  then show ?thesis using find_idx_Some_iff [of "\<lambda>f. f" "vd_free s" i] by (intro got [of i]) (simp_all add: alloc_desc_def)
qed

text \<open>Giving back a descriptor that was just allocated.\<close>

definition gave_back :: "'a vdisk_scheme \<Rightarrow> 'a vdisk_scheme \<Rightarrow> bool" where
  "gave_back s s' \<longleftrightarrow> (\<exists>ds ps. s' = s\<lparr>vd_desc := ds, procs := ps\<rparr> \<and> only_woken s (s\<lparr>procs := ps\<rparr>) \<and>
     length ds = length (vd_desc s) \<and> (\<forall>i. \<not> vd_free s ! i \<longrightarrow> ds ! i = vd_desc s ! i))"

lemma free_desc_give_back:
  fixes s :: "'a vdisk_scheme"
  assumes "length (vd_free s) = NUM" and "i < NUM" and "vd_free s ! i" and t: "t = s\<lparr>vd_free := (vd_free s)[i := False]\<rparr>"
  obtains s' where "free_desc i t = Ok () s'" and "gave_back s s'"
proof -
  define u where "u = s\<lparr>vd_desc := (vd_desc s)[i := null_desc]\<rparr>"
  obtain ps where ps: "wakeup DiskFree u = Ok () (u\<lparr>procs := ps\<rparr>)" "only_woken u (u\<lparr>procs := ps\<rparr>)"
    using wakeup_eval by blast
  have "t\<lparr>vd_desc := (vd_desc t)[i := null_desc], vd_free := (vd_free t)[i := True]\<rparr> = u"
    using assms by (simp add: t u_def list_update_same_conv)
  then have "free_desc i t = wakeup DiskFree u"
    using assms(1,2) by (simp add: free_desc_def upd_desc_def t)
  then have "free_desc i t = Ok () (u\<lparr>procs := ps\<rparr>)" using ps(1) by simp
  moreover have "gave_back s (u\<lparr>procs := ps\<rparr>)" unfolding gave_back_def
  proof (intro exI conjI)
    show "u\<lparr>procs := ps\<rparr> = s\<lparr>vd_desc := (vd_desc s)[i := null_desc], procs := ps\<rparr>" by (simp add: u_def)
    show "only_woken s (s\<lparr>procs := ps\<rparr>)" using ps(2) by (simp add: only_woken_def u_def)
  qed (use assms(3) in \<open>auto simp: list_update_nth\<close>)
  ultimately show ?thesis by (rule that)
qed

lemma gave_back_refl: "gave_back s s"
  unfolding gave_back_def by (intro exI [of _ "vd_desc s"] exI [of _ "procs s"]) (simp add: only_woken_def)

lemma gave_back_trans:
  fixes s :: "'a vdisk_scheme"
  assumes "gave_back s t" and "gave_back t u"
  shows "gave_back s u"
proof -
  obtain ds ps where t: "t = s\<lparr>vd_desc := ds, procs := ps\<rparr>" "only_woken s (s\<lparr>procs := ps\<rparr>)" "length ds = length (vd_desc s)"
      "\<forall>i. \<not> vd_free s ! i \<longrightarrow> ds ! i = vd_desc s ! i" using assms(1) unfolding gave_back_def by blast
  obtain es qs where u: "u = t\<lparr>vd_desc := es, procs := qs\<rparr>" "only_woken t (t\<lparr>procs := qs\<rparr>)" "length es = length (vd_desc t)"
      "\<forall>i. \<not> vd_free t ! i \<longrightarrow> es ! i = vd_desc t ! i" using assms(2) unfolding gave_back_def by blast
  have "only_woken (s\<lparr>procs := ps\<rparr>) (s\<lparr>procs := qs\<rparr>)" using u(2) unfolding t(1) by (simp add: only_woken_def)
  then have "only_woken s (s\<lparr>procs := qs\<rparr>)" by (rule only_woken_trans [OF t(2)])
  then show ?thesis unfolding gave_back_def using u t by (intro exI [of _ es] exI [of _ qs]) simp
qed

lemma alloc3_cases:
  fixes s :: "'a vdisk_scheme"
  assumes len: "length (vd_free s) = NUM"
  obtains (none) s' where "alloc3_desc s = Ok None s'" and "gave_back s s'"
    | (got) i0 i1 i2 where "distinct [i0, i1, i2]" and "i0 < NUM" "i1 < NUM" "i2 < NUM"
        and "vd_free s ! i0" "vd_free s ! i1" "vd_free s ! i2"
        and "alloc3_desc s = Ok (Some (i0, i1, i2)) (s\<lparr>vd_free := (vd_free s)[i0 := False, i1 := False, i2 := False]\<rparr>)"
proof (cases rule: alloc_desc_cases [of s])
  case none
  then show ?thesis by (intro that(1) [OF _ gave_back_refl]) (simp add: alloc3_desc_def bind_def)
next
  case (got i0)
  define s1 where "s1 = s\<lparr>vd_free := (vd_free s)[i0 := False]\<rparr>"
  have i0: "i0 < NUM" "vd_free s ! i0" "alloc_desc s = Ok (Some i0) s1" using got len by (simp_all add: s1_def)
  show ?thesis
  proof (cases rule: alloc_desc_cases [of s1])
    case none
    obtain s' where "free_desc i0 s1 = Ok () s'" "gave_back s s'" by (rule free_desc_give_back [OF len i0(1,2) s1_def])
    then show ?thesis using none i0(3) by (intro that(1)) (simp_all add: alloc3_desc_def bind_def)
  next
    case (got i1)
    define s2 where "s2 = s1\<lparr>vd_free := (vd_free s1)[i1 := False]\<rparr>"
    have i1: "i1 < NUM" "vd_free s ! i1" "i1 \<noteq> i0" "alloc_desc s1 = Ok (Some i1) s2"
      using got len by (auto simp: s1_def s2_def list_update_nth split: if_splits)
    show ?thesis
    proof (cases rule: alloc_desc_cases [of s2])
      case none
      define t where "t = s\<lparr>vd_free := (vd_free s)[i1 := False]\<rparr>"
      have s2: "s2 = t\<lparr>vd_free := (vd_free t)[i0 := False]\<rparr>" using i1(3) by (simp add: s1_def s2_def t_def list_update_swap)
      obtain u where u: "free_desc i0 s2 = Ok () u" "gave_back t u"
        by (rule free_desc_give_back [OF _ i0(1) _ s2]) (use len i0 i1(3) in \<open>simp_all add: t_def\<close>)
      obtain ds ps where ds: "u = t\<lparr>vd_desc := ds, procs := ps\<rparr>" "only_woken t (t\<lparr>procs := ps\<rparr>)" "length ds = length (vd_desc t)"
          "\<forall>i. \<not> vd_free t ! i \<longrightarrow> ds ! i = vd_desc t ! i" using u(2) unfolding gave_back_def by blast
      define v where "v = s\<lparr>vd_desc := ds, procs := ps\<rparr>"
      have sv: "gave_back s v" unfolding gave_back_def v_def
        using ds(2,3,4) by (intro exI [of _ ds] exI [of _ ps]) (auto simp: t_def only_woken_def list_update_nth)
      have uv: "u = v\<lparr>vd_free := (vd_free v)[i1 := False]\<rparr>" unfolding ds(1) t_def v_def by simp
      obtain w where "free_desc i1 u = Ok () w" "gave_back v w"
        by (rule free_desc_give_back [OF _ i1(1) _ uv]) (use len i1 in \<open>simp_all add: v_def\<close>)
      then show ?thesis using none i0(3) i1(4) u(1) gave_back_trans [OF sv]
        by (intro that(1)) (simp_all add: alloc3_desc_def bind_def)
    next
      case (got i2)
      have i2: "i2 < NUM" "vd_free s ! i2" "i2 \<noteq> i0" "i2 \<noteq> i1"
        using got len by (auto simp: s1_def s2_def list_update_nth split: if_splits)
      have "alloc3_desc s = Ok (Some (i0, i1, i2)) (s\<lparr>vd_free := (vd_free s)[i0 := False, i1 := False, i2 := False]\<rparr>)"
        using i0(3) i1(4) got(3) by (simp add: alloc3_desc_def bind_def) (simp add: s1_def s2_def)
      then show ?thesis using i0 i1 i2 by (intro that(2)) auto
    qed
  qed
qed

definition posted :: "nat \<Rightarrow> nat \<Rightarrow> nat \<Rightarrow> nat \<Rightarrow> bool \<Rightarrow> vdisk \<Rightarrow> vdisk" where
  "posted i0 i1 i2 b w s = s\<lparr>vd_free := (vd_free s)[i0 := False, i1 := False, i2 := False],
     vd_ops := (vd_ops s)[i0 := \<lparr>req_type = (if w then VIRTIO_BLK_T_OUT else VIRTIO_BLK_T_IN), req_reserved = 0,
       req_sector = ucast (b_blockno (bufs s ! b) * of_nat (BSIZE div 512))\<rparr>],
     vd_desc := (vd_desc s)[i0 := \<lparr>d_addr = OpsAddr i0, d_len = 16, d_flags = VRING_DESC_F_NEXT, d_next = of_nat i1\<rparr>,
       i1 := \<lparr>d_addr = DataAddr b, d_len = of_nat BSIZE,
         d_flags = (if w then 0 else VRING_DESC_F_WRITE) OR VRING_DESC_F_NEXT, d_next = of_nat i2\<rparr>,
       i2 := \<lparr>d_addr = StatusAddr i0, d_len = 1, d_flags = VRING_DESC_F_WRITE, d_next = 0\<rparr>],
     info_status := (info_status s)[i0 := 0xff], bufs := (bufs s)[b := (bufs s ! b)\<lparr>b_disk := True\<rparr>],
     info_b := (info_b s)[i0 := Some b], avail_ring := (avail_ring s)[unat (avail_idx s) mod NUM := of_nat i0],
     avail_idx := avail_idx s + 1, vd_regs := vd_regs s @ [(VIRTIO_MMIO_QUEUE_NOTIFY, 0)]\<rparr>"

lemma rw_start_got:
  assumes "alloc3_desc s = Ok (Some (i0, i1, i2)) (s\<lparr>vd_free := (vd_free s)[i0 := False, i1 := False, i2 := False]\<rparr>)"
  shows "rw_start b w s = Ok i0 (posted i0 i1 i2 b w s)"
  using assms unfolding rw_start_def posted_def by (simp add: bind_Ok_eval upd_desc_def upd_buf_def write_mmio_def)

lemma drv_inv_add:
  assumes inv: "drv_inv (s, fl)" and r0: "flight_ok t i0 r0" "fl_phase r0 = Posted" "fl i0 = None"
    and old: "\<And>h r. fl h = Some r \<Longrightarrow> flight_ok t h r"
    and apart: "\<And>h r. fl h = Some r \<Longrightarrow> descs h r \<inter> descs i0 r0 = {} \<and> fl_b r \<noteq> fl_b r0"
    and len: "length (vd_desc t) = NUM" "length (vd_free t) = NUM" "length (info_b t) = NUM"
      "length (info_status t) = NUM" "length (vd_ops t) = NUM"
    and same: "used_ring t = used_ring s" "used_dev_idx t = used_dev_idx s" "used_idx t = used_idx s"
    and taken: "\<And>i. i < NUM \<Longrightarrow> \<not> vd_free t ! i \<Longrightarrow> \<not> vd_free s ! i \<or> i \<in> descs i0 r0"
  shows "drv_inv (t, fl(i0 \<mapsto> r0))"
proof -
  have "descs h r \<inter> descs h' r' = {} \<and> fl_b r \<noteq> fl_b r'"
    if a: "(fl(i0 \<mapsto> r0)) h = Some r" "(fl(i0 \<mapsto> r0)) h' = Some r'" "h \<noteq> h'" for h h' r r'
  proof -
    show ?thesis
    proof (cases "h = i0")
      case True
      then have "r = r0" "fl h' = Some r'" using a by simp_all
      then show ?thesis using apart [of h' r'] True by (simp add: Int_commute)
    next
      case False
      then have h: "fl h = Some r" using a(1) by simp
      show ?thesis
      proof (cases "h' = i0")
        case True
        then have "r' = r0" using a(2) by simp
        then show ?thesis using apart [OF h] True by simp
      next
        case False
        then have h': "fl h' = Some r'" using a(2) by simp
        show ?thesis using drv_invD(11) [OF inv h h' a(3)] drv_invD(12) [OF inv h h' a(3)] by simp
      qed
    qed
  qed
  then have d: "\<forall>h h' r r'. (fl(i0 \<mapsto> r0)) h = Some r \<longrightarrow> (fl(i0 \<mapsto> r0)) h' = Some r' \<longrightarrow> h \<noteq> h' \<longrightarrow>
      descs h r \<inter> descs h' r' = {} \<and> fl_b r \<noteq> fl_b r'" by blast
  have o: "\<forall>h r. (fl(i0 \<mapsto> r0)) h = Some r \<longrightarrow> flight_ok t h r" using old r0(1) by auto
  have "done_heads t = done_heads s" using same by (simp add: done_heads_def)
  moreover have "heads {Moved, Failed} (fl(i0 \<mapsto> r0)) = heads {Moved, Failed} fl" using r0(2,3) by (auto simp: heads_def)
  moreover have "\<exists>h r. (fl(i0 \<mapsto> r0)) h = Some r \<and> i \<in> descs h r" if i: "i < NUM" "\<not> vd_free t ! i" for i
  proof (cases "i \<in> descs i0 r0")
    case False
    then obtain h r where "fl h = Some r" "i \<in> descs h r" using taken [OF i] drv_invD(13) [OF inv i(1)] by blast
    then show ?thesis using r0(3) by (intro exI [of _ h] exI [of _ r]) auto
  qed auto
  ultimately show ?thesis using d o len same drv_invD(3,7,8,9) [OF inv] unfolding drv_inv_def Let_def prod.case by simp
qed

lemma post_keeps:
  assumes inv: "drv_inv (s, fl)" and d: "distinct [i0, i1, i2]" "i0 < NUM" "i1 < NUM" "i2 < NUM"
      "vd_free s ! i0" "vd_free s ! i1" "vd_free s ! i2"
    and b: "\<not> in_flight fl b" "b < length (bufs s)" "unat (b_blockno (bufs s ! b)) < 2 ^ 31"
  shows "drv_inv (posted i0 i1 i2 b w s, fl(i0 \<mapsto> \<lparr>fl_1 = i1, fl_2 = i2, fl_b = b, fl_w = w, fl_phase = Posted\<rparr>))"
proof (rule drv_inv_add [OF inv])
  let ?t = "posted i0 i1 i2 b w s" and ?r = "\<lparr>fl_1 = i1, fl_2 = i2, fl_b = b, fl_w = w, fl_phase = Posted\<rparr>"
  note len = drv_invD(1-6) [OF inv]
  have apart: "descs h r \<inter> {i0, i1, i2} = {}" "fl_b r \<noteq> b" if "fl h = Some r" for h r
    using drv_invD(10) [OF inv that] d b(1) that by (auto simp: flight_ok_def descs_def in_flight_def)
  show "flight_ok ?t h r" if "fl h = Some r" for h r
    using apart [OF that] by (intro flight_frame [OF drv_invD(10) [OF inv that]]) (auto simp: posted_def descs_def)
  show "descs h r \<inter> descs i0 ?r = {} \<and> fl_b r \<noteq> fl_b ?r" if "fl h = Some r" for h r
    using apart [OF that] by (simp add: descs_def [of i0])
  show "flight_ok ?t i0 ?r" using d b len by (simp add: flight_ok_def posted_def)
  show "fl i0 = None" using drv_invD(10) [OF inv, of i0] d(5) by (cases "fl i0") (auto simp: flight_ok_def)
  show "\<not> vd_free s ! i \<or> i \<in> descs i0 ?r" if "\<not> vd_free ?t ! i" for i using that by (auto simp: posted_def descs_def list_update_nth split: if_splits)
qed (use drv_invD(1-6) [OF inv] in \<open>simp_all add: posted_def\<close>)

text \<open>The device finds the head of the new request, and of no other, in the ring.\<close>

lemma post_dev_inv:
  assumes inv: "drv_inv (s, fl)" and d: "dev_inv s fl d" and i0: "i0 < NUM" "vd_free s ! i0" and r: "fl_phase r = Posted"
  shows "dev_inv (posted i0 i1 i2 b w s) (fl(i0 \<mapsto> r)) d"
proof -
  let ?q = "ring NUM (avail_ring s) (dv_last d) (avail_idx s)"
  have none: "fl i0 = None" using drv_invD(10) [OF inv, of i0] i0(2) by (cases "fl i0") (auto simp: flight_ok_def)
  have td: "distinct (map unat ?q @ dv_work d)" "set (map unat ?q @ dv_work d) = heads {Posted} fl" using d by (simp_all add: dev_inv_def todo_def)
  have new: "i0 \<notin> set (map unat ?q @ dv_work d)" using td(2) none by (auto simp: heads_def)
  have "x < NUM" if "x \<in> heads {Posted} fl" for x using that drv_invD(10) [OF inv, of x] by (auto simp: heads_def flight_ok_def)
  then have "set (map unat ?q) \<union> {i0} \<subseteq> {0..<NUM}" unfolding td(2) [symmetric] using i0 by auto
  then have "card (set (map unat ?q) \<union> {i0}) \<le> NUM" using card_mono [of "{0..<NUM}"] by fastforce
  moreover have "card (set (map unat ?q)) = length ?q" using distinct_card [of "map unat ?q"] td(1) by simp
  ultimately have room: "unat (avail_idx s - dv_last d) < NUM" using new by (simp add: used_queue.length_ring)
  have "unat (of_nat i0 :: uint16) = i0" using i0 by (simp add: unat_of_nat NUM_def)
  then have "todo (posted i0 i1 i2 b w s) d = (map unat ?q @ [i0]) @ dv_work d"
    using used_queue.ring_push [OF room, of "avail_ring s"] d by (simp add: todo_def posted_def dev_inv_def)
  moreover have "heads {Posted} (fl(i0 \<mapsto> r)) = insert i0 (heads {Posted} fl)" using r none by (auto simp: heads_def)
  moreover have "unat (avail_idx s + 1 - dv_last d) \<le> NUM" using used_queue.next_counter(1) [OF room] room by simp
  ultimately show ?thesis using td new d by (auto simp: dev_inv_def posted_def)
qed

lemma no_post_keeps:
  assumes inv: "drv_inv (s, fl)" and g: "gave_back s s'" and p: "procs t = ps" "t = s'\<lparr>procs := ps, cur := c\<rparr>"
  shows "drv_inv (t, fl)"
proof -
  obtain ds qs where ds: "s' = s\<lparr>vd_desc := ds, procs := qs\<rparr>" "length ds = length (vd_desc s)"
      "\<forall>i. \<not> vd_free s ! i \<longrightarrow> ds ! i = vd_desc s ! i" using g unfolding gave_back_def by blast
  show ?thesis by (rule drv_inv_frame [OF inv]) (use ds drv_invD(1) [OF inv] p in \<open>simp_all\<close>)
qed

lemma sleep_Block:
  assumes "sleep c s = Block s'"
  obtains ps where "s' = s\<lparr>procs := ps, cur := None\<rparr>"
  using assms by (auto simp: sleep_def sched_def myproc_def bind_def split: option.splits if_splits)

lemma free_chain_flight:
  fixes s :: "'a vdisk_scheme"
  assumes "length (vd_free s) = NUM" and d: "distinct [h, i, j]" "h < NUM" "i < NUM" "j < NUM"
    and "\<not> vd_free s ! h" "\<not> vd_free s ! i" "\<not> vd_free s ! j"
    and "d_flags (vd_desc s ! h) AND VRING_DESC_F_NEXT \<noteq> 0" "unat (d_next (vd_desc s ! h)) = i"
    and "d_flags (vd_desc s ! i) AND VRING_DESC_F_NEXT \<noteq> 0" "unat (d_next (vd_desc s ! i)) = j"
    and "d_flags (vd_desc s ! j) AND VRING_DESC_F_NEXT = 0"
  obtains ps where "free_chain h s = Ok () (s\<lparr>vd_desc := (vd_desc s)[h := null_desc, i := null_desc, j := null_desc],
    vd_free := (vd_free s)[h := True, i := True, j := True], procs := ps\<rparr>)"
proof -
  have one: "\<exists>ps. free_desc k t = Ok () (t\<lparr>vd_desc := (vd_desc t)[k := null_desc], vd_free := (vd_free t)[k := True], procs := ps\<rparr>)"
    if "length (vd_free t) = NUM" "k < NUM" "\<not> vd_free t ! k" for k and t :: "'a vdisk_scheme"
    by (rule free_desc_cases [OF that(1), of k]) (use that in \<open>auto simp: free_desc_def upd_desc_def wakeup_def\<close>)
  obtain p1 where p1: "free_desc h s = Ok () (s\<lparr>vd_desc := (vd_desc s)[h := null_desc], vd_free := (vd_free s)[h := True], procs := p1\<rparr>)"
    using one [of s h] assms by auto
  define s1 where "s1 = s\<lparr>vd_desc := (vd_desc s)[h := null_desc], vd_free := (vd_free s)[h := True], procs := p1\<rparr>"
  obtain p2 where p2: "free_desc i s1 = Ok () (s1\<lparr>vd_desc := (vd_desc s1)[i := null_desc], vd_free := (vd_free s1)[i := True], procs := p2\<rparr>)"
    using one [of s1 i] assms by (auto simp: s1_def)
  define s2 where "s2 = s1\<lparr>vd_desc := (vd_desc s1)[i := null_desc], vd_free := (vd_free s1)[i := True], procs := p2\<rparr>"
  obtain p3 where p3: "free_desc j s2 = Ok () (s2\<lparr>vd_desc := (vd_desc s2)[j := null_desc], vd_free := (vd_free s2)[j := True], procs := p3\<rparr>)"
    using one [of s2 j] assms by (auto simp: s1_def s2_def)
  have d1: "vd_desc s1 ! i = vd_desc s ! i" "vd_desc s2 ! j = vd_desc s ! j" using d by (auto simp: s1_def s2_def)
  have "free_chain h s = Ok () (s2\<lparr>vd_desc := (vd_desc s2)[j := null_desc], vd_free := (vd_free s2)[j := True], procs := p3\<rparr>)"
    unfolding free_chain_def NUM_def
    using p1 [folded s1_def] p2 [folded s2_def] p3 assms d1 by (simp add: numeral_eq_Suc bind_Ok_eval)
  then show ?thesis by (intro that [of p3]) (simp add: s1_def s2_def)
qed

subsection \<open>Ending a request\<close>

lemma finish_eval:
  assumes inv: "drv_inv (s, fl)" and h: "fl h = Some r" and seen: "fl_phase r = Seen"
  obtains s' where "rw_wait (fl_b r) h s = Ok () s'" and "drv_inv (s', fl(h := None))" and "disk s' = disk s" and "bufs s' = bufs s"
    and "vd_free s' = (vd_free s)[h := True, fl_1 r := True, fl_2 r := True]" and "avail_ring s' = avail_ring s" and "avail_idx s' = avail_idx s"
proof -
  note f = drv_invD(10) [OF inv h]
  have w: "unat (of_nat (fl_1 r) :: uint16) = fl_1 r" "unat (of_nat (fl_2 r) :: uint16) = fl_2 r"
    using f by (simp_all add: flight_ok_def NUM_def unat_of_nat)
  define s1 where "s1 = s\<lparr>info_b := (info_b s)[h := None]\<rparr>"
  have fl: "VRING_DESC_F_NEXT AND VRING_DESC_F_NEXT \<noteq> 0" "VRING_DESC_F_WRITE AND VRING_DESC_F_NEXT = 0"
    "((if fl_w r then 0 else VRING_DESC_F_WRITE) OR VRING_DESC_F_NEXT) AND VRING_DESC_F_NEXT \<noteq> 0"
    by (simp_all add: VRING_DESC_F_NEXT_def VRING_DESC_F_WRITE_def)
  obtain ps where ps: "free_chain h s1 = Ok () (s1\<lparr>vd_desc := (vd_desc s1)[h := null_desc, fl_1 r := null_desc, fl_2 r := null_desc],
    vd_free := (vd_free s1)[h := True, fl_1 r := True, fl_2 r := True], procs := ps\<rparr>)"
    by (rule free_chain_flight [of s1 h "fl_1 r" "fl_2 r"])
      (use f w fl drv_invD(2) [OF inv] in \<open>simp_all add: flight_ok_def s1_def\<close>)
  define t where "t = s1\<lparr>vd_desc := (vd_desc s1)[h := null_desc, fl_1 r := null_desc, fl_2 r := null_desc],
    vd_free := (vd_free s1)[h := True, fl_1 r := True, fl_2 r := True], procs := ps\<rparr>"
  have run: "rw_wait (fl_b r) h s = Ok () t"
    using f seen ps by (simp add: rw_wait_def flight_ok_def s1_def t_def)
  have other: "flight_ok t h' r'" if "fl h' = Some r'" "h' \<noteq> h" for h' r'
    using drv_invD(11) [OF inv that(1) h that(2)] that(2)
    by (intro flight_frame [OF drv_invD(10) [OF inv that(1)]]) (auto simp: t_def s1_def descs_def)
  have a: "\<forall>h' r'. (fl(h := None)) h' = Some r' \<longrightarrow> flight_ok t h' r'" using other by auto
  have b: "\<forall>x y r1 r2. (fl(h := None)) x = Some r1 \<longrightarrow> (fl(h := None)) y = Some r2 \<longrightarrow> x \<noteq> y \<longrightarrow> descs x r1 \<inter> descs y r2 = {} \<and> fl_b r1 \<noteq> fl_b r2"
    using drv_invD(11,12) [OF inv] by (auto split: if_splits)
  have "done_heads t = done_heads s" by (simp add: done_heads_def t_def s1_def)
  moreover have "heads {Moved, Failed} (fl(h := None)) = heads {Moved, Failed} fl" using h seen by (auto simp: heads_def)
  moreover have "\<exists>k q. (fl(h := None)) k = Some q \<and> i \<in> descs k q" if i: "i < NUM" "\<not> vd_free t ! i" for i
  proof -
    have "i \<notin> descs h r \<and> \<not> vd_free s ! i" using i drv_invD(2) [OF inv] by (auto simp: t_def s1_def descs_def list_update_nth split: if_splits)
    then obtain k q where "fl k = Some q" "i \<in> descs k q" "k \<noteq> h" using drv_invD(13) [OF inv i(1)] h by fastforce
    then show ?thesis by (intro exI [of _ k] exI [of _ q]) simp
  qed
  ultimately have "drv_inv (t, fl(h := None))"
    using a b drv_invD(1-9) [OF inv] unfolding drv_inv_def Let_def prod.case by (simp add: t_def s1_def)
  then show ?thesis by (rule that [OF run]) (simp_all add: t_def s1_def)
qed

subsection \<open>All runs\<close>

lemma rw_start_cases:
  assumes inv: "drv_inv (s, fl)"
  obtains (posts) i0 i1 i2 where "rw_start b w s = Ok i0 (posted i0 i1 i2 b w s)" and "distinct [i0, i1, i2]"
      and "i0 < NUM" "i1 < NUM" "i2 < NUM" and "vd_free s ! i0" "vd_free s ! i1" "vd_free s ! i2"
    | (sleeps) t where "rw_start b w s = sleep DiskFree t" and "gave_back s t"
proof (cases rule: alloc3_cases [OF drv_invD(2) [OF inv]])
  case (1 t)
  then show ?thesis by (intro sleeps) (simp_all add: rw_start_def bind_def)
next
  case (2 i0 i1 i2)
  show ?thesis by (rule posts [OF rw_start_got [OF 2(8)] 2(1-7)])
qed

definition all_inv :: "vdisk \<times> flights \<times> vdev \<Rightarrow> bool" where
  "all_inv x \<longleftrightarrow> (let (s, fl, d) = x in drv_inv (s, fl) \<and> dev_inv s fl d)"

lemma post_step:
  assumes inv: "drv_inv (s, fl)" "dev_inv s fl d" and b: "\<not> in_flight fl b" "b < length (bufs s)" "unat (b_blockno (bufs s ! b)) < 2 ^ 31"
    and r: "rw_start b w s = Ok h s'"
  shows "all_inv (s', fl(h \<mapsto> \<lparr>fl_1 = unat (d_next (vd_desc s' ! h)),
      fl_2 = unat (d_next (vd_desc s' ! unat (d_next (vd_desc s' ! h)))), fl_b = b, fl_w = w, fl_phase = Posted\<rparr>), d)"
proof (cases rule: rw_start_cases [OF inv(1), of b w])
  case (1 i0 i1 i2)
  then have s': "h = i0" "s' = posted i0 i1 i2 b w s" using r by auto
  have w16: "unat (of_nat i1 :: uint16) = i1" "unat (of_nat i2 :: uint16) = i2" using 1 by (simp_all add: NUM_def unat_of_nat)
  have "unat (d_next (vd_desc s' ! i0)) = i1" "unat (d_next (vd_desc s' ! i1)) = i2"
    using 1(2-5) w16 drv_invD(1) [OF inv(1)] by (simp_all add: s' posted_def)
  then show ?thesis using post_keeps [OF inv(1) 1(2-8) b] post_dev_inv [OF inv 1(3,6)] by (simp add: s' all_inv_def)
next
  case (2 t)
  then have "sleep DiskFree t = Ok h s'" using r by simp
  then show ?thesis by simp
qed

lemma sleep_step:
  assumes "drv_inv (s, fl)" and "dev_inv s fl d" and "gave_back s t" and "sleep c t = (Block s' :: ('b, vdisk) outcome)"
  shows "all_inv (s', fl, d)"
proof -
  obtain ps where s': "s' = t\<lparr>procs := ps, cur := None\<rparr>" using assms(4) by (rule sleep_Block)
  moreover from this have "avail_ring s' = avail_ring s" "avail_idx s' = avail_idx s" using assms(3) by (auto simp: gave_back_def)
  ultimately show ?thesis using no_post_keeps [OF assms(1,3), of s' ps None] dev_inv_frame [OF assms(2)] by (simp add: all_inv_def)
qed

lemma finish_phase:
  assumes "drv_inv (s, fl)" and "fl h = Some r" and "rw_wait (fl_b r) h s = Ok () s'"
  shows "fl_phase r = Seen"
  using assms(3) drv_invD(10) [OF assms(1,2)] by (cases "fl_phase r = Seen") (simp_all add: rw_wait_def flight_ok_def)

lemma report_step:
  assumes "drv_inv (s, fl)" and "dev_inv s fl d" and w: "h \<in> set (dv_work d)"
  shows "all_inv (dev_complete h s, mark Moved h fl, d\<lparr>dv_work := remove1 h (dv_work d)\<rparr>)"
    and "e \<noteq> 0 \<Longrightarrow> all_inv (dev_fail h e data s, mark Failed h fl, d\<lparr>dv_work := remove1 h (dv_work d)\<rparr>)"
proof -
  have "h \<in> heads {Posted} fl" using w assms(2) by (auto simp: dev_inv_def todo_def)
  then obtain r where r: "fl h = Some r" "fl_phase r = Posted" by (auto simp: heads_def)
  note f = drv_invD(10) [OF assms(1) r(1)]
  obtain s1 where "data_only s s1" "dev_complete h s = dev_report h h 0 s1" by (rule dev_complete_eval [OF f])
  then show "all_inv (dev_complete h s, mark Moved h fl, d\<lparr>dv_work := remove1 h (dv_work d)\<rparr>)"
    using report_keeps [OF assms(1) r, of s1 Moved 0] report_dev_inv [OF assms(2,3) r(1), of Moved s1 h 0] by (simp add: all_inv_def)
  obtain s2 where "data_only s s2" "dev_fail h e data s = dev_report h h e s2" by (rule dev_fail_eval [OF f])
  then show "all_inv (dev_fail h e data s, mark Failed h fl, d\<lparr>dv_work := remove1 h (dv_work d)\<rparr>)" if "e \<noteq> 0"
    using that report_keeps [OF assms(1) r, of s2 Failed e] report_dev_inv [OF assms(2,3) r(1), of Failed s2 h e] by (simp add: all_inv_def)
qed

lemma turn_step:
  assumes "drv_inv (s, fl)" and "dev_inv s fl d" and "used_idx s \<noteq> used_dev_idx s" and "disk_intr_turn s = Ok () s'"
  shows "all_inv (s', mark Seen (next_used s) fl, d)"
proof (cases rule: turn_cases [OF assms(1,3)])
  case (2 r bs ps)
  then have s': "s' = s\<lparr>bufs := bs, procs := ps, used_idx := used_idx s + 1\<rparr>" using assms(4) by simp
  have "next_used s \<notin> heads {Posted} fl" using 2(1,2) by (simp add: heads_def)
  then have "heads {Posted} (mark Seen (next_used s) fl) = heads {Posted} fl" by (simp add: heads_mark 2(1))
  then have "dev_inv s' (mark Seen (next_used s) fl) d" by (intro dev_inv_frame [OF assms(2)]) (simp_all add: s')
  then show ?thesis using 2(4) by (simp add: all_inv_def s')
qed (use assms(4) in simp)

lemma drv_step_inv:
  assumes "drv_step x y" and "all_inv x"
  shows "all_inv y"
  using assms
proof cases
  case (post fl b s w h s' d)
  then show ?thesis using post_step [of s fl d b w h s'] assms(2) by (simp add: all_inv_def)
next
  case (no_post b w s s' fl d)
  then have inv: "drv_inv (s, fl)" "dev_inv s fl d" using assms(2) by (simp_all add: all_inv_def)
  show ?thesis
  proof (cases rule: rw_start_cases [OF inv(1), of b w])
    case (2 t)
    then show ?thesis using sleep_step [OF inv 2(2)] no_post by metis
  qed (use no_post(3) in simp)
next
  case (fetch d s fl)
  then show ?thesis using fetch_dev_inv [of s fl d] assms(2) by (simp add: all_inv_def)
next
  case (complete h d s fl)
  then show ?thesis using report_step(1) [of s fl d h] assms(2) by (simp add: all_inv_def)
next
  case (fails h d e s fl data)
  then show ?thesis using report_step(2) [of s fl d h e data] assms(2) by (simp add: all_inv_def)
next
  case (turn s s' fl d)
  then show ?thesis using turn_step [of s fl d s'] assms(2) by (simp add: all_inv_def)
next
  case (wait fl h r s s' d)
  then have inv: "drv_inv (s, fl)" "dev_inv s fl d" using assms(2) by (simp_all add: all_inv_def)
  show ?thesis
  proof (cases "fl_phase r = Seen")
    case True
    then show ?thesis using finish_eval [OF inv(1) wait(3) True] wait(4) by (metis outcome.distinct(1))
  next
    case False
    then have "sleep (DiskBuf (fl_b r)) s = (Block s' :: (unit, vdisk) outcome)"
      using wait(4) drv_invD(10) [OF inv(1) wait(3)] by (simp add: rw_wait_def flight_ok_def)
    then show ?thesis using sleep_step [OF inv gave_back_refl] wait(2) by simp
  qed
next
  case (finish fl h r s s' d)
  then have inv: "drv_inv (s, fl)" "dev_inv s fl d" using assms(2) by (simp_all add: all_inv_def)
  have seen: "fl_phase r = Seen" by (rule finish_phase [OF inv(1) finish(3,4)])
  then have "heads {Posted} (fl(h := None)) = heads {Posted} fl" using finish(3) by (auto simp: heads_def)
  moreover have "drv_inv (s', fl(h := None))" "avail_ring s' = avail_ring s" "avail_idx s' = avail_idx s"
    using finish_eval [OF inv(1) finish(3) seen] finish(4) by (metis outcome.inject(1))+
  ultimately show ?thesis using dev_inv_frame [OF inv(2)] finish(2) by (simp add: all_inv_def)
next
  case (other fl s s' d)
  then have inv: "drv_inv (s, fl)" "dev_inv s fl d" using assms(2) by (simp_all add: all_inv_def)
  have "drv_inv (s', fl)"
    by (rule drv_inv_frame [OF inv(1)]) (use other(3) drv_invD(1) [OF inv(1)] in \<open>simp_all add: outside_def\<close>)
  then show ?thesis using dev_inv_frame [OF inv(2), of s' fl] other by (simp add: all_inv_def outside_def)
qed

lemma drv_reachable_inv: "drv_reachable x \<Longrightarrow> all_inv x"
proof (induction rule: drv_reachable.induct)
  case (init m pages s0 s)
  have "vd_desc s = replicate NUM null_desc" "vd_free s = replicate NUM True" "used_ring s = replicate NUM 0" "used_dev_idx s = 0"
      "avail_ring s = replicate NUM 0" "avail_idx s = 0"
    using init(1) by (auto simp: virtio_disk_init_def Let_def write_mmio_def split: if_splits)
  then show ?case using init by (simp add: all_inv_def drv_inv_def done_heads_def dev_inv_def todo_def heads_def)
next
  case (step x y)
  then show ?case using drv_step_inv by blast
qed

definition demo_boot :: mmio_boot where
  "demo_boot = \<lparr>magic_value = 0x74726976, version_reg = 1, device_id = 2, vendor_id = 0x554d4551, device_features = 0,
     queue_num_max = 1024\<rparr>"

definition demo_drv :: vdisk where
  "demo_drv = demo_vdisk\<lparr>vd_desc := replicate NUM null_desc, vd_free := replicate NUM True,
     vd_regs := [(112, 1), (112, 3), (32, 0), (112, 11), (112, 15), (40, 4096), (48, 0), (56, 8), (64, 0x80010)]\<rparr>"

lemma demo_drv_init: "virtio_disk_init demo_boot 0x80010000 demo_vdisk = Ok () demo_drv"
  by (simp add: virtio_disk_init_def demo_boot_def Let_def write_mmio_def demo_drv_def demo_vdisk_def files.extend_def
      vdisk.fields_def refused_features_def NUM_def VIRTIO_MMIO_STATUS_def VIRTIO_MMIO_DRIVER_FEATURES_def
      VIRTIO_MMIO_GUEST_PAGE_SIZE_def VIRTIO_MMIO_QUEUE_SEL_def VIRTIO_MMIO_QUEUE_NUM_def VIRTIO_MMIO_QUEUE_PFN_def
      VIRTIO_CONFIG_S_ACKNOWLEDGE_def VIRTIO_CONFIG_S_DRIVER_def VIRTIO_CONFIG_S_DRIVER_OK_def
      VIRTIO_CONFIG_S_FEATURES_OK_def PGSIZE_def drop_bit_eq_div)

lemma demo_drv_alloc:
  "alloc3_desc demo_drv = Ok (Some (0, 1, 2)) (demo_drv\<lparr>vd_free := (vd_free demo_drv)[0 := False, 1 := False, 2 := False]\<rparr>)"
  by (simp add: alloc3_desc_def alloc_desc_def bind_def demo_drv_def NUM_def find_idx_def numeral_eq_Suc)

abbreviation demo_flight :: flight where
  "demo_flight \<equiv> \<lparr>fl_1 = 1, fl_2 = 2, fl_b = 0, fl_w = False, fl_phase = Posted\<rparr>"

text \<open>After boot, a request to read a block is posted and the device takes it from the ring.\<close>

lemma demo_drv_posted: "drv_reachable (posted 0 1 2 0 False demo_drv, [0 \<mapsto> demo_flight], \<lparr>dv_last = 1, dv_work = [0]\<rparr>)"
proof -
  have init: "drv_reachable (demo_drv, Map.empty, \<lparr>dv_last = 0, dv_work = []\<rparr>)"
    by (rule drv_reachable.init [OF demo_drv_init])
      (simp_all add: demo_drv_def demo_vdisk_def files.extend_def vdisk.fields_def NUM_def)
  have b: "0 < length (bufs demo_drv)" "unat (b_blockno (bufs demo_drv ! 0)) < 2 ^ 31"
    by (simp_all add: demo_drv_def demo_vdisk_def files.extend_def vdisk.fields_def demo_files_def cons.extend_def demo_cons_def
        free_buf_def NBUF_def)
  have "drv_step (demo_drv, Map.empty, \<lparr>dv_last = 0, dv_work = []\<rparr>) (posted 0 1 2 0 False demo_drv, [0 \<mapsto> demo_flight], \<lparr>dv_last = 0, dv_work = []\<rparr>)"
    using drv_step.post [where fl = Map.empty and w = False and d = "\<lparr>dv_last = 0, dv_work = []\<rparr>", OF _ b rw_start_got [OF demo_drv_alloc]]
    by (simp add: in_flight_def posted_def demo_drv_def NUM_def)
  with init have 1: "drv_reachable (posted 0 1 2 0 False demo_drv, [0 \<mapsto> demo_flight], \<lparr>dv_last = 0, dv_work = []\<rparr>)" by (rule drv_reachable.step)
  have "avail_idx (posted 0 1 2 0 False demo_drv) = 1" "avail_ring (posted 0 1 2 0 False demo_drv) ! 0 = 0"
    by (simp_all add: posted_def demo_drv_def demo_vdisk_def files.extend_def vdisk.fields_def NUM_def)
  then show ?thesis using drv_reachable.step [OF 1 drv_step.fetch] by simp
qed

text \<open>
  C25: descriptors and panics of the disk driver. In every state that processes, the device and the interrupt handler can
  reach, a descriptor is either free or belongs to exactly one request in flight. The interrupt handler returns, with every request the
  device has completed marked as done, unless the device has reported a failure, where it panics as the source says. A process that posts a
  request gets descriptors or sleeps, and a process that waits for its request sleeps or ends it, which gives back exactly the three descriptors
  of its chain.
\<close>

theorem disk_driver_safe:
  assumes "drv_reachable (s, fl, d)" and "cur s = Some p" and "p < length (procs s)"
  shows "(\<forall>i<NUM. vd_free s ! i \<longleftrightarrow> (\<forall>h r. fl h = Some r \<longrightarrow> i \<notin> descs h r)) \<and>
    (\<forall>h h' r r'. fl h = Some r \<longrightarrow> fl h' = Some r' \<longrightarrow> h \<noteq> h' \<longrightarrow> descs h r \<inter> descs h' r' = {}) \<and>
    ((\<exists>s'. virtio_disk_intr st s = Ok () s' \<and> (\<forall>h r. fl h = Some r \<longrightarrow> fl_phase r = Moved \<longrightarrow> \<not> b_disk (bufs s' ! fl_b r))) \<or>
      virtio_disk_intr st s = Panic ''virtio_disk_intr status'' \<and> (\<exists>h r. fl h = Some r \<and> fl_phase r = Failed)) \<and>
    rw_start b w s \<noteq> Panic m \<and>
    (\<forall>h r. fl h = Some r \<longrightarrow> (\<exists>s'. rw_wait (fl_b r) h s = Block s') \<or>
      (\<exists>s'. rw_wait (fl_b r) h s = Ok () s' \<and> (\<forall>i<NUM. vd_free s' ! i \<longleftrightarrow> vd_free s ! i \<or> i \<in> descs h r)))"
proof (intro conjI)
  have inv: "drv_inv (s, fl)" using drv_reachable_inv [OF assms(1)] by (simp add: all_inv_def)
  have block: "\<exists>u. sleep c t = (Block u :: ('b, vdisk) outcome)" if "cur t = Some p" "p < length (procs t)" for c t
    using that by (simp add: sleep_def sched_def myproc_def bind_def)
  show "\<forall>i<NUM. vd_free s ! i \<longleftrightarrow> (\<forall>h r. fl h = Some r \<longrightarrow> i \<notin> descs h r)"
    using drv_invD(10,13) [OF inv] by (fastforce simp: flight_ok_def descs_def)
  show "\<forall>h h' r r'. fl h = Some r \<longrightarrow> fl h' = Some r' \<longrightarrow> h \<noteq> h' \<longrightarrow> descs h r \<inter> descs h' r' = {}" using drv_invD(11) [OF inv] by blast
  show "(\<exists>s'. virtio_disk_intr st s = Ok () s' \<and> (\<forall>h r. fl h = Some r \<longrightarrow> fl_phase r = Moved \<longrightarrow> \<not> b_disk (bufs s' ! fl_b r))) \<or>
      virtio_disk_intr st s = Panic ''virtio_disk_intr status'' \<and> (\<exists>h r. fl h = Some r \<and> fl_phase r = Failed)"
    using intr_eval [OF inv] .
  show "rw_start b w s \<noteq> Panic m"
  proof (cases rule: rw_start_cases [OF inv, of b w])
    case (2 t)
    then obtain ds ps where "t = s\<lparr>vd_desc := ds, procs := ps\<rparr>" "only_woken s (s\<lparr>procs := ps\<rparr>)" unfolding gave_back_def by blast
    then have "cur t = Some p" "p < length (procs t)" using assms(2,3) by (simp_all add: only_woken_def)
    then obtain u where "sleep DiskFree t = (Block u :: (nat, vdisk) outcome)" using block by blast
    then show ?thesis using 2(1) by simp
  qed simp
  show "\<forall>h r. fl h = Some r \<longrightarrow> (\<exists>s'. rw_wait (fl_b r) h s = Block s') \<or>
      (\<exists>s'. rw_wait (fl_b r) h s = Ok () s' \<and> (\<forall>i<NUM. vd_free s' ! i \<longleftrightarrow> vd_free s ! i \<or> i \<in> descs h r))"
  proof (intro allI impI)
    fix h r assume h: "fl h = Some r"
    note f = drv_invD(10) [OF inv h]
    show "(\<exists>s'. rw_wait (fl_b r) h s = Block s') \<or>
      (\<exists>s'. rw_wait (fl_b r) h s = Ok () s' \<and> (\<forall>i<NUM. vd_free s' ! i \<longleftrightarrow> vd_free s ! i \<or> i \<in> descs h r))"
    proof (cases "fl_phase r = Seen")
      case True
      then obtain s' where "rw_wait (fl_b r) h s = Ok () s'" "vd_free s' = (vd_free s)[h := True, fl_1 r := True, fl_2 r := True]"
        using finish_eval [OF inv h] by metis
      then show ?thesis using drv_invD(2) [OF inv] by (auto simp: descs_def list_update_nth)
    next
      case False
      then have "rw_wait (fl_b r) h s = sleep (DiskBuf (fl_b r)) s" using f by (simp add: rw_wait_def flight_ok_def)
      then show ?thesis using block [OF assms(2,3)] by metis
    qed
  qed
qed

text \<open>The witness: the device completes the request, the handler returns.\<close>

theorem disk_driver_safe_witness:
  "\<exists>s'. virtio_disk_intr 1 (dev_complete 0 (posted 0 1 2 0 False demo_drv)) = Ok () s' \<and> \<not> b_disk (bufs s' ! 0)"
proof -
  let ?s = "posted 0 1 2 0 False demo_drv" let ?t = "dev_complete 0 ?s" let ?fl = "mark Moved 0 [0 \<mapsto> demo_flight]"
  have r: "drv_reachable (?t, ?fl, \<lparr>dv_last = 1, dv_work = []\<rparr>)"
    using drv_reachable.step [OF demo_drv_posted drv_step.complete [of 0]] by simp
  have "cur ?t = cur ?s" "procs ?t = procs ?s"
    by (simp_all add: dev_complete_def dev_report_def dev_move_def Let_def split: option.splits)
  moreover have "cur ?s = Some 0" "0 < length (procs ?s)"
    by (simp_all add: posted_def demo_drv_def demo_vdisk_def files.extend_def vdisk.fields_def demo_files_simps)
  ultimately have c: "cur ?t = Some 0" "0 < length (procs ?t)" by simp_all
  have m: "?fl 0 = Some (demo_flight\<lparr>fl_phase := Moved\<rparr>)" "\<And>h r. ?fl h = Some r \<Longrightarrow> fl_phase r \<noteq> Failed"
    by (auto simp: mark_def split: if_splits)
  from disk_driver_safe [OF r c, of 1] obtain s' where "virtio_disk_intr 1 ?t = Ok () s'"
      "\<forall>h r. ?fl h = Some r \<longrightarrow> fl_phase r = Moved \<longrightarrow> \<not> b_disk (bufs s' ! fl_b r)" using m(2) by blast
  then show ?thesis using m(1) by force
qed

text \<open>
  C26: the disk driver implements the transfer the buffer cache relies on. What the device has still to do, in the \<open>avail\<close> ring or already
  taken from it, is exactly the requests that were posted, each once. The device completes a request it has taken by
  moving the block as \<open>disk_rw\<close> does for the buffer and the direction it was posted for. The process that waits for a request ends it only once the
  device has moved the block and the interrupt handler has seen it; ending it changes no block and no buffer.
\<close>

theorem disk_driver_refines_disk_rw:
  assumes "drv_reachable (s, fl, d)"
  shows "distinct (todo s d) \<and> set (todo s d) = {h. \<exists>r. fl h = Some r \<and> fl_phase r = Posted} \<and>
    (\<forall>h\<in>set (dv_work d). \<exists>r s1. fl h = Some r \<and> disk_rw (fl_b r) (fl_w r) s = Ok () s1 \<and> bufs (dev_complete h s) = bufs s1 \<and>
      disk (dev_complete h s) = disk s1 \<and> wrote (dev_complete h s) = wrote s1) \<and>
    (\<forall>h r s'. fl h = Some r \<longrightarrow> rw_wait (fl_b r) h s = Ok () s' \<longrightarrow> fl_phase r = Seen \<and> disk s' = disk s \<and> bufs s' = bufs s)"
proof (intro conjI ballI allI impI)
  have inv: "drv_inv (s, fl)" and d: "dev_inv s fl d" using drv_reachable_inv [OF assms] by (simp_all add: all_inv_def)
  show "distinct (todo s d)" "set (todo s d) = {h. \<exists>r. fl h = Some r \<and> fl_phase r = Posted}" using d by (simp_all add: dev_inv_def heads_def)
  show "\<exists>r s1. fl h = Some r \<and> disk_rw (fl_b r) (fl_w r) s = Ok () s1 \<and> bufs (dev_complete h s) = bufs s1 \<and>
      disk (dev_complete h s) = disk s1 \<and> wrote (dev_complete h s) = wrote s1" if "h \<in> set (dv_work d)" for h
  proof -
    have "h \<in> heads {Posted} fl" using that d by (auto simp: dev_inv_def todo_def)
    then obtain r where r: "fl h = Some r" by (auto simp: heads_def)
    then show ?thesis using dev_complete_eval [OF drv_invD(10) [OF inv r]] by (force simp: dev_report_def)
  qed
  fix h r s' assume h: "fl h = Some r" and w: "rw_wait (fl_b r) h s = Ok () s'"
  show seen: "fl_phase r = Seen" by (rule finish_phase [OF inv h w])
  from finish_eval [OF inv h seen] w show "disk s' = disk s" "bufs s' = bufs s" by (metis outcome.inject(1))+
qed

theorem disk_driver_refines_disk_rw_witness:
  "\<exists>s1. disk_rw 0 False (posted 0 1 2 0 False demo_drv) = Ok () s1 \<and>
    bufs (dev_complete 0 (posted 0 1 2 0 False demo_drv)) = bufs s1"
proof -
  let ?s = "posted 0 1 2 0 False demo_drv"
  have "\<forall>h\<in>set (dv_work \<lparr>dv_last = 1, dv_work = [0]\<rparr>). \<exists>r s1. [0 \<mapsto> demo_flight] h = Some r \<and> disk_rw (fl_b r) (fl_w r) ?s = Ok () s1 \<and>
      bufs (dev_complete h ?s) = bufs s1 \<and> disk (dev_complete h ?s) = disk s1 \<and> wrote (dev_complete h ?s) = wrote s1"
    using disk_driver_refines_disk_rw [OF demo_drv_posted] by (elim conjE)
  then show ?thesis by auto
qed

end
