(* ===== verification/Frame.thy ===== *)
theory Frame
  imports Trap
begin

text \<open>
  What the routines of the kernel leave alone.

  \<open>changes R m\<close>: from every state, \<open>m\<close> ends (or gives up the CPU) in a state that \<open>R\<close> relates to it. The locale
  \<open>frame_calculus\<close> asks of \<open>R\<close> that it is reflexive and transitive, and gives the rules by which a routine gets
  this from the routines it calls. \<open>fs_frame\<close> adds what the file system and the layers below it do to the state and
  proves the rules for all their routines; it is interpreted for \<open>fs_same\<close>: open files, pipes, the console and all of
  a process but its state and sleep channel stay as they are. \<open>Kernelframe\<close> continues to the trap handlers.
\<close>

named_theorems frame_rules

definition changes :: "('s \<Rightarrow> 's \<Rightarrow> bool) \<Rightarrow> ('b, 's) routine \<Rightarrow> bool" where
  "changes R m \<longleftrightarrow> (\<forall>s. case m s of Ok r s' \<Rightarrow> R s s' | Block s' \<Rightarrow> R s s' | Panic e \<Rightarrow> True)"

lemma changesI:
  assumes "\<And>s r s'. m s = Ok r s' \<Longrightarrow> R s s'" and "\<And>s s'. m s = Block s' \<Longrightarrow> R s s'"
  shows "changes R m"
  using assms by (auto simp: changes_def split: outcome.splits)

lemma changes_Ok: "changes R m \<Longrightarrow> m s = Ok r s' \<Longrightarrow> R s s'"
  by (auto simp: changes_def dest!: spec [of _ s])

lemma changes_Block: "changes R m \<Longrightarrow> m s = Block s' \<Longrightarrow> R s s'"
  by (auto simp: changes_def dest!: spec [of _ s])

lemma changes_outcome:
  assumes "changes R m" and "\<And>s'. R s s' \<Longrightarrow> P s'"
  shows "case m s of Ok r s' \<Rightarrow> P s' | Block s' \<Rightarrow> P s' | Panic e \<Rightarrow> True"
  using changes_Ok [OF assms(1)] changes_Block [OF assms(1)] assms(2) by (auto split: outcome.split)

lemma changes_mono: "changes R m \<Longrightarrow> (\<And>s s'. R s s' \<Longrightarrow> Q s s') \<Longrightarrow> changes Q m"
  by (auto simp: changes_def split: outcome.splits)

lemma changes_cases [frame_rules]:
  "(x = None \<Longrightarrow> changes R a) \<Longrightarrow> (\<And>y. x = Some y \<Longrightarrow> changes R (b y)) \<Longrightarrow> changes R (case x of None \<Rightarrow> a | Some y \<Rightarrow> b y)"
  "(\<And>u v. p = (u, v) \<Longrightarrow> changes R (c u v)) \<Longrightarrow> changes R (case p of (u, v) \<Rightarrow> c u v)"
  "(q \<Longrightarrow> changes R a) \<Longrightarrow> (\<not> q \<Longrightarrow> changes R a') \<Longrightarrow> changes R (if q then a else a')"
  "(\<And>x. x = z \<Longrightarrow> changes R (b x)) \<Longrightarrow> changes R (Let z b)"
  "(\<And>x. w = Done x \<Longrightarrow> changes R (d x)) \<Longrightarrow> (\<And>x. w = Wait x \<Longrightarrow> changes R (d' x)) \<Longrightarrow>
    changes R (case w of Done x \<Rightarrow> d x | Wait y \<Rightarrow> d' y)"
  by (simp_all add: Let_def split: option.split prod.split progress.split)

locale frame_calculus =
  fixes R :: "'s \<Rightarrow> 's \<Rightarrow> bool"
  assumes reflexive: "R s s" and transitive: "R s t \<Longrightarrow> R t u \<Longrightarrow> R s u"
begin

lemma bind_rule [frame_rules]:
  assumes "changes R m" and "\<And>x. changes R (f x)"
  shows "changes R (bind m f)"
proof (rule changesI)
  fix s r s'
  assume "bind m f s = Ok r s'"
  then obtain x s1 where "m s = Ok x s1" "f x s1 = Ok r s'" by auto
  then show "R s s'" using transitive changes_Ok [OF assms(1)] changes_Ok [OF assms(2)] by blast
next
  fix s s'
  assume "bind m f s = Block s'"
  then consider "m s = Block s'" | x s1 where "m s = Ok x s1" "f x s1 = Block s'"
    by (auto simp: bind_def split: outcome.splits)
  then show "R s s'"
    using transitive changes_Block [OF assms(1)] changes_Ok [OF assms(1)] changes_Block [OF assms(2)] by cases blast+
qed

lemma simple_rules [frame_rules]:
  "changes R (ret x)" "changes R (Ok x)" "changes R (panic e)" "changes R (gets h)" "changes R (deref p)"
  by (auto simp: changes_def deref_def reflexive split: option.splits)

lemma modify_rule: "(\<And>s. R s (f s)) \<Longrightarrow> changes R (modify f)"
  by (simp add: changes_def)

lemma for_each_rule [frame_rules]:
  assumes "\<And>x. changes R (body x)"
  shows "changes R (for_each xs body)"
  by (induction xs) (simp_all add: frame_rules assms)

lemma wait_rules [frame_rules]:
  assumes "changes R m"
  shows "changes R (wait_at r m)"
  using assms by (auto simp: changes_def wait_at_def split: outcome.splits dest!: spec)

lemma finish_rule [frame_rules]:
  assumes "changes R m"
  shows "changes R (finish m)"
  using assms by (auto simp: changes_def finish_def split: outcome.splits progress.splits dest!: spec)

end

subsection \<open>Routines of the file system and below\<close>

definition same_proc :: "proc \<Rightarrow> proc \<Rightarrow> bool" where
  "same_proc p q \<longleftrightarrow> (\<exists>st c. q = p\<lparr>p_state := st, p_chan := c\<rparr>)"

lemma same_proc_refl [simp]: "same_proc p p"
  unfolding same_proc_def by (intro exI [of _ "p_state p"] exI [of _ "p_chan p"]) simp

lemma same_procI [intro]: "same_proc p (p\<lparr>p_state := st, p_chan := c\<rparr>)" "same_proc p (p\<lparr>p_chan := c, p_state := st\<rparr>)"
  "same_proc p (p\<lparr>p_state := st\<rparr>)"
proof -
  show "same_proc p (p\<lparr>p_state := st, p_chan := c\<rparr>)" "same_proc p (p\<lparr>p_chan := c, p_state := st\<rparr>)"
    unfolding same_proc_def by (intro exI [of _ st] exI [of _ c], simp)+
  show "same_proc p (p\<lparr>p_state := st\<rparr>)"
    unfolding same_proc_def by (intro exI [of _ st] exI [of _ "p_chan p"]) simp
qed

lemma same_proc_trans:
  assumes "same_proc p q" and "same_proc q r"
  shows "same_proc p r"
proof -
  obtain st c where "q = p\<lparr>p_state := st, p_chan := c\<rparr>" using assms(1) unfolding same_proc_def by blast
  moreover obtain st' c' where "r = q\<lparr>p_state := st', p_chan := c'\<rparr>" using assms(2) unfolding same_proc_def by blast
  ultimately have "r = p\<lparr>p_state := st', p_chan := c'\<rparr>" by simp
  then show ?thesis using same_procI(1) by simp
qed

lemma same_procs_refl [simp]: "list_all2 same_proc ps ps"
  by (simp add: list_all2_same)

lemma same_procs_update:
  assumes "same_proc (ps ! i) q"
  shows "list_all2 same_proc ps (ps[i := q])"
  using assms by (auto simp: list_all2_conv_all_nth list_update_nth)

lemma changes_copy_cases [frame_rules]:
  "(\<And>a. changes R (f a)) \<Longrightarrow> (\<And>a. changes R (g a)) \<Longrightarrow> changes R h \<Longrightarrow>
    changes R (case dst of DstUser a \<Rightarrow> f a | DstKernel a \<Rightarrow> g a | DstLocal \<Rightarrow> h)"
  "(\<And>a. changes R (f' a)) \<Longrightarrow> (\<And>a. changes R (g' a)) \<Longrightarrow> (\<And>a. changes R (h' a)) \<Longrightarrow>
    changes R (case src of SrcUser a \<Rightarrow> f' a | SrcKernel a \<Rightarrow> g' a | SrcLocal a \<Rightarrow> h' a)"
  by (simp_all split: kdst.split ksrc.split)

text \<open>
  What a relation must allow for the routines of the file system and below: changes of memory, of the state and
  sleep channel of processes, of the contents of buffers, of the disk, the log and the inode table, and that \<open>bget\<close>
  gives a buffer to a block no buffer holds.
\<close>

locale fs_frame = frame_calculus R for R :: "'a files_scheme \<Rightarrow> 'a files_scheme \<Rightarrow> bool" +
  assumes R_mem: "R s (s\<lparr>pmem := m, freelist := l\<rparr>)"
    and R_procs: "list_all2 same_proc (procs s) ps \<Longrightarrow> R s (s\<lparr>procs := ps\<rparr>)"
    and R_cur: "R s (s\<lparr>cur := c\<rparr>)"
    and R_buf: "b_dev x = b_dev (bufs s ! b) \<Longrightarrow> b_blockno x = b_blockno (bufs s ! b) \<Longrightarrow> R s (s\<lparr>bufs := (bufs s)[b := x]\<rparr>)"
    and R_recycle: "find (\<lambda>c. b_dev (bufs s ! c) = dev \<and> b_blockno (bufs s ! c) = bn) (lru s) = None \<Longrightarrow> b \<in> set (lru s) \<Longrightarrow>
      R s (s\<lparr>bufs := (bufs s)[b := (bufs s ! b)\<lparr>b_dev := dev, b_blockno := bn, b_valid := False, b_refcnt := 1\<rparr>]\<rparr>)"
    and R_lru: "R s (s\<lparr>lru := b # remove1 b (lru s)\<rparr>)"
    and R_disk: "R s (s\<lparr>disk := d, wrote := w\<rparr>)"
    and R_log: "length bl = length (lh_block s) \<Longrightarrow> R s (s\<lparr>lg_start := st, lg_size := z, lg_outstanding := k,
      lg_committing := cm, lg_dev := dv, lh_n := n, lh_block := bl\<rparr>)"
    and R_sb: "R s (s\<lparr>sb := q\<rparr>)"
    and R_inode: "R s (s\<lparr>itable := (itable s)[i := ip]\<rparr>)"
begin

lemma fs_kframe:
  assumes "kframe m"
  shows "changes R m"
proof (rule changesI)
  show "R s s'" if "m s = Ok r s'" for s r s'
    using kframe_Ok [OF assms that] R_mem by auto
qed (use kframe_not_Block [OF assms] in blast)

lemma fs_sched [frame_rules]:
  "changes R myproc" "changes R (sched :: ('b, 'a files_scheme) routine)"
  "changes R (sleep c :: ('b, 'a files_scheme) routine)" "changes R (wakeup c)"
proof -
  show m: "changes R myproc" by (auto intro!: changesI reflexive simp: myproc_def split: option.splits)
  show s: "changes R (sched :: ('b, 'a files_scheme) routine)"
    by (auto intro!: changesI R_cur simp: sched_def bind_def myproc_def split: option.splits if_splits)
  have "changes R (upd_proc i (\<lambda>p. p\<lparr>p_chan := c, p_state := SLEEPING\<rparr>))" for i
    by (rule changesI) (auto intro!: R_procs same_procs_update)
  then show "changes R (sleep c :: ('b, 'a files_scheme) routine)" unfolding sleep_def by (intro frame_rules m s)
  show "changes R (wakeup c)"
    by (rule changesI) (auto simp: wakeup_def list_all2_conv_all_nth wake_def intro!: R_procs)
qed

lemma fs_sleeplock [frame_rules]:
  assumes "\<And>f s. R s (upd f s)"
  shows "changes R (acquiresleep lk upd ch)" and "changes R (releasesleep upd ch)"
  unfolding acquiresleep_def releasesleep_def by (intro frame_rules modify_rule assms)+

lemma fs_holdingsleep [frame_rules]: "changes R (holdingsleep lk)"
  unfolding holdingsleep_def by (intro frame_rules)

lemma fs_updates [frame_rules]:
  "changes R (upd_inode i g)" "changes R (set_data b d)" "changes R (bpin b)" "changes R (bunpin b)" "changes R (disk_rw b w)"
  "changes R (upd_buf b (\<lambda>x. x\<lparr>b_refcnt := f x\<rparr>))" "changes R (upd_buf b (\<lambda>x. x\<lparr>b_valid := v\<rparr>))"
  "changes R (upd_buf b (\<lambda>x. x\<lparr>b_disk := v\<rparr>))"
  by (auto simp: upd_inode_def set_data_def upd_buf_def bpin_def bunpin_def disk_rw_def Let_def changes_def
      intro: R_buf R_inode R_disk)

lemma fs_lock_updates [frame_rules]:
  "R s (upd_buf_lock b f s)" "R s (upd_inode_lock i f s)"
  by (auto simp: upd_buf_lock_def upd_inode_lock_def intro: R_buf R_inode)

lemma fs_modify [frame_rules]:
  "changes R (modify (\<lambda>s. s\<lparr>lh_n := n s\<rparr>))" "changes R (modify (\<lambda>s. s\<lparr>lh_block := (lh_block s)[i := x]\<rparr>))"
  "changes R (modify (\<lambda>s. s\<lparr>lg_outstanding := k s\<rparr>))" "changes R (modify (\<lambda>s. s\<lparr>lg_committing := c\<rparr>))"
  "changes R (modify (\<lambda>s. s\<lparr>lg_start := u, lg_size := v, lg_dev := w\<rparr>))" "changes R (modify (\<lambda>s. s\<lparr>sb := q\<rparr>))"
  "changes R (modify (\<lambda>s. if P s then s\<lparr>lru := b # remove1 b (lru s)\<rparr> else s))" "changes R (modify (\<lambda>s. s\<lparr>pmem := m s\<rparr>))"
proof -
  have log: "R s (s\<lparr>lg_start := st, lg_size := z, lg_outstanding := k, lg_committing := cm, lg_dev := dv, lh_n := n, lh_block := bl\<rparr>)"
    if "length bl = length (lh_block s)" for s st z k cm dv n bl using R_log that by blast
  show "changes R (modify (\<lambda>s. s\<lparr>lh_n := n s\<rparr>))"
    using log [where bl = "lh_block s" and s = s and st = "lg_start s" and z = "lg_size s" and k = "lg_outstanding s" and cm = "lg_committing s" and
      dv = "lg_dev s" and n = "n s" for s]
    by (intro modify_rule) simp
  show "changes R (modify (\<lambda>s. s\<lparr>lh_block := (lh_block s)[i := x]\<rparr>))"
    using log [where bl = "(lh_block s)[i := x]" and s = s and st = "lg_start s" and z = "lg_size s" and k = "lg_outstanding s" and cm = "lg_committing s" and
      dv = "lg_dev s" and n = "lh_n s" for s]
    by (intro modify_rule) simp
  show "changes R (modify (\<lambda>s. s\<lparr>lg_outstanding := k s\<rparr>))"
    using log [where bl = "lh_block s" and s = s and st = "lg_start s" and z = "lg_size s" and k = "k s" and cm = "lg_committing s" and
      dv = "lg_dev s" and n = "lh_n s" for s]
    by (intro modify_rule) simp
  show "changes R (modify (\<lambda>s. s\<lparr>lg_committing := c\<rparr>))"
    using log [where bl = "lh_block s" and s = s and st = "lg_start s" and z = "lg_size s" and k = "lg_outstanding s" and cm = "c" and
      dv = "lg_dev s" and n = "lh_n s" for s]
    by (intro modify_rule) simp
  show "changes R (modify (\<lambda>s. s\<lparr>lg_start := u, lg_size := v, lg_dev := w\<rparr>))"
    using log [where bl = "lh_block s" and s = s and st = "u" and z = "v" and k = "lg_outstanding s" and cm = "lg_committing s" and
      dv = "w" and n = "lh_n s" for s]
    by (intro modify_rule) simp
  show "changes R (modify (\<lambda>s. s\<lparr>sb := q\<rparr>))" "changes R (modify (\<lambda>s. if P s then s\<lparr>lru := b # remove1 b (lru s)\<rparr> else s))"
    by (auto intro!: modify_rule R_sb R_lru reflexive)
  have "R s (s\<lparr>pmem := m s\<rparr>)" for s using R_mem [where s = s and m = "m s" and l = "freelist s"] by simp
  then show "changes R (modify (\<lambda>s. s\<lparr>pmem := m s\<rparr>))" by (rule modify_rule)
qed

text \<open>A routine that first takes an allowed step and then goes on as another one.\<close>

lemma changes_via:
  fixes m :: "('b, 'a files_scheme) routine"
  assumes "\<And>s. (\<exists>e. m s = Panic e) \<or> (\<exists>s1 n. R s s1 \<and> changes R n \<and> m s = n s1)"
  shows "changes R m"
proof (rule changesI)
  fix s r s'
  assume m: "m s = Ok r s'"
  then obtain s1 n where n: "R s s1" "changes R n" "n s1 = Ok r s'" using assms [of s] by auto
  show "R s s'" by (rule transitive [OF n(1) changes_Ok [OF n(2,3)]])
next
  fix s s'
  assume m: "m s = Block s'"
  then obtain s1 and n :: "('b, 'a files_scheme) routine" where n: "R s s1" "changes R n" "n s1 = Block s'" using assms [of s] by auto
  show "R s s'" by (rule transitive [OF n(1) changes_Block [OF n(2,3)]])
qed

lemma fs_bget [frame_rules]: "changes R (bget dev bn)"
proof (rule changes_via)
  fix s
  let ?lock = "\<lambda>b. bind (acquiresleep (buf_lock b) (upd_buf_lock b) (BufLock b)) (\<lambda>_. ret b)"
  have lock: "changes R (?lock b)" for b by (intro frame_rules)
  show "(\<exists>e. bget dev bn s = Panic e) \<or> (\<exists>s1 n. R s s1 \<and> changes R n \<and> bget dev bn s = n s1)"
  proof (cases "find (\<lambda>c. b_dev (bufs s ! c) = dev \<and> b_blockno (bufs s ! c) = bn) (lru s)")
    case (Some b)
    define s1 where "s1 = s\<lparr>bufs := (bufs s)[b := (bufs s ! b)\<lparr>b_refcnt := b_refcnt (bufs s ! b) + 1\<rparr>]\<rparr>"
    have "R s s1" unfolding s1_def by (rule R_buf) simp_all
    moreover have "bget dev bn s = ?lock b s1" using Some by (simp add: bget_def upd_buf_def s1_def)
    ultimately show ?thesis using lock by blast
  next
    case None
    show ?thesis
    proof (cases "find (\<lambda>b. b_refcnt (bufs s ! b) = 0) (rev (lru s))")
      case (Some b)
      define s1 where "s1 = s\<lparr>bufs := (bufs s)[b := (bufs s ! b)\<lparr>b_dev := dev, b_blockno := bn, b_valid := False, b_refcnt := 1\<rparr>]\<rparr>"
      obtain i where i: "i < length (rev (lru s))" "b = rev (lru s) ! i" using Some by (auto simp: find_Some_iff)
      then have "b \<in> set (rev (lru s))" using nth_mem by blast
      then have "R s s1" unfolding s1_def by (intro R_recycle [OF None]) simp
      moreover have "bget dev bn s = ?lock b s1" using None Some by (simp add: bget_def upd_buf_def s1_def)
      ultimately show ?thesis using lock by blast
    qed (use None in \<open>simp add: bget_def\<close>)
  qed
qed

lemma fs_buf_data [frame_rules]: "changes R (buf_data b)"
  unfolding buf_data_def by (intro frame_rules)

lemma fs_bread [frame_rules]: "changes R (bread dev bn)"
  unfolding bread_def by (intro frame_rules)

lemma fs_bwrite [frame_rules]: "changes R (bwrite b)"
  unfolding bwrite_def by (intro frame_rules)

lemma fs_brelse [frame_rules]: "changes R (brelse b)"
  unfolding brelse_def by (intro frame_rules)

lemma fs_install_block [frame_rules]: "changes R (install_block r dev l h)"
  unfolding install_block_def by (intro frame_rules)

lemma fs_install_trans [frame_rules]: "changes R (install_trans r)"
  unfolding install_trans_def by (intro frame_rules)

lemma fs_read_head [frame_rules]: "changes R (read_head)"
  unfolding read_head_def by (intro frame_rules)

lemma fs_write_head [frame_rules]: "changes R (write_head)"
  unfolding write_head_def by (intro frame_rules)

lemma fs_recover_from_log [frame_rules]: "changes R (recover_from_log)"
  unfolding recover_from_log_def by (intro frame_rules)

lemma fs_initlog [frame_rules]: "changes R (initlog dev super)"
  unfolding initlog_def by (intro frame_rules)

lemma fs_begin_op [frame_rules]: "changes R (begin_op)"
  unfolding begin_op_def by (intro frame_rules)

lemma fs_write_log_block [frame_rules]: "changes R (write_log_block dev l h)"
  unfolding write_log_block_def by (intro frame_rules)

lemma fs_write_log [frame_rules]: "changes R (write_log)"
  unfolding write_log_def by (intro frame_rules)

lemma fs_commit [frame_rules]: "changes R (commit)"
  unfolding commit_def by (intro frame_rules)

lemma fs_end_op [frame_rules]: "changes R (end_op)"
  unfolding end_op_def by (intro frame_rules)

lemma fs_log_write [frame_rules]: "changes R (log_write b)"
  unfolding log_write_def by (intro frame_rules)

lemma fs_readsb [frame_rules]: "changes R (readsb dev)"
  unfolding readsb_def by (intro frame_rules)

lemma fs_fsinit [frame_rules]: "changes R (fsinit dev)"
  unfolding fsinit_def by (intro frame_rules)

lemma fs_bzero [frame_rules]: "changes R (bzero dev bn)"
  unfolding bzero_def by (intro frame_rules)

lemma fs_balloc_from [frame_rules]: "changes R (balloc_from dev bs)"
  by (induction bs) (simp_all only: balloc_from.simps, (intro frame_rules | assumption)+)

lemma fs_balloc [frame_rules]: "changes R (balloc dev)"
  unfolding balloc_def by (intro frame_rules)

lemma fs_bfree [frame_rules]: "changes R (bfree dev bn)"
  unfolding bfree_def by (intro frame_rules)

lemma fs_iget [frame_rules]: "changes R (iget dev inum)"
  unfolding iget_def by (intro frame_rules)

lemma fs_idup [frame_rules]: "changes R (idup ip)"
  unfolding idup_def by (intro frame_rules)

lemma fs_ialloc_from [frame_rules]: "changes R (ialloc_from dev type is)"
  by (induction "is") (simp_all only: ialloc_from.simps, (intro frame_rules | assumption)+)

lemma fs_ialloc [frame_rules]: "changes R (ialloc dev type)"
  unfolding ialloc_def by (intro frame_rules)

lemma fs_iupdate [frame_rules]: "changes R (iupdate ip)"
  unfolding iupdate_def by (intro frame_rules)

lemma fs_ilock [frame_rules]: "changes R (ilock p)"
  unfolding ilock_def by (intro frame_rules)

lemma fs_iunlock [frame_rules]: "changes R (iunlock p)"
  unfolding iunlock_def by (intro frame_rules)

lemma fs_bmap [frame_rules]: "changes R (bmap ip bn)"
  unfolding bmap_def by (intro frame_rules)

lemma fs_itrunc [frame_rules]: "changes R (itrunc ip)"
  unfolding itrunc_def by (intro frame_rules)

lemma fs_iput [frame_rules]: "changes R (iput ip)"
  unfolding iput_def by (intro frame_rules)

lemma fs_iunlockput [frame_rules]: "changes R (iunlockput ip)"
  unfolding iunlockput_def by (intro frame_rules)

lemmas fs_memory [frame_rules] =
  kframe_copyout [THEN fs_kframe] kframe_copyin [THEN fs_kframe] kframe_copyinstr [THEN fs_kframe] kframe_kalloc [THEN fs_kframe]
  kframe_kfree [THEN fs_kframe] kframe_proc_freepagetable [THEN fs_kframe] kframe_proc_pagetable [THEN fs_kframe]

lemma fs_either_copyout [frame_rules]: "changes R (either_copyout u d bs)"
  unfolding either_copyout_def by (intro frame_rules)

lemma fs_either_copyin [frame_rules]: "changes R (either_copyin u a n)"
  unfolding either_copyin_def by (intro frame_rules)

lemma fs_copy_to [frame_rules]: "changes R (copy_to dst tot bs)"
  unfolding copy_to_def by (intro frame_rules)

lemma fs_copy_from [frame_rules]: "changes R (copy_from src tot m)"
  unfolding copy_from_def by (intro frame_rules)

lemma fs_readi_from [frame_rules]: "changes R (readi_from i dst off n tot got)"
proof (induction i dst off n tot got rule: readi_from.induct)
  case (1 i dst off n tot got)
  show ?case by (subst readi_from.simps) (intro frame_rules 1; assumption)
qed

lemma fs_writei_from [frame_rules]: "changes R (writei_from i src off n tot)"
proof (induction i src off n tot rule: writei_from.induct)
  case (1 i src off n tot)
  show ?case by (subst writei_from.simps) (intro frame_rules 1; assumption)
qed

lemma fs_readi [frame_rules]: "changes R (readi i dst off n)"
  unfolding readi_def by (intro frame_rules)

lemma fs_writei [frame_rules]: "changes R (writei i src off n)"
  unfolding writei_def by (intro frame_rules)

lemma fs_dirlookup_from [frame_rules]: "changes R (dirlookup_from dp name offs)"
  by (induction offs) (simp_all only: dirlookup_from.simps, (intro frame_rules | assumption)+)

lemma fs_dirlink_slot [frame_rules]: "changes R (dirlink_slot dp offs)"
  by (induction offs) (simp_all only: dirlink_slot.simps, (intro frame_rules | assumption)+)

lemma fs_dirlookup [frame_rules]: "changes R (dirlookup dp name)"
  unfolding dirlookup_def by (intro frame_rules)

lemma fs_dirlink [frame_rules]: "changes R (dirlink dp name inum)"
  unfolding dirlink_def by (intro frame_rules)

lemma fs_namex_from [frame_rules]: "changes R (namex_from ip np path name :: (_, 'a files_scheme) routine)"
proof (induction "length path" arbitrary: ip path name rule: less_induct)
  case less
  have ih: "changes R (namex_from ip' np path' name' :: (_, 'a files_scheme) routine)" if "skipelem path name = Some (path', name')" for ip' path' name'
    using less skipelem_shorter [OF that] by blast
  show ?case by (subst namex_from.simps) (intro frame_rules ih; simp)
qed

lemma fs_namex [frame_rules]: "changes R (namex path np name)"
  unfolding namex_def by (intro frame_rules)

lemma fs_namei [frame_rules]: "changes R (namei path)"
  unfolding namei_def by (intro frame_rules)

lemma fs_nameiparent [frame_rules]: "changes R (nameiparent path name)"
  unfolding nameiparent_def by (intro frame_rules)

lemma fs_sys_link_bad [frame_rules]: "changes R (sys_link_bad ip)"
  unfolding sys_link_bad_def by (intro frame_rules)

lemma fs_create [frame_rules]: "changes R (create path type major minor)"
  unfolding create_def by (intro frame_rules)

lemma fs_open_inode [frame_rules]: "changes R (open_inode path omode)"
  unfolding open_inode_def by (intro frame_rules)

end

subsection \<open>The file system leaves the rest of the kernel alone\<close>

definition fs_same :: "'a files_scheme \<Rightarrow> 'a files_scheme \<Rightarrow> bool" where
  "fs_same s s' \<longleftrightarrow> fs.more s' = fs.more s \<and> length (bufs s') = length (bufs s) \<and> length (itable s') = length (itable s) \<and>
     length (lh_block s') = length (lh_block s) \<and> nextpid s' = nextpid s \<and> initproc s' = initproc s \<and> ticks s' = ticks s \<and>
     list_all2 same_proc (procs s) (procs s')"

interpretation fsf: fs_frame fs_same
proof
  show "fs_same s s" for s :: "'a files_scheme" by (simp add: fs_same_def)
  show "fs_same s u" if "fs_same s t" "fs_same t u" for s t u :: "'a files_scheme"
    using that list_all2_trans [of same_proc same_proc same_proc "procs s" "procs t" "procs u"] same_proc_trans
    by (auto simp: fs_same_def)
qed (simp_all add: fs_same_def)

end
