(* ===== verification/Kernelframe.thy ===== *)
theory Kernelframe
  imports Frame Virtio
begin

text \<open>
  The frame rules for the rest of the kernel, from the process table to the trap handlers. The locale
  \<open>kernel_frame\<close> adds to \<open>fs_frame\<close> what a relation must allow for them: changes of a process, an open file, a pipe or
  the console that keep the size of their tables.
\<close>

definition proc_shape :: "proc \<Rightarrow> nat \<times> nat \<times> nat" where
  "proc_shape p = (length (p_ofile p), length (p_vma p), length (p_name p))"

lemma length_safestrcpy_copy: "length (safestrcpy_copy s t i n) = length s"
  by (induction s t i n rule: safestrcpy_copy.induct) auto

lemma changes_file_cases [frame_rules]:
  "changes R a \<Longrightarrow> changes R b \<Longrightarrow> changes R c \<Longrightarrow> changes R d \<Longrightarrow>
    changes R (case t of FD_NONE \<Rightarrow> a | FD_PIPE \<Rightarrow> b | FD_INODE \<Rightarrow> c | FD_DEVICE \<Rightarrow> d)"
  "changes R e \<Longrightarrow> changes R (case k of ConsoleFns \<Rightarrow> e)"
  by (simp_all split: fdtype.split dev_fns.split)

locale kernel_frame = fs_frame R for R :: "'a files_scheme \<Rightarrow> 'a files_scheme \<Rightarrow> bool" +
  assumes R_proc: "proc_shape q = proc_shape (procs s ! i) \<Longrightarrow> R s (s\<lparr>procs := (procs s)[i := q]\<rparr>)"
    and R_counters: "R s (s\<lparr>nextpid := pid, initproc := ip, ticks := tk\<rparr>)"
    and R_file: "R s (s\<lparr>ftable := (ftable s)[f := x]\<rparr>)"
    and R_pipe: "length (pi_data p) = length (pi_data (pipes s pi)) \<Longrightarrow> R s (s\<lparr>pipes := (pipes s)(pi := p)\<rparr>)"
    and R_console: "length tb = length (uart_tx_buf s) \<Longrightarrow> length cb = length (cons_buf s) \<Longrightarrow>
      R s (s\<lparr>u_lsr := ul, u_rhr := ur, u_writes := uw, uart_tx_buf := tb, uart_tx_w := tw, uart_tx_r := tr,
        cons_buf := cb, cons_r := cr, cons_w := cw, cons_e := ce\<rparr>)"
begin

lemmas kernel_memory [frame_rules] =
  kframe_uvmalloc [THEN fs_kframe] kframe_uvmdealloc [THEN fs_kframe] kframe_uvmcopy [THEN fs_kframe]
  kframe_uvmclear [THEN fs_kframe] kframe_uvmunmap [THEN fs_kframe] kframe_uvminit [THEN fs_kframe]
  kframe_mappages [THEN fs_kframe] kframe_walkaddr [THEN fs_kframe] kframe_leaf [THEN fs_kframe]

lemma sh_upd_proc:
  assumes "\<And>p. proc_shape (f p) = proc_shape p"
  shows "changes R (upd_proc i f)"
  unfolding upd_proc_def by (intro modify_rule R_proc assms)

lemma sh_upd_procs [frame_rules]:
  "changes R (upd_proc i (\<lambda>p. p\<lparr>p_state := st p\<rparr>))" "changes R (upd_proc i (\<lambda>p. p\<lparr>p_killed := k\<rparr>))"
  "changes R (upd_proc i (\<lambda>p. p\<lparr>p_killed := k, p_state := st p\<rparr>))"
  "changes R (upd_proc i (\<lambda>p. p\<lparr>p_trapframe := tf\<rparr>))" "changes R (upd_proc i (\<lambda>p. p\<lparr>p_pagetable := pt\<rparr>))"
  "changes R (upd_proc i (\<lambda>p. p\<lparr>p_pagetable := pt, p_sz := z\<rparr>))"
  "changes R (upd_proc i (\<lambda>p. p\<lparr>p_pid := pid, p_state := st p\<rparr>))" "changes R (upd_proc i (\<lambda>p. p\<lparr>p_sz := sz p\<rparr>))"
  "changes R (upd_proc i (\<lambda>p. p\<lparr>p_parent := par\<rparr>))" "changes R (upd_proc i (\<lambda>p. p\<lparr>p_cwd := cwd\<rparr>))"
  "changes R (upd_proc i (\<lambda>p. p\<lparr>p_xstate := xs, p_state := st p\<rparr>))"
  "changes R (upd_proc i (\<lambda>p. p\<lparr>p_name := safestrcpy (p_name p) t n\<rparr>))"
  "changes R (upd_proc i (\<lambda>p. p\<lparr>p_cwd := cwd, p_name := safestrcpy (p_name p) t n\<rparr>))"
  "changes R (upd_proc i (\<lambda>p. p\<lparr>p_vma := map (\<lambda>v. v\<lparr>v_valid := False\<rparr>) (p_vma p),
     p_context := \<lparr>c_ra = ra, c_sp = p_kstack p + PGSIZE, c_s = replicate 12 0\<rparr>\<rparr>))"
  "changes R (upd_proc i (\<lambda>p. p\<lparr>p_pagetable := 0, p_sz := 0, p_pid := 0, p_parent := None,
         p_name := (p_name p)[0 := 0], p_chan := Null, p_killed := False, p_xstate := 0, p_state := UNUSED\<rparr>))"
  "changes R (upd_vma i j g)" "changes R (set_ofile i fd fo)"
  unfolding upd_vma_def set_ofile_def
  by (rule sh_upd_proc, simp add: proc_shape_def safestrcpy_def length_safestrcpy_copy)+

lemma sh_console:
  assumes "\<And>s. length (uart_tx_buf (g s)) = length (uart_tx_buf s) \<and> length (cons_buf (g s)) = length (cons_buf s)"
    and "\<And>s. g s = s\<lparr>u_lsr := u_lsr (g s), u_rhr := u_rhr (g s), u_writes := u_writes (g s), uart_tx_buf := uart_tx_buf (g s),
      uart_tx_w := uart_tx_w (g s), uart_tx_r := uart_tx_r (g s), cons_buf := cons_buf (g s), cons_r := cons_r (g s),
      cons_w := cons_w (g s), cons_e := cons_e (g s)\<rparr>"
  shows "changes R (modify g)"
proof (rule modify_rule)
  show "R s (g s)" for s by (subst assms(2)) (intro R_console; simp add: assms(1))
qed

lemma sh_modify [frame_rules]:
  "changes R (modify (\<lambda>s. s\<lparr>cur := c\<rparr>))" "changes R (upd_file f h)" "changes R (tf_store i off w)"
  "changes R (modify (\<lambda>s. s\<lparr>initproc := a\<rparr>))" "changes R (modify (\<lambda>s. s\<lparr>ticks := k s\<rparr>))" "changes R allocpid"
proof -
  show "changes R (modify (\<lambda>s. s\<lparr>cur := c\<rparr>))" "changes R (upd_file f h)" "changes R (tf_store i off w)"
    unfolding upd_file_def tf_store_def by (intro modify_rule R_cur R_file frame_rules)+
  have "R s (s\<lparr>initproc := a\<rparr>)" "R s (s\<lparr>ticks := k s\<rparr>)" "R s (s\<lparr>nextpid := n\<rparr>)" for s n
    using R_counters [where s = s and pid = "nextpid s" and ip = a and tk = "ticks s"]
      R_counters [where s = s and pid = "nextpid s" and ip = "initproc s" and tk = "k s"]
      R_counters [where s = s and pid = n and ip = "initproc s" and tk = "ticks s"] by simp_all
  then show "changes R (modify (\<lambda>s. s\<lparr>initproc := a\<rparr>))" "changes R (modify (\<lambda>s. s\<lparr>ticks := k s\<rparr>))" "changes R allocpid"
    by (auto simp: changes_def allocpid_def)
qed

lemma sh_console_modify [frame_rules]:
  "changes R (WriteReg rg v)" "changes R (modify (\<lambda>s. s\<lparr>uart_tx_r := uart_tx_r s + 1\<rparr>))"
  "changes R (modify (\<lambda>s. s\<lparr>uart_tx_buf := (uart_tx_buf s)[unat (uart_tx_w s) mod UART_TX_BUF_SIZE := ch],
     uart_tx_w := uart_tx_w s + 1\<rparr>))"
  "changes R (modify (\<lambda>s. s\<lparr>u_lsr := lsr s\<rparr>))" "changes R (modify (\<lambda>s. s\<lparr>cons_e := cons_e s - 1\<rparr>))"
  "changes R (modify (\<lambda>s. s\<lparr>cons_buf := (cons_buf s)[unat (cons_e s) mod INPUT_BUF := ch], cons_e := cons_e s + 1\<rparr>))"
  "changes R (modify (\<lambda>s. s\<lparr>cons_w := cons_e s\<rparr>))" "changes R (modify (\<lambda>s. s\<lparr>cons_r := cons_r s + 1\<rparr>))"
  "changes R (modify (\<lambda>s. if P then s else s\<lparr>cons_r := cons_r s + 1\<rparr>))"
  unfolding WriteReg_def by (rule sh_console; simp)+

lemma sh_read [frame_rules]: "changes R read_lsr" "changes R read_rhr"
proof -
  have "changes R (modify (\<lambda>s. s\<lparr>u_lsr := xs\<rparr>))" "changes R (modify (\<lambda>s. s\<lparr>u_rhr := ys\<rparr>))" for xs ys
    by (rule sh_console; simp)+
  then have "R s (s\<lparr>u_lsr := xs\<rparr>)" "R s (s\<lparr>u_rhr := ys\<rparr>)" for s xs ys by (simp_all add: changes_def)
  then show "changes R read_lsr" "changes R read_rhr"
    by (auto simp: changes_def read_lsr_def read_rhr_def reflexive split: list.split)
qed

lemma sh_upd_pipe:
  assumes "\<And>p. length (pi_data (f p)) = length (pi_data p)"
  shows "changes R (upd_pipe pi f)"
  unfolding upd_pipe_def by (intro modify_rule R_pipe assms)

lemma sh_upd_pipes [frame_rules]:
  "changes R (upd_pipe pi (\<lambda>p. p\<lparr>pi_writeopen := b\<rparr>))" "changes R (upd_pipe pi (\<lambda>p. p\<lparr>pi_readopen := b\<rparr>))"
  "changes R (upd_pipe pi (\<lambda>p. p\<lparr>pi_nread := pi_nread p + 1\<rparr>))"
  "changes R (upd_pipe pi (\<lambda>p. p\<lparr>pi_data := (pi_data p)[g p := ch], pi_nwrite := pi_nwrite p + 1\<rparr>))"
  "changes R (upd_pipe pi (\<lambda>p. p\<lparr>pi_readopen := True, pi_writeopen := True, pi_nwrite := 0, pi_nread := 0\<rparr>))"
  by (rule sh_upd_pipe, simp)+

subsection \<open>Processes and the console\<close>

lemma sh_freeproc [frame_rules]: "changes R (freeproc i)"
  unfolding freeproc_def by (intro frame_rules)

lemma sh_allocproc [frame_rules]: "changes R (allocproc)"
  unfolding allocproc_def by (intro frame_rules)

lemma sh_growproc [frame_rules]: "changes R (growproc n)"
  unfolding growproc_def by (intro frame_rules)

lemma sh_yield [frame_rules]: "changes R (yield)"
  unfolding yield_def by (intro frame_rules)

lemma sh_kill [frame_rules]: "changes R (kill pid)"
  unfolding kill_def by (intro frame_rules)

lemma sh_reparent [frame_rules]: "changes R (reparent i)"
  unfolding reparent_def by (intro frame_rules)

lemma sh_wait_scan [frame_rules]: "changes R (wait_scan me addr js k)"
  by (induction js arbitrary: k) (simp_all only: wait_scan.simps, (intro frame_rules | assumption)+)

lemma sh_wait [frame_rules]: "changes R (wait addr)"
  unfolding wait_def by (intro frame_rules)

lemma sh_exit_zombie [frame_rules]: "changes R (exit_zombie st)"
  unfolding exit_zombie_def by (intro frame_rules)

lemma sh_fork_runnable [frame_rules]: "changes R (fork_runnable np)"
  unfolding fork_runnable_def by (intro frame_rules)

lemma sh_uartstart_loop [frame_rules]: "changes R (uartstart_loop k)"
  by (induction k) (simp_all only: uartstart_loop.simps, (intro frame_rules | assumption)+)

lemma sh_uartstart [frame_rules]: "changes R (uartstart)"
  unfolding uartstart_def by (intro frame_rules)

lemma sh_uartputc [frame_rules]: "changes R (uartputc c)"
  unfolding uartputc_def by (intro frame_rules)

lemma sh_uartputc_sync [frame_rules]: "changes R (uartputc_sync c)"
  unfolding uartputc_sync_def by (intro frame_rules)

lemma sh_uartgetc [frame_rules]: "changes R (uartgetc)"
  unfolding uartgetc_def by (intro frame_rules)

lemma sh_consputc [frame_rules]: "changes R (consputc c)"
  unfolding consputc_def by (intro frame_rules)

lemma sh_printf [frame_rules]: "changes R (printf fmt ap)"
  unfolding printf_def by (intro frame_rules)

lemma sh_procdump [frame_rules]: "changes R (procdump)"
  unfolding procdump_def by (intro frame_rules)

lemma sh_consolewrite_from [frame_rules]: "changes R (consolewrite_from u src n i)"
proof (induction u src n i rule: consolewrite_from.induct)
  case (1 u src n i)
  show ?case by (subst consolewrite_from.simps) (intro frame_rules 1; assumption)
qed

lemma sh_consoleread_from [frame_rules]:
  "changes R (consoleread_from u dst n target :: (_, 'a files_scheme) routine)"
proof (induction "nat n" arbitrary: dst n rule: less_induct)
  case less
  have ih: "changes R (consoleread_from u (dst + 1) (n - 1) target :: (_, 'a files_scheme) routine)" if "n > 0"
    using less [of "n - 1"] that by simp
  show ?case by (subst consoleread_from.simps) (intro frame_rules ih; assumption)
qed

lemma sh_kill_line [frame_rules]: "changes R (kill_line k)"
  by (induction k) (simp_all only: kill_line.simps, (intro frame_rules | assumption)+)

lemma sh_consolewrite [frame_rules]: "changes R (consolewrite u src n)"
  unfolding consolewrite_def by (intro frame_rules)

lemma sh_consoleread [frame_rules]: "changes R (consoleread u dst n)"
  unfolding consoleread_def by (intro frame_rules)

lemma sh_consoleintr [frame_rules]: "changes R (consoleintr c)"
  unfolding consoleintr_def by (intro frame_rules)

lemma sh_uartintr_loop [frame_rules]: "changes R (uartintr_loop k)"
  by (induction k) (simp_all only: uartintr_loop.simps, (intro frame_rules | assumption)+)

lemma sh_uartintr [frame_rules]: "changes R (uartintr)"
  unfolding uartintr_def by (intro frame_rules)

subsection \<open>Pipes and files\<close>

lemma sh_pipewrite_from [frame_rules]: "changes R (pipewrite_from pi addr n i)"
proof (induction pi addr n i rule: pipewrite_from.induct)
  case (1 pi addr n i)
  show ?case by (subst pipewrite_from.simps) (intro frame_rules 1; assumption)
qed

lemma sh_piperead_from [frame_rules]: "changes R (piperead_from pi addr n i)"
proof (induction pi addr n i rule: piperead_from.induct)
  case (1 pi addr n i)
  show ?case by (subst piperead_from.simps) (intro frame_rules 1; assumption)
qed

lemma sh_pipeclose [frame_rules]: "changes R (pipeclose pi w)"
  unfolding pipeclose_def by (intro frame_rules)

lemma sh_pipewrite [frame_rules]: "changes R (pipewrite pi addr n)"
  unfolding pipewrite_def by (intro frame_rules)

lemma sh_piperead [frame_rules]: "changes R (piperead pi addr n)"
  unfolding piperead_def by (intro frame_rules)

lemma sh_filealloc [frame_rules]: "changes R (filealloc)"
  unfolding filealloc_def by (intro frame_rules)

lemma sh_filedup [frame_rules]: "changes R (filedup f)"
  unfolding filedup_def by (intro frame_rules)

lemma sh_fileclose [frame_rules]: "changes R (fileclose f)"
  unfolding fileclose_def by (intro frame_rules)

lemma sh_filestat [frame_rules]: "changes R (filestat f addr)"
  unfolding filestat_def by (intro frame_rules)

lemma sh_filewrite_from [frame_rules]: "changes R (filewrite_from f p addr n i)"
proof (induction f p addr n i rule: filewrite_from.induct)
  case (1 f p addr n i)
  show ?case by (subst filewrite_from.simps) (intro frame_rules 1; assumption)
qed

lemma sh_fileread [frame_rules]: "changes R (fileread f addr n)"
  unfolding fileread_def by (intro frame_rules)

lemma sh_filewrite [frame_rules]: "changes R (filewrite f addr n)"
  unfolding filewrite_def by (intro frame_rules)

lemma sh_pipealloc_bad [frame_rules]: "changes R (pipealloc_bad pi f0 f1)"
  unfolding pipealloc_bad_def by (intro frame_rules)

lemma sh_pipealloc [frame_rules]: "changes R (pipealloc)"
  unfolding pipealloc_def by (intro frame_rules)

subsection \<open>System calls\<close>

lemma sh_fetchaddr [frame_rules]: "changes R (fetchaddr addr)"
  unfolding fetchaddr_def by (intro frame_rules)

lemma sh_fetchstr [frame_rules]: "changes R (fetchstr addr mx)"
  unfolding fetchstr_def by (intro frame_rules)

lemma sh_argraw [frame_rules]: "changes R (argraw n)"
  unfolding argraw_def by (intro frame_rules)

lemma sh_argint [frame_rules]: "changes R (argint n)"
  unfolding argint_def by (intro frame_rules)

lemma sh_argaddr [frame_rules]: "changes R (argaddr n)"
  unfolding argaddr_def by (intro frame_rules)

lemma sh_argstr [frame_rules]: "changes R (argstr n mx)"
  unfolding argstr_def by (intro frame_rules)

lemma sh_argfd [frame_rules]: "changes R (argfd n)"
  unfolding argfd_def by (intro frame_rules)

lemma sh_fdalloc [frame_rules]: "changes R (fdalloc f)"
  unfolding fdalloc_def by (intro frame_rules)

lemma sh_sys_dup [frame_rules]: "changes R (sys_dup)"
  unfolding sys_dup_def by (intro frame_rules)

lemma sh_sys_read [frame_rules]: "changes R (sys_read)"
  unfolding sys_read_def by (intro frame_rules)

lemma sh_sys_write [frame_rules]: "changes R (sys_write)"
  unfolding sys_write_def by (intro frame_rules)

lemma sh_sys_close [frame_rules]: "changes R (sys_close)"
  unfolding sys_close_def by (intro frame_rules)

lemma sh_sys_fstat [frame_rules]: "changes R (sys_fstat)"
  unfolding sys_fstat_def by (intro frame_rules)

lemma sh_sys_link [frame_rules]: "changes R (sys_link)"
  unfolding sys_link_def by (intro frame_rules)

lemma sh_isdirempty_from [frame_rules]: "changes R (isdirempty_from dp offs)"
  by (induction offs) (simp_all only: isdirempty_from.simps, (intro frame_rules | assumption)+)

lemma sh_isdirempty [frame_rules]: "changes R (isdirempty dp)"
  unfolding isdirempty_def by (intro frame_rules)

lemma sh_sys_unlink [frame_rules]: "changes R (sys_unlink)"
  unfolding sys_unlink_def Let_def by (intro frame_rules)

lemma sh_sys_open [frame_rules]: "changes R (sys_open)"
  unfolding sys_open_def Let_def by (intro frame_rules)

lemma sh_sys_mkdir [frame_rules]: "changes R (sys_mkdir)"
  unfolding sys_mkdir_def by (intro frame_rules)

lemma sh_sys_mknod [frame_rules]: "changes R (sys_mknod)"
  unfolding sys_mknod_def by (intro frame_rules)

lemma sh_sys_chdir [frame_rules]: "changes R (sys_chdir)"
  unfolding sys_chdir_def by (intro frame_rules)

lemma sh_sys_pipe [frame_rules]: "changes R (sys_pipe)"
  unfolding sys_pipe_def by (intro frame_rules)

lemma sh_sys_mmap [frame_rules]: "changes R (sys_mmap)"
  unfolding sys_mmap_def by (intro frame_rules)

lemma sh_sys_munmap [frame_rules]: "changes R (sys_munmap)"
  unfolding sys_munmap_def by (intro frame_rules)

lemma sh_set_killed [frame_rules]: "changes R (set_killed p)"
  unfolding set_killed_def by (intro frame_rules)

lemma sh_fault_scan [frame_rules]: "changes R (fault_scan p va is)"
  by (induction "is") (simp_all only: fault_scan.simps, (intro frame_rules | assumption)+)

lemma sh_page_fault [frame_rules]: "changes R (page_fault p va)"
  unfolding page_fault_def by (intro frame_rules)

lemma sh_fork_vmas [frame_rules]: "changes R (fork_vmas p np)"
  unfolding fork_vmas_def by (intro frame_rules)

lemma sh_fork_files [frame_rules]: "changes R (fork_files p np)"
  unfolding fork_files_def by (intro frame_rules)

lemma sh_fork [frame_rules]: "changes R (fork)"
  unfolding fork_def by (intro frame_rules)

lemma sh_exit_files [frame_rules]: "changes R (exit_files p)"
  unfolding exit_files_def by (intro frame_rules)

lemma sh_exit_vmas [frame_rules]: "changes R (exit_vmas p)"
  unfolding exit_vmas_def by (intro frame_rules)

lemma sh_exit [frame_rules]: "changes R (exit st)"
  unfolding exit_def by (intro frame_rules)

lemma sh_loadseg_from [frame_rules]: "changes R (loadseg_from pt va ip off sz is)"
  by (induction "is") (simp_all only: loadseg_from.simps, (intro frame_rules | assumption)+)

lemma sh_exec_load [frame_rules]: "changes R (exec_load pt ip off n sz)"
  unfolding loadseg_def
  by (induction n arbitrary: off sz) (simp_all only: exec_load.simps loadseg_def, (intro frame_rules | assumption)+)

lemma sh_kstrlen [frame_rules]: "changes R (kstrlen a)"
  unfolding kstrlen_def by (intro frame_rules)

lemma sh_push_args [frame_rules]: "changes R (push_args pt base argv sp us)"
  by (induction argv arbitrary: sp us) (simp_all only: push_args.simps, (intro frame_rules | assumption)+)

lemma sh_exec_bad [frame_rules]: "changes R (exec_bad pt sz i)"
  unfolding exec_bad_def by (intro frame_rules)

lemma sh_exec_image [frame_rules]: "changes R (exec_image p pt sz entry path argv)"
  unfolding exec_image_def by (intro frame_rules)

lemma sh_exec [frame_rules]: "changes R (exec path argv)"
  unfolding exec_def by (intro frame_rules)

lemma sh_exec_args [frame_rules]: "changes R (exec_args n uargv argv)"
  by (induction n arbitrary: argv) (simp_all only: exec_args.simps, (intro frame_rules | assumption)+)

lemma sh_sys_exec [frame_rules]: "changes R (sys_exec)"
  unfolding sys_exec_def by (intro frame_rules)

lemma sh_sys_exit [frame_rules]: "changes R (sys_exit)"
  unfolding sys_exit_def by (intro frame_rules)

lemma sh_sys_getpid [frame_rules]: "changes R (sys_getpid)"
  unfolding sys_getpid_def by (intro frame_rules)

lemma sh_sys_fork [frame_rules]: "changes R (sys_fork)"
  unfolding sys_fork_def by (intro frame_rules)

lemma sh_sys_wait [frame_rules]: "changes R (sys_wait)"
  unfolding sys_wait_def by (intro frame_rules)

lemma sh_sys_sbrk [frame_rules]: "changes R (sys_sbrk)"
  unfolding sys_sbrk_def by (intro frame_rules)

lemma sh_sys_sleep_from [frame_rules]: "changes R (sys_sleep_from t n)"
  unfolding sys_sleep_from_def by (intro frame_rules)

lemma sh_sys_sleep [frame_rules]: "changes R (sys_sleep)"
  unfolding sys_sleep_def by (intro frame_rules)

lemma sh_sys_kill [frame_rules]: "changes R (sys_kill)"
  unfolding sys_kill_def by (intro frame_rules)

lemma sh_sys_uptime [frame_rules]: "changes R (sys_uptime)"
  unfolding sys_uptime_def by (intro frame_rules)

lemma sh_syscalls: "m \<in> set syscalls \<Longrightarrow> changes R m"
  unfolding syscalls_def by (auto intro: frame_rules)

lemma sh_syscall [frame_rules]: "changes R syscall"
proof -
  have "changes R ((syscalls :: (uint64, 'a files_scheme) routine list) ! (nat n - 1))"
    if "n > 0 \<and> n \<le> int (length (syscalls :: (uint64, 'a files_scheme) routine list))" for n
    using that by (intro sh_syscalls nth_mem) linarith
  then show ?thesis unfolding syscall_def by (intro frame_rules; assumption)
qed

lemma sh_clockintr [frame_rules]: "changes R clockintr"
  unfolding clockintr_def by (intro frame_rules)

lemma sh_devintr [frame_rules]: "changes R m \<Longrightarrow> changes R (devintr m irq c)"
  unfolding devintr_def by (intro frame_rules)

lemma sh_usertrap: "changes R m \<Longrightarrow> changes R (usertrap m irq c)"
  unfolding usertrap_def by (intro frame_rules)

lemma sh_kerneltrap: "changes R m \<Longrightarrow> changes R (kerneltrap m irq c)"
  unfolding kerneltrap_def by (intro frame_rules)

end

subsection \<open>The disk interrupt\<close>

locale vdisk_frame = kernel_frame R for R :: "'a vdisk_scheme \<Rightarrow> 'a vdisk_scheme \<Rightarrow> bool" +
  assumes R_vdisk: "R s (s\<lparr>vd_regs := rg, used_idx := u\<rparr>)"
begin

lemma vd_modify [frame_rules]:
  "changes R (write_mmio r v)" "changes R (modify (\<lambda>s. s\<lparr>used_idx := used_idx s + 1\<rparr>))"
proof -
  have "R s (s\<lparr>vd_regs := rg\<rparr>)" "R s (s\<lparr>used_idx := u\<rparr>)" for s rg u
    using R_vdisk [where s = s and rg = rg and u = "used_idx s"] R_vdisk [where s = s and rg = "vd_regs s" and u = u]
    by simp_all
  then show "changes R (write_mmio r v)" "changes R (modify (\<lambda>s. s\<lparr>used_idx := used_idx s + 1\<rparr>))"
    by (simp_all add: write_mmio_def changes_def)
qed

lemma vd_disk_intr_turn [frame_rules]: "changes R disk_intr_turn"
  unfolding disk_intr_turn_def by (intro frame_rules)

lemma vd_disk_intr_from [frame_rules]: "changes R (disk_intr_from n)"
  by (induction n) (simp_all only: disk_intr_from.simps, (intro frame_rules | assumption)+)

lemma vd_virtio_disk_intr [frame_rules]: "changes R (virtio_disk_intr st)"
  unfolding virtio_disk_intr_def by (intro frame_rules)

lemmas vd_traps = sh_usertrap [OF vd_virtio_disk_intr] sh_kerneltrap [OF vd_virtio_disk_intr]

end

end
