(* ===== verification/Shape.thy ===== *)
theory Shape
  imports Kernelframe
begin

text \<open>
  An invariant of the whole kernel, kept by every system call, every interrupt and every page fault, whether
  the handler returns or gives up the CPU: the buffer cache never holds a block twice.
\<close>

subsection \<open>A kernel to try it on\<close>

definition demo_kernel :: vdisk where
  "demo_kernel = demo_vdisk\<lparr>procs := replicate NPROC (unused_slot\<lparr>p_state := RUNNING, p_ofile := replicate NOFILE None,
     p_vma := replicate NVMA \<lparr>v_addr = 0, v_len = 0, v_prot = 0, v_flag = 0, v_f = None, v_offset = 0, v_fd = 0, v_valid = False\<rparr>,
     p_name := replicate 16 0\<rparr>), itable := replicate NINODE \<lparr>i_dev = 0, i_inum = 0, i_ref = 0, i_lock = initsleeplock,
     i_valid = False, i_type = 0, i_major = 0, i_minor = 0, i_nlink = 0, i_size = 0, i_addrs = replicate 13 0\<rparr>,
     ftable := replicate NFILE \<lparr>f_type = FD_NONE, f_ref = 0, f_readable = False, f_writable = False, f_pipe = 0, f_ip = None,
       f_off = 0, f_major = 0\<rparr>,
     bufs := (replicate NBUF free_buf)[0 := free_buf\<lparr>b_dev := 1, b_blockno := 3\<rparr>]\<rparr>"

text \<open>A clock interrupt, which makes the process give up the CPU.\<close>

abbreviation demo_tick :: csrs where
  "demo_tick \<equiv> \<lparr>scause = 0x8000000000000001, stval = 0, sepc = 0x1000, sstatus = 0, hart = 0\<rparr>"

lemma demo_kernel_proc:
  "cur demo_kernel = Some 0" "length (procs demo_kernel) = NPROC" "p_killed (procs demo_kernel ! 0) = False" "0 < NPROC"
  by (simp_all add: demo_kernel_def demo_vdisk_def files.extend_def vdisk.fields_def demo_files_simps NPROC_def unused_slot_def)

lemma demo_tick_blocks: "\<exists>s'. usertrap (virtio_disk_intr 0) 0 demo_tick demo_kernel = Block s'"
  by (simp add: usertrap_def bind_def myproc_def demo_kernel_proc tf_store_def devintr_def clockintr_def wakeup_def yield_def sched_def)

subsection \<open>One buffer per block\<close>

definition cache_ok :: "'a bio_scheme \<Rightarrow> bool" where
  "cache_ok s \<longleftrightarrow> {..<length (bufs s)} \<subseteq> set (lru s) \<and>
     (\<forall>b<length (bufs s). \<forall>c<length (bufs s). b_dev (bufs s ! b) \<noteq> 0 \<longrightarrow> b_dev (bufs s ! c) = b_dev (bufs s ! b) \<longrightarrow>
        b_blockno (bufs s ! c) = b_blockno (bufs s ! b) \<longrightarrow> c = b)"

definition cache_kept :: "'a bio_scheme \<Rightarrow> 'a bio_scheme \<Rightarrow> bool" where
  "cache_kept s s' \<longleftrightarrow> (cache_ok s \<longrightarrow> cache_ok s')"

lemma cache_ok_same:
  assumes "map (\<lambda>x. (b_dev x, b_blockno x)) (bufs s') = map (\<lambda>x. (b_dev x, b_blockno x)) (bufs s)" and "set (lru s) \<subseteq> set (lru s')"
  shows "cache_kept s s'"
proof -
  have len: "length (bufs s') = length (bufs s)" using arg_cong [OF assms(1), of length] by simp
  have "b_dev (bufs s' ! b) = b_dev (bufs s ! b) \<and> b_blockno (bufs s' ! b) = b_blockno (bufs s ! b)" if "b < length (bufs s)" for b
    using arg_cong [OF assms(1), of "\<lambda>l. l ! b"] that len by simp
  then show ?thesis using assms(2) len unfolding cache_kept_def cache_ok_def by auto
qed

lemma cache_ok_recycle:
  assumes "find (\<lambda>c. b_dev (bufs s ! c) = dev \<and> b_blockno (bufs s ! c) = bn) (lru s) = None"
  shows "cache_kept s (s\<lparr>bufs := (bufs s)[b := (bufs s ! b)\<lparr>b_dev := dev, b_blockno := bn, b_valid := False, b_refcnt := 1\<rparr>]\<rparr>)"
proof -
  have "\<not> (b_dev (bufs s ! c) = dev \<and> b_blockno (bufs s ! c) = bn)" if "cache_ok s" "c < length (bufs s)" for c
    using assms that unfolding find_None_iff cache_ok_def by auto
  then show ?thesis unfolding cache_kept_def cache_ok_def
    by (cases "b < length (bufs s)") (auto simp: nth_list_update list_update_beyond)
qed

lemma map_buf_id_update:
  "b_dev x = b_dev (bs ! b) \<Longrightarrow> b_blockno x = b_blockno (bs ! b) \<Longrightarrow>
   map (\<lambda>x. (b_dev x, b_blockno x)) (bs[b := x]) = map (\<lambda>x. (b_dev x, b_blockno x)) bs"
  by (cases "b < length bs") (simp_all add: map_update list_update_same_conv list_update_beyond)

lemma set_move_to_front: "set l \<subseteq> insert b (set (remove1 b l))"
  by (induction l) auto

interpretation cache: vdisk_frame "cache_kept :: 'a vdisk_scheme \<Rightarrow> 'a vdisk_scheme \<Rightarrow> bool"
proof
  show "cache_kept s s" for s :: "'a vdisk_scheme" by (simp add: cache_kept_def)
  show "cache_kept s u" if "cache_kept s t" "cache_kept t u" for s t u :: "'a vdisk_scheme" using that by (simp add: cache_kept_def)
qed (rule cache_ok_same cache_ok_recycle; simp add: map_buf_id_update set_move_to_front)+

text \<open>
  C27: no trap puts a disk block into two buffers. After every system call, interrupt and page fault, returning or
  giving up the CPU, two buffers that hold blocks of a device (\<open>dev \<noteq> 0\<close>) hold different blocks, and the list \<open>bget\<close>
  searches still has every buffer. So all processes that use a block use the same copy of it.
\<close>

theorem traps_keep_one_buffer_per_block:
  fixes s :: "'a vdisk_scheme"
  assumes "cache_ok s"
  shows "(case usertrap (virtio_disk_intr st) irq c s of Ok r s' \<Rightarrow> cache_ok s' | Block s' \<Rightarrow> cache_ok s' | Panic e \<Rightarrow> True) \<and>
    (case kerneltrap (virtio_disk_intr st) irq c s of Ok r s' \<Rightarrow> cache_ok s' | Block s' \<Rightarrow> cache_ok s' | Panic e \<Rightarrow> True)"
  using assms by (intro conjI changes_outcome [where R = cache_kept] cache.vd_traps) (simp_all add: cache_kept_def)

lemma demo_kernel_cache: "cache_ok demo_kernel"
  unfolding cache_ok_def
  by (auto simp: demo_kernel_def demo_vdisk_def files.extend_def vdisk.fields_def demo_files_def cons.extend_def files.fields_def
      demo_cons_def free_buf_def nth_list_update split: if_splits)

theorem traps_keep_one_buffer_per_block_witness:
  "\<exists>s'. usertrap (virtio_disk_intr 0) 0 demo_tick demo_kernel = Block s' \<and> cache_ok s'"
proof -
  obtain s' where "usertrap (virtio_disk_intr 0) 0 demo_tick demo_kernel = Block s'" using demo_tick_blocks by blast
  then show ?thesis using traps_keep_one_buffer_per_block [OF demo_kernel_cache, of 0 0 demo_tick] by simp
qed

end
