(* ===== verification/Blockops.thy ===== *)
theory Blockops
  imports Fs
begin

text \<open>
  What the file system's use of the block cache inside a transaction amounts to.

  A file-system operation reads blocks, changes them, hands them to \<open>log_write\<close> and releases them. \<open>blk_run\<close>
  describes such a run by its effect on the contents of the blocks; \<open>took\<close> is the state between \<open>bread\<close> and
  \<open>brelse\<close>, and \<open>blk_bracket\<close> removes it. \<open>users\<close> counts the references to a block other than the log's pin, so
  that it is the same before and after an operation.
\<close>

definition users :: "'a log_scheme \<Rightarrow> uint32 \<Rightarrow> int" where
  "users s n = refs s n - of_bool (n \<in> set (logged s))"

definition op_inv :: "'a log_scheme \<Rightarrow> bool" where
  "op_inv s \<longleftrightarrow> bio_inv s \<and> hdr_ok s \<and> (\<exists>i<length (procs s). cur s = Some i) \<and> (\<forall>n. 0 \<le> users s n)"

definition op_frame :: "'a log_scheme \<Rightarrow> 'a log_scheme \<Rightarrow> bool" where
  "op_frame s s' \<longleftrightarrow> only_woken s s' \<and>
     s'\<lparr>procs := [], bufs := [], lru := [], lh_n := 0, lh_block := []\<rparr> =
     s\<lparr>procs := [], bufs := [], lru := [], lh_n := 0, lh_block := []\<rparr>"

definition blk_run :: "'a log_scheme \<Rightarrow> 'a log_scheme \<Rightarrow> (uint32 \<Rightarrow> byte list) \<Rightarrow> uint32 set \<Rightarrow> bool" where
  "blk_run s s' v D \<longleftrightarrow> op_inv s' \<and> op_frame s s' \<and> fsval s' = v \<and> held s' = held s \<and> users s' = users s \<and>
     set (logged s') = set (logged s) \<union> D \<and>
     (\<forall>n. v n \<noteq> fsval s n \<longrightarrow> n \<in> set (logged s')) \<and> (\<forall>c n. mine s c n \<longrightarrow> mine s' c n)"

text \<open>Room for \<open>k\<close> more blocks in the running transaction and \<open>j\<close> more buffers in use.\<close>

definition room :: "nat \<Rightarrow> nat \<Rightarrow> 'a log_scheme \<Rightarrow> bool" where
  "room k j s \<longleftrightarrow> (k > 0 \<longrightarrow> lg_outstanding s \<ge> 1 \<and> lh_n s + int k \<le> LOGSIZE \<and> lh_n s + int k \<le> lg_size s - 1) \<and>
     card {n. users s n > 0} + nat (lh_n s) + k + j \<le> NBUF"

lemma op_frame_refl [simp]: "op_frame s s"
  by (simp add: op_frame_def)

lemma op_frame_trans: "op_frame s t \<Longrightarrow> op_frame t u \<Longrightarrow> op_frame s u"
  unfolding op_frame_def using only_woken_trans by metis

lemma op_frameD:
  assumes "op_frame s s'"
  shows "cur s' = cur s" and "length (procs s') = length (procs s)" and "log.more s' = log.more s"
    and "disk s' = disk s" and "wrote s' = wrote s" and "pmem s' = pmem s" and "freelist s' = freelist s" and "kend s' = kend s"
    and "lg_size s' = lg_size s" and "lg_outstanding s' = lg_outstanding s" and "lg_start s' = lg_start s" and "lg_dev s' = lg_dev s"
    and "lg_committing s' = lg_committing s"
proof -
  show "cur s' = cur s" "length (procs s') = length (procs s)"
    using assms by (simp_all add: op_frame_def only_woken_def)
  have eq: "s'\<lparr>procs := [], bufs := [], lru := [], lh_n := 0, lh_block := []\<rparr> =
     s\<lparr>procs := [], bufs := [], lru := [], lh_n := 0, lh_block := []\<rparr>"
    using assms by (simp add: op_frame_def)
  show "log.more s' = log.more s" using arg_cong [OF eq, of log.more] by simp
  show "disk s' = disk s" using arg_cong [OF eq, of disk] by simp
  show "wrote s' = wrote s" using arg_cong [OF eq, of wrote] by simp
  show "pmem s' = pmem s" using arg_cong [OF eq, of pmem] by simp
  show "freelist s' = freelist s" using arg_cong [OF eq, of freelist] by simp
  show "kend s' = kend s" using arg_cong [OF eq, of kend] by simp
  show "lg_size s' = lg_size s" using arg_cong [OF eq, of lg_size] by simp
  show "lg_outstanding s' = lg_outstanding s" using arg_cong [OF eq, of lg_outstanding] by simp
  show "lg_start s' = lg_start s" using arg_cong [OF eq, of lg_start] by simp
  show "lg_dev s' = lg_dev s" using arg_cong [OF eq, of lg_dev] by simp
  show "lg_committing s' = lg_committing s" using arg_cong [OF eq, of lg_committing] by simp
qed

lemma op_inv_frame:
  assumes "op_inv s" and "op_frame s t" and "bio_inv t" and "hdr_ok t" and "\<And>n. 0 \<le> users t n"
  shows "op_inv t"
  using assms(1,3-) op_frameD(1,2) [OF assms(2)] by (simp add: op_inv_def)

lemma op_length: "op_inv s \<Longrightarrow> length (fsval s n) = BSIZE"
  using length_fsval [of s n] by (simp add: op_inv_def)

lemma op_frame_fs:
  fixes s s' :: "'a fs_scheme"
  assumes "op_frame s s'"
  shows "sb s' = sb s" and "itable s' = itable s" and "fs.more s' = fs.more s"
  using op_frameD(3) [OF assms] by (cases s; cases s'; simp)+

lemma cache_frame_op:
  fixes s s' :: "'a log_scheme"
  assumes "cache_run s s' v r h []"
  shows "op_frame s s'" and "logged s' = logged s" and "lh_n s' = lh_n s" and "hdr_ok s' = hdr_ok s"
proof -
  have d: "disk s' = disk s" "wrote s' = wrote s" using cache_runD(5,6) [OF assms] by simp_all
  have f: "cache_frame s s'" using cache_runD(7) [OF assms] .
  then show "op_frame s s'" using d by (cases s; cases s') (simp add: cache_frame_def op_frame_def only_woken_def)
  have "bio.more s' = bio.more s" using cache_frameD(3) [OF f] .
  then have e: "lh_n s' = lh_n s" "lh_block s' = lh_block s" by (cases s; cases s'; simp)+
  then show "logged s' = logged s" "lh_n s' = lh_n s" by (simp_all add: logged_def)
  then show "hdr_ok s' = hdr_ok s" using e by (simp add: hdr_ok_def)
qed

subsection \<open>Room\<close>

lemma card_logged: "hdr_ok s \<Longrightarrow> card (set (logged s)) = nat (lh_n s)"
  by (auto simp: hdr_ok_def distinct_card) (simp add: logged_def)

lemma finite_users: "bio_inv s \<Longrightarrow> finite {n. users s n > 0}"
  using busy_in_use(2) [of s] by (rule rev_finite_subset) (auto simp: in_use_def users_def of_bool_def split: if_splits)

lemma in_use_room:
  assumes "op_inv s" and "room k (Suc j) s"
  shows "card (in_use s) < NBUF"
proof -
  have "in_use s \<subseteq> {n. users s n > 0} \<union> set (logged s)" by (auto simp: in_use_def users_def)
  then have "card (in_use s) \<le> card ({n. users s n > 0} \<union> set (logged s))"
    using finite_users [of s] assms(1) by (intro card_mono) (simp_all add: op_inv_def)
  also have "\<dots> \<le> card {n. users s n > 0} + nat (lh_n s)"
    using card_Un_le card_logged [of s] assms(1) by (metis op_inv_def)
  finally show ?thesis using assms(2) by (simp add: room_def)
qed

lemma room_run:
  assumes "op_inv s" and "blk_run s s' v D" and "finite D" and "card (D - set (logged s)) \<le> m" and "room (m + k) j s"
  shows "room k j s'"
proof -
  have h: "hdr_ok s" "hdr_ok s'" using assms(1,2) by (simp_all add: blk_run_def op_inv_def)
  have "set (logged s') \<subseteq> set (logged s) \<union> (D - set (logged s))" using assms(2) by (auto simp: blk_run_def)
  then have "card (set (logged s')) \<le> card (set (logged s) \<union> (D - set (logged s)))" using assms(3) by (intro card_mono) auto
  also have "\<dots> \<le> card (set (logged s)) + m" using card_Un_le assms(4) by (meson add_left_mono le_trans)
  finally have "nat (lh_n s') \<le> nat (lh_n s) + m" unfolding card_logged [OF h(1)] card_logged [OF h(2)] .
  moreover have "0 \<le> lh_n s" "0 \<le> lh_n s'" using h by (simp_all add: hdr_ok_def)
  moreover have "users s' = users s" "lg_size s' = lg_size s" "lg_outstanding s' = lg_outstanding s"
    using assms(2) op_frameD(9,10) [of s s'] by (simp_all add: blk_run_def)
  ultimately show ?thesis using assms(5) by (auto simp: room_def)
qed

lemma room_after:
  assumes "op_inv s" and "blk_run s s' v D" and "finite D" and "card D \<le> m" and "room (m + k) j s"
  shows "room k j s'"
proof -
  have "card (D - set (logged s)) \<le> m" using card_mono [of D "D - set (logged s)"] assms(3,4) by simp
  then show ?thesis using room_run assms(1-3,5) by blast
qed

lemma room_mono: "room k j s \<Longrightarrow> k' \<le> k \<Longrightarrow> k' + j' \<le> k + j \<Longrightarrow> room k' j' s"
  by (auto simp: room_def)

subsection \<open>Runs\<close>

lemma blk_run_refl: "op_inv s \<Longrightarrow> D \<subseteq> set (logged s) \<Longrightarrow> blk_run s s (fsval s) D"
  by (auto simp: blk_run_def)

lemma blk_run_trans:
  assumes "blk_run s t v D" and "blk_run t u v' D'"
  shows "blk_run s u v' (D \<union> D')"
proof -
  have f: "op_frame s u" using op_frame_trans assms unfolding blk_run_def by blast
  have "n \<in> set (logged u)" if "v' n \<noteq> fsval s n" for n
  proof (rule ccontr)
    assume n: "n \<notin> set (logged u)"
    then have "v' n = fsval t n" using assms(2) unfolding blk_run_def by blast
    moreover have "n \<notin> set (logged t)" using n assms(2) unfolding blk_run_def by blast
    then have "v n = fsval s n" "fsval t = v" using assms(1) unfolding blk_run_def by blast+
    ultimately show False using that by simp
  qed
  moreover have "op_inv u" "fsval u = v'" "held u = held s" "users u = users s" "set (logged u) = set (logged s) \<union> (D \<union> D')" "\<forall>c n. mine s c n \<longrightarrow> mine u c n"
    using assms by (auto simp: blk_run_def)
  ultimately show ?thesis using f by (simp add: blk_run_def)
qed

lemma blk_runD:
  assumes "blk_run s s' v D"
  shows "op_inv s'" and "fsval s' = v" and "held s' = held s" and "users s' = users s" and "op_frame s s'"
    and "\<And>c n. mine s c n \<Longrightarrow> mine s' c n" and "set (logged s') = set (logged s) \<union> D"
  using assms by (simp_all add: blk_run_def)

lemma blk_run_fs:
  fixes s s' :: "'a fs_scheme"
  assumes "blk_run s s' v D"
  shows "sb s' = sb s" and "itable s' = itable s" and "fs.more s' = fs.more s"
  using op_frame_fs [OF blk_runD(5) [OF assms]] by simp_all

lemma op_fields [simp]:
  fixes s :: "'a fs_scheme"
  shows "bio_inv (s\<lparr>itable := T\<rparr>) = bio_inv s" "fsval (s\<lparr>itable := T\<rparr>) = fsval s" "refs (s\<lparr>itable := T\<rparr>) = refs s"
    "held (s\<lparr>itable := T\<rparr>) = held s" "mine (s\<lparr>itable := T\<rparr>) = mine s" "logged (s\<lparr>itable := T\<rparr>) = logged s"
    "users (s\<lparr>itable := T\<rparr>) = users s" "op_inv (s\<lparr>itable := T\<rparr>) = op_inv s" "room k j (s\<lparr>itable := T\<rparr>) = room k j s"
proof -
  show b: "bio_inv (s\<lparr>itable := T\<rparr>) = bio_inv s" "fsval (s\<lparr>itable := T\<rparr>) = fsval s" "refs (s\<lparr>itable := T\<rparr>) = refs s"
    "held (s\<lparr>itable := T\<rparr>) = held s" "mine (s\<lparr>itable := T\<rparr>) = mine s"
    by (auto simp: bio_inv_def fsval_def refs_def held_def mine_def holder_def fun_eq_iff split: option.splits)
  show l: "logged (s\<lparr>itable := T\<rparr>) = logged s" by (simp add: logged_def)
  then show u: "users (s\<lparr>itable := T\<rparr>) = users s" using b by (auto simp: users_def)
  then show "op_inv (s\<lparr>itable := T\<rparr>) = op_inv s" "room k j (s\<lparr>itable := T\<rparr>) = room k j s"
    using b l by (simp_all add: op_inv_def hdr_ok_def room_def)
qed

lemma blk_run_itable:
  fixes s s' :: "'a fs_scheme"
  assumes "blk_run s s' v D"
  shows "blk_run (s\<lparr>itable := T\<rparr>) (s'\<lparr>itable := T\<rparr>) v D"
proof -
  have "op_frame (s\<lparr>itable := T\<rparr>) (s'\<lparr>itable := T\<rparr>)"
    using blk_runD(5) [OF assms] by (cases s; cases s') (simp add: op_frame_def only_woken_def)
  then show ?thesis using assms by (auto simp: blk_run_def)
qed

subsection \<open>Reading, changing and releasing a block\<close>

definition took :: "'a log_scheme \<Rightarrow> 'a log_scheme \<Rightarrow> nat \<Rightarrow> uint32 \<Rightarrow> bool" where
  "took s t b bn \<longleftrightarrow> op_inv s \<and> \<not> held s bn \<and> op_inv t \<and> op_frame s t \<and> mine t b bn \<and> fsval t = fsval s \<and>
     held t = (held s)(bn := True) \<and> users t = (users s)(bn := users s bn + 1) \<and> logged t = logged s \<and>
     (\<forall>c n. mine s c n \<longrightarrow> mine t c n)"

lemma op_bread:
  assumes inv: "op_inv s" and free: "\<not> held s bn" and r: "room k (Suc j) s"
  obtains b t where "bread ROOTDEV bn s = Ok b t" and "took s t b bn"
proof -
  obtain i where i: "cur s = Some i" "i < length (procs s)" and bio: "bio_inv s" using inv by (auto simp: op_inv_def)
  obtain b t where t: "bread ROOTDEV bn s = Ok b t" "mine t b bn"
    "cache_run s t (fsval s) ((refs s)(bn := refs s bn + 1)) ((held s)(bn := True)) []" "\<And>c n. mine s c n \<Longrightarrow> mine t c n"
    using run_bread [OF bio i free] in_use_room [OF inv r] by blast
  note c = cache_runD [OF t(3)] and f = cache_frame_op [OF t(3)]
  have "users t = (users s)(bn := users s bn + 1)" using c(3) f(2) by (auto simp: users_def)
  moreover have "op_inv t" using inv c(1) f(4) \<open>users t = _\<close> by (intro op_inv_frame [OF inv f(1)]) (simp_all add: op_inv_def)
  ultimately show ?thesis using that t inv free c(2,4) f by (simp add: took_def)
qed

lemma took_room: "took s t b bn \<Longrightarrow> room k (Suc j) s \<Longrightarrow> room k j t"
proof -
  assume t: "took s t b bn" and r: "room k (Suc j) s"
  have "finite {n. users s n > 0}" using t finite_users by (auto simp: took_def op_inv_def)
  moreover have "{n. users t n > 0} \<subseteq> insert bn {n. users s n > 0}" using t by (auto simp: took_def split: if_splits)
  ultimately have "card {n. users t n > 0} \<le> card (insert bn {n. users s n > 0})" by (intro card_mono) simp_all
  also have "\<dots> \<le> Suc (card {n. users s n > 0})" by (rule card_insert_le_m1 [of "Suc _", simplified]) simp_all
  finally have "card {n. users t n > 0} \<le> Suc (card {n. users s n > 0})" .
  moreover have "lh_n t = lh_n s"
    using t card_logged [of s] card_logged [of t] by (auto simp: took_def op_inv_def hdr_ok_def)
  moreover have "lg_size t = lg_size s" "lg_outstanding t = lg_outstanding s" using t op_frameD(9,10) [of s t] by (simp_all add: took_def)
  ultimately show ?thesis using r by (simp add: room_def)
qed

lemma took_data: "took s t b bn \<Longrightarrow> buf_data b t = Ok (fsval s bn) t"
  using buf_data_mine [of t b bn] by (simp add: took_def op_inv_def)

lemma took_brelse:
  assumes t: "took s t b bn" and u: "blk_run t u v D"
  obtains w where "brelse b u = Ok () w" and "blk_run s w v D"
proof -
  note bu = blk_runD [OF u]
  have bio: "bio_inv u" and m: "mine u b bn" using bu(1) bu(6) [of b bn] t by (auto simp: op_inv_def took_def)
  have us: "users u = (users s)(bn := users s bn + 1)" using bu(4) t by (simp add: took_def)
  have clean: "fsval u bn = disk u bn" if "refs u bn = 1"
  proof -
    have s0: "0 \<le> users s bn" "bio_inv s" using t by (auto simp: took_def op_inv_def)
    have "users u bn = users s bn + 1" using us by simp
    moreover have "users u bn = 1 - of_bool (bn \<in> set (logged u))" using that by (simp add: users_def)
    ultimately have l: "bn \<notin> set (logged u)" "users s bn = 0" using s0(1) by (auto simp: of_bool_def split: if_splits)
    then have "bn \<notin> set (logged s)" using bu(7) t by (auto simp: took_def)
    then have "refs s bn = 0" using l by (simp add: users_def)
    moreover have "fsval u bn = fsval s bn" using l(1) u t by (auto simp: blk_run_def took_def)
    moreover have "disk u = disk s" using op_frameD(4) [OF bu(5)] op_frameD(4) t by (auto simp: took_def)
    ultimately show ?thesis using unused_clean [OF s0(2)] by simp
  qed
  obtain w where w: "brelse b u = Ok () w"
      "cache_run u w (fsval u) ((refs u)(bn := refs u bn - 1)) ((held u)(bn := False)) []" "\<And>c n. c \<noteq> b \<Longrightarrow> mine u c n \<Longrightarrow> mine w c n"
    using run_brelse [OF bio m clean] by blast
  note c = cache_runD [OF w(2)] and f = cache_frame_op [OF w(2)]
  have "users w = (users u)(bn := users u bn - 1)" using c(3) f(2) by (auto simp: users_def fun_eq_iff)
  then have us': "users w = users s" using us by simp
  have held: "held w = held s" using c(4) bu(3) t by (simp add: took_def fun_upd_idem)
  have inv: "op_inv w" using bu(1) c(1) f(4) us' t by (intro op_inv_frame [OF bu(1) f(1)]) (simp_all add: op_inv_def took_def)
  have "mine w c n" if "mine s c n" for c n
  proof -
    have tc: "mine t c n" using that t by (simp add: took_def)
    have "held s n" using that mine_view(4) t by (auto simp: took_def op_inv_def)
    then have "n \<noteq> bn" using t by (auto simp: took_def)
    then have "c \<noteq> b" using mine_distinct [of t b bn c n] tc t by (auto simp: took_def)
    then show ?thesis using w(3) bu(6) tc by blast
  qed
  moreover have "op_frame s w" using t bu(5) f(1) op_frame_trans by (metis took_def)
  ultimately have "blk_run s w v D" using inv us' held c(2) f(2) u t bu(2) by (auto simp: blk_run_def took_def)
  then show ?thesis using that w(1) by blast
qed

lemma op_log_write:
  assumes inv: "op_inv s" and m: "mine s b bn" and r: "room 1 0 s"
  obtains t where "log_write b s = Ok () t" and "blk_run s t (fsval s) {bn}" and "bn \<in> set (logged t)"
proof -
  have h: "hdr_ok s" "bio_inv s" "lg_outstanding s \<ge> 1" "lh_n s < LOGSIZE" "lh_n s < lg_size s - 1"
    using inv r by (auto simp: op_inv_def room_def)
  have bn: "b_blockno (bufs s ! b) = bn" using m by (simp add: mine_def is_copy_def)
  note e = log_write_eval [OF h(1,4,5,3), of b, unfolded bn]
  show ?thesis
  proof (cases "bn \<in> set (logged s)")
    case True
    then show ?thesis using that e blk_run_refl [OF inv] by simp
  next
    case False
    define s1 where "s1 = s\<lparr>lh_block := (lh_block s)[nat (lh_n s) := bn], lh_n := lh_n s + 1\<rparr>"
    have l1: "logged s1 = logged s @ [bn]" unfolding s1_def by (rule logged_snoc [OF h(1,4)])
    then have h1: "hdr_ok s1" using h(1,4) False by (auto simp: hdr_ok_def s1_def)
    have view: "bio_inv s1" "mine s1 = mine s" "refs s1 = refs s" "fsval s1 = fsval s" "held s1 = held s"
      using h(2) by (simp_all add: s1_def)
    obtain t where t: "bpin b s1 = Ok () t" "cache_run s1 t (fsval s1) ((refs s1)(bn := refs s1 bn + 1)) (held s1) []"
      "\<And>c n. mine s1 c n \<Longrightarrow> mine t c n"
      using run_bpin [of s1 b bn] view(1,2) m by auto
    note c = cache_runD [OF t(2)] and f = cache_frame_op [OF t(2)]
    have "users t = users s" using c(3) f(2) l1 view False by (auto simp: users_def fun_eq_iff)
    moreover have "op_frame s s1" by (simp add: op_frame_def s1_def only_woken_def)
    then have fr: "op_frame s t" using f(1) by (rule op_frame_trans)
    ultimately have "op_inv t" using inv c(1) f(4) h1 by (intro op_inv_frame [OF inv fr]) (simp_all add: op_inv_def)
    then have "blk_run s t (fsval s) {bn}" "bn \<in> set (logged t)"
      using c(2,4) f(2) l1 view \<open>users t = users s\<close> t(3) fr by (auto simp: blk_run_def)
    then show ?thesis using that [of t] e False t(1) by (simp add: s1_def)
  qed
qed

lemma op_store:
  assumes inv: "op_inv s" and m: "mine s b bn" and r: "room 1 0 s" and d: "length d = BSIZE"
  obtains s1 t where "set_data b d s = Ok () s1" and "log_write b s1 = Ok () t" and "blk_run s t ((fsval s)(bn := d)) {bn}"
proof -
  obtain s1 where s1: "set_data b d s = Ok () s1" "cache_run s s1 ((fsval s)(bn := d)) (refs s) (held s) []"
      "\<And>c n. mine s c n \<Longrightarrow> mine s1 c n"
    using run_set_data [OF _ m d] inv by (auto simp: op_inv_def)
  note c = cache_runD [OF s1(2)] and f = cache_frame_op [OF s1(2)]
  have us: "users s1 = users s" using c(3) f(2) by (auto simp: users_def)
  have inv1: "op_inv s1" using inv c(1) f(4) us by (intro op_inv_frame [OF inv f(1)]) (simp_all add: op_inv_def)
  have "room 1 0 s1" using r us f(3) op_frameD(9,10) [OF f(1)] by (simp add: room_def)
  then obtain t where t: "log_write b s1 = Ok () t" "blk_run s1 t (fsval s1) {bn}" "bn \<in> set (logged t)"
    using op_log_write [OF inv1 s1(3) [OF m]] by blast
  have "blk_run s t ((fsval s)(bn := d)) {bn}"
    using t(2,3) c(2,4) f us s1(3) op_frame_trans [OF f(1)] by (auto simp: blk_run_def)
  then show ?thesis using that s1(1) t(1) by blast
qed

end
