(* ===== verification/Blockmap.thy ===== *)
theory Blockmap
  imports Blockops
begin

text \<open>
  The free map of the disk: \<open>balloc\<close> hands out a block that was free and is now in use and zero, \<open>bfree\<close> gives one
  back, and neither changes any other block or any other bit.
\<close>

definition used :: "superblock \<Rightarrow> (uint32 \<Rightarrow> byte list) \<Rightarrow> uint32 \<Rightarrow> bool" where
  "used g v b = map_bit (v (BBLOCK b g)) (unat b mod BPB)"

definition map_blocks :: "superblock \<Rightarrow> uint32 set" where
  "map_blocks g = (\<lambda>b. BBLOCK b g) ` {b. b < sb_size g}"

definition map_ok :: "superblock \<Rightarrow> (uint32 \<Rightarrow> byte list) \<Rightarrow> bool" where
  "map_ok g v \<longleftrightarrow> (\<forall>n\<in>map_blocks g. used g v n)"

text \<open>The blocks that processes have locked are in use, and none is a block of the map.\<close>

definition locks_ok :: "'a fs_scheme \<Rightarrow> bool" where
  "locks_ok s \<longleftrightarrow> (\<forall>n. held s n \<longrightarrow> used (sb s) (fsval s) n \<and> n \<notin> map_blocks (sb s))"

subsection \<open>Bits\<close>

lemma map_bit_set:
  assumes "length d = BSIZE" and "i < BPB" and "j < BPB"
  shows "map_bit (set_map_bit d i x) j = (if j = i then x else map_bit d j)"
proof -
  have l: "i div 8 < length d" "j div 8 < length d" using assms by (simp_all add: BPB_def)
  have m: "bit (push_bit (i mod 8) 1 :: byte) k \<longleftrightarrow> k = i mod 8" for k
    by (auto simp: bit_exp_iff)
  show ?thesis
  proof (cases "j div 8 = i div 8")
    case True
    then have "j = i \<longleftrightarrow> j mod 8 = i mod 8" by (metis div_mult_mod_eq)
    moreover have "j mod 8 < 8" by simp
    ultimately show ?thesis using True l m by (auto simp: map_bit_def set_map_bit_def bit_simps)
  next
    case False
    then show ?thesis by (auto simp: map_bit_def set_map_bit_def)
  qed
qed

lemma length_set_map_bit [simp]: "length (set_map_bit d i x) = length d"
  by (simp add: set_map_bit_def)

lemma BBLOCK_eq: "BBLOCK b g = BBLOCK c g \<longleftrightarrow> unat b div BPB = unat c div BPB"
proof -
  have "BBLOCK b g = BBLOCK c g \<longleftrightarrow> b div of_nat BPB = c div of_nat BPB" by (simp add: BBLOCK_def)
  also have "\<dots> \<longleftrightarrow> unat b div BPB = unat c div BPB"
    by (simp add: word_unat_eq_iff unat_div BPB_def BSIZE_def)
  finally show ?thesis .
qed

lemma bit_pos: "b div BPB = c div BPB \<Longrightarrow> b mod BPB = c mod BPB \<longleftrightarrow> b = (c :: nat)"
  by (metis div_mult_mod_eq)

lemma block_offset:
  assumes "b mod BPB = 0" and "i < BPB"
  shows "(b + i) div BPB = b div BPB" and "(b + i) mod BPB = i"
  using assms by (auto simp: mod_eq_0_iff_dvd elim!: dvdE)

lemma used_set:
  assumes "length (v (BBLOCK b g)) = BSIZE"
  shows "used g (v(BBLOCK b g := set_map_bit (v (BBLOCK b g)) (unat b mod BPB) x)) c = (if c = b then x else used g v c)"
proof -
  have p: "unat b mod BPB < BPB" "unat c mod BPB < BPB" by (simp_all add: BPB_def BSIZE_def)
  show ?thesis
  proof (cases "BBLOCK c g = BBLOCK b g")
    case True
    then have "unat c mod BPB = unat b mod BPB \<longleftrightarrow> c = b" using bit_pos [of "unat c" "unat b"] unfolding BBLOCK_eq by (simp add: word_unat_eq_iff)
    then show ?thesis using True map_bit_set [OF assms p] by (simp add: used_def)
  next
    case False
    then show ?thesis by (auto simp: used_def)
  qed
qed

subsection \<open>Zeroing a block\<close>

lemma bzero_spec:
  fixes s :: "'a fs_scheme"
  assumes "op_inv s" and "\<not> held s bn" and "room 1 1 s"
  obtains s' where "bzero ROOTDEV bn s = Ok () s'" and "blk_run s s' ((fsval s)(bn := replicate BSIZE 0)) {bn}"
proof -
  obtain b t where t: "bread ROOTDEV bn s = Ok b t" "took s t b bn" using op_bread [OF assms(1,2), of 1 0] assms(3) by auto
  have "room 1 0 t" using took_room [OF t(2), of 1 0] assms(3) by simp
  then obtain s1 u where u: "set_data b (replicate BSIZE 0) t = Ok () s1" "log_write b s1 = Ok () u"
      "blk_run t u ((fsval t)(bn := replicate BSIZE 0)) {bn}"
    using op_store [of t b bn "replicate BSIZE 0"] t(2) by (auto simp: took_def)
  obtain w where w: "brelse b u = Ok () w" "blk_run s w ((fsval t)(bn := replicate BSIZE 0)) {bn}"
    using took_brelse [OF t(2) u(3)] .
  then show ?thesis using that [of w] t u by (simp add: bzero_def bind_def took_def)
qed

subsection \<open>Allocation\<close>

definition alloc_effect :: "superblock \<Rightarrow> (uint32 \<Rightarrow> byte list) \<Rightarrow> uint32 \<Rightarrow> uint32 \<Rightarrow> byte list" where
  "alloc_effect g v b = v(BBLOCK b g := set_map_bit (v (BBLOCK b g)) (unat b mod BPB) True, b := replicate BSIZE 0)"

lemma balloc_found:
  fixes s :: "'a fs_scheme"
  assumes inv: "op_inv s" and r: "room 2 1 s" and ok: "map_ok (sb s) (fsval s)" "locks_ok s"
    and n: "n < sb_size (sb s)" "\<not> used (sb s) (fsval s) n"
    and t: "took s t b (BBLOCK n (sb s))"
  obtains s1 t1 t2 s' where "set_data b (set_map_bit (fsval s (BBLOCK n (sb s))) (unat n mod BPB) True) t = Ok () s1"
    and "log_write b s1 = Ok () t1" and "brelse b t1 = Ok () t2" and "bzero ROOTDEV n t2 = Ok () s'"
    and "blk_run s s' (alloc_effect (sb s) (fsval s) n) {BBLOCK n (sb s), n}"
proof -
  let ?m = "BBLOCK n (sb s)" let ?d = "set_map_bit (fsval s ?m) (unat n mod BPB) True"
  have len: "length ?d = BSIZE" using op_length [OF inv] by simp
  have "room 1 0 t" using took_room [OF t, of 2 0] r room_mono [of 2 0 t 1 0] by (simp add: numeral_2_eq_2)
  then obtain s1 t1 where t1: "set_data b ?d t = Ok () s1" "log_write b s1 = Ok () t1" "blk_run t t1 ((fsval t)(?m := ?d)) {?m}"
    using op_store [of t b ?m ?d] t len by (auto simp: took_def)
  obtain t2 where t2: "brelse b t1 = Ok () t2" "blk_run s t2 ((fsval t)(?m := ?d)) {?m}" using took_brelse [OF t t1(3)] .
  have "room 1 1 t2" using room_after [OF inv t2(2), of 1 1 1] r by (simp add: numeral_2_eq_2)
  moreover have "\<not> held t2 n" using blk_runD(3) [OF t2(2)] ok(2) n(2) by (auto simp: locks_ok_def)
  ultimately obtain s' where s': "bzero ROOTDEV n t2 = Ok () s'" "blk_run t2 s' ((fsval t2)(n := replicate BSIZE 0)) {n}"
    using bzero_spec [of t2 n] blk_runD(1) [OF t2(2)] by blast
  have "(fsval t2)(n := replicate BSIZE 0) = alloc_effect (sb s) (fsval s) n"
    using blk_runD(2) [OF t2(2)] t by (simp add: alloc_effect_def took_def)
  then have "blk_run s s' (alloc_effect (sb s) (fsval s) n) ({?m} \<union> {n})" using blk_run_trans [OF t2(2) s'(2)] by simp
  then show ?thesis using that [OF t1(1,2) t2(1) s'(1)] by (simp add: insert_commute)
qed

lemma balloc_from_spec:
  fixes s :: "'a fs_scheme"
  assumes "op_inv s" and "room 2 1 s" and "map_ok (sb s) (fsval s)" "locks_ok s"
    and "\<And>b. b \<in> set bs \<Longrightarrow> b < unat (sb_size (sb s)) \<and> b mod BPB = 0"
  shows "(\<exists>n s'. balloc_from ROOTDEV bs s = Ok n s' \<and> n < sb_size (sb s) \<and> \<not> used (sb s) (fsval s) n \<and>
      blk_run s s' (alloc_effect (sb s) (fsval s) n) {BBLOCK n (sb s), n}) \<or>
    balloc_from ROOTDEV bs s = Panic ''balloc: out of blocks'' \<and>
      (\<forall>n < sb_size (sb s). unat n - unat n mod BPB \<in> set bs \<longrightarrow> used (sb s) (fsval s) n)"
  using assms
proof (induction bs arbitrary: s)
  case (Cons b bs)
  let ?sb = "sb s" let ?m = "BBLOCK (of_nat b) ?sb" let ?d = "fsval s ?m" let ?size = "unat (sb_size ?sb)"
  let ?P = "\<lambda>bi. b + bi < ?size \<and> \<not> map_bit ?d bi"
  have b: "b < ?size" "b mod BPB = 0" using Cons.prems(5) [of b] by simp_all
  have small: "n < 2 ^ 32" if "n < ?size" for n using that unsigned_less [of "sb_size ?sb", where ?'a = nat] by simp
  have blk: "BBLOCK (of_nat (b + bi)) ?sb = ?m" "(b + bi) mod BPB = bi" if "bi < BPB" "b + bi < ?size" for bi
  proof -
    show "(b + bi) mod BPB = bi" by (rule block_offset(2) [OF b(2) that(1)])
    show "BBLOCK (of_nat (b + bi)) ?sb = ?m" using block_offset(1) [OF b(2) that(1)] small [OF that(2)] small [OF b(1)] by (simp add: BBLOCK_eq unat_of_nat del: of_nat_add)
  qed
  have "?m \<in> map_blocks ?sb" using b(1) small [OF b(1)] by (auto simp: map_blocks_def word_less_nat_alt unat_of_nat)
  then have "\<not> held s ?m" using Cons.prems(4) by (auto simp: locks_ok_def)
  then obtain bp t where t: "bread ROOTDEV ?m s = Ok bp t" "took s t bp ?m" using op_bread [OF Cons.prems(1), of ?m 2 0] Cons.prems(2) by auto
  note data = took_data [OF t(2)]
  show ?case
  proof (cases "find ?P [0..<BPB]")
    case (Some bi)
    then have bi: "bi < BPB" "b + bi < ?size" "\<not> map_bit ?d bi" by (auto simp: find_Some_iff)
    let ?n = "of_nat (b + bi) :: uint32"
    have n: "unat ?n = b + bi" using small [OF bi(2)] by (simp add: unat_of_nat del: of_nat_add)
    have free: "?n < sb_size ?sb" "\<not> used ?sb (fsval s) ?n" "BBLOCK ?n ?sb = ?m" "unat ?n mod BPB = bi"
      using bi n blk [OF bi(1,2)] by (simp_all add: word_less_nat_alt used_def del: of_nat_add)
    obtain s1 t1 t2 s' where "set_data bp (set_map_bit ?d bi True) t = Ok () s1" "log_write bp s1 = Ok () t1" "brelse bp t1 = Ok () t2"
        "bzero ROOTDEV ?n t2 = Ok () s'" "blk_run s s' (alloc_effect ?sb (fsval s) ?n) {?m, ?n}"
      using balloc_found [OF Cons.prems(1-4) free(1,2), of t bp] t(2) unfolding free(3,4) by blast
    then have "balloc_from ROOTDEV (b # bs) s = Ok ?n s'" using t(1) data Some by (simp add: bind_def del: of_nat_add)
    then show ?thesis using free \<open>blk_run s s' _ _\<close> by (metis (no_types))
  next
    case None
    obtain w where w: "brelse bp t = Ok () w" "blk_run s w (fsval t) {}"
      using took_brelse [OF t(2) blk_run_refl] t(2) by (auto simp: took_def)
    have eq: "fsval w = fsval s" "sb w = ?sb" "op_inv w" "held w = held s" using blk_runD [OF w(2)] blk_run_fs [OF w(2)] t(2) by (simp_all add: took_def)
    have "room 2 1 w" using room_run [OF Cons.prems(1) w(2), of 0 2 1] Cons.prems(2) by (simp add: numeral_2_eq_2)
    then have IH: "(\<exists>n s'. balloc_from ROOTDEV bs w = Ok n s' \<and> n < sb_size ?sb \<and> \<not> used ?sb (fsval s) n \<and>
        blk_run w s' (alloc_effect ?sb (fsval s) n) {BBLOCK n ?sb, n}) \<or>
      balloc_from ROOTDEV bs w = Panic ''balloc: out of blocks'' \<and> (\<forall>n < sb_size ?sb. unat n - unat n mod BPB \<in> set bs \<longrightarrow> used ?sb (fsval s) n)"
      using Cons.IH [of w] Cons.prems(3-5) eq by (simp add: locks_ok_def)
    have run: "balloc_from ROOTDEV (b # bs) s = balloc_from ROOTDEV bs w" using t(1) data None w(1) by (simp add: bind_def)
    have "used ?sb (fsval s) n" if "n < sb_size ?sb" "unat n - unat n mod BPB = b" for n
    proof -
      let ?bi = "unat n mod BPB"
      have bi: "?bi < BPB" "b + ?bi = unat n" using that(2) by (auto simp: BPB_def BSIZE_def)
      then have "BBLOCK n ?sb = ?m" using blk(1) [of ?bi] that(1) by (simp add: word_less_nat_alt)
      moreover have "map_bit ?d ?bi" using None bi that(1) by (auto simp: find_None_iff word_less_nat_alt)
      ultimately show ?thesis by (simp add: used_def)
    qed
    then show ?thesis using IH blk_run_trans [OF w(2)] unfolding run by fastforce
  qed
qed simp

lemma used_alloc:
  assumes "length (v (BBLOCK b g)) = BSIZE" and "map_ok g v" and "\<not> used g v b" and "c < sb_size g"
  shows "used g (alloc_effect g v b) c = (if c = b then True else used g v c)"
proof -
  have "b \<notin> map_blocks g" using assms(2,3) by (auto simp: map_ok_def)
  then have "BBLOCK c g \<noteq> b" using assms(4) by (auto simp: map_blocks_def)
  then show ?thesis using used_set [of v b g True c, OF assms(1)] by (simp add: used_def alloc_effect_def)
qed

lemma balloc_cases:
  fixes s :: "'a fs_scheme"
  assumes "op_inv s" and "room 2 1 s" and "map_ok (sb s) (fsval s)" "locks_ok s"
  obtains (Full) "balloc ROOTDEV s = Panic ''balloc: out of blocks''" and "\<And>n. n < sb_size (sb s) \<Longrightarrow> used (sb s) (fsval s) n"
    | (Fresh) n s' where "balloc ROOTDEV s = Ok n s'" and "n < sb_size (sb s)" and "\<not> used (sb s) (fsval s) n"
        and "blk_run s s' (alloc_effect (sb s) (fsval s) n) {BBLOCK n (sb s), n}"
proof -
  let ?size = "unat (sb_size (sb s))"
  define bs where "bs = map (\<lambda>i. i * BPB) [0..<(?size + BPB - 1) div BPB]"
  have pos: "BPB > 0" by (simp add: BPB_def BSIZE_def)
  have "i * BPB < ?size" if "i < (?size + BPB - 1) div BPB" for i
    using that pos by (simp add: less_eq_div_iff_mult_less_eq Suc_le_eq [symmetric] algebra_simps)
  then have multiples: "b < ?size \<and> b mod BPB = 0" if "b \<in> set bs" for b using that by (auto simp: bs_def)
  have all: "unat n - unat n mod BPB \<in> set bs" if "n < sb_size (sb s)" for n
  proof -
    have "unat n < ?size" using that by (simp add: word_less_nat_alt)
    then have "(unat n + BPB) div BPB \<le> (?size + BPB - 1) div BPB" by (intro div_le_mono) simp
    moreover have "(unat n + BPB) div BPB = Suc (unat n div BPB)" using pos div_add_self2 [of BPB "unat n"] by linarith
    ultimately have "unat n div BPB < (?size + BPB - 1) div BPB" by linarith
    moreover have "unat n - unat n mod BPB = unat n div BPB * BPB" by (metis minus_mod_eq_div_mult)
    ultimately show ?thesis by (auto simp: bs_def)
  qed
  have run: "balloc ROOTDEV s = balloc_from ROOTDEV bs s" by (simp add: balloc_def bs_def)
  show ?thesis using balloc_from_spec [OF assms multiples] all Full Fresh unfolding run by blast
qed

text \<open>
  C28: \<open>balloc\<close> returns a block of the file system that was free in the map. The block is then in use and zero, the
  state of every other block in the map is unchanged, no other block outside the map changes, and the changed
  blocks are part of the running transaction. It panics exactly when every block is in use.
\<close>

theorem balloc_fresh:
  fixes s :: "'a fs_scheme"
  assumes "op_inv s" and "room 2 1 s" and "map_ok (sb s) (fsval s)" and "locks_ok s"
  shows "if \<forall>n. n < sb_size (sb s) \<longrightarrow> used (sb s) (fsval s) n then balloc ROOTDEV s = Panic ''balloc: out of blocks''
    else \<exists>b s'. balloc ROOTDEV s = Ok b s' \<and> op_inv s' \<and> b < sb_size (sb s) \<and> \<not> used (sb s) (fsval s) b \<and>
      (\<forall>c. c < sb_size (sb s) \<longrightarrow> used (sb s) (fsval s') c = (c = b \<or> used (sb s) (fsval s) c)) \<and>
      fsval s' b = replicate BSIZE 0 \<and> (\<forall>c. c \<noteq> b \<longrightarrow> c \<notin> map_blocks (sb s) \<longrightarrow> fsval s' c = fsval s c) \<and>
      (\<forall>c. fsval s' c \<noteq> fsval s c \<longrightarrow> c \<in> set (logged s')) \<and> sb s' = sb s \<and> itable s' = itable s"
proof (cases rule: balloc_cases [OF assms])
  case (2 b s')
  have len: "length (fsval s (BBLOCK b (sb s))) = BSIZE" by (rule op_length [OF assms(1)])
  have v: "fsval s' = alloc_effect (sb s) (fsval s) b" "op_inv s'" using blk_runD(1,2) [OF 2(4)] by simp_all
  have "BBLOCK b (sb s) \<in> map_blocks (sb s)" using 2(2) by (auto simp: map_blocks_def)
  then have "fsval s' b = replicate BSIZE 0" "c \<noteq> b \<Longrightarrow> c \<notin> map_blocks (sb s) \<Longrightarrow> fsval s' c = fsval s c" for c
    unfolding v(1) by (auto simp: alloc_effect_def)
  moreover have "used (sb s) (fsval s') c = (c = b \<or> used (sb s) (fsval s) c)" if "c < sb_size (sb s)" for c
    unfolding v(1) using used_alloc [of "fsval s" b "sb s" c, OF len assms(3) 2(3) that] by auto
  moreover have "c \<in> set (logged s')" if "fsval s' c \<noteq> fsval s c" for c
    using 2(4) that v(1) by (auto simp: blk_run_def)
  ultimately show ?thesis using 2 v(2) blk_run_fs [OF 2(4)] by auto
qed simp

text \<open>A file system of 1000 blocks with an empty cache: block 45 is the map, where the first 48 blocks are in use. A
  transaction is running. The inode table has an empty file and one of five bytes, in block 46. The process has a page of
  user memory.\<close>

definition demo_sb :: superblock where
  "demo_sb = \<lparr>sb_magic = FSMAGIC, sb_size = 1000, sb_nblocks = 954, sb_ninodes = 200, sb_nlog = 30, sb_logstart = 2,
     sb_inodestart = 32, sb_bmapstart = 45\<rparr>"

definition demo_disk :: "uint32 \<Rightarrow> byte list" where
  "demo_disk n = (if n = 45 then replicate 6 255 @ replicate (BSIZE - 6) 0
     else if n = 46 then [10, 20, 30, 40, 50] @ replicate (BSIZE - 5) 0 else replicate BSIZE 0)"

definition demo_inode :: "uint32 \<Rightarrow> uint32 \<Rightarrow> uint32 list \<Rightarrow> inode" where
  "demo_inode inum sz as = \<lparr>i_dev = ROOTDEV, i_inum = inum, i_ref = 1, i_lock = initsleeplock, i_valid = True, i_type = T_FILE,
     i_major = 0, i_minor = 0, i_nlink = 1, i_size = sz, i_addrs = as\<rparr>"

definition demo_fs :: fs where
  "demo_fs = log.extend (cold_log\<lparr>disk := demo_disk, lg_outstanding := 1, pmem := pmem demo, freelist := freelist demo,
       kend := kend demo, procs := [unused_slot\<lparr>p_state := RUNNING, p_pid := 1, p_pagetable := 0x87ff0000\<rparr>]\<rparr>)
     (fs.fields demo_sb [demo_inode 5 0 (replicate 13 0), demo_inode 6 5 (46 # replicate 12 0)])"

lemmas demo_fs_defs = demo_fs_def log.extend_def fs.fields_def cold_log_def

lemma demo_fs_holder: "holder demo_fs bn = None"
  by (auto simp: holder_def find_None_iff demo_fs_defs is_copy_def free_buf_def ROOTDEV_def)

lemma demo_fs_views: "fsval demo_fs = demo_disk" "refs demo_fs = (\<lambda>_. 0)" "held demo_fs = (\<lambda>_. False)" "logged demo_fs = []"
    "users demo_fs = (\<lambda>_. 0)" "sb demo_fs = demo_sb"
  by (auto simp: fun_eq_iff fsval_def refs_def held_def demo_fs_holder users_def logged_def) (simp_all add: demo_fs_defs)

lemma demo_fs_inv: "op_inv demo_fs"
proof -
  have "is_copy bn (bufs demo_fs ! b) \<longleftrightarrow> False" if "b < NBUF" for b bn
    using that by (auto simp: demo_fs_defs is_copy_def free_buf_def ROOTDEV_def)
  moreover have "buf_ok (disk demo_fs) (bufs demo_fs ! b)" if "b < NBUF" for b
    using that by (simp add: demo_fs_defs buf_ok_def free_buf_def initsleeplock_def)
  moreover have "length (disk demo_fs bn) = BSIZE" for bn by (simp add: demo_fs_defs demo_disk_def BSIZE_def)
  ultimately have "bio_inv demo_fs" unfolding bio_inv_def by (auto simp: demo_fs_defs)
  then show ?thesis using demo_fs_views by (simp add: op_inv_def hdr_ok_def) (simp add: demo_fs_defs LOGSIZE_def MAXOPBLOCKS_def)
qed

lemma demo_fs_room: "k + j \<le> 29 \<Longrightarrow> room k j demo_fs"
  using demo_fs_views(5) by (simp add: room_def) (simp add: demo_fs_defs LOGSIZE_def MAXOPBLOCKS_def NBUF_def)

lemma demo_map: "n < 1000 \<Longrightarrow> used demo_sb demo_disk n = (n < 48)" "n < 1000 \<Longrightarrow> BBLOCK n demo_sb = 45"
proof -
  assume n: "n < (1000 :: uint32)"
  then have un: "unat n < 1000" by (simp add: word_less_nat_alt)
  then have "n div 8192 = 0" by (simp add: word_unat_eq_iff unat_div)
  then show b: "BBLOCK n demo_sb = 45" by (simp add: BBLOCK_def BPB_def BSIZE_def demo_sb_def)
  have "(replicate 6 255 @ replicate (BSIZE - 6) 0) ! (unat n div 8) = (if unat n < 48 then 255 else 0 :: byte)"
    using un by (auto simp: nth_append BSIZE_def)
  moreover have "bit (255 :: byte) (unat n mod 8)"
  proof -
    have "(255 :: byte) = - 1" by simp
    then show ?thesis by (simp only: bit_minus_1_iff) simp
  qed
  ultimately show "used demo_sb demo_disk n = (n < 48)" using b un
    by (simp add: used_def map_bit_def demo_disk_def word_less_nat_alt BPB_def BSIZE_def)
qed

lemma demo_fs_ok: "map_ok (sb demo_fs) (fsval demo_fs)" "locks_ok demo_fs"
proof -
  have "map_blocks demo_sb \<subseteq> {45}" using demo_map(2) by (auto simp: map_blocks_def demo_sb_def)
  then show "map_ok (sb demo_fs) (fsval demo_fs)" using demo_map(1) [of 45] by (auto simp: map_ok_def demo_fs_views)
qed (simp add: locks_ok_def demo_fs_views)

theorem balloc_fresh_witness:
  "\<exists>b s'. balloc ROOTDEV demo_fs = Ok b s' \<and> 48 \<le> b \<and> b < 1000 \<and> used demo_sb (fsval s') b \<and> used demo_sb (fsval s') 47"
proof -
  have size: "sb_size demo_sb = 1000" by (simp add: demo_sb_def)
  have "\<not> used demo_sb demo_disk 100" using demo_map(1) [of 100] by simp
  then obtain b s' where b: "balloc ROOTDEV demo_fs = Ok b s'" "b < 1000" "\<not> used demo_sb demo_disk b"
      "\<forall>c. c < 1000 \<longrightarrow> used demo_sb (fsval s') c = (c = b \<or> used demo_sb demo_disk c)"
    using balloc_fresh [OF demo_fs_inv demo_fs_room demo_fs_ok] unfolding demo_fs_views(1,6) size by (auto split: if_splits)
  then show ?thesis using demo_map(1) [of b] demo_map(1) [of 47] by (auto simp: not_less)
qed

end
