(* ===== verification/Filemap.thy ===== *)
theory Filemap
  imports Blockmap
begin

text \<open>
  The blocks of a file, as a function of the contents of the disk blocks and of the in-memory inode.

  \<open>blk_of\<close> is the block of the disk that holds block \<open>k\<close> of a file, through the direct and the indirect
  addresses; \<open>fbyte\<close> is the byte at a position and \<open>contents\<close> the file as a list of bytes. \<open>file_ok\<close> is the
  invariant of a file system for one file, \<open>others_kept\<close> says what an operation on it leaves of all other data.
\<close>

definition blk_of :: "(uint32 \<Rightarrow> byte list) \<Rightarrow> inode \<Rightarrow> nat \<Rightarrow> uint32" where
  "blk_of v ip k = (if k < NDIRECT then i_addrs ip ! k
     else if i_addrs ip ! NDIRECT = 0 then 0 else get32 (v (i_addrs ip ! NDIRECT)) (4 * (k - NDIRECT)))"

definition fdata :: "(uint32 \<Rightarrow> byte list) \<Rightarrow> inode \<Rightarrow> nat \<Rightarrow> byte list" where
  "fdata v ip k = (if blk_of v ip k = 0 then replicate BSIZE 0 else v (blk_of v ip k))"

definition fbyte :: "(uint32 \<Rightarrow> byte list) \<Rightarrow> inode \<Rightarrow> nat \<Rightarrow> byte" where
  "fbyte v ip p = fdata v ip (p div BSIZE) ! (p mod BSIZE)"

definition contents :: "(uint32 \<Rightarrow> byte list) \<Rightarrow> inode \<Rightarrow> byte list" where
  "contents v ip = map (fbyte v ip) [0..<unat (i_size ip)]"

definition file_blocks :: "(uint32 \<Rightarrow> byte list) \<Rightarrow> inode \<Rightarrow> uint32 set" where
  "file_blocks v ip = insert (i_addrs ip ! NDIRECT) (blk_of v ip ` {..<MAXFILE}) - {0}"

subsection \<open>The invariant\<close>

definition meta :: "superblock \<Rightarrow> uint32 set" where
  "meta g = map_blocks g \<union> (\<lambda>i. IBLOCK i g) ` {i. i < sb_ninodes g}"

definition layout_ok :: "superblock \<Rightarrow> (uint32 \<Rightarrow> byte list) \<Rightarrow> bool" where
  "layout_ok g v \<longleftrightarrow> (\<forall>n. length (v n) = BSIZE) \<and> used g v 0 \<and> 0 < sb_size g \<and> (\<forall>n\<in>meta g. n < sb_size g \<and> used g v n) \<and>
     map_blocks g \<inter> (\<lambda>i. IBLOCK i g) ` {i. i < sb_ninodes g} = {}"

definition file_ok :: "superblock \<Rightarrow> (uint32 \<Rightarrow> byte list) \<Rightarrow> inode \<Rightarrow> bool" where
  "file_ok g v ip \<longleftrightarrow> layout_ok g v \<and> i_dev ip = ROOTDEV \<and> i_inum ip < sb_ninodes g \<and> length (i_addrs ip) = NDIRECT + 1 \<and>
     (\<forall>n\<in>file_blocks v ip. n < sb_size g \<and> used g v n \<and> n \<notin> meta g) \<and>
     inj_on (blk_of v ip) {k. k < MAXFILE \<and> blk_of v ip k \<noteq> 0} \<and>
     (\<forall>k<MAXFILE. blk_of v ip k \<noteq> 0 \<longrightarrow> blk_of v ip k \<noteq> i_addrs ip ! NDIRECT)"

text \<open>The record of an inode on the disk. An operation on a file keeps all other data: the blocks in use and the records of inodes.\<close>

definition disk_inode :: "superblock \<Rightarrow> (uint32 \<Rightarrow> byte list) \<Rightarrow> uint32 \<Rightarrow> dinode" where
  "disk_inode g v j = get_dinode j (v (IBLOCK j g))"

definition others_kept :: "superblock \<Rightarrow> (uint32 \<Rightarrow> byte list) \<Rightarrow> inode \<Rightarrow> (uint32 \<Rightarrow> byte list) \<Rightarrow> inode \<Rightarrow> bool" where
  "others_kept g v ip v' ip' \<longleftrightarrow> (\<forall>n. n < sb_size g \<longrightarrow> used g v n \<longrightarrow> n \<notin> meta g \<longrightarrow> n \<notin> file_blocks v ip \<longrightarrow>
     used g v' n \<and> n \<notin> file_blocks v' ip' \<and> v' n = v n) \<and> i_inum ip' = i_inum ip \<and>
     (\<forall>j. j < sb_ninodes g \<longrightarrow> j \<noteq> i_inum ip \<longrightarrow> disk_inode g v' j = disk_inode g v j)"

text \<open>The file got blocks; what it holds is the same.\<close>

definition file_ext :: "superblock \<Rightarrow> (uint32 \<Rightarrow> byte list) \<Rightarrow> inode \<Rightarrow> (uint32 \<Rightarrow> byte list) \<Rightarrow> inode \<Rightarrow> bool" where
  "file_ext g v ip v' ip' \<longleftrightarrow> file_ok g v' ip' \<and> ip' = ip\<lparr>i_addrs := i_addrs ip'\<rparr> \<and> others_kept g v ip v' ip' \<and>
     (\<forall>k<MAXFILE. fdata v' ip' k = fdata v ip k) \<and> (\<forall>k<MAXFILE. blk_of v ip k \<noteq> 0 \<longrightarrow> blk_of v' ip' k = blk_of v ip k)"

lemma file_ok_layout: "file_ok g v ip \<Longrightarrow> layout_ok g v" "file_ok g v ip \<Longrightarrow> map_ok g v"
  by (auto simp: file_ok_def layout_ok_def map_ok_def meta_def)

lemma file_okD:
  assumes "file_ok g v ip" and "n \<in> file_blocks v ip"
  shows "n < sb_size g" and "used g v n" and "n \<notin> meta g" and "n \<noteq> 0"
  using assms by (auto simp: file_ok_def file_blocks_def)

lemma blk_in_file: "k < MAXFILE \<Longrightarrow> blk_of v ip k \<noteq> 0 \<Longrightarrow> blk_of v ip k \<in> file_blocks v ip"
  and ind_in_file: "i_addrs ip ! NDIRECT \<noteq> 0 \<Longrightarrow> i_addrs ip ! NDIRECT \<in> file_blocks v ip"
  by (auto simp: file_blocks_def)

lemma others_keptI:
  assumes "\<And>n. n < sb_size g \<Longrightarrow> used g v n \<Longrightarrow> n \<notin> meta g \<Longrightarrow> n \<notin> file_blocks v ip \<Longrightarrow>
      used g v' n \<and> n \<notin> file_blocks v' ip' \<and> v' n = v n"
    and "i_inum ip' = i_inum ip" and "\<And>j. j < sb_ninodes g \<Longrightarrow> v' (IBLOCK j g) = v (IBLOCK j g)"
  shows "others_kept g v ip v' ip'"
  using assms by (simp add: others_kept_def disk_inode_def)

lemma not_meta: "m \<notin> meta g \<Longrightarrow> m \<notin> map_blocks g"
  by (simp add: meta_def)

lemma inode_block:
  assumes "layout_ok g v" and "j < sb_ninodes g"
  shows "IBLOCK j g \<in> meta g" and "IBLOCK j g \<notin> map_blocks g"
  using assms by (auto simp: layout_ok_def meta_def)

lemma others_kept_trans: "others_kept g v ip v' ip' \<Longrightarrow> others_kept g v' ip' v'' ip'' \<Longrightarrow> others_kept g v ip v'' ip''"
  by (simp add: others_kept_def)

lemma file_ext_refl: "file_ok g v ip \<Longrightarrow> file_ext g v ip v ip"
  by (simp add: file_ext_def others_kept_def)

lemma file_ext_trans:
  assumes "file_ext g v ip v' ip'" and "file_ext g v' ip' v'' ip''"
  shows "file_ext g v ip v'' ip''"
proof -
  have "ip'' = ip\<lparr>i_addrs := i_addrs ip''\<rparr>" using assms by (cases ip; cases ip'; cases ip'') (simp add: file_ext_def)
  moreover have "others_kept g v ip v'' ip''" using assms others_kept_trans unfolding file_ext_def by blast
  ultimately show ?thesis using assms by (simp add: file_ext_def)
qed

lemma used_upd: "n \<notin> meta g \<Longrightarrow> m < sb_size g \<Longrightarrow> used g (v(n := d)) m = used g v m"
  by (auto simp: used_def meta_def map_blocks_def)

lemma fdata_length: "layout_ok g v \<Longrightarrow> length (fdata v ip k) = BSIZE"
  by (simp add: fdata_def layout_ok_def)

subsection \<open>Adding blocks\<close>

lemma alloc_view:
  assumes "layout_ok g v" and "n < sb_size g" and "\<not> used g v n"
  shows "layout_ok g (alloc_effect g v n)" and "n \<notin> meta g" and "n \<noteq> 0" and "BBLOCK n g \<in> meta g"
    and "alloc_effect g v n n = replicate BSIZE 0" and "\<And>m. m \<notin> map_blocks g \<Longrightarrow> m \<noteq> n \<Longrightarrow> alloc_effect g v n m = v m"
    and "\<And>m. m < sb_size g \<Longrightarrow> used g (alloc_effect g v n) m \<longleftrightarrow> m = n \<or> used g v m"
proof -
  show nm: "n \<notin> meta g" "n \<noteq> 0" using assms by (auto simp: layout_ok_def)
  show "BBLOCK n g \<in> meta g" using assms(2) by (auto simp: meta_def map_blocks_def)
  show "alloc_effect g v n n = replicate BSIZE 0" by (simp add: alloc_effect_def)
  show other: "alloc_effect g v n m = v m" if "m \<notin> map_blocks g" "m \<noteq> n" for m
    using that assms(2) by (auto simp: alloc_effect_def map_blocks_def)
  have "map_ok g v" "length (v (BBLOCK n g)) = BSIZE" using assms(1) by (auto simp: layout_ok_def map_ok_def meta_def)
  then show u: "used g (alloc_effect g v n) m \<longleftrightarrow> m = n \<or> used g v m" if "m < sb_size g" for m
    using used_alloc [of v n g m] assms(3) that by auto
  have "length (alloc_effect g v n m) = BSIZE" for m using assms(1) by (simp add: alloc_effect_def layout_ok_def)
  then show "layout_ok g (alloc_effect g v n)" using assms u by (auto simp: layout_ok_def)
qed

text \<open>A free block becomes block \<open>k\<close> of the file.\<close>

lemma file_ext_block:
  assumes ok: "file_ok g v ip" and n: "n < sb_size g" "\<not> used g v n" and k: "blk_of v ip k = 0" "k < MAXFILE"
    and lay: "layout_ok g v'" and zero: "v' n = replicate BSIZE 0"
    and used: "\<And>m. m < sb_size g \<Longrightarrow> used g v' m \<longleftrightarrow> m = n \<or> used g v m"
    and same: "\<And>m. m \<notin> map_blocks g \<Longrightarrow> m \<noteq> n \<Longrightarrow> m \<noteq> i_addrs ip ! NDIRECT \<or> m = 0 \<Longrightarrow> v' m = v m"
    and ip': "ip' = ip\<lparr>i_addrs := i_addrs ip'\<rparr>" "length (i_addrs ip') = NDIRECT + 1" "i_addrs ip' ! NDIRECT = i_addrs ip ! NDIRECT"
    and blk: "\<And>j. j < MAXFILE \<Longrightarrow> blk_of v' ip' j = (if j = k then n else blk_of v ip j)"
  shows "file_ext g v ip v' ip'"
proof -
  have n': "n \<notin> meta g" "n \<noteq> 0" using alloc_view(2,3) [OF file_ok_layout(1) [OF ok] n] by simp_all
  have old: "m \<in> file_blocks v ip \<Longrightarrow> m \<noteq> n" for m using file_okD(2) [OF ok] n(2) by blast
  have fb: "file_blocks v' ip' = insert n (file_blocks v ip)"
    using n'(2) k ip'(3) blk by (auto simp: file_blocks_def image_iff split: if_splits)
  have "inj_on (blk_of v' ip') {j. j < MAXFILE \<and> blk_of v' ip' j \<noteq> 0}"
  proof (rule inj_onI)
    fix i j assume ij: "i \<in> {j. j < MAXFILE \<and> blk_of v' ip' j \<noteq> 0}" "j \<in> {j. j < MAXFILE \<and> blk_of v' ip' j \<noteq> 0}"
      and eq: "blk_of v' ip' i = blk_of v' ip' j"
    have "blk_of v ip i \<noteq> n" if "i < MAXFILE" for i using old blk_in_file [OF that] n'(2) by metis
    then show "i = j" using ij eq blk ok by (auto simp: file_ok_def inj_on_def split: if_splits)
  qed
  moreover have "blk_of v' ip' j \<noteq> i_addrs ip' ! NDIRECT" if "j < MAXFILE" "blk_of v' ip' j \<noteq> 0" for j
  proof (cases "j = k")
    case True
    have "i_addrs ip ! NDIRECT \<noteq> n" using old ind_in_file [of ip v] n'(2) by metis
    then show ?thesis using True blk [OF that(1)] ip'(3) by simp
  next
    case False
    then show ?thesis using that blk [OF that(1)] ip'(3) ok by (auto simp: file_ok_def)
  qed
  moreover have id: "i_dev ip' = i_dev ip" "i_inum ip' = i_inum ip" by (subst ip'(1), simp)+
  ultimately have "file_ok g v' ip'" using ok lay ip'(2) fb n n' used by (auto simp: file_ok_def)
  moreover have "fdata v' ip' j = fdata v ip j" if j: "j < MAXFILE" for j
  proof (cases "j = k \<or> blk_of v ip j = 0")
    case False
    then have b: "blk_of v ip j \<in> file_blocks v ip" using blk_in_file [OF j] by blast
    have "blk_of v ip j \<noteq> i_addrs ip ! NDIRECT" using ok j False by (auto simp: file_ok_def)
    then show ?thesis using False blk [OF j] same [OF not_meta [OF file_okD(3) [OF ok b]] old [OF b]] by (simp add: fdata_def)
  qed (use blk [OF j] k zero n'(2) in \<open>auto simp: fdata_def\<close>)
  moreover have "used g v' m \<and> m \<notin> file_blocks v' ip' \<and> v' m = v m"
    if "m < sb_size g" "used g v m" "m \<notin> meta g" "m \<notin> file_blocks v ip" for m
  proof -
    have "m \<noteq> n" "m \<noteq> i_addrs ip ! NDIRECT \<or> m = 0" using that(2,4) n(2) ind_in_file [of ip v] by auto
    then show ?thesis using that used same not_meta fb by auto
  qed
  moreover have "v' (IBLOCK j g) = v (IBLOCK j g)" if "j < sb_ninodes g" for j
  proof (rule same)
    note m = inode_block [OF file_ok_layout(1) [OF ok] that]
    show "IBLOCK j g \<notin> map_blocks g" "IBLOCK j g \<noteq> n" using m n'(1) by auto
    show "IBLOCK j g \<noteq> i_addrs ip ! NDIRECT \<or> IBLOCK j g = 0" using m(1) file_okD(3) [OF ok ind_in_file [of ip v]] by metis
  qed
  ultimately have "others_kept g v ip v' ip'" using id(2) by (intro others_keptI) simp_all
  then show ?thesis using \<open>file_ok g v' ip'\<close> \<open>\<And>j. j < MAXFILE \<Longrightarrow> fdata v' ip' j = _\<close> ip'(1) blk k(1)
    by (auto simp: file_ext_def)
qed

lemma blk_of_same_ind:
  assumes "i_addrs ip' ! NDIRECT = i_addrs ip ! NDIRECT" and "i_addrs ip ! NDIRECT \<noteq> 0 \<Longrightarrow> v' (i_addrs ip ! NDIRECT) = v (i_addrs ip ! NDIRECT)"
    and "\<not> k < NDIRECT"
  shows "blk_of v' ip' k = blk_of v ip k"
  using assms by (simp add: blk_of_def)

lemma file_ext_direct:
  assumes ok: "file_ok g v ip" and n: "n < sb_size g" "\<not> used g v n" and k: "k < NDIRECT" "i_addrs ip ! k = 0"
  shows "file_ext g v ip (alloc_effect g v n) (ip\<lparr>i_addrs := (i_addrs ip)[k := n]\<rparr>)" (is "file_ext g v ip ?v ?ip")
    and "blk_of (alloc_effect g v n) (ip\<lparr>i_addrs := (i_addrs ip)[k := n]\<rparr>) k = n"
    and "\<And>j. blk_of (alloc_effect g v n) (ip\<lparr>i_addrs := (i_addrs ip)[k := n]\<rparr>) j = (if j = k then n else blk_of v ip j)"
proof -
  note a = alloc_view [OF file_ok_layout(1) [OF ok] n]
  have len: "length (i_addrs ip) = NDIRECT + 1" using ok by (simp add: file_ok_def)
  have "?v (i_addrs ip ! NDIRECT) = v (i_addrs ip ! NDIRECT)" if "i_addrs ip ! NDIRECT \<noteq> 0"
    using file_okD(2,3) [OF ok ind_in_file [OF that]] n(2) by (intro a(6) not_meta) auto
  then show blk: "blk_of ?v ?ip j = (if j = k then n else blk_of v ip j)" for j
    using k len blk_of_same_ind [of ?ip ip ?v v j] by (auto simp: blk_of_def)
  then show "blk_of ?v ?ip k = n" by simp
  have "k < MAXFILE" "blk_of v ip k = 0" using k by (simp_all add: MAXFILE_def blk_of_def)
  then show "file_ext g v ip ?v ?ip" using a(1,5-7) k len blk by (intro file_ext_block [OF ok n]) auto
qed

lemma slice_replicate: "off + n \<le> m \<Longrightarrow> slice off n (replicate m x) = replicate n x"
  by (simp add: slice_def)

lemma get32_zero: "off + 4 \<le> BSIZE \<Longrightarrow> get32 (replicate BSIZE 0) off = 0"
  by (simp add: get32_def slice_replicate numeral_eq_Suc)

lemma file_ext_indirect:
  assumes ok: "file_ok g v ip" and n: "n < sb_size g" "\<not> used g v n" and z: "i_addrs ip ! NDIRECT = 0"
  shows "file_ext g v ip (alloc_effect g v n) (ip\<lparr>i_addrs := (i_addrs ip)[NDIRECT := n]\<rparr>)" (is "file_ext g v ip ?v ?ip")
    and "\<And>j. j < MAXFILE \<Longrightarrow> blk_of (alloc_effect g v n) (ip\<lparr>i_addrs := (i_addrs ip)[NDIRECT := n]\<rparr>) j = blk_of v ip j"
proof -
  note a = alloc_view [OF file_ok_layout(1) [OF ok] n]
  have len: "length (i_addrs ip) = NDIRECT + 1" using ok by (simp add: file_ok_def)
  show blk: "blk_of ?v ?ip j = blk_of v ip j" if "j < MAXFILE" for j
    using that len z a(3,5) get32_zero [of "4 * (j - NDIRECT)"] by (auto simp: blk_of_def MAXFILE_def NINDIRECT_def BSIZE_def)
  have fb: "file_blocks ?v ?ip = insert n (file_blocks v ip)" using blk z len a(3) by (auto simp: file_blocks_def image_iff)
  have old: "m \<in> file_blocks v ip \<Longrightarrow> m \<noteq> n" for m using file_okD(2) [OF ok] n(2) by blast
  have "inj_on (blk_of ?v ?ip) {k. k < MAXFILE \<and> blk_of ?v ?ip k \<noteq> 0}"
    using ok blk by (auto simp: file_ok_def inj_on_def)
  moreover have "blk_of ?v ?ip j \<noteq> n" if "j < MAXFILE" "blk_of ?v ?ip j \<noteq> 0" for j
    using old blk_in_file [OF that(1), of v ip] that blk [OF that(1)] by auto
  ultimately have fok: "file_ok g ?v ?ip" using ok a(1-3,7) fb n len by (auto simp: file_ok_def)
  have keep: "?v m = v m" if "m \<notin> meta g" "m \<noteq> n" for m using a(6) not_meta that by blast
  have fd: "fdata ?v ?ip j = fdata v ip j" if "j < MAXFILE" for j
    using keep file_okD(3) [OF ok blk_in_file [OF that]] old blk_in_file [OF that, of v ip] blk [OF that] by (simp add: fdata_def)
  have "?v (IBLOCK j g) = v (IBLOCK j g)" if "j < sb_ninodes g" for j
    using inode_block [OF file_ok_layout(1) [OF ok] that] a(2) by (intro a(6)) auto
  then have "others_kept g v ip ?v ?ip" using fb a(7) keep n(2) by (intro others_keptI) auto
  then show "file_ext g v ip ?v ?ip" using fok fd blk by (simp add: file_ext_def)
qed

lemma get32_put32: "4 * i + 4 \<le> length d \<Longrightarrow> 4 * j + 4 \<le> length d \<Longrightarrow> get32 (put32 d (4 * i) x) (4 * j) = (if j = i then x else get32 d (4 * j))"
proof (cases "j = i")
  case False
  then have "4 * i + 4 \<le> 4 * j \<or> 4 * j + 4 \<le> 4 * i" by linarith
  then show "4 * i + 4 \<le> length d \<Longrightarrow> 4 * j + 4 \<le> length d \<Longrightarrow> ?thesis" using False get_put32_other by simp
qed simp

lemma file_ext_entry:
  assumes ok: "file_ok g v ip" and n: "n < sb_size g" "\<not> used g v n" and k: "\<not> k < NDIRECT" "k < MAXFILE"
    and ind: "i_addrs ip ! NDIRECT \<noteq> 0" and z: "blk_of v ip k = 0"
  defines "v' \<equiv> (alloc_effect g v n)(i_addrs ip ! NDIRECT := put32 (v (i_addrs ip ! NDIRECT)) (4 * (k - NDIRECT)) n)"
  shows "file_ext g v ip v' ip" and "blk_of v' ip k = n" and "\<And>j. j < MAXFILE \<Longrightarrow> blk_of v' ip j = (if j = k then n else blk_of v ip j)"
proof -
  let ?ind = "i_addrs ip ! NDIRECT"
  note a = alloc_view [OF file_ok_layout(1) [OF ok] n] and i = file_okD [OF ok ind_in_file [OF ind]]
  have lens: "length (v ?ind) = BSIZE" "4 * (k - NDIRECT) + 4 \<le> BSIZE" using file_ok_layout(1) [OF ok] k
    by (auto simp: layout_ok_def MAXFILE_def NINDIRECT_def BSIZE_def)
  have ni: "?ind \<noteq> n" using i(2) n(2) by auto
  show blk: "blk_of v' ip j = (if j = k then n else blk_of v ip j)" if "j < MAXFILE" for j
  proof (cases "j < NDIRECT")
    case False
    then have "4 * (j - NDIRECT) + 4 \<le> BSIZE" using that by (auto simp: MAXFILE_def NINDIRECT_def BSIZE_def)
    then show ?thesis using False k ind lens get32_put32 [of "k - NDIRECT" "v ?ind" "j - NDIRECT" n]
      by (auto simp: blk_of_def v'_def)
  qed (use k in \<open>auto simp: blk_of_def\<close>)
  then show "blk_of v' ip k = n" using k(2) by simp
  have "used g v' m = used g (alloc_effect g v n) m" if "m < sb_size g" for m
    unfolding v'_def by (rule used_upd [OF i(3) that])
  moreover have "length (v' m) = BSIZE" for m using a(1) lens by (simp add: layout_ok_def v'_def)
  ultimately have "layout_ok g v'" using a(1) by (auto simp: layout_ok_def)
  then show "file_ext g v ip v' ip"
    using a(5-7) ni blk ok \<open>\<And>m. m < sb_size g \<Longrightarrow> used g v' m = _\<close> ind
    by (intro file_ext_block [OF ok n z k(2)]) (auto simp: v'_def file_ok_def)
qed

subsection \<open>Changing the data\<close>

text \<open>Block \<open>k\<close> of the file now holds \<open>d\<close>.\<close>

lemma file_write_block:
  assumes ok: "file_ok g v ip" and k: "k < MAXFILE" "blk_of v ip k \<noteq> 0" and d: "length d = BSIZE"
  defines "v' \<equiv> v(blk_of v ip k := d)"
  shows "file_ok g v' ip" and "others_kept g v ip v' ip" and "\<And>j. j < MAXFILE \<Longrightarrow> blk_of v' ip j = blk_of v ip j"
    and "\<And>j. j < MAXFILE \<Longrightarrow> fdata v' ip j = (if j = k then d else fdata v ip j)"
proof -
  note b = file_okD [OF ok blk_in_file [OF k]]
  have "blk_of v ip k \<noteq> i_addrs ip ! NDIRECT" using ok k by (auto simp: file_ok_def)
  then show blk: "blk_of v' ip j = blk_of v ip j" if "j < MAXFILE" for j by (simp add: blk_of_def v'_def)
  then have fb: "file_blocks v' ip = file_blocks v ip" by (auto simp: file_blocks_def)
  have used: "used g v' m = used g v m" if "m < sb_size g" for m
    unfolding v'_def by (rule used_upd [OF b(3) that])
  have "layout_ok g v'" using ok d used by (auto simp: file_ok_def layout_ok_def v'_def)
  moreover have "inj_on (blk_of v' ip) {k. k < MAXFILE \<and> blk_of v' ip k \<noteq> 0}" using ok blk by (auto simp: file_ok_def inj_on_def)
  ultimately show "file_ok g v' ip" using ok blk fb used by (auto simp: file_ok_def)
  have "v' (IBLOCK j g) = v (IBLOCK j g)" if "j < sb_ninodes g" for j
    using inode_block(1) [OF file_ok_layout(1) [OF ok] that] b(3) by (auto simp: v'_def)
  then show "others_kept g v ip v' ip" using used fb blk_in_file [OF k] by (intro others_keptI) (auto simp: v'_def)
  show "fdata v' ip j = (if j = k then d else fdata v ip j)" if "j < MAXFILE" for j
  proof (cases "j = k")
    case False
    then have "blk_of v ip j \<noteq> blk_of v ip k \<or> blk_of v ip j = 0" using ok k that by (auto simp: file_ok_def inj_on_def)
    then show ?thesis using False blk [OF that] k(2) by (auto simp: fdata_def v'_def)
  qed (use blk [OF that] k in \<open>simp add: fdata_def v'_def\<close>)
qed

end
