(* ===== verification/Bmap.thy ===== *)
theory Bmap
  imports Filemap
begin

text \<open>
  \<open>bmap\<close> finds the disk block of a block of a file and adds one where there is none, without changing what the
  file holds. \<open>ind_cost\<close> counts the blocks it may add to the transaction for the indirect block, \<open>spare\<close> the free
  blocks of the disk that are left for data.
\<close>

subsection \<open>Steps of an operation on files\<close>

definition fs_step :: "'a fs_scheme \<Rightarrow> 'a fs_scheme \<Rightarrow> bool" where
  "fs_step s s' \<longleftrightarrow> (\<exists>D. blk_run (s\<lparr>itable := itable s'\<rparr>) s' (fsval s') D)"

lemma fs_stepD:
  fixes s s' :: "'a fs_scheme"
  assumes "fs_step s s'"
  shows "op_inv s'" and "held s' = held s" and "users s' = users s" and "sb s' = sb s" and "fs.more s' = fs.more s"
    and "set (logged s) \<subseteq> set (logged s')" and "\<And>n. fsval s' n \<noteq> fsval s n \<Longrightarrow> n \<in> set (logged s')"
    and "pmem s' = pmem s" and "cur s' = cur s" and "only_woken s s'" and "disk s' = disk s" and "wrote s' = wrote s"
    and "\<And>c n. mine s c n \<Longrightarrow> mine s' c n" and "freelist s' = freelist s" and "kend s' = kend s"
proof -
  obtain D where D: "blk_run (s\<lparr>itable := itable s'\<rparr>) s' (fsval s') D" using assms by (auto simp: fs_step_def)
  note b = blk_runD [OF D] and f = op_frameD [OF blk_runD(5) [OF D]] and g = blk_run_fs [OF D]
  show "op_inv s'" "held s' = held s" "users s' = users s" "sb s' = sb s" "fs.more s' = fs.more s" "pmem s' = pmem s"
      "cur s' = cur s" "disk s' = disk s" "wrote s' = wrote s" "freelist s' = freelist s" "kend s' = kend s"
    using b f g by simp_all
  show "set (logged s) \<subseteq> set (logged s')" using b(7) by auto
  show "n \<in> set (logged s')" if "fsval s' n \<noteq> fsval s n" for n using D that by (auto simp: blk_run_def)
  show "only_woken s s'" using b(5) by (simp add: op_frame_def only_woken_def)
  show "mine s' c n" if "mine s c n" for c n using b(6) that by simp
qed

lemma fs_step_refl: "op_inv s \<Longrightarrow> fs_step s s"
  using blk_run_refl [of s "{}"] by (auto simp: fs_step_def)

lemma fs_step_run: "blk_run s s' v D \<Longrightarrow> fs_step s s'"
  using blk_run_fs(2) [of s s' v D] blk_runD(2) [of s s' v D] by (auto simp: fs_step_def)

lemma fs_step_upd: "op_inv s \<Longrightarrow> fs_step s (s\<lparr>itable := T\<rparr>)"
  using blk_run_refl [of "s\<lparr>itable := T\<rparr>" "{}"] by (auto simp: fs_step_def)

lemma fs_step_trans:
  assumes "fs_step s t" and "fs_step t u"
  shows "fs_step s u"
proof -
  obtain D where D: "blk_run (s\<lparr>itable := itable t\<rparr>) t (fsval t) D" using assms(1) by (auto simp: fs_step_def)
  obtain D' where D': "blk_run (t\<lparr>itable := itable u\<rparr>) u (fsval u) D'" using assms(2) by (auto simp: fs_step_def)
  have "blk_run (s\<lparr>itable := itable u\<rparr>) (t\<lparr>itable := itable u\<rparr>) (fsval t) D" using blk_run_itable [OF D, of "itable u"] by simp
  then show ?thesis using blk_run_trans [OF _ D'] by (auto simp: fs_step_def)
qed

lemma upd_inode_eval: "upd_inode i f s = Ok () (s\<lparr>itable := (itable s)[i := f (itable s ! i)]\<rparr>)"
  by (simp add: upd_inode_def)

definition file_at :: "'a fs_scheme \<Rightarrow> nat \<Rightarrow> bool" where
  "file_at s i \<longleftrightarrow> op_inv s \<and> i < length (itable s) \<and> file_ok (sb s) (fsval s) (itable s ! i) \<and> held s = (\<lambda>_. False)"

lemma file_at_step:
  assumes "file_at s i" and "fs_step s s'" and "itable s' = (itable s)[i := ip]" and "file_ok (sb s) (fsval s') ip"
  shows "file_at s' i"
  using assms fs_stepD(1,2,4) [OF assms(2)] by (simp add: file_at_def)

subsection \<open>Free blocks\<close>

definition nfree :: "superblock \<Rightarrow> (uint32 \<Rightarrow> byte list) \<Rightarrow> nat" where
  "nfree g v = card {n. n < sb_size g \<and> \<not> used g v n}"

definition spare :: "superblock \<Rightarrow> (uint32 \<Rightarrow> byte list) \<Rightarrow> inode \<Rightarrow> nat" where
  "spare g v ip = nfree g v - of_bool (i_addrs ip ! NDIRECT = 0)"

lemma nfree_cong: "(\<And>n. n < sb_size g \<Longrightarrow> used g v' n = used g v n) \<Longrightarrow> nfree g v' = nfree g v"
  unfolding nfree_def by (rule arg_cong [where f = card]) auto

lemma nfree_alloc:
  assumes "layout_ok g v" and "n < sb_size g" and "\<not> used g v n"
  shows "Suc (nfree g (alloc_effect g v n)) = nfree g v"
proof -
  have "{m. m < sb_size g \<and> \<not> used g (alloc_effect g v n) m} = {m. m < sb_size g \<and> \<not> used g v m} - {n}"
    using alloc_view(7) [OF assms] by auto
  then show ?thesis unfolding nfree_def using assms(2,3) by (simp only:) (rule card_Suc_Diff1, simp_all)
qed

lemma nfree_pos: "0 < nfree g v \<longleftrightarrow> (\<exists>n. n < sb_size g \<and> \<not> used g v n)"
  by (auto simp: nfree_def card_gt_0_iff)

subsection \<open>Adding a block\<close>

text \<open>The operation left inode \<open>i\<close> as \<open>ip\<close>, with more blocks and the same contents.\<close>

definition grew :: "'a fs_scheme \<Rightarrow> nat \<Rightarrow> inode \<Rightarrow> 'a fs_scheme \<Rightarrow> bool" where
  "grew s i ip s' \<longleftrightarrow> itable s' = (itable s)[i := ip] \<and> fs_step s s' \<and> file_ext (sb s) (fsval s) (itable s ! i) (fsval s') ip"

lemma grew_at: "file_at s i \<Longrightarrow> grew s i ip s' \<Longrightarrow> file_at s' i \<and> itable s' ! i = ip \<and> sb s' = sb s"
  using file_at_step [of s i s' ip] fs_stepD(4) [of s s'] by (auto simp: grew_def file_ext_def file_at_def)

lemma grew_refl: "file_at s i \<Longrightarrow> grew s i (itable s ! i) s"
  by (simp add: grew_def file_at_def fs_step_refl file_ext_refl)

lemma grew_trans:
  assumes "file_at s i" and "grew s i ip t" and "grew t i ip' u"
  shows "grew s i ip' u"
  using assms grew_at [OF assms(1,2)] fs_step_trans [of s t u] file_ext_trans [of "sb s" "fsval s" "itable s ! i" "fsval t" ip "fsval u" ip']
  by (simp add: grew_def)

lemma grew_run:
  assumes "file_at s i" and "blk_run s s' v D" and "file_ext (sb s) (fsval s) (itable s ! i) v (itable s ! i)"
  shows "grew s i (itable s ! i) s'"
  using assms blk_run_fs(2) [OF assms(2)] blk_runD(2) [OF assms(2)] fs_step_run [OF assms(2)] by (simp add: grew_def)

definition ind_cost :: "'a fs_scheme \<Rightarrow> inode \<Rightarrow> nat" where
  "ind_cost s ip = (if i_addrs ip ! NDIRECT = 0 then 2 else if i_addrs ip ! NDIRECT \<in> set (logged s) then 0 else 1)"

lemma card_two: "card {a, b} \<le> 2"
  by (cases "a = b") simp_all

lemma balloc_file:
  fixes s :: "'a fs_scheme"
  assumes inv: "op_inv s" and ok: "file_ok (sb s) (fsval s) ip" "locks_ok s" and r: "room (2 + m) (Suc j) s" and f: "0 < nfree (sb s) (fsval s)"
  obtains n s' where "balloc ROOTDEV s = Ok n s'" and "n < sb_size (sb s)" and "\<not> used (sb s) (fsval s) n"
    and "blk_run s s' (alloc_effect (sb s) (fsval s) n) {BBLOCK n (sb s), n}" and "room m (Suc j) s'"
proof -
  have r2: "room 2 1 s" by (rule room_mono [OF r]) simp_all
  show ?thesis
  proof (cases rule: balloc_cases [OF inv r2 file_ok_layout(2) [OF ok(1)] ok(2)])
    case 1
    then show ?thesis using f nfree_pos by blast
  next
    case (2 n s')
    then show ?thesis using that room_after [OF inv 2(4) _ card_two r] by simp
  qed
qed

lemma alloc_addr:
  fixes s :: "'a fs_scheme"
  assumes at: "file_at s i" and r: "room (2 + m) 2 s" and f: "0 < nfree (sb s) (fsval s)"
    and ext: "\<And>n. n < sb_size (sb s) \<Longrightarrow> \<not> used (sb s) (fsval s) n \<Longrightarrow> file_ext (sb s) (fsval s) (itable s ! i)
      (alloc_effect (sb s) (fsval s) n) ((itable s ! i)\<lparr>i_addrs := (i_addrs (itable s ! i))[x := n]\<rparr>)"
  obtains n s' where "bind (balloc (i_dev (itable s ! i))) (\<lambda>addr.
         bind (upd_inode i (\<lambda>ip. ip\<lparr>i_addrs := (i_addrs ip)[x := addr]\<rparr>)) (\<lambda>_. ret addr)) s = Ok n s'"
    and "grew s i ((itable s ! i)\<lparr>i_addrs := (i_addrs (itable s ! i))[x := n]\<rparr>) s'" and "n \<noteq> 0" and "n \<in> set (logged s')"
    and "set (logged s) \<subseteq> set (logged s')" and "fsval s' n = replicate BSIZE 0" and "room m 2 s'"
    and "Suc (nfree (sb s) (fsval s')) = nfree (sb s) (fsval s)"
    and "n < sb_size (sb s)" and "\<not> used (sb s) (fsval s) n" and "fsval s' = alloc_effect (sb s) (fsval s) n"
proof -
  let ?ip = "itable s ! i" let ?g = "sb s" let ?v = "fsval s"
  have inv: "op_inv s" "file_ok ?g ?v ?ip" and i: "i < length (itable s)" and locks: "locks_ok s"
    using at by (auto simp: file_at_def locks_ok_def)
  have "room (2 + m) (Suc 1) s" using r by (simp add: numeral_2_eq_2)
  then obtain n s1 where n: "balloc ROOTDEV s = Ok n s1" "n < sb_size ?g" "\<not> used ?g ?v n"
      "blk_run s s1 (alloc_effect ?g ?v n) {BBLOCK n ?g, n}" "room m (Suc 1) s1"
    using balloc_file [OF inv locks _ f] by blast
  define ip where "ip = ?ip\<lparr>i_addrs := (i_addrs ?ip)[x := n]\<rparr>"
  define s' where "s' = s1\<lparr>itable := (itable s)[i := ip]\<rparr>"
  have v: "fsval s' = alloc_effect ?g ?v n" and l: "set (logged s') = set (logged s) \<union> {BBLOCK n ?g, n}"
    using blk_runD(2,7) [OF n(4)] by (simp_all add: s'_def)
  have "fs_step s s'" unfolding s'_def
    using fs_step_trans [OF fs_step_run [OF n(4)] fs_step_upd] blk_runD(1) [OF n(4)] by blast
  then have "grew s i ip s'" using ext [OF n(2,3)] unfolding v [symmetric] ip_def [symmetric] by (simp add: grew_def s'_def)
  moreover have "bind (balloc (i_dev ?ip)) (\<lambda>addr. bind (upd_inode i (\<lambda>ip. ip\<lparr>i_addrs := (i_addrs ip)[x := addr]\<rparr>)) (\<lambda>_. ret addr)) s
      = Ok n s'"
    using n(1) blk_run_fs(2) [OF n(4)] inv(2) by (simp add: bind_def upd_inode_eval s'_def ip_def file_ok_def)
  moreover note a = alloc_view [OF file_ok_layout(1) [OF inv(2)] n(2,3)] nfree_alloc [OF file_ok_layout(1) [OF inv(2)] n(2,3)]
  moreover have "room m 2 s'" using n(5) by (simp add: s'_def numeral_2_eq_2)
  moreover have "set (logged s) \<subseteq> set (logged s')" "n \<in> set (logged s')" using l by auto
  ultimately show ?thesis using that [of n s'] v n(2,3) by (simp add: ip_def)
qed

lemma unat_index: "k < MAXFILE \<Longrightarrow> unat (of_nat k :: uint32) = k"
  by (simp add: unat_of_nat MAXFILE_def NDIRECT_def NINDIRECT_def BSIZE_def)

lemma unat_index_ind:
  assumes "k < MAXFILE" and "\<not> k < NDIRECT"
  shows "unat (of_nat k - of_nat NDIRECT :: uint32) = k - NDIRECT"
proof -
  have "(of_nat NDIRECT :: uint32) \<le> of_nat k" using assms by (simp add: word_le_nat_alt unat_index)
  then show ?thesis using assms by (simp add: unat_sub unat_index)
qed

text \<open>A block the file has.\<close>

lemma bmap_present:
  fixes s :: "'a fs_scheme"
  assumes at: "file_at s i" and k: "k < MAXFILE" and b: "blk_of (fsval s) (itable s ! i) k \<noteq> 0" and r: "room 0 1 s"
  obtains s' where "bmap i (of_nat k) s = Ok (blk_of (fsval s) (itable s ! i) k) s'" and "blk_run s s' (fsval s) {}"
proof (cases "k < NDIRECT")
  case True
  then show ?thesis using that [of s] b at unat_index [OF k] blk_run_refl [of s "{}"] by (simp add: bmap_def blk_of_def file_at_def)
next
  case False
  let ?ind = "i_addrs (itable s ! i) ! NDIRECT"
  have ind: "?ind \<noteq> 0" and e: "blk_of (fsval s) (itable s ! i) k = get32 (fsval s ?ind) (4 * (k - NDIRECT))"
    using b False by (auto simp: blk_of_def split: if_splits)
  have inv: "op_inv s" "\<not> held s ?ind" "i_dev (itable s ! i) = ROOTDEV" using at by (auto simp: file_at_def file_ok_def)
  obtain bp t where t: "bread ROOTDEV ?ind s = Ok bp t" "took s t bp ?ind" using op_bread [OF inv(1,2), of 0 0] r by auto
  obtain w where w: "brelse bp t = Ok () w" "blk_run s w (fsval t) {}"
    using took_brelse [OF t(2) blk_run_refl [of t "{}"]] t(2) by (auto simp: took_def)
  have "k - NDIRECT < NINDIRECT" using k False by (simp add: MAXFILE_def)
  then have "bmap i (of_nat k) s = Ok (blk_of (fsval s) (itable s ! i) k) w"
    using False ind inv(3) t(1) took_data [OF t(2)] w(1) b e unat_index [OF k] unat_index_ind [OF k False]
    by (simp add: bmap_def Let_def bind_def)
  then show ?thesis using that w(2) t(2) by (simp add: took_def)
qed

text \<open>A block the file does not have: directly addressed, the indirect block, and an entry of the indirect block.\<close>

lemma bmap_direct:
  fixes s :: "'a fs_scheme"
  assumes at: "file_at s i" and k: "k < NDIRECT" "i_addrs (itable s ! i) ! k = 0" and r: "room (2 + m) 2 s"
    and f: "0 < nfree (sb s) (fsval s)"
  obtains s' ip where "bmap i (of_nat k) s = Ok (blk_of (fsval s') ip k) s'" and "blk_of (fsval s') ip k \<in> set (logged s') - {0}"
    and "grew s i ip s'" and "room m 2 s'" and "ind_cost s' ip \<le> ind_cost s (itable s ! i)"
    and "Suc (nfree (sb s) (fsval s')) = nfree (sb s) (fsval s)" and "i_addrs ip ! NDIRECT = i_addrs (itable s ! i) ! NDIRECT"
proof -
  let ?ip = "itable s ! i" let ?g = "sb s" let ?v = "fsval s"
  have ok: "file_ok ?g ?v ?ip" using at by (simp add: file_at_def)
  obtain n s' where n: "bind (balloc (i_dev ?ip)) (\<lambda>addr. bind (upd_inode i (\<lambda>x. x\<lparr>i_addrs := (i_addrs x)[k := addr]\<rparr>)) (\<lambda>_. ret addr)) s = Ok n s'"
      "grew s i (?ip\<lparr>i_addrs := (i_addrs ?ip)[k := n]\<rparr>) s'" "n \<noteq> 0" "n \<in> set (logged s')" "set (logged s) \<subseteq> set (logged s')"
      "room m 2 s'" "Suc (nfree ?g (fsval s')) = nfree ?g ?v" "n < sb_size ?g" "\<not> used ?g ?v n" "fsval s' = alloc_effect ?g ?v n"
    by (rule alloc_addr [OF at r f file_ext_direct(1) [OF ok _ _ k]])
  define ip where "ip = ?ip\<lparr>i_addrs := (i_addrs ?ip)[k := n]\<rparr>"
  have b: "blk_of (fsval s') ip k = n" unfolding n(10) ip_def by (rule file_ext_direct(2) [OF ok n(8,9) k])
  have u: "unat (of_nat k :: uint32) = k" using k(1) unat_index [of k] by (simp add: MAXFILE_def)
  have "bmap i (of_nat k) s = Ok n s'" using k u n(1) by (simp add: bmap_def)
  moreover have "i_addrs ip ! NDIRECT = i_addrs ?ip ! NDIRECT" using k by (simp add: ip_def)
  moreover from this have "ind_cost s' ip \<le> ind_cost s ?ip" using n(5) by (auto simp: ind_cost_def)
  ultimately show ?thesis using that [of s' ip] b n by (simp add: ip_def)
qed

lemma bmap_ind:
  fixes s :: "'a fs_scheme"
  assumes at: "file_at s i" and r: "room (ind_cost s (itable s ! i) + m) 2 s"
    and f: "i_addrs (itable s ! i) ! NDIRECT = 0 \<Longrightarrow> 0 < nfree (sb s) (fsval s)"
  obtains s' ip where "(if i_addrs (itable s ! i) ! NDIRECT = 0 then
         bind (balloc (i_dev (itable s ! i))) (\<lambda>addr.
         bind (upd_inode i (\<lambda>x. x\<lparr>i_addrs := (i_addrs x)[NDIRECT := addr]\<rparr>)) (\<lambda>_. ret addr))
         else ret (i_addrs (itable s ! i) ! NDIRECT)) s = Ok (i_addrs ip ! NDIRECT) s'"
    and "i_addrs ip ! NDIRECT \<noteq> 0" and "grew s i ip s'" and "room (ind_cost s' ip + m) 2 s'"
    and "spare (sb s) (fsval s) (itable s ! i) \<le> nfree (sb s) (fsval s')"
    and "\<And>k. k < MAXFILE \<Longrightarrow> blk_of (fsval s') ip k = blk_of (fsval s) (itable s ! i) k"
proof (cases "i_addrs (itable s ! i) ! NDIRECT = 0")
  case False
  then show ?thesis using that [of "itable s ! i" s] grew_refl [OF at] r by (simp add: spare_def)
next
  case True
  let ?ip = "itable s ! i" let ?g = "sb s" let ?v = "fsval s"
  have ok: "file_ok ?g ?v ?ip" using at by (simp add: file_at_def)
  have r2: "room (2 + m) 2 s" using r True by (simp add: ind_cost_def)
  obtain n s' where n: "bind (balloc (i_dev ?ip)) (\<lambda>addr. bind (upd_inode i (\<lambda>x. x\<lparr>i_addrs := (i_addrs x)[NDIRECT := addr]\<rparr>)) (\<lambda>_. ret addr)) s = Ok n s'"
      "grew s i (?ip\<lparr>i_addrs := (i_addrs ?ip)[NDIRECT := n]\<rparr>) s'" "n \<noteq> 0" "n \<in> set (logged s')" "fsval s' n = replicate BSIZE 0"
      "room m 2 s'" "Suc (nfree ?g (fsval s')) = nfree ?g ?v"
    by (rule alloc_addr [OF at r2 f [OF True] file_ext_indirect(1) [OF ok _ _ True]])
  define ip where "ip = ?ip\<lparr>i_addrs := (i_addrs ?ip)[NDIRECT := n]\<rparr>"
  have ind: "i_addrs ip ! NDIRECT = n" using ok by (simp add: ip_def file_ok_def)
  have "blk_of (fsval s') ip k = blk_of ?v ?ip k" if "k < MAXFILE" for k
    using that n(3,5) ind True get32_zero [of "4 * (k - NDIRECT)"]
    by (auto simp: blk_of_def ip_def MAXFILE_def NINDIRECT_def BSIZE_def)
  then show ?thesis using that [of ip s'] n ind True by (simp add: ip_def ind_cost_def spare_def)
qed

lemma bmap_entry:
  fixes s :: "'a fs_scheme"
  assumes at: "file_at s i" and k: "k < MAXFILE" "\<not> k < NDIRECT" and ind: "i_addrs (itable s ! i) ! NDIRECT \<noteq> 0"
    and z: "blk_of (fsval s) (itable s ! i) k = 0" and r: "room (2 + ind_cost s (itable s ! i) + Suc m) 2 s"
    and f: "0 < nfree (sb s) (fsval s)"
  obtains bp t n t1 s1 u s' where "bread ROOTDEV (i_addrs (itable s ! i) ! NDIRECT) s = Ok bp t"
    and "buf_data bp t = Ok (fsval s (i_addrs (itable s ! i) ! NDIRECT)) t" and "balloc ROOTDEV t = Ok n t1"
    and "set_data bp (put32 (fsval s (i_addrs (itable s ! i) ! NDIRECT)) (4 * (k - NDIRECT)) n) t1 = Ok () s1"
    and "log_write bp s1 = Ok () u" and "brelse bp u = Ok () s'"
    and "n = blk_of (fsval s') (itable s ! i) k" and "n \<in> set (logged s') - {0}" and "grew s i (itable s ! i) s'"
    and "room (Suc m) 2 s'" and "i_addrs (itable s ! i) ! NDIRECT \<in> set (logged s')"
    and "Suc (nfree (sb s) (fsval s')) = nfree (sb s) (fsval s)"
proof -
  let ?ip = "itable s ! i" let ?g = "sb s" let ?v = "fsval s" let ?ind = "i_addrs (itable s ! i) ! NDIRECT"
  have inv: "op_inv s" "file_ok ?g ?v ?ip" and free: "\<not> held s ?ind" using at by (auto simp: file_at_def)
  note i = file_okD [OF inv(2) ind_in_file [OF ind]]
  obtain bp t where t: "bread ROOTDEV ?ind s = Ok bp t" "took s t bp ?ind"
    using op_bread [OF inv(1) free, of _ 1] r by (auto simp: numeral_2_eq_2)
  have tv: "fsval t = ?v" "sb t = ?g" "itable t = itable s" "op_inv t" "mine t bp ?ind" "logged t = logged s"
    using t(2) op_frame_fs [of s t] by (simp_all add: took_def)
  have "locks_ok t" using t(2) at tv i(2,3) by (auto simp: locks_ok_def took_def file_at_def meta_def)
  moreover have "room (2 + (ind_cost s ?ip + Suc m)) (Suc 0) t" using took_room [OF t(2), of _ 1] r by (simp add: numeral_2_eq_2)
  ultimately obtain n t1 where n: "balloc ROOTDEV t = Ok n t1" "n < sb_size ?g" "\<not> used ?g ?v n"
      "blk_run t t1 (alloc_effect ?g ?v n) {BBLOCK n ?g, n}" "room (ind_cost s ?ip + Suc m) (Suc 0) t1"
    using balloc_file [of t ?ip] inv(2) f tv by metis
  let ?d = "put32 (?v ?ind) (4 * (k - NDIRECT)) n"
  have d: "length ?d = BSIZE" using op_length [OF inv(1), of ?ind] k by (simp add: MAXFILE_def NINDIRECT_def BSIZE_def)
  have "room 1 0 t1" by (rule room_mono [OF n(5)]) simp_all
  then obtain s1 u where u: "set_data bp ?d t1 = Ok () s1" "log_write bp s1 = Ok () u" "blk_run t1 u ((fsval t1)(?ind := ?d)) {?ind}"
    using op_store [OF blk_runD(1) [OF n(4)] blk_runD(6) [OF n(4) tv(5)] _ d] by blast
  define v' where "v' = (alloc_effect ?g ?v n)(?ind := ?d)"
  have run: "blk_run t u v' ({BBLOCK n ?g, n} \<union> {?ind})"
    using blk_run_trans [OF n(4) u(3)] blk_runD(2) [OF n(4)] by (simp add: v'_def)
  obtain s' where s': "brelse bp u = Ok () s'" "blk_run s s' v' ({BBLOCK n ?g, n} \<union> {?ind})" using took_brelse [OF t(2) run] .
  have e: "file_ext ?g ?v ?ip v' ?ip" "blk_of v' ?ip k = n"
    unfolding v'_def using file_ext_entry [OF inv(2) n(2,3) k(2,1) ind z] by simp_all
  have lg: "set (logged s') = set (logged s) \<union> {BBLOCK n ?g, n, ?ind}" using blk_runD(7) [OF s'(2)] by auto
  have "card ({BBLOCK n ?g, n} \<union> {?ind} - set (logged s)) \<le> 2 + ind_cost s ?ip"
  proof -
    have "card ({BBLOCK n ?g, n} \<union> {?ind} - set (logged s)) \<le> card {BBLOCK n ?g, n} + card ({?ind} - set (logged s))"
      by (intro order.trans [OF card_mono card_Un_le]) auto
    also have "\<dots> \<le> 2 + ind_cost s ?ip" using card_two [of "BBLOCK n ?g" n] ind by (auto simp: ind_cost_def insert_Diff_if)
    finally show ?thesis .
  qed
  then have "room (Suc m) 2 s'" using room_run [OF inv(1) s'(2)] r by simp
  moreover have "used ?g v' m = used ?g (alloc_effect ?g ?v n) m" if "m < sb_size ?g" for m
    unfolding v'_def by (rule used_upd [OF i(3) that])
  then have "nfree ?g v' = nfree ?g (alloc_effect ?g ?v n)" by (rule nfree_cong)
  moreover note nfree_alloc [OF file_ok_layout(1) [OF inv(2)] n(2,3)] alloc_view(3) [OF file_ok_layout(1) [OF inv(2)] n(2,3)]
  ultimately show ?thesis
    using that [OF t(1) took_data [OF t(2)] n(1) u(1,2) s'(1)] e lg blk_runD(2) [OF s'(2)] grew_run [OF at s'(2)] by auto
qed

lemma bmap_absent:
  fixes s :: "'a fs_scheme"
  assumes at: "file_at s i" and k: "k < MAXFILE" and z: "blk_of (fsval s) (itable s ! i) k = 0"
    and r: "room (2 + ind_cost s (itable s ! i) + Suc m) 2 s" and f: "0 < spare (sb s) (fsval s) (itable s ! i)"
  obtains s' ip where "bmap i (of_nat k) s = Ok (blk_of (fsval s') ip k) s'" and "blk_of (fsval s') ip k \<in> set (logged s') - {0}"
    and "grew s i ip s'" and "room (ind_cost s' ip + Suc m) 2 s'"
    and "spare (sb s) (fsval s) (itable s ! i) \<le> Suc (spare (sb s) (fsval s') ip)"
proof (cases "k < NDIRECT")
  case True
  have f': "0 < nfree (sb s) (fsval s)" using f by (simp add: spare_def)
  have r': "room (2 + (ind_cost s (itable s ! i) + Suc m)) 2 s" using r by simp
  have z': "i_addrs (itable s ! i) ! k = 0" using z True by (simp add: blk_of_def)
  obtain s' ip where b: "bmap i (of_nat k) s = Ok (blk_of (fsval s') ip k) s'" "blk_of (fsval s') ip k \<in> set (logged s') - {0}"
      "grew s i ip s'" "room (ind_cost s (itable s ! i) + Suc m) 2 s'" "ind_cost s' ip \<le> ind_cost s (itable s ! i)"
      "Suc (nfree (sb s) (fsval s')) = nfree (sb s) (fsval s)" "i_addrs ip ! NDIRECT = i_addrs (itable s ! i) ! NDIRECT"
    by (rule bmap_direct [OF at True z' r' f'])
  have "room (ind_cost s' ip + Suc m) 2 s'" using b(5) by (intro room_mono [OF b(4)]) simp_all
  moreover have "spare (sb s) (fsval s) (itable s ! i) \<le> Suc (spare (sb s) (fsval s') ip)" using b(6,7) by (simp add: spare_def)
  ultimately show ?thesis using that b by blast
next
  case False
  let ?ip = "itable s ! i"
  have f': "0 < nfree (sb s) (fsval s)" using f by (simp add: spare_def)
  have r': "room (ind_cost s ?ip + (2 + Suc m)) 2 s" using r by (simp add: algebra_simps)
  obtain s1 ip where b1: "(if i_addrs ?ip ! NDIRECT = 0 then
         bind (balloc (i_dev ?ip)) (\<lambda>addr.
         bind (upd_inode i (\<lambda>x. x\<lparr>i_addrs := (i_addrs x)[NDIRECT := addr]\<rparr>)) (\<lambda>_. ret addr))
         else ret (i_addrs ?ip ! NDIRECT)) s = Ok (i_addrs ip ! NDIRECT) s1" "i_addrs ip ! NDIRECT \<noteq> 0" "grew s i ip s1"
      "room (ind_cost s1 ip + (2 + Suc m)) 2 s1" "spare (sb s) (fsval s) ?ip \<le> nfree (sb s) (fsval s1)"
      "blk_of (fsval s1) ip k = blk_of (fsval s) ?ip k"
    by (rule bmap_ind [OF at r' f']) (use k in auto)
  have at1: "file_at s1 i" "itable s1 ! i = ip" "sb s1 = sb s" using grew_at [OF at b1(3)] by simp_all
  have pre: "i_addrs (itable s1 ! i) ! NDIRECT \<noteq> 0" "blk_of (fsval s1) (itable s1 ! i) k = 0"
      "room (2 + ind_cost s1 (itable s1 ! i) + Suc m) 2 s1" "0 < nfree (sb s1) (fsval s1)"
    using b1 z f unfolding at1 by (simp_all add: algebra_simps)
  obtain bp t n t1 s2 u s' where e: "bread ROOTDEV (i_addrs ip ! NDIRECT) s1 = Ok bp t"
      "buf_data bp t = Ok (fsval s1 (i_addrs ip ! NDIRECT)) t" "balloc ROOTDEV t = Ok n t1"
      "set_data bp (put32 (fsval s1 (i_addrs ip ! NDIRECT)) (4 * (k - NDIRECT)) n) t1 = Ok () s2"
      "log_write bp s2 = Ok () u" "brelse bp u = Ok () s'" "n = blk_of (fsval s') ip k" "n \<in> set (logged s') - {0}" "grew s1 i ip s'"
      "room (Suc m) 2 s'" "i_addrs ip ! NDIRECT \<in> set (logged s')" "Suc (nfree (sb s) (fsval s')) = nfree (sb s) (fsval s1)"
    by (rule bmap_entry [OF at1(1) k False pre, unfolded at1(2,3)])
  have dev: "i_dev ?ip = ROOTDEV" using at by (simp add: file_at_def file_ok_def)
  have z1: "get32 (fsval s1 (i_addrs ip ! NDIRECT)) (4 * (k - NDIRECT)) = 0" using pre(2) b1(2) False by (simp add: at1 blk_of_def)
  have "k - NDIRECT < NINDIRECT" using k False by (simp add: MAXFILE_def)
  note facts = this False unat_index [OF k] unat_index_ind [OF k False] z1 e(1-6) dev
  have "bmap i (of_nat k) s = Ok n s'"
  proof (cases "i_addrs ?ip ! NDIRECT = 0")
    case True
    then obtain t0 where "balloc ROOTDEV s = Ok (i_addrs ip ! NDIRECT) t0"
        "upd_inode i (\<lambda>x. x\<lparr>i_addrs := (i_addrs x)[NDIRECT := i_addrs ip ! NDIRECT]\<rparr>) t0 = Ok () s1"
      using b1(1) dev by auto
    then show ?thesis using facts True by (simp add: bmap_def Let_def bind_def)
  next
    case False
    then have "s1 = s" "i_addrs ip ! NDIRECT = i_addrs ?ip ! NDIRECT" using b1(1) by auto
    then show ?thesis using facts False by (simp add: bmap_def Let_def bind_def)
  qed
  moreover have "grew s i ip s'" by (rule grew_trans [OF at b1(3) e(9)])
  ultimately show ?thesis using that [of s' ip] e b1(2,5) by (simp add: ind_cost_def spare_def)
qed

end
