(* ===== verification/Readi.thy ===== *)
theory Readi
  imports Bmap Pipe
begin

text \<open>
  Reading files: \<open>readi\<close> delivers the bytes of the file, to a variable of the kernel or to user memory.

  The locale \<open>sink\<close> is what the loop asks of the place the bytes go to; it is interpreted for both.
\<close>

definition user_frame :: "'a ptab_scheme \<Rightarrow> 'a ptab_scheme \<Rightarrow> bool" where
  "user_frame s s' \<longleftrightarrow> cur s' = cur s \<and> length (procs s') = length (procs s) \<and>
     (\<forall>i<length (procs s). cur s = Some i \<longrightarrow> procs s' ! i = procs s ! i) \<and>
     pmem s' = pmem s \<and> freelist s' = freelist s \<and> kend s' = kend s"

lemma user_frame_refl [simp]: "user_frame s s"
  by (simp add: user_frame_def)

lemma user_frame_sym: "user_frame s t \<Longrightarrow> user_frame t s"
  by (simp add: user_frame_def)

lemma user_frame_trans: "user_frame s t \<Longrightarrow> user_frame t u \<Longrightarrow> user_frame s u"
  by (simp add: user_frame_def)

lemma user_frameI:
  "only_woken s s' \<Longrightarrow> pmem s' = pmem s \<Longrightarrow> freelist s' = freelist s \<Longrightarrow> kend s' = kend s \<Longrightarrow> user_frame s s'"
  by (auto simp: user_frame_def only_woken_def)

lemma fs_step_user: "fs_step s s' \<Longrightarrow> user_frame s s'"
  using fs_stepD(8,10,14,15) [of s s'] user_frameI [of s s'] by simp

lemma blk_run_user: "blk_run s s' v D \<Longrightarrow> user_frame s s'"
  using op_frameD(6-8) [of s s'] user_frameI [of s s'] by (simp add: blk_run_def op_frame_def)

lemma took_user: "took s t b bn \<Longrightarrow> user_frame s t"
  using op_frameD(6-8) [of s t] user_frameI [of s t] by (simp add: took_def op_frame_def)

text \<open>The calling process and its user memory.\<close>

definition caller :: "'a ptab_scheme \<Rightarrow> uint64 \<Rightarrow> bool" where
  "caller s root \<longleftrightarrow> (\<exists>i<length (procs s). cur s = Some i \<and> p_pagetable (procs s ! i) = root) \<and> pt_inv s root"

lemma caller_frame:
  assumes "caller s root" and "user_frame s s'"
  shows "caller s' root"
  using assms user_cong(1) [of s' s root] by (auto simp: caller_def user_frame_def)

subsection \<open>Changes of memory\<close>

lemma op_pmem [simp]:
  fixes s :: "'a log_scheme"
  shows "bio_inv (s\<lparr>pmem := m\<rparr>) = bio_inv s" "fsval (s\<lparr>pmem := m\<rparr>) = fsval s" "refs (s\<lparr>pmem := m\<rparr>) = refs s"
    "held (s\<lparr>pmem := m\<rparr>) = held s" "mine (s\<lparr>pmem := m\<rparr>) = mine s" "logged (s\<lparr>pmem := m\<rparr>) = logged s"
    "users (s\<lparr>pmem := m\<rparr>) = users s" "op_inv (s\<lparr>pmem := m\<rparr>) = op_inv s" "room k j (s\<lparr>pmem := m\<rparr>) = room k j s"
proof -
  show b: "bio_inv (s\<lparr>pmem := m\<rparr>) = bio_inv s" "fsval (s\<lparr>pmem := m\<rparr>) = fsval s" "refs (s\<lparr>pmem := m\<rparr>) = refs s"
    "held (s\<lparr>pmem := m\<rparr>) = held s" "mine (s\<lparr>pmem := m\<rparr>) = mine s"
    by (auto simp: bio_inv_def fsval_def refs_def held_def mine_def holder_def fun_eq_iff split: option.splits)
  show l: "logged (s\<lparr>pmem := m\<rparr>) = logged s" by (simp add: logged_def)
  then show u: "users (s\<lparr>pmem := m\<rparr>) = users s" using b by (auto simp: users_def)
  then show "op_inv (s\<lparr>pmem := m\<rparr>) = op_inv s" "room k j (s\<lparr>pmem := m\<rparr>) = room k j s"
    using b l by (simp_all add: op_inv_def hdr_ok_def room_def)
qed

lemma op_frame_pmem: "op_frame s t \<Longrightarrow> op_frame (s\<lparr>pmem := m\<rparr>) (t\<lparr>pmem := m\<rparr>)"
  by (cases s; cases t) (simp add: op_frame_def only_woken_def)

lemma took_pmem: "took s t b bn \<Longrightarrow> took (s\<lparr>pmem := m\<rparr>) (t\<lparr>pmem := m\<rparr>) b bn"
  using op_frame_pmem [of s t m] by (simp add: took_def)

lemma blk_run_pmem: "blk_run s t v D \<Longrightarrow> blk_run (s\<lparr>pmem := m\<rparr>) (t\<lparr>pmem := m\<rparr>) v D"
  using op_frame_pmem [of s t m] by (auto simp: blk_run_def)

subsection \<open>The bytes of a file\<close>

definition dense :: "(uint32 \<Rightarrow> byte list) \<Rightarrow> inode \<Rightarrow> bool" where
  "dense v ip \<longleftrightarrow> unat (i_size ip) \<le> MAXFILE * BSIZE \<and> (\<forall>k. k * BSIZE < unat (i_size ip) \<longrightarrow> blk_of v ip k \<noteq> 0)"

lemma fdata_slice:
  assumes "layout_ok g v" and "p mod BSIZE + m \<le> BSIZE"
  shows "slice (p mod BSIZE) m (fdata v ip (p div BSIZE)) = map (fbyte v ip) [p..<p + m]"
proof (rule nth_equalityI)
  have len: "length (fdata v ip (p div BSIZE)) = BSIZE" by (rule fdata_length [OF assms(1)])
  show "length (slice (p mod BSIZE) m (fdata v ip (p div BSIZE))) = length (map (fbyte v ip) [p..<p + m])" using len assms(2) by simp
  fix j assume "j < length (slice (p mod BSIZE) m (fdata v ip (p div BSIZE)))"
  then have j: "j < m" using len assms(2) by simp
  have "p mod BSIZE + j < BSIZE" using j assms(2) by simp
  note div_mod_offset [OF this]
  then show "slice (p mod BSIZE) m (fdata v ip (p div BSIZE)) ! j = map (fbyte v ip) [p..<p + m] ! j"
    using j len assms(2) by (simp add: nth_slice fbyte_def)
qed

lemma block_index: "off div of_nat BSIZE = (of_nat (unat off div BSIZE) :: uint32)"
proof -
  have "unat off div 1024 < 2 ^ 32" using unsigned_less [of off, where ?'a = nat] by simp
  then show ?thesis by (simp add: word_unat_eq_iff unat_div BSIZE_def unat_of_nat)
qed

lemma chunk_step:
  assumes "tot < n"
  shows "unat (tot + chunk n tot off) = unat tot + unat (chunk n tot off)"
    and "unat off + (unat n - unat tot) < 2 ^ 32 \<Longrightarrow> unat (off + chunk n tot off) = unat off + unat (chunk n tot off)"
proof -
  note c = chunk_pos(2) [OF assms, of off]
  have "unat tot + unat (chunk n tot off) \<le> unat n" using c assms by (simp add: word_less_nat_alt)
  then show "unat (tot + chunk n tot off) = unat tot + unat (chunk n tot off)"
    by (intro unat_add_lem [THEN iffD1]) (meson le_less_trans unsigned_less)
  show "unat (off + chunk n tot off) = unat off + unat (chunk n tot off)" if "unat off + (unat n - unat tot) < 2 ^ 32"
    using that c by (intro unat_add_lem [THEN iffD1]) simp
qed

lemma map_upt_split: "m \<le> l \<Longrightarrow> map f [p..<p + m] @ map f [p + m..<p + m + (l - m)] = map f [p..<p + l]"
  using upt_add_eq_append [of p "p + m" "l - m"] by (simp flip: map_append)

lemma add_wraps: "off + n < off \<longleftrightarrow> \<not> unat off + unat n < 2 ^ 32" for off n :: uint32
proof -
  have b: "unat off < 2 ^ 32" "unat n < 2 ^ 32" using unsigned_less [where ?'a = nat and ?'b = 32] by simp_all
  show ?thesis
  proof (cases "unat off + unat n < 2 ^ 32")
    case False
    then have "(unat off + unat n) mod 2 ^ 32 = unat off + unat n - 2 ^ 32" using b by (simp add: le_mod_geq)
    then show ?thesis using False b by (simp add: word_less_nat_alt unat_word_ariths)
  qed (simp add: word_less_nat_alt unat_word_ariths)
qed

lemma sint_of_nat: "k < 2 ^ 31 \<Longrightarrow> sint (of_nat k :: uint32) = int k"
  by (simp add: signed_of_nat signed_take_bit_int_eq_self)

lemma sint_small: "unat w < 2 ^ 31 \<Longrightarrow> sint (w :: uint32) = int (unat w)"
  using sint_of_nat [of "unat w"] by simp

text \<open>Past the end of the file there is nothing to read.\<close>

definition avail :: "inode \<Rightarrow> nat \<Rightarrow> nat \<Rightarrow> nat" where
  "avail ip off n = (if off + n < 2 ^ 32 then min n (unat (i_size ip) - off) else 0)"

subsection \<open>The loop\<close>

locale sink =
  fixes dst :: kdst and N :: nat and got_ok :: "byte list \<Rightarrow> 'a fs_scheme \<Rightarrow> bool"
  assumes got_frame: "got_ok got s \<Longrightarrow> user_frame s s' \<Longrightarrow> got_ok got s'"
    and got_more: "got_ok got s \<Longrightarrow> tot = of_nat (length got) \<Longrightarrow> length got + length bs \<le> N \<Longrightarrow>
      \<exists>m. copy_to dst tot bs s = Ok 0 (s\<lparr>pmem := m\<rparr>) \<and> got_ok (got @ bs) (s\<lparr>pmem := m\<rparr>)"
begin

lemma read_chunk:
  fixes s :: "'a fs_scheme"
  assumes at: "file_at s i" and k: "p div BSIZE < MAXFILE" "blk_of (fsval s) (itable s ! i) (p div BSIZE) \<noteq> 0" and r: "room 0 1 s"
    and g: "got_ok got s" and l: "length got + m \<le> N" "p mod BSIZE + m \<le> BSIZE"
  obtains bn s1 b t t1 s' where "bmap i (of_nat (p div BSIZE)) s = Ok bn s1" and "i_dev (itable s1 ! i) = ROOTDEV"
    and "bread ROOTDEV bn s1 = Ok b t" and "buf_data b t = Ok (fdata (fsval s) (itable s ! i) (p div BSIZE)) t"
    and "copy_to dst (of_nat (length got)) (map (fbyte (fsval s) (itable s ! i)) [p..<p + m]) t = Ok 0 t1"
    and "brelse b t1 = Ok () s'" and "got_ok (got @ map (fbyte (fsval s) (itable s ! i)) [p..<p + m]) s'"
    and "blk_run (s\<lparr>pmem := pmem s'\<rparr>) s' (fsval s) {}" and "room 0 1 s'"
proof -
  let ?bn = "blk_of (fsval s) (itable s ! i) (p div BSIZE)" let ?bs = "map (fbyte (fsval s) (itable s ! i)) [p..<p + m]"
  have inv: "op_inv s" using at by (simp add: file_at_def)
  obtain s1 where s1: "bmap i (of_nat (p div BSIZE)) s = Ok ?bn s1" "blk_run s s1 (fsval s) {}" by (rule bmap_present [OF at k r])
  have free: "\<not> held s1 ?bn" and dev: "i_dev (itable s1 ! i) = ROOTDEV"
    using at blk_runD(3) [OF s1(2)] blk_run_fs(2) [OF s1(2)] by (simp_all add: file_at_def file_ok_def)
  have r1: "room 0 1 s1" using room_after [OF inv s1(2), of 0 0] r by simp
  obtain b t where t: "bread ROOTDEV ?bn s1 = Ok b t" "took s1 t b ?bn"
    using op_bread [OF blk_runD(1) [OF s1(2)] free, of 0 0] r1 by auto
  have gt: "got_ok got t" using got_frame [OF got_frame [OF g blk_run_user [OF s1(2)]] took_user [OF t(2)]] .
  obtain mm where m: "copy_to dst (of_nat (length got)) ?bs t = Ok 0 (t\<lparr>pmem := mm\<rparr>)" "got_ok (got @ ?bs) (t\<lparr>pmem := mm\<rparr>)"
    using got_more [OF gt refl, of ?bs] l(1) by auto
  let ?t = "t\<lparr>pmem := mm\<rparr>" let ?s1 = "s1\<lparr>pmem := mm\<rparr>"
  have tk: "took ?s1 ?t b ?bn" by (rule took_pmem [OF t(2)])
  then have "op_inv ?t" unfolding took_def by blast
  then obtain s' where s': "brelse b ?t = Ok () s'" "blk_run ?s1 s' (fsval ?t) {}"
    using took_brelse [OF tk blk_run_refl [of ?t "{}"]] by blast
  have fv: "fsval ?t = fsval s" using t(2) blk_runD(2) [OF s1(2)] by (simp add: took_def)
  have pm: "pmem s' = mm" using op_frameD(6) [OF blk_runD(5) [OF s'(2)]] by simp
  have "blk_run (s\<lparr>pmem := mm\<rparr>) s' (fsval s) ({} \<union> {})" using blk_run_trans [OF blk_run_pmem [OF s1(2)] s'(2)] fv by simp
  then have run: "blk_run (s\<lparr>pmem := pmem s'\<rparr>) s' (fsval s) {}" by (simp add: pm)
  have "room 0 1 s'" using room_after [OF _ s'(2), of 0 0 1] blk_runD(1) [OF s1(2)] r1 by simp
  moreover have "buf_data b t = Ok (fdata (fsval s) (itable s ! i) (p div BSIZE)) t"
    using took_data [OF t(2)] k(2) blk_runD(2) [OF s1(2)] by (simp add: fdata_def)
  moreover have "got_ok (got @ ?bs) s'" by (rule got_frame [OF got_frame [OF m(2) user_frame_sym [OF took_user [OF tk]]] blk_run_user [OF s'(2)]])
  ultimately show ?thesis using that [OF s1(1) dev t(1) _ m(1) s'(1)] run by blast
qed

lemma readi_loop:
  fixes s :: "'a fs_scheme"
  assumes "file_at s i" and "dense (fsval s) (itable s ! i)" and "room 0 1 s" and "got_ok got s"
    and "unat tot = length got" and "length got \<le> unat n" and "unat n \<le> N"
    and "unat off + (unat n - length got) \<le> unat (i_size (itable s ! i))"
  shows "\<exists>s'. readi_from i dst off n tot got s =
      Ok (sint n, got @ map (fbyte (fsval s) (itable s ! i)) [unat off..<unat off + (unat n - length got)]) s' \<and>
    got_ok (got @ map (fbyte (fsval s) (itable s ! i)) [unat off..<unat off + (unat n - length got)]) s' \<and>
    blk_run (s\<lparr>pmem := pmem s'\<rparr>) s' (fsval s) {}"
  using assms
proof (induction "unat n - length got" arbitrary: s off tot got rule: less_induct)
  case less
  let ?ip = "itable s ! i" let ?v = "fsval s"
  show ?case
  proof (cases "tot < n")
    case False
    then have "unat n = unat tot" using less.prems(5,6) by (simp add: word_less_nat_alt)
    then have "n = tot" by (simp add: word_unat_eq_iff)
    then show ?thesis using less.prems blk_run_refl [of s "{}"]
      by (intro exI [of _ s]) (simp add: readi_from.simps file_at_def)
  next
    case True
    define m where "m = unat (chunk n tot off)" define p where "p = unat off"
    let ?bs = "map (fbyte ?v ?ip) [p..<p + m]"
    note c = chunk_pos [OF True, of off, folded m_def]
    have small: "unat (i_size ?ip) \<le> MAXFILE * BSIZE" using less.prems(2) by (simp add: dense_def)
    then have lt: "p + (unat n - unat tot) < 2 ^ 32" using less.prems(5,8) by (simp add: p_def MAXFILE_def NDIRECT_def NINDIRECT_def BSIZE_def)
    have st: "unat (tot + chunk n tot off) = length got + m" "unat (off + chunk n tot off) = p + m"
      using chunk_step [OF True, of off] lt less.prems(5) by (simp_all add: m_def p_def)
    have inside: "p < unat (i_size ?ip)" using c(1,2) less.prems(5,8) by (simp add: p_def)
    have k: "p div BSIZE * BSIZE < unat (i_size ?ip)" by (rule le_less_trans [OF _ inside]) (simp add: BSIZE_def)
    have kb: "p div BSIZE < MAXFILE" using inside small by (simp add: less_mult_imp_div_less)
    have b0: "blk_of ?v ?ip (p div BSIZE) \<noteq> 0" using less.prems(2) k by (auto simp: dense_def)
    have l: "length got + m \<le> N" "p mod BSIZE + m \<le> BSIZE" using c less.prems(5-7) by (simp_all add: p_def)
    obtain bn s1 b t t1 s' where e: "bmap i (of_nat (p div BSIZE)) s = Ok bn s1" "i_dev (itable s1 ! i) = ROOTDEV"
        "bread ROOTDEV bn s1 = Ok b t" "buf_data b t = Ok (fdata ?v ?ip (p div BSIZE)) t"
        "copy_to dst (of_nat (length got)) ?bs t = Ok 0 t1" "brelse b t1 = Ok () s'" "got_ok (got @ ?bs) s'"
        "blk_run (s\<lparr>pmem := pmem s'\<rparr>) s' ?v {}" "room 0 1 s'"
      by (rule read_chunk [OF less.prems(1) kb b0 less.prems(3,4) l])
    have tot: "of_nat (length got) = tot" by (simp flip: less.prems(5))
    have bs: "slice (unat off mod BSIZE) (unat (chunk n tot off)) (fdata ?v ?ip (p div BSIZE)) = ?bs"
      using fdata_slice [OF _ l(2), of "sb s" ?v ?ip] less.prems(1) file_ok_layout(1) by (auto simp: file_at_def p_def m_def)
    have run: "readi_from i dst off n tot got s = readi_from i dst (off + chunk n tot off) n (tot + chunk n tot off) (got @ ?bs) s'"
      using True e(1-6) tot bs block_index [of off]
      by (subst readi_from.simps) (simp add: bind_def Let_def p_def)
    note bd = blk_runD [OF e(8)] and bf = blk_run_fs [OF e(8)]
    have eq: "fsval s' = ?v" "itable s' = itable s" "sb s' = sb s" using bd(2) bf by simp_all
    have at': "file_at s' i" using less.prems(1) bd(1,3) eq by (simp add: file_at_def)
    have len: "length (got @ ?bs) = length got + m" by simp
    have smaller: "unat n - length (got @ ?bs) < unat n - length got" using c(1,2) less.prems(5) len by simp
    have pre: "dense (fsval s') (itable s' ! i)" "unat (tot + chunk n tot off) = length (got @ ?bs)" "length (got @ ?bs) \<le> unat n"
        "unat (off + chunk n tot off) + (unat n - length (got @ ?bs)) \<le> unat (i_size (itable s' ! i))"
      using less.prems(2,5,6,8) c(2) st eq len by (simp_all add: p_def)
    note ih = less.hyps [OF smaller at' pre(1) e(9,7) pre(2,3) less.prems(7) pre(4), unfolded eq len st(2)]
    obtain u where u: "readi_from i dst (off + chunk n tot off) n (tot + chunk n tot off) (got @ ?bs) s' =
          Ok (sint n, (got @ ?bs) @ map (fbyte ?v ?ip) [p + m..<p + m + (unat n - (length got + m))]) u"
        "got_ok ((got @ ?bs) @ map (fbyte ?v ?ip) [p + m..<p + m + (unat n - (length got + m))]) u"
        "blk_run (s'\<lparr>pmem := pmem u\<rparr>) u ?v {}"
      using ih by blast
    have "?bs @ map (fbyte ?v ?ip) [p + m..<p + m + (unat n - (length got + m))] = map (fbyte ?v ?ip) [p..<p + (unat n - length got)]"
      using map_upt_split [of m "unat n - length got"] c(2) less.prems(5) by simp
    moreover have "blk_run (s\<lparr>pmem := pmem u\<rparr>) u ?v ({} \<union> {})" using blk_run_trans [OF blk_run_pmem [OF e(8)] u(3)] by simp
    ultimately show ?thesis using u(1,2) run by (intro exI [of _ u]) (simp add: p_def)
  qed
qed

lemma readi_spec:
  fixes s :: "'a fs_scheme"
  assumes "file_at s i" and "dense (fsval s) (itable s ! i)" and "room 0 1 s" and "got_ok [] s" and "avail (itable s ! i) (unat off) (unat n) \<le> N"
  shows "\<exists>s'. readi i dst off n s = Ok (int (avail (itable s ! i) (unat off) (unat n)),
      slice (unat off) (avail (itable s ! i) (unat off) (unat n)) (contents (fsval s) (itable s ! i))) s' \<and>
    got_ok (slice (unat off) (avail (itable s ! i) (unat off) (unat n)) (contents (fsval s) (itable s ! i))) s' \<and>
    blk_run (s\<lparr>pmem := pmem s'\<rparr>) s' (fsval s) {}"
proof -
  let ?ip = "itable s ! i" let ?size = "i_size ?ip" let ?k = "avail ?ip (unat off) (unat n)"
  note wrap = add_wraps [of off n]
  show ?thesis
  proof (cases "off > ?size \<or> off + n < off")
    case True
    then have "?k = 0" using wrap by (auto simp: avail_def word_less_nat_alt)
    then show ?thesis using True assms(1,4) blk_run_refl [of s "{}"] by (intro exI [of _ s]) (simp add: readi_def file_at_def)
  next
    case False
    then have nw: "unat off + unat n < 2 ^ 32" "unat off \<le> unat ?size" using wrap by (auto simp: word_less_nat_alt not_less)
    have on: "unat (off + n) = unat off + unat n" using nw(1) by (simp add: unat_add_lem [THEN iffD1])
    define n' where "n' = (if off + n > ?size then ?size - off else n)"
    have n': "unat n' = ?k" "unat off + ?k \<le> unat ?size"
      using nw on by (auto simp: n'_def avail_def word_less_nat_alt unat_sub word_le_nat_alt)
    have small: "?k < 2 ^ 31" using n'(2) assms(2) by (simp add: dense_def MAXFILE_def NDIRECT_def NINDIRECT_def BSIZE_def)
    have si: "sint n' = int ?k" using sint_small [of n'] small n'(1) by simp
    have sl: "map (fbyte (fsval s) ?ip) [unat off..<unat off + ?k] = slice (unat off) ?k (contents (fsval s) ?ip)"
      using n'(2) by (intro nth_equalityI) (simp_all add: contents_def nth_slice)
    show ?thesis
      using readi_loop [of s i "[]" 0 n' off] assms n' si sl False by (simp add: readi_def n'_def)
  qed
qed

end

subsection \<open>The places bytes go to\<close>

interpretation local_sink: sink DstLocal N "\<lambda>_ s. True" for N
proof
  show "\<exists>m. copy_to DstLocal tot bs s = Ok 0 (s\<lparr>pmem := m\<rparr>) \<and> True" for tot bs and s :: "'a fs_scheme"
    by (rule exI [of _ "pmem s"]) (simp add: copy_to_def)
qed simp

text \<open>The bytes so far are in user memory at \<open>a\<close>, all other user bytes are as \<open>u\<close> says.\<close>

definition delivered :: "uint64 \<Rightarrow> uint64 \<Rightarrow> nat \<Rightarrow> (uint64 \<Rightarrow> byte option) \<Rightarrow> byte list \<Rightarrow> 'a ptab_scheme \<Rightarrow> bool" where
  "delivered root a N u got s \<longleftrightarrow> caller s root \<and> uspace s root \<and> umapped s root a N \<and> N < 2 ^ 32 \<and>
     (\<forall>vb. ubyte s root vb = (if unat (vb - a) < length got then Some (got ! unat (vb - a)) else u vb))"

lemma copyout_more:
  fixes s :: "'a ptab_scheme"
  assumes d: "delivered root a N u got s" and l: "length got + length bs \<le> N"
  shows "\<exists>m. copyout root (a + of_nat (length got)) bs s = Ok 0 (s\<lparr>pmem := m\<rparr>) \<and> delivered root a N u (got @ bs) (s\<lparr>pmem := m\<rparr>)"
proof -
  let ?va = "a + of_nat (length got)" let ?n = "length got"
  have s: "caller s root" "uspace s root" "umapped s root a N" "N < 2 ^ 32" "pt_inv s root"
      "\<And>vb. ubyte s root vb = (if unat (vb - a) < ?n then Some (got ! unat (vb - a)) else u vb)"
    using d by (auto simp: delivered_def caller_def)
  have "umapped s root ?va (length bs)" using s(3) l umapped_add [of s root a ?n "N - ?n"]
    by (auto simp: umapped_def)
  then obtain s' where s': "copyout root ?va bs s = Ok 0 s'" "copied_out root ?va bs True s s'"
    using copyout_spec [OF s(5,2), of bs ?va] l s(4) by auto
  have e: "s' = s\<lparr>pmem := pmem s'\<rparr>" and ua: "\<And>vb. uaddr s' root vb = uaddr s root vb" and pt: "pt_inv s' root" "uspace s' root"
    using s'(2) by (auto simp: copied_out_def)
  have un: "unat (of_nat ?n :: uint64) = ?n" using l s(4) by (simp add: unat_of_nat)
  have ub: "ubyte s' root vb = (if unat (vb - a) < length (got @ bs) then Some ((got @ bs) ! unat (vb - a)) else u vb)" for vb
  proof -
    have c: "ubyte s' root vb = (if unat (vb - ?va) < length bs then Some (bs ! unat (vb - ?va)) else ubyte s root vb)"
      using s'(2) by (auto simp: copied_out_def not_less)
    note o = unat_diff_offset [of ?n "?n + length bs" vb a]
    show ?thesis
    proof (cases "unat (vb - a) < ?n")
      case True
      then show ?thesis using c s(6) o(1) l s(4) by (simp add: nth_append)
    next
      case False
      then have "unat (vb - ?va) = unat (vb - a) - ?n" using o(2) l s(4) by simp
      then show ?thesis using c s(6) False by (auto simp: nth_append)
    qed
  qed
  have "procs s' = procs s" "cur s' = cur s" by (subst e, simp)+
  then have "caller s' root" using s(1) pt(1) by (simp add: caller_def)
  moreover have "umapped s' root a N" using s(3) ua by (simp add: umapped_def ubyte_def)
  ultimately have "delivered root a N u (got @ bs) s'" using pt s(4) ub by (simp add: delivered_def)
  then show ?thesis using s'(1) e by metis
qed

interpretation user_sink: sink "DstUser a" N "delivered root a N u" for a N root u
proof
  fix got and s s' :: "'a fs_scheme"
  assume d: "delivered root a N u got s" and f: "user_frame s s'"
  have "caller s' root" using d f caller_frame by (auto simp: delivered_def)
  moreover have m: "pmem s' = pmem s" "freelist s' = freelist s" "kend s' = kend s" using f by (simp_all add: user_frame_def)
  ultimately show "delivered root a N u got s'" using d user_cong [OF m] by (simp add: delivered_def)
next
  fix got bs :: "byte list" and s :: "'a fs_scheme" and tot :: uint32
  assume d: "delivered root a N u got s" and tot: "tot = of_nat (length got)" and l: "length got + length bs \<le> N"
  have "length got < 2 ^ 32" using d l by (simp add: delivered_def)
  then have "(ucast tot :: uint64) = of_nat (length got)" by (simp add: tot word_unat_eq_iff unat_of_nat unsigned_ucast_eq take_bit_nat_eq_self)
  moreover have "copy_to (DstUser a) tot bs s = copyout root (a + ucast tot) bs s"
    using d by (auto simp: copy_to_def either_copyout_def delivered_def caller_def myproc_def bind_def)
  ultimately show "\<exists>m. copy_to (DstUser a) tot bs s = Ok 0 (s\<lparr>pmem := m\<rparr>) \<and> delivered root a N u (got @ bs) (s\<lparr>pmem := m\<rparr>)"
    using copyout_more [OF d l] by simp
qed

text \<open>
  C29: \<open>readi\<close> into user memory. It returns how many of the \<open>n\<close> bytes at \<open>off\<close> the file has, none when \<open>off + n\<close>
  overflows; exactly these bytes of the file are at \<open>a\<close> in user memory afterwards, every other user byte and
  every block of the file system is as before.
\<close>

theorem readi_delivers_contents:
  fixes s :: "'a fs_scheme"
  assumes "file_at s i" and "dense (fsval s) (itable s ! i)" and "room 0 1 s" and "caller s root" and "uspace s root"
    and "umapped s root a (avail (itable s ! i) (unat off) (unat n))"
  defines "k \<equiv> avail (itable s ! i) (unat off) (unat n)"
  shows "\<exists>s' bs. readi i (DstUser a) off n s = Ok (int k, bs) s' \<and> bs = slice (unat off) k (contents (fsval s) (itable s ! i)) \<and>
    (\<forall>vb. ubyte s' root vb = (if unat (vb - a) < k then Some (bs ! unat (vb - a)) else ubyte s root vb)) \<and>
    fsval s' = fsval s \<and> itable s' = itable s \<and> disk s' = disk s \<and> op_inv s'"
proof -
  have "k < 2 ^ 32" by (simp add: k_def avail_def min_def)
  then have "delivered root a k (ubyte s root) [] s" using assms(4-6) by (simp add: delivered_def k_def)
  then obtain s' where s': "readi i (DstUser a) off n s = Ok (int k, slice (unat off) k (contents (fsval s) (itable s ! i))) s'"
      "delivered root a k (ubyte s root) (slice (unat off) k (contents (fsval s) (itable s ! i))) s'"
      "blk_run (s\<lparr>pmem := pmem s'\<rparr>) s' (fsval s) {}"
    using user_sink.readi_spec [OF assms(1-3), of root a k "ubyte s root" off n] unfolding k_def by auto
  have "unat off + k \<le> unat (i_size (itable s ! i)) \<or> k = 0" by (auto simp: k_def avail_def)
  then have "length (slice (unat off) k (contents (fsval s) (itable s ! i))) = k" by (auto simp: contents_def)
  then show ?thesis using s'(1,2) blk_runD(1,2) [OF s'(3)] blk_run_fs(2) [OF s'(3)] op_frameD(4) [OF blk_runD(5) [OF s'(3)]]
    by (auto simp: delivered_def)
qed

subsection \<open>A concrete file system\<close>

lemma demo_fs_user: "caller demo_fs 0x87ff0000" "uspace demo_fs 0x87ff0000" "ubyte demo_fs 0x87ff0000 va = ubyte demo 0x87ff0000 va"
    "umapped demo_fs 0x87ff0000 va n = umapped demo 0x87ff0000 va n"
proof -
  have m: "pmem demo_fs = pmem demo" "freelist demo_fs = freelist demo" "kend demo_fs = kend demo"
    by (simp_all add: demo_fs_def log.extend_def fs.fields_def)
  note c = user_cong [of demo_fs demo, OF m]
  show "caller demo_fs 0x87ff0000" using c(1) demo_inv
    by (simp add: caller_def) (simp add: demo_fs_defs unused_slot_def)
  show "uspace demo_fs 0x87ff0000" using c(2) demo_uspace by simp
  show "ubyte demo_fs 0x87ff0000 va = ubyte demo 0x87ff0000 va" "umapped demo_fs 0x87ff0000 va n = umapped demo 0x87ff0000 va n"
    using c(4,6) by simp_all
qed

lemma demo_iblock: "i < 200 \<Longrightarrow> unat (IBLOCK i demo_sb) = 32 + unat i div 16"
proof -
  assume "i < 200"
  then have "unat i < 200" by (simp add: word_less_nat_alt)
  then have "unat (i div 16) = unat i div 16" "unat (i div 16) + unat (32 :: uint32) < 2 ^ 32" by (simp_all add: unat_div)
  then have "unat (i div 16 + 32) = 32 + unat i div 16" using unat_add_lem [of "i div 16" 32] by simp
  then show ?thesis by (simp add: IBLOCK_def IPB_def DINODE_SIZE_def BSIZE_def demo_sb_def)
qed

lemma demo_meta: "map_blocks demo_sb \<subseteq> {45}" "n \<in> (\<lambda>i. IBLOCK i demo_sb) ` {i. i < sb_ninodes demo_sb} \<Longrightarrow> unat n < 45"
proof -
  show "map_blocks demo_sb \<subseteq> {45}" using demo_map(2) by (auto simp: map_blocks_def demo_sb_def)
  show "unat n < 45" if "n \<in> (\<lambda>i. IBLOCK i demo_sb) ` {i. i < sb_ninodes demo_sb}"
    using that demo_iblock by (auto simp: demo_sb_def word_less_nat_alt)
qed

lemma demo_layout: "layout_ok demo_sb demo_disk"
proof -
  have "n < 48" if "n \<in> meta demo_sb" for n
    using that demo_meta(1) demo_meta(2) [of n] by (auto simp: meta_def word_less_nat_alt)
  moreover have "n < 1000" if "n < 48" for n :: uint32 using that by (simp add: word_less_nat_alt)
  moreover have "map_blocks demo_sb \<inter> (\<lambda>i. IBLOCK i demo_sb) ` {i. i < sb_ninodes demo_sb} = {}"
    using demo_meta(1) demo_meta(2) [of 45] by fastforce
  moreover have "sb_size demo_sb = 1000" by (simp add: demo_sb_def)
  ultimately show ?thesis using demo_map(1) by (auto simp: layout_ok_def demo_disk_def BSIZE_def)
qed

lemma demo_file_ok:
  assumes "inum < 200" and "as = replicate 13 0 \<or> as = 46 # replicate 12 0"
  shows "file_ok demo_sb demo_disk (demo_inode inum sz as)"
proof -
  have blk: "blk_of demo_disk (demo_inode inum sz as) k = (if k = 0 then hd as else 0)" for k
    using assms(2) by (auto simp: blk_of_def demo_inode_def NDIRECT_def nth_Cons split: nat.splits)
  have ind: "i_addrs (demo_inode inum sz as) ! NDIRECT = 0" using assms(2) by (auto simp: demo_inode_def NDIRECT_def nth_Cons split: nat.splits)
  have "46 \<notin> meta demo_sb" using demo_meta(1) demo_meta(2) [of 46] by (auto simp: meta_def)
  moreover have "used demo_sb demo_disk 46" using demo_map(1) [of 46] by simp
  moreover have "file_blocks demo_disk (demo_inode inum sz as) \<subseteq> {46}" using blk ind assms(2) by (auto simp: file_blocks_def)
  ultimately show ?thesis using demo_layout blk ind assms
    by (auto simp: file_ok_def inj_on_def demo_sb_def demo_inode_def NDIRECT_def)
qed

lemma demo_file_at: "file_at demo_fs 0" "file_at demo_fs 1" "itable demo_fs ! 0 = demo_inode 5 0 (replicate 13 0)"
    "itable demo_fs ! 1 = demo_inode 6 5 (46 # replicate 12 0)"
proof -
  show it: "itable demo_fs ! 0 = demo_inode 5 0 (replicate 13 0)" "itable demo_fs ! 1 = demo_inode 6 5 (46 # replicate 12 0)"
    by (simp_all add: demo_fs_def log.extend_def fs.fields_def)
  have "length (itable demo_fs) = 2" by (simp add: demo_fs_def log.extend_def fs.fields_def)
  then show "file_at demo_fs 0" "file_at demo_fs 1" using demo_fs_inv demo_fs_views it demo_file_ok [of 5] demo_file_ok [of 6]
    by (simp_all add: file_at_def)
qed

lemma demo_dense: "blk_of demo_disk (demo_inode 6 5 (46 # replicate 12 0)) 0 = 46" "dense (fsval demo_fs) (demo_inode 6 5 (46 # replicate 12 0))"
    "contents (fsval demo_fs) (demo_inode 6 5 (46 # replicate 12 0)) = [10, 20, 30, 40, 50]"
proof -
  let ?ip = "demo_inode 6 5 (46 # replicate 12 0)"
  show blk: "blk_of demo_disk ?ip 0 = 46" by (simp add: blk_of_def demo_inode_def NDIRECT_def)
  have sz: "unat (i_size ?ip) = 5" by (simp add: demo_inode_def)
  have "blk_of demo_disk ?ip k \<noteq> 0" if "k * BSIZE < 5" for k
  proof -
    have "k = 0" using that by (simp add: BSIZE_def)
    then show ?thesis using blk by simp
  qed
  then show "dense (fsval demo_fs) ?ip" by (simp add: dense_def demo_fs_views sz BSIZE_def MAXFILE_def NDIRECT_def)
  have "fdata demo_disk ?ip 0 = [10, 20, 30, 40, 50] @ replicate (BSIZE - 5) 0" using blk by (simp add: fdata_def demo_disk_def)
  then have "fbyte demo_disk ?ip j = [10, 20, 30, 40, 50] ! j" if "j < 5" for j
    using that nth_append [of "[10, 20, 30, 40, 50]" "replicate (BSIZE - 5) 0" j] by (simp add: fbyte_def BSIZE_def)
  then show "contents (fsval demo_fs) ?ip = [10, 20, 30, 40, 50]" by (intro nth_equalityI) (simp_all add: contents_def sz demo_fs_views)
qed

theorem readi_delivers_contents_witness:
  "\<exists>s'. readi 1 (DstUser 16) 1 3 demo_fs = Ok (3, [20, 30, 40]) s' \<and> ubyte s' 0x87ff0000 17 = Some 30"
proof -
  let ?ip = "demo_inode 6 5 (46 # replicate 12 0)"
  have k: "avail ?ip (unat (1 :: uint32)) (unat (3 :: uint32)) = 3" by (simp add: avail_def demo_inode_def)
  have c: "slice 1 3 (contents (fsval demo_fs) ?ip) = [20, 30, 40]" by (simp add: slice_def demo_dense)
  have "umapped demo_fs 0x87ff0000 16 3" using demo_fs_user(4) demo_umapped by simp
  from readi_delivers_contents [OF demo_file_at(2), unfolded demo_file_at(4), OF demo_dense(2) demo_fs_room demo_fs_user(1,2), of 16 1 3, unfolded k, OF _ this]
  obtain s' where s': "readi 1 (DstUser 16) 1 3 demo_fs = Ok (3, [20, 30, 40]) s'"
      "\<forall>vb. ubyte s' 0x87ff0000 vb = (if unat (vb - 16) < 3 then Some ([20, 30, 40] ! unat (vb - 16)) else ubyte demo_fs 0x87ff0000 vb)"
    using c by auto
  then show ?thesis using s'(2) [THEN spec, of 17] by auto
qed

end
