(* ===== verification/Writei.thy ===== *)
theory Writei
  imports Readi
begin

text \<open>
  Writing files: \<open>writei\<close> puts the bytes it is given into the file, extends it where it has to, and changes no other
  file. The locale \<open>source\<close> is what the loop asks of the place the bytes come from; it is interpreted for variables
  of the kernel and for user memory.
\<close>

subsection \<open>What a write does to the blocks\<close>

definition wrote_at :: "superblock \<Rightarrow> (uint32 \<Rightarrow> byte list) \<Rightarrow> inode \<Rightarrow> (uint32 \<Rightarrow> byte list) \<Rightarrow> inode \<Rightarrow> nat \<Rightarrow> byte list \<Rightarrow> bool" where
  "wrote_at g v ip v' ip' p bs \<longleftrightarrow> file_ok g v' ip' \<and> ip' = ip\<lparr>i_addrs := i_addrs ip'\<rparr> \<and> others_kept g v ip v' ip' \<and>
     (\<forall>x<MAXFILE * BSIZE. fbyte v' ip' x = (if p \<le> x \<and> x < p + length bs then bs ! (x - p) else fbyte v ip x)) \<and>
     (\<forall>k<MAXFILE. blk_of v ip k \<noteq> 0 \<or> (\<exists>x. p \<le> x \<and> x < p + length bs \<and> x div BSIZE = k) \<longrightarrow> blk_of v' ip' k \<noteq> 0)"

lemma wrote_at_nil: "file_ok g v ip \<Longrightarrow> wrote_at g v ip v ip p []"
  by (auto simp: wrote_at_def others_kept_def)

lemma wrote_at_trans:
  assumes "wrote_at g v ip v1 ip1 p bs" and "wrote_at g v1 ip1 v2 ip2 (p + length bs) cs"
  shows "wrote_at g v ip v2 ip2 p (bs @ cs)"
proof -
  have "ip2 = ip\<lparr>i_addrs := i_addrs ip2\<rparr>" using assms by (cases ip; cases ip1; cases ip2) (simp add: wrote_at_def)
  moreover have "others_kept g v ip v2 ip2" using assms others_kept_trans unfolding wrote_at_def by blast
  moreover have "fbyte v2 ip2 x = (if p \<le> x \<and> x < p + length (bs @ cs) then (bs @ cs) ! (x - p) else fbyte v ip x)"
    if "x < MAXFILE * BSIZE" for x
    using assms that by (auto simp: wrote_at_def nth_append)
  moreover have "blk_of v2 ip2 k \<noteq> 0"
    if k: "k < MAXFILE" "blk_of v ip k \<noteq> 0 \<or> (\<exists>x. p \<le> x \<and> x < p + length (bs @ cs) \<and> x div BSIZE = k)" for k
  proof (cases "blk_of v1 ip1 k \<noteq> 0")
    case True
    then show ?thesis using assms(2) k(1) by (auto simp: wrote_at_def)
  next
    case False
    then have n: "blk_of v ip k = 0" "\<not> (\<exists>x. p \<le> x \<and> x < p + length bs \<and> x div BSIZE = k)" using assms(1) k(1) by (auto simp: wrote_at_def)
    then obtain x where "p \<le> x" "x < p + length (bs @ cs)" "x div BSIZE = k" using k(2) by auto
    moreover then have "p + length bs \<le> x" using n(2) by (auto simp: not_less [symmetric])
    ultimately have "\<exists>x. p + length bs \<le> x \<and> x < p + length bs + length cs \<and> x div BSIZE = k" by (intro exI [of _ x]) simp
    then show ?thesis using assms(2) k(1) unfolding wrote_at_def by blast
  qed
  ultimately show ?thesis using assms(2) by (simp add: wrote_at_def)
qed

lemma wrote_at_block:
  assumes e: "file_ext g v ip v1 ip1" and k: "p div BSIZE < MAXFILE" "blk_of v1 ip1 (p div BSIZE) \<noteq> 0"
    and l: "p mod BSIZE + length bs \<le> BSIZE"
  defines "v2 \<equiv> v1(blk_of v1 ip1 (p div BSIZE) := splice (p mod BSIZE) bs (fdata v ip (p div BSIZE)))"
  shows "wrote_at g v ip v2 ip1 p bs"
proof -
  let ?k = "p div BSIZE" let ?d = "splice (p mod BSIZE) bs (fdata v ip ?k)"
  have ok: "file_ok g v1 ip1" "others_kept g v ip v1 ip1" using e by (simp_all add: file_ext_def)
  have len: "length (fdata v ip ?k) = BSIZE"
    using e k(1) fdata_length [OF file_ok_layout(1) [OF ok(1)], of ip1 ?k] by (simp add: file_ext_def)
  then have ld: "length ?d = BSIZE" using l by simp
  note w = file_write_block [OF ok(1) k ld, folded v2_def]
  have fd: "fdata v2 ip1 j = (if j = ?k then ?d else fdata v ip j)" if "j < MAXFILE" for j
    using w(4) [OF that] e that by (auto simp: file_ext_def)
  have pos: "BSIZE > 0" by (simp add: BSIZE_def)
  have same_block: "x div BSIZE = ?k" if "p \<le> x" "x < p + length bs" for x
  proof -
    have "p mod BSIZE + (x - p) < BSIZE" using that l by linarith
    from div_mod_offset(1) [OF this] show ?thesis using that by simp
  qed
  have "fbyte v2 ip1 x = (if p \<le> x \<and> x < p + length bs then bs ! (x - p) else fbyte v ip x)" if x: "x < MAXFILE * BSIZE" for x
  proof (cases "x div BSIZE = ?k")
    case True
    then have xp: "x = ?k * BSIZE + x mod BSIZE" using div_mult_mod_eq [of x BSIZE] by simp
    have pp: "p = ?k * BSIZE + p mod BSIZE" by (rule div_mult_mod_eq [symmetric])
    have eq: "x - p = x mod BSIZE - p mod BSIZE" "p \<le> x \<longleftrightarrow> p mod BSIZE \<le> x mod BSIZE"
        "x < p + length bs \<longleftrightarrow> x mod BSIZE < p mod BSIZE + length bs"
      using xp pp by linarith+
    have "x mod BSIZE < BSIZE" using pos by simp
    then have "?d ! (x mod BSIZE) = (if p mod BSIZE \<le> x mod BSIZE \<and> x mod BSIZE < p mod BSIZE + length bs
        then bs ! (x mod BSIZE - p mod BSIZE) else fdata v ip ?k ! (x mod BSIZE))"
      using len l by (subst nth_splice) simp_all
    then show ?thesis using True fd [of ?k] k(1) eq by (simp add: fbyte_def)
  next
    case False
    have "\<not> (p \<le> x \<and> x < p + length bs)" using same_block [of x] False by blast
    moreover have "x div BSIZE < MAXFILE" using x by (simp add: less_mult_imp_div_less)
    ultimately show ?thesis using False fd by (auto simp: fbyte_def)
  qed
  moreover have "blk_of v2 ip1 j \<noteq> 0" if j: "j < MAXFILE" "blk_of v ip j \<noteq> 0 \<or> (\<exists>x. p \<le> x \<and> x < p + length bs \<and> x div BSIZE = j)" for j
  proof (cases "j = ?k")
    case False
    then have "blk_of v ip j \<noteq> 0" using j(2) same_block by auto
    then show ?thesis using w(3) [OF j(1)] e j(1) by (simp add: file_ext_def)
  qed (use w(3) k in simp)
  ultimately show ?thesis using w(1) others_kept_trans [OF ok(2) w(2)] e by (simp add: wrote_at_def file_ext_def)
qed

subsection \<open>One iteration\<close>

definition wcost :: "(uint32 \<Rightarrow> byte list) \<Rightarrow> inode \<Rightarrow> nat \<Rightarrow> nat" where
  "wcost v ip k = (if blk_of v ip k = 0 then 2 else 1)"

text \<open>The block of the file, present or added, and what is left of the room in the transaction.\<close>

lemma bmap_for_write:
  fixes s :: "'a fs_scheme"
  assumes at: "file_at s i" and k: "k < MAXFILE" and r: "room (wcost (fsval s) (itable s ! i) k + ind_cost s (itable s ! i) + Suc m) 2 s"
    and f: "blk_of (fsval s) (itable s ! i) k = 0 \<Longrightarrow> 0 < spare (sb s) (fsval s) (itable s ! i)"
  obtains s' ip where "bmap i (of_nat k) s = Ok (blk_of (fsval s') ip k) s'" and "blk_of (fsval s') ip k \<noteq> 0" and "grew s i ip s'"
    and "room (of_bool (blk_of (fsval s') ip k \<notin> set (logged s')) + ind_cost s' ip + Suc m) 2 s'"
    and "spare (sb s) (fsval s) (itable s ! i) \<le> spare (sb s) (fsval s') ip + of_bool (blk_of (fsval s) (itable s ! i) k = 0)"
proof (cases "blk_of (fsval s) (itable s ! i) k = 0")
  case True
  then have r': "room (2 + ind_cost s (itable s ! i) + Suc m) 2 s" using r by (simp add: wcost_def)
  show ?thesis by (rule bmap_absent [OF at k True r' f [OF True]]) (use that True in auto)
next
  case False
  let ?ip = "itable s ! i"
  have inv: "op_inv s" "file_ok (sb s) (fsval s) ?ip" using at by (simp_all add: file_at_def)
  have "room 0 1 s" by (rule room_mono [OF r]) simp_all
  then obtain s' where s': "bmap i (of_nat k) s = Ok (blk_of (fsval s) ?ip k) s'" "blk_run s s' (fsval s) {}"
    by (rule bmap_present [OF at k False])
  note v = blk_runD(2) [OF s'(2)]
  have g: "grew s i ?ip s'" using grew_run [OF at s'(2)] file_ext_refl [OF inv(2)] by simp
  have c: "ind_cost s' ?ip = ind_cost s ?ip" "wcost (fsval s) ?ip k = 1" using blk_runD(7) [OF s'(2)] False by (simp_all add: ind_cost_def wcost_def)
  have r': "room (wcost (fsval s) ?ip k + ind_cost s ?ip + Suc m) 2 s'" using room_after [OF inv(1) s'(2), of 0] r by simp
  have "room (of_bool (blk_of (fsval s') ?ip k \<notin> set (logged s')) + ind_cost s' ?ip + Suc m) 2 s'"
    by (rule room_mono [OF r']) (simp_all add: c)
  then show ?thesis using that [of s' ?ip] s' g False v by simp
qed

lemma write_chunk:
  fixes s :: "'a fs_scheme"
  assumes at: "file_at s i" and k: "p div BSIZE < MAXFILE" and l: "p mod BSIZE + length bs \<le> BSIZE"
    and r: "room (wcost (fsval s) (itable s ! i) (p div BSIZE) + ind_cost s (itable s ! i) + Suc m) 2 s"
    and f: "blk_of (fsval s) (itable s ! i) (p div BSIZE) = 0 \<Longrightarrow> 0 < spare (sb s) (fsval s) (itable s ! i)"
  obtains bn s1 b t s2 u s' ip where "bmap i (of_nat (p div BSIZE)) s = Ok bn s1" and "i_dev (itable s1 ! i) = ROOTDEV"
    and "bread ROOTDEV bn s1 = Ok b t" and "buf_data b t = Ok (fdata (fsval s) (itable s ! i) (p div BSIZE)) t"
    and "set_data b (splice (p mod BSIZE) bs (fdata (fsval s) (itable s ! i) (p div BSIZE))) t = Ok () s2"
    and "log_write b s2 = Ok () u" and "brelse b u = Ok () s'" and "user_frame s t" and "fs_step s s'"
    and "itable s' = (itable s)[i := ip]" and "wrote_at (sb s) (fsval s) (itable s ! i) (fsval s') ip p bs"
    and "room (ind_cost s' ip + Suc m) 2 s'"
    and "spare (sb s) (fsval s) (itable s ! i) \<le> spare (sb s) (fsval s') ip + of_bool (blk_of (fsval s) (itable s ! i) (p div BSIZE) = 0)"
proof -
  let ?k = "p div BSIZE" let ?v = "fsval s" let ?ip = "itable s ! i" let ?g = "sb s"
  obtain s1 ip where s1: "bmap i (of_nat ?k) s = Ok (blk_of (fsval s1) ip ?k) s1" "blk_of (fsval s1) ip ?k \<noteq> 0" "grew s i ip s1"
      "room (of_bool (blk_of (fsval s1) ip ?k \<notin> set (logged s1)) + ind_cost s1 ip + Suc m) 2 s1"
      "spare ?g ?v ?ip \<le> spare ?g (fsval s1) ip + of_bool (blk_of ?v ?ip ?k = 0)"
    by (rule bmap_for_write [OF at k r f])
  let ?bn = "blk_of (fsval s1) ip ?k" let ?d = "splice (p mod BSIZE) bs (fdata ?v ?ip ?k)"
  have at1: "file_at s1 i" "itable s1 ! i = ip" "sb s1 = ?g" using grew_at [OF at s1(3)] by simp_all
  have e: "file_ext ?g ?v ?ip (fsval s1) ip" "itable s1 = (itable s)[i := ip]" "fs_step s s1" using s1(3) by (simp_all add: grew_def)
  have inv1: "op_inv s1" "\<not> held s1 ?bn" using at1 by (simp_all add: file_at_def)
  obtain b t where t: "bread ROOTDEV ?bn s1 = Ok b t" "took s1 t b ?bn"
    using op_bread [OF inv1, of _ 1] s1(4) by (auto simp: numeral_2_eq_2)
  have data: "fsval s1 ?bn = fdata ?v ?ip ?k" using e(1) s1(2) k by (auto simp: file_ext_def fdata_def split: if_splits)
  have ld: "length ?d = BSIZE" using l op_length [OF inv1(1), of ?bn] data by simp
  have "room (of_bool (?bn \<notin> set (logged s1)) + ind_cost s1 ip + Suc m) (Suc 0) t" using took_room [OF t(2), of _ 1] s1(4) by (simp add: numeral_2_eq_2)
  then have "room 1 0 t" by (rule room_mono) simp_all
  then obtain s2 u where u: "set_data b ?d t = Ok () s2" "log_write b s2 = Ok () u" "blk_run t u ((fsval t)(?bn := ?d)) {?bn}"
    using op_store [of t b ?bn ?d] t(2) ld by (auto simp: took_def)
  obtain s' where s': "brelse b u = Ok () s'" "blk_run s1 s' ((fsval t)(?bn := ?d)) {?bn}" using took_brelse [OF t(2) u(3)] .
  have v': "fsval s' = (fsval s1)(?bn := ?d)" "itable s' = (itable s)[i := ip]"
    using blk_runD(2) [OF s'(2)] blk_run_fs(2) [OF s'(2)] t(2) e(2) by (simp_all add: took_def)
  have w: "wrote_at ?g ?v ?ip (fsval s') ip p bs" unfolding v'(1) by (rule wrote_at_block [OF e(1) k s1(2) l])
  have "card ({?bn} - set (logged s1)) \<le> of_bool (?bn \<notin> set (logged s1))" by (auto simp: insert_Diff_if)
  then have r': "room (ind_cost s1 ip + Suc m) 2 s'" using room_run [OF inv1(1) s'(2)] s1(4) by (simp add: add.assoc)
  have "ind_cost s' ip \<le> ind_cost s1 ip" using blk_runD(7) [OF s'(2)] by (auto simp: ind_cost_def)
  then have "room (ind_cost s' ip + Suc m) 2 s'" by (intro room_mono [OF r']) simp_all
  moreover have "?bn \<notin> meta ?g" using file_okD(3) [OF _ blk_in_file [OF k s1(2)]] e(1) by (auto simp: file_ext_def)
  then have "nfree ?g (fsval s') = nfree ?g (fsval s1)" unfolding v'(1) by (intro nfree_cong used_upd)
  then have "spare ?g (fsval s') ip = spare ?g (fsval s1) ip" by (simp add: spare_def)
  moreover have "i_dev (itable s1 ! i) = ROOTDEV" using at1 by (simp add: file_at_def file_ok_def)
  moreover have "fs_step s s'" using fs_step_trans [OF e(3) fs_step_run [OF s'(2)]] .
  moreover have "user_frame s t" using user_frame_trans [OF fs_step_user [OF e(3)] took_user [OF t(2)]] .
  ultimately show ?thesis using that [OF s1(1) _ t(1) _ u(1,2) s'(1)] took_data [OF t(2)] data v'(2) w s1(5) by simp
qed

subsection \<open>The blocks of a range\<close>

definition blks :: "nat \<Rightarrow> nat \<Rightarrow> nat set" where
  "blks p n = (\<lambda>x. x div BSIZE) ` {p..<p + n}"

definition range_cost :: "(uint32 \<Rightarrow> byte list) \<Rightarrow> inode \<Rightarrow> nat \<Rightarrow> nat \<Rightarrow> nat" where
  "range_cost v ip p n = sum (wcost v ip) (blks p n)"

definition range_new :: "(uint32 \<Rightarrow> byte list) \<Rightarrow> inode \<Rightarrow> nat \<Rightarrow> nat \<Rightarrow> nat" where
  "range_new v ip p n = card {k \<in> blks p n. blk_of v ip k = 0}"

lemma finite_blks [simp]: "finite (blks p n)"
  by (simp add: blks_def)

lemma blks_0 [simp]: "blks p 0 = {}"
  by (simp add: blks_def)

lemma blks_lt: "p + n \<le> MAXFILE * BSIZE \<Longrightarrow> k \<in> blks p n \<Longrightarrow> k < MAXFILE"
  by (auto simp: blks_def less_mult_imp_div_less)

lemma blks_split:
  assumes m: "0 < m" "p mod BSIZE + m \<le> BSIZE" and e: "m = n \<or> p mod BSIZE + m = BSIZE" "m \<le> n"
  shows "blks p n = insert (p div BSIZE) (blks (p + m) (n - m))" and "p div BSIZE \<notin> blks (p + m) (n - m)"
proof -
  have one: "x div BSIZE = p div BSIZE" if "x \<in> {p..<p + m}" for x
  proof -
    have "p mod BSIZE + (x - p) < BSIZE" using that m by auto
    from div_mod_offset(1) [OF this] show ?thesis using that by simp
  qed
  have "{p..<p + n} = {p..<p + m} \<union> {p + m..<p + m + (n - m)}" using e(2) by auto
  then have "blks p n = (\<lambda>x. x div BSIZE) ` {p..<p + m} \<union> blks (p + m) (n - m)" by (simp add: blks_def image_Un)
  also have "(\<lambda>x. x div BSIZE) ` {p..<p + m} = (\<lambda>x. p div BSIZE) ` {p..<p + m}" by (rule image_cong [OF refl one])
  also have "\<dots> = {p div BSIZE}" using m(1) by (simp add: image_constant_conv)
  finally show "blks p n = insert (p div BSIZE) (blks (p + m) (n - m))" by simp
  show "p div BSIZE \<notin> blks (p + m) (n - m)"
  proof (cases "m = n")
    case False
    then have "p mod BSIZE + m = BSIZE" using e(1) by simp
    moreover have "p = p div BSIZE * BSIZE + p mod BSIZE" "(p div BSIZE + 1) * BSIZE = p div BSIZE * BSIZE + BSIZE" by simp_all
    ultimately have "p + m = (p div BSIZE + 1) * BSIZE" by linarith
    then have "p div BSIZE \<noteq> x div BSIZE" if "x \<in> {p + m..<p + m + (n - m)}" for x
      using div_le_mono [of "p + m" x BSIZE] that by (auto simp: BSIZE_def)
    then show ?thesis unfolding blks_def by blast
  qed simp
qed

lemma wcost_mono: "(blk_of v ip k \<noteq> 0 \<Longrightarrow> blk_of v' ip' k \<noteq> 0) \<Longrightarrow> wcost v' ip' k \<le> wcost v ip k"
  by (auto simp: wcost_def)

lemma range_split:
  assumes "0 < m" "p mod BSIZE + m \<le> BSIZE" and "m = n \<or> p mod BSIZE + m = BSIZE" "m \<le> n"
  shows "range_cost v ip p n = wcost v ip (p div BSIZE) + range_cost v ip (p + m) (n - m)"
    and "range_new v ip p n = of_bool (blk_of v ip (p div BSIZE) = 0) + range_new v ip (p + m) (n - m)"
proof -
  let ?k = "p div BSIZE" let ?R = "blks (p + m) (n - m)"
  note s = blks_split [OF assms]
  show "range_cost v ip p n = wcost v ip ?k + range_cost v ip (p + m) (n - m)"
    using s(2) unfolding range_cost_def s(1) by simp
  have "{k \<in> blks p n. blk_of v ip k = 0} = (if blk_of v ip ?k = 0 then {?k} else {}) \<union> {k \<in> ?R. blk_of v ip k = 0}"
    unfolding s(1) by auto
  then show "range_new v ip p n = of_bool (blk_of v ip ?k = 0) + range_new v ip (p + m) (n - m)"
    using s(2) by (simp add: range_new_def card_insert_if)
qed

lemma range_mono:
  assumes b: "p + n \<le> MAXFILE * BSIZE" and w: "\<And>k. k < MAXFILE \<Longrightarrow> blk_of v ip k \<noteq> 0 \<Longrightarrow> blk_of v' ip' k \<noteq> 0"
  shows "range_cost v' ip' p n \<le> range_cost v ip p n" and "range_new v' ip' p n \<le> range_new v ip p n"
proof -
  show "range_cost v' ip' p n \<le> range_cost v ip p n"
    unfolding range_cost_def using w blks_lt [OF b] by (intro sum_mono wcost_mono) blast
  show "range_new v' ip' p n \<le> range_new v ip p n"
    unfolding range_new_def using w blks_lt [OF b] by (intro card_mono) auto
qed

subsection \<open>The loop\<close>

locale source =
  fixes src :: ksrc and data :: "byte list" and ready :: "'a fs_scheme \<Rightarrow> bool"
  assumes ready_frame: "ready s \<Longrightarrow> user_frame s s' \<Longrightarrow> ready s'"
    and fetch: "ready s \<Longrightarrow> tot + m \<le> length data \<Longrightarrow> copy_from src (of_nat tot) m s = Ok (0, slice tot m data) s"
begin

lemma writei_loop:
  fixes s :: "'a fs_scheme"
  assumes "file_at s i" and "ready s" and "unat tot \<le> unat n" and "unat n = length data"
    and "unat off + (unat n - unat tot) \<le> MAXFILE * BSIZE"
    and "room (range_cost (fsval s) (itable s ! i) (unat off) (unat n - unat tot) + ind_cost s (itable s ! i) + Suc m) 2 s"
    and "range_new (fsval s) (itable s ! i) (unat off) (unat n - unat tot) \<le> spare (sb s) (fsval s) (itable s ! i)"
  shows "\<exists>s' ip. writei_from i src off n tot s = Ok (off + (n - tot), n) s' \<and> fs_step s s' \<and> itable s' = (itable s)[i := ip] \<and>
    wrote_at (sb s) (fsval s) (itable s ! i) (fsval s') ip (unat off) (drop (unat tot) data) \<and> room (Suc m) 2 s'"
  using assms
proof (induction "unat n - unat tot" arbitrary: s off tot rule: less_induct)
  case less
  let ?ip = "itable s ! i" let ?v = "fsval s" let ?g = "sb s"
  show ?case
  proof (cases "tot < n")
    case False
    then have "unat n = unat tot" using less.prems(3) by (simp add: word_less_nat_alt)
    then have e: "n = tot" by (simp add: word_unat_eq_iff)
    have "room (Suc m) 2 s" by (rule room_mono [OF less.prems(6)]) simp_all
    then show ?thesis using less.prems(1,4) e wrote_at_nil [of ?g ?v ?ip "unat off"] fs_step_refl [of s]
      by (intro exI [of _ s] exI [of _ ?ip]) (simp add: writei_from.simps file_at_def)
  next
    case True
    define c where "c = unat (chunk n tot off)" define p where "p = unat off" define l where "l = unat n - unat tot"
    let ?k = "p div BSIZE" let ?bs = "slice (unat tot) c data" let ?off = "off + chunk n tot off" let ?tot = "tot + chunk n tot off"
    note ch = chunk_pos [OF True, of off, folded c_def p_def l_def] and rs = range_split [OF ch(1,4,5,2)]
    have room: "p + l \<le> MAXFILE * BSIZE" using less.prems(5) by (simp add: p_def l_def)
    then have small: "p + l < 2 ^ 32" by (simp add: MAXFILE_def NDIRECT_def NINDIRECT_def BSIZE_def)
    have st: "unat ?tot = unat tot + c" "unat ?off = p + c"
      using chunk_step [OF True, of off] small by (simp_all add: c_def p_def l_def)
    have lbs: "length ?bs = c" using ch(2) less.prems(3,4) by (simp add: l_def)
    have "?k \<in> blks p l" using ch(1,2) by (auto simp: blks_def)
    then have kM: "?k < MAXFILE" using blks_lt [OF room] by blast
    have fit: "p mod BSIZE + length ?bs \<le> BSIZE" using ch(4) lbs by simp
    have r: "room (wcost ?v ?ip ?k + ind_cost s ?ip + Suc (range_cost ?v ?ip (p + c) (l - c) + m)) 2 s"
      by (rule room_mono [OF less.prems(6)]) (simp_all add: rs(1) flip: p_def l_def)
    have f: "0 < spare ?g ?v ?ip" if "blk_of ?v ?ip ?k = 0"
      using less.prems(7) that unfolding p_def [symmetric] l_def [symmetric] rs(2) by simp
    obtain bn s1 b t s2 u s' ip where e: "bmap i (of_nat ?k) s = Ok bn s1" "i_dev (itable s1 ! i) = ROOTDEV"
        "bread ROOTDEV bn s1 = Ok b t" "buf_data b t = Ok (fdata ?v ?ip ?k) t"
        "set_data b (splice (p mod BSIZE) ?bs (fdata ?v ?ip ?k)) t = Ok () s2"
        "log_write b s2 = Ok () u" "brelse b u = Ok () s'" "user_frame s t" "fs_step s s'"
        "itable s' = (itable s)[i := ip]" "wrote_at ?g ?v ?ip (fsval s') ip p ?bs"
        "room (ind_cost s' ip + Suc (range_cost ?v ?ip (p + c) (l - c) + m)) 2 s'"
        "spare ?g ?v ?ip \<le> spare ?g (fsval s') ip + of_bool (blk_of ?v ?ip ?k = 0)"
      by (rule write_chunk [OF less.prems(1) kM fit r f])
    have cp: "copy_from src tot c t = Ok (0, ?bs) t"
      using fetch [OF ready_frame [OF less.prems(2) e(8)], of "unat tot" c] ch(2) less.prems(3,4) by (simp add: l_def)
    have run: "writei_from i src off n tot s = writei_from i src ?off n ?tot s'"
      using True e(1-7) cp block_index [of off]
      by (subst writei_from.simps) (simp add: bind_def Let_def p_def c_def)
    have i: "i < length (itable s)" "sb s' = ?g" using less.prems(1) fs_stepD(4) [OF e(9)] by (simp_all add: file_at_def)
    have at': "file_at s' i" "itable s' ! i = ip"
      using file_at_step [OF less.prems(1) e(9,10)] e(10,11) i by (simp_all add: wrote_at_def)
    have keep: "blk_of (fsval s') ip j \<noteq> 0" if "j < MAXFILE" "blk_of ?v ?ip j \<noteq> 0" for j
      using e(11) that by (auto simp: wrote_at_def)
    have rm: "range_cost (fsval s') ip (p + c) (l - c) \<le> range_cost ?v ?ip (p + c) (l - c)"
        "range_new (fsval s') ip (p + c) (l - c) \<le> range_new ?v ?ip (p + c) (l - c)"
      using range_mono [of "p + c" "l - c", OF _ keep] room ch(2) by simp_all
    have lc: "unat n - unat ?tot = l - c" using st(1) by (simp add: l_def)
    have pre: "unat ?tot \<le> unat n" "unat ?off + (unat n - unat ?tot) \<le> MAXFILE * BSIZE"
        "range_new (fsval s') (itable s' ! i) (unat ?off) (unat n - unat ?tot) \<le> spare (sb s') (fsval s') (itable s' ! i)"
      using st ch(2) less.prems(3) room e(13) rm(2) less.prems(7) unfolding at'(2) lc i(2) p_def [symmetric] l_def [symmetric] rs(2)
      by (simp_all add: l_def)
    have r': "room (range_cost (fsval s') (itable s' ! i) (unat ?off) (unat n - unat ?tot) + ind_cost s' (itable s' ! i) + Suc m) 2 s'"
      unfolding at'(2) lc st(2) by (rule room_mono [OF e(12)]) (use rm(1) in simp_all)
    have less': "unat n - unat ?tot < unat n - unat tot" using lc ch(1,2) by (simp add: l_def)
    have rd: "ready s'" using ready_frame [OF less.prems(2) fs_step_user [OF e(9)]] .
    obtain w ip' where w: "writei_from i src ?off n ?tot s' = Ok (?off + (n - ?tot), n) w" "fs_step s' w"
        "itable w = (itable s')[i := ip']" "wrote_at ?g (fsval s') ip (fsval w) ip' (p + c) (drop (unat tot + c) data)" "room (Suc m) 2 w"
      using less.hyps [OF less' at'(1) rd pre(1) less.prems(4) pre(2) r' pre(3)] unfolding at'(2) i(2) st by blast
    have "?bs @ drop (unat tot + c) data = drop (unat tot) data" by (simp add: slice_def append_take_drop_id add.commute flip: drop_drop)
    moreover have "wrote_at ?g ?v ?ip (fsval w) ip' p (?bs @ drop (unat tot + c) data)"
      using wrote_at_trans [OF e(11), of "fsval w" ip' "drop (unat tot + c) data"] w(4) lbs by simp
    moreover have "?off + (n - ?tot) = off + (n - tot)" by simp
    ultimately show ?thesis using w run e(10) fs_step_trans [OF e(9) w(2)] by (intro exI [of _ w] exI [of _ ip']) (simp add: p_def)
  qed
qed

end

end
