(* ===== verification/Writefile.thy ===== *)
theory Writefile
  imports Writei File
begin

text \<open>
  Writing files, continued: \<open>iupdate\<close> puts the in-memory inode on the disk, \<open>writei\<close> as a whole replaces a part of
  the contents and extends the file, and a piece of \<open>filewrite\<close> fits in the blocks a transaction has reserved.
\<close>

subsection \<open>The inode on the disk\<close>

definition dinode_of :: "inode \<Rightarrow> dinode" where
  "dinode_of ip = \<lparr>di_type = i_type ip, di_major = i_major ip, di_minor = i_minor ip, di_nlink = i_nlink ip,
     di_size = i_size ip, di_addrs = i_addrs ip\<rparr>"

lemma dinode_room: "dinode_off j + DINODE_SIZE \<le> BSIZE"
proof -
  have "unat j mod 16 \<le> 15" by simp
  then show ?thesis by (simp only: dinode_off_def IPB_def DINODE_SIZE_def BSIZE_def) simp
qed

lemma put_dinode_get:
  assumes "length d = BSIZE" and "length (di_addrs di) = NDIRECT + 1"
  shows "get_dinode j (put_dinode j di d) = di" and "length (put_dinode j di d) = BSIZE"
  using assms dinode_room [of j] slice_splice [of "dinode_off j" "enc_dinode di" d]
  by (simp_all add: get_dinode_def put_dinode_def length_enc_dinode dec_enc_dinode)

lemma put_dinode_other:
  assumes "length d = BSIZE" and "length (di_addrs di) = NDIRECT + 1" and "dinode_off k \<noteq> dinode_off j"
  shows "get_dinode k (put_dinode j di d) = get_dinode k d"
proof -
  have "dinode_off j + DINODE_SIZE \<le> dinode_off k \<or> dinode_off k + DINODE_SIZE \<le> dinode_off j"
    using assms(3) by (simp add: dinode_off_def DINODE_SIZE_def) linarith
  then show ?thesis
    using assms(1,2) dinode_room [of j] dinode_room [of k] slice_splice_other [of "dinode_off j" "enc_dinode di" d "dinode_off k" DINODE_SIZE]
    by (simp add: get_dinode_def put_dinode_def length_enc_dinode)
qed

lemma inode_slots: "IBLOCK k g = IBLOCK j g \<Longrightarrow> dinode_off k = dinode_off j \<Longrightarrow> k = j"
proof -
  assume b: "IBLOCK k g = IBLOCK j g" and o: "dinode_off k = dinode_off j"
  have "k div 16 = j div 16" using b by (simp add: IBLOCK_def IPB_def DINODE_SIZE_def BSIZE_def)
  then have "unat k div 16 = unat j div 16" using unat_div [of k 16] unat_div [of j 16] by simp
  moreover have "unat k mod 16 = unat j mod 16" using o by (simp add: dinode_off_def IPB_def DINODE_SIZE_def BSIZE_def)
  ultimately have "unat k = unat j" by (metis div_mult_mod_eq)
  then show "k = j" by (simp add: word_unat_eq_iff)
qed

lemma put_inode:
  assumes ok: "file_ok g v ip"
  defines "v' \<equiv> v(IBLOCK (i_inum ip) g := put_dinode (i_inum ip) (dinode_of ip) (v (IBLOCK (i_inum ip) g)))"
  shows "file_ok g v' ip" and "others_kept g v ip v' ip" and "disk_inode g v' (i_inum ip) = dinode_of ip"
    and "\<And>k. k < MAXFILE \<Longrightarrow> blk_of v' ip k = blk_of v ip k" and "\<And>k. k < MAXFILE \<Longrightarrow> fdata v' ip k = fdata v ip k"
proof -
  let ?b = "IBLOCK (i_inum ip) g" let ?j = "i_inum ip"
  have j: "?j < sb_ninodes g" "length (di_addrs (dinode_of ip)) = NDIRECT + 1" using ok by (simp_all add: file_ok_def dinode_of_def)
  note lay = file_ok_layout(1) [OF ok] and b = inode_block [OF file_ok_layout(1) [OF ok] j(1)]
  have len: "length (v ?b) = BSIZE" using lay by (simp add: layout_ok_def)
  note pg = put_dinode_get [OF len j(2), of ?j]
  have keep: "v' n = v n" if "n \<noteq> ?b" for n using that by (simp add: v'_def)
  have nf: "n \<noteq> ?b" if "n \<in> file_blocks v ip" for n using file_okD(3) [OF ok that] b(1) by auto
  have used: "used g v' n = used g v n" if "n < sb_size g" for n
  proof -
    have "BBLOCK n g \<in> map_blocks g" using that by (simp add: map_blocks_def)
    then show ?thesis using b(2) keep [of "BBLOCK n g"] by (metis used_def)
  qed
  show blk: "blk_of v' ip k = blk_of v ip k" if "k < MAXFILE" for k
    using keep nf [OF ind_in_file] by (simp add: blk_of_def)
  show "fdata v' ip k = fdata v ip k" if "k < MAXFILE" for k
    using keep nf [OF blk_in_file [OF that]] blk [OF that] by (simp add: fdata_def)
  have fb: "file_blocks v' ip = file_blocks v ip" using blk by (auto simp: file_blocks_def)
  have "layout_ok g v'" using lay used pg(2) by (auto simp: layout_ok_def v'_def)
  moreover have "inj_on (blk_of v' ip) {k. k < MAXFILE \<and> blk_of v' ip k \<noteq> 0}" using ok blk by (auto simp: file_ok_def inj_on_def)
  ultimately show "file_ok g v' ip" using ok blk fb used by (auto simp: file_ok_def)
  have "disk_inode g v' k = disk_inode g v k" if "k \<noteq> ?j" for k
  proof (cases "IBLOCK k g = ?b")
    case True
    then show ?thesis using put_dinode_other [OF len j(2), of k ?j] inode_slots [OF True] that by (auto simp: disk_inode_def v'_def)
  qed (simp add: disk_inode_def v'_def)
  moreover have "n \<noteq> ?b" if "n \<notin> meta g" for n using b(1) that by auto
  ultimately show "others_kept g v ip v' ip" using used fb keep by (simp add: others_kept_def)
  show "disk_inode g v' ?j = dinode_of ip" using pg(1) by (simp add: disk_inode_def v'_def)
qed

lemma iupdate_spec:
  fixes s :: "'a fs_scheme"
  assumes at: "file_at s i" and r: "room 1 1 s"
  obtains s' where "iupdate i s = Ok () s'" and "fs_step s s'" and "itable s' = itable s"
    and "fsval s' = (fsval s)(IBLOCK (i_inum (itable s ! i)) (sb s) :=
      put_dinode (i_inum (itable s ! i)) (dinode_of (itable s ! i)) (fsval s (IBLOCK (i_inum (itable s ! i)) (sb s))))"
proof -
  let ?ip = "itable s ! i" let ?b = "IBLOCK (i_inum ?ip) (sb s)" let ?d = "put_dinode (i_inum ?ip) (dinode_of ?ip) (fsval s ?b)"
  have inv: "op_inv s" "\<not> held s ?b" and ok: "file_ok (sb s) (fsval s) ?ip" using at by (simp_all add: file_at_def)
  have dev: "i_dev ?ip = ROOTDEV" and len: "length (di_addrs (dinode_of ?ip)) = NDIRECT + 1" using ok by (simp_all add: file_ok_def dinode_of_def)
  have r1: "room 1 (Suc 0) s" using r by simp
  obtain b t where t: "bread ROOTDEV ?b s = Ok b t" "took s t b ?b" by (rule op_bread [OF inv r1])
  have d: "length ?d = BSIZE" using put_dinode_get(2) [OF op_length [OF inv(1)] len] .
  have tb: "op_inv t" "mine t b ?b" "fsval t = fsval s" using t(2) by (simp_all add: took_def)
  obtain s1 u where u: "set_data b ?d t = Ok () s1" "log_write b s1 = Ok () u" "blk_run t u ((fsval t)(?b := ?d)) {?b}"
    by (rule op_store [OF tb(1,2) took_room [OF t(2) r1] d])
  obtain w where w: "brelse b u = Ok () w" "blk_run s w ((fsval t)(?b := ?d)) {?b}" by (rule took_brelse [OF t(2) u(3)])
  have "iupdate i s = Ok () w"
    using t(1) took_data [OF t(2)] u(1,2) w(1) dev by (simp add: iupdate_def bind_def dinode_of_def)
  then show ?thesis using that fs_step_run [OF w(2)] blk_run_fs(2) [OF w(2)] blk_runD(2) [OF w(2)] tb(3) by simp
qed

subsection \<open>The file after the write\<close>

definition overwrote :: "superblock \<Rightarrow> (uint32 \<Rightarrow> byte list) \<Rightarrow> inode \<Rightarrow> (uint32 \<Rightarrow> byte list) \<Rightarrow> inode \<Rightarrow> nat \<Rightarrow> byte list \<Rightarrow> bool" where
  "overwrote g v ip v' ip' p bs \<longleftrightarrow> file_ok g v' ip' \<and> dense v' ip' \<and> ip' = ip\<lparr>i_size := i_size ip', i_addrs := i_addrs ip'\<rparr> \<and>
     contents v' ip' = take p (contents v ip) @ bs @ drop (p + length bs) (contents v ip) \<and>
     disk_inode g v' (i_inum ip') = dinode_of ip' \<and> others_kept g v ip v' ip'"

lemma size_irrelevant [simp]:
  "blk_of v (ip\<lparr>i_size := n\<rparr>) k = blk_of v ip k" "fdata v (ip\<lparr>i_size := n\<rparr>) k = fdata v ip k" "fbyte v (ip\<lparr>i_size := n\<rparr>) x = fbyte v ip x"
  "file_blocks v (ip\<lparr>i_size := n\<rparr>) = file_blocks v ip" "file_ok g v (ip\<lparr>i_size := n\<rparr>) = file_ok g v ip"
proof -
  show b: "blk_of v (ip\<lparr>i_size := n\<rparr>) k = blk_of v ip k" for k by (simp add: blk_of_def)
  then show "fdata v (ip\<lparr>i_size := n\<rparr>) k = fdata v ip k" for k by (simp add: fdata_def)
  then show "fbyte v (ip\<lparr>i_size := n\<rparr>) x = fbyte v ip x" by (simp add: fbyte_def)
  have e: "blk_of v (ip\<lparr>i_size := n\<rparr>) = blk_of v ip" using b by blast
  then show "file_blocks v (ip\<lparr>i_size := n\<rparr>) = file_blocks v ip" by (simp add: file_blocks_def)
  then show "file_ok g v (ip\<lparr>i_size := n\<rparr>) = file_ok g v ip" using e by (simp add: file_ok_def)
qed

lemma overwroteI:
  assumes w: "wrote_at g v ip v1 ip1 p bs" and d: "dense v ip" and p: "p \<le> unat (i_size ip)" "p + length bs \<le> MAXFILE * BSIZE"
    and sz: "unat sz = max (unat (i_size ip)) (p + length bs)"
  defines "ip2 \<equiv> ip1\<lparr>i_size := sz\<rparr>"
  defines "v2 \<equiv> v1(IBLOCK (i_inum ip2) g := put_dinode (i_inum ip2) (dinode_of ip2) (v1 (IBLOCK (i_inum ip2) g)))"
  shows "overwrote g v ip v2 ip2 p bs"
proof -
  let ?sz = "unat sz"
  have wf: "file_ok g v1 ip2" using w by (simp add: ip2_def wrote_at_def)
  note pi = put_inode [OF wf, folded v2_def]
  have ip1: "ip1 = ip\<lparr>i_addrs := i_addrs ip1\<rparr>" and ok1: "others_kept g v ip v1 ip1" using w by (simp_all add: wrote_at_def)
  have "ip2 = ip\<lparr>i_size := i_size ip2, i_addrs := i_addrs ip2\<rparr>" unfolding ip2_def by (subst ip1) simp
  moreover have "i_inum ip2 = i_inum ip" unfolding ip2_def by (subst ip1) simp
  moreover have "others_kept g v ip v1 ip2" using ok1 by (simp add: others_kept_def ip2_def)
  moreover have small: "?sz \<le> MAXFILE * BSIZE" using d p(2) sz by (simp add: dense_def)
  have byte: "fbyte v2 ip2 x = (if p \<le> x \<and> x < p + length bs then bs ! (x - p) else fbyte v ip x)" if "x < ?sz" for x
  proof -
    have x: "x < MAXFILE * BSIZE" "x div BSIZE < MAXFILE" using that small by (auto simp: less_mult_imp_div_less)
    then have "fbyte v2 ip2 x = fbyte v1 ip1 x" using pi(5) by (simp add: fbyte_def ip2_def)
    then show ?thesis using w x(1) by (auto simp: wrote_at_def)
  qed
  have "contents v2 ip2 = take p (contents v ip) @ bs @ drop (p + length bs) (contents v ip)"
    using byte p(1) sz by (intro nth_equalityI) (auto simp: contents_def nth_append ip2_def max_def split: if_splits)
  moreover have "dense v2 ip2"
  proof -
    have "blk_of v2 ip2 k \<noteq> 0" if k: "k * BSIZE < ?sz" for k
    proof -
      have kM: "k < MAXFILE" using k small by (auto simp: BSIZE_def)
      show ?thesis
      proof (cases "k * BSIZE < unat (i_size ip)")
        case True
        then show ?thesis using d kM w pi(4) [OF kM] by (auto simp: dense_def wrote_at_def ip2_def)
      next
        case False
        then have "p \<le> k * BSIZE \<and> k * BSIZE < p + length bs \<and> k * BSIZE div BSIZE = k" using k p(1) sz by (auto simp: BSIZE_def max_def split: if_splits)
        then have "blk_of v1 ip1 k \<noteq> 0" using w kM unfolding wrote_at_def by blast
        then show ?thesis using pi(4) [OF kM] by (simp add: ip2_def)
      qed
    qed
    then show ?thesis using small by (simp add: dense_def ip2_def)
  qed
  ultimately show ?thesis using pi(1-3) others_kept_trans by (auto simp: overwrote_def)
qed

context source
begin

lemma writei_spec:
  fixes s :: "'a fs_scheme"
  assumes at: "file_at s i" and rd: "ready s" and d: "dense (fsval s) (itable s ! i)" and n: "unat n = length data"
    and off: "unat off \<le> unat (i_size (itable s ! i))" "unat off + length data \<le> MAXFILE * BSIZE"
    and r: "room (range_cost (fsval s) (itable s ! i) (unat off) (length data) + ind_cost s (itable s ! i) + 1) 2 s"
    and f: "range_new (fsval s) (itable s ! i) (unat off) (length data) \<le> spare (sb s) (fsval s) (itable s ! i)"
  shows "\<exists>s' ip. writei i src off n s = Ok (int (length data)) s' \<and> fs_step s s' \<and> itable s' = (itable s)[i := ip] \<and>
    overwrote (sb s) (fsval s) (itable s ! i) (fsval s') ip (unat off) data"
proof -
  let ?ip = "itable s ! i" let ?size = "i_size ?ip"
  have M: "MAXFILE * BSIZE < 2 ^ 31" by (simp add: MAXFILE_def NDIRECT_def NINDIRECT_def BSIZE_def)
  have nw: "\<not> off + n < off" using add_wraps [of off n] off(2) M n by simp
  have on: "unat (off + n) = unat off + length data" using off(2) M n by (simp add: unat_add_lem [THEN iffD1])
  have guard: "\<not> (off > ?size \<or> off + n < off)" "\<not> off + n > of_nat (MAXFILE * BSIZE)"
    using nw off on M by (auto simp: word_less_nat_alt word_le_nat_alt unat_of_nat simp del: of_nat_mult)
  obtain s1 ip1 where l: "writei_from i src off n 0 s = Ok (off + n, n) s1" "fs_step s s1" "itable s1 = (itable s)[i := ip1]"
      "wrote_at (sb s) (fsval s) ?ip (fsval s1) ip1 (unat off) data" "room (Suc 0) 2 s1"
    using writei_loop [OF at rd, of 0 n off 0] n off r f by auto
  define sz where "sz = (if off + n > ?size then off + n else ?size)"
  define s2 where "s2 = s1\<lparr>itable := (itable s)[i := ip1\<lparr>i_size := sz\<rparr>]\<rparr>"
  have i: "i < length (itable s)" using at by (simp add: file_at_def)
  have "ip1 = ?ip\<lparr>i_addrs := i_addrs ip1\<rparr>" using l(4) by (simp add: wrote_at_def)
  then have "i_size ip1 = ?size" by (cases ?ip; cases ip1) simp
  then have "ip1\<lparr>i_size := ?size\<rparr> = ip1" "s1\<lparr>itable := (itable s)[i := ip1]\<rparr> = s1" by (cases ip1, simp, simp flip: l(3))
  then have upd: "(if off + n > ?size then upd_inode i (\<lambda>x. x\<lparr>i_size := off + n\<rparr>) else ret ()) s1 = Ok () s2"
    using i l(3) by (simp add: upd_inode_eval s2_def sz_def)
  have st2: "fs_step s s2" using fs_step_trans [OF l(2) fs_step_upd [OF fs_stepD(1) [OF l(2)]]] by (simp add: s2_def)
  have at2: "file_at s2 i" using file_at_step [OF at st2, of "ip1\<lparr>i_size := sz\<rparr>"] l(4) by (simp add: s2_def wrote_at_def)
  have r2: "room 1 1 s2" using room_mono [OF l(5), of 1 1] by (simp add: s2_def)
  obtain s' where s': "iupdate i s2 = Ok () s'" "fs_step s2 s'" "itable s' = itable s2"
      "fsval s' = (fsval s2)(IBLOCK (i_inum (itable s2 ! i)) (sb s2) :=
      put_dinode (i_inum (itable s2 ! i)) (dinode_of (itable s2 ! i)) (fsval s2 (IBLOCK (i_inum (itable s2 ! i)) (sb s2))))"
    by (rule iupdate_spec [OF at2 r2])
  have "unat sz = max (unat ?size) (unat off + length data)" using on by (auto simp: sz_def word_less_nat_alt)
  note ov = overwroteI [OF l(4) d off this]
  have "sint n = int (length data)" using sint_small [of n] n off(2) M by simp
  then have "writei i src off n s = Ok (int (length data)) s'" using guard l(1) upd s'(1) by (simp add: writei_def bind_def)
  moreover have "itable s2 ! i = ip1\<lparr>i_size := sz\<rparr>" "sb s2 = sb s" "fsval s2 = fsval s1" using i fs_stepD(4) [OF st2] by (simp_all add: s2_def)
  ultimately show ?thesis using ov fs_step_trans [OF st2 s'(2)] s'(3,4)
    by (intro exI [of _ s'] exI [of _ "ip1\<lparr>i_size := sz\<rparr>"]) (simp add: s2_def)
qed

end

subsection \<open>The places bytes come from\<close>

interpretation local_source: source "SrcLocal bs" bs "\<lambda>_. length bs < 2 ^ 32" for bs
  by unfold_locales (simp_all add: copy_from_def unat_of_nat)

definition holds_bytes :: "uint64 \<Rightarrow> uint64 \<Rightarrow> byte list \<Rightarrow> 'a ptab_scheme \<Rightarrow> bool" where
  "holds_bytes root a bs s \<longleftrightarrow> caller s root \<and> umapped s root a (length bs) \<and> ubytes s root a (length bs) = bs \<and> length bs < 2 ^ 32"

lemma holds_part:
  assumes "holds_bytes root a bs s" and "tot + m \<le> length bs"
  shows "umapped s root (a + of_nat tot) m" and "ubytes s root (a + of_nat tot) m = slice tot m bs"
proof -
  have "umapped s root a (tot + (m + (length bs - (tot + m))))" using assms by (simp add: holds_bytes_def)
  then show "umapped s root (a + of_nat tot) m" unfolding umapped_add by blast
  have "ubytes s root a (tot + (m + (length bs - (tot + m)))) = bs" using assms by (simp add: holds_bytes_def)
  then have "bs = ubytes s root a tot @ ubytes s root (a + of_nat tot) m @ ubytes s root (a + of_nat tot + of_nat m) (length bs - (tot + m))"
    by (metis ubytes_add)
  then show "ubytes s root (a + of_nat tot) m = slice tot m bs" by (metis (no_types, lifting) append_eq_conv_conj length_ubytes slice_def)
qed

interpretation user_source: source "SrcUser a" bs "holds_bytes root a bs" for a bs root
proof
  fix s s' :: "'a fs_scheme"
  assume h: "holds_bytes root a bs s" and f: "user_frame s s'"
  have "caller s' root" using h f caller_frame by (auto simp: holds_bytes_def)
  moreover have m: "pmem s' = pmem s" "freelist s' = freelist s" "kend s' = kend s" using f by (simp_all add: user_frame_def)
  ultimately show "holds_bytes root a bs s'" using h user_cong [OF m] by (simp add: holds_bytes_def ubytes_def)
next
  fix s :: "'a fs_scheme" and tot m :: nat
  assume h: "holds_bytes root a bs s" and l: "tot + m \<le> length bs"
  have "tot < 2 ^ 32" "pt_inv s root" using h l by (auto simp: holds_bytes_def caller_def)
  then have "(ucast (of_nat tot :: uint32) :: uint64) = of_nat tot" by (simp add: word_unat_eq_iff unat_of_nat unsigned_ucast_eq take_bit_nat_eq_self)
  then have "copy_from (SrcUser a) (of_nat tot) m s = copyin root (a + of_nat tot) m s"
    using h by (auto simp: copy_from_def either_copyin_def holds_bytes_def caller_def myproc_def bind_def)
  then show "copy_from (SrcUser a) (of_nat tot) m s = Ok (0, slice tot m bs) s"
    using copyin_spec [OF \<open>pt_inv s root\<close>, of m "a + of_nat tot"] holds_part [OF h l] by auto
qed

subsection \<open>The blocks a write logs\<close>

lemma card_blks: "p mod BSIZE + n \<le> j * BSIZE \<Longrightarrow> card (blks p n) \<le> j"
proof -
  assume l: "p mod BSIZE + n \<le> j * BSIZE"
  have "x div BSIZE < p div BSIZE + j" if "x < p + n" for x
  proof (rule less_mult_imp_div_less)
    have "p = p div BSIZE * BSIZE + p mod BSIZE" by simp
    then show "x < (p div BSIZE + j) * BSIZE" using that l by (simp only: add_mult_distrib)
  qed
  then have "blks p n \<subseteq> {p div BSIZE..<p div BSIZE + j}" by (auto simp: blks_def div_le_mono)
  then show "card (blks p n) \<le> j" using card_mono [of "{p div BSIZE..<p div BSIZE + j}" "blks p n"] by simp
qed

lemma range_cost_le: "p mod BSIZE + n \<le> j * BSIZE \<Longrightarrow> range_cost v ip p n \<le> 2 * j"
proof -
  assume l: "p mod BSIZE + n \<le> j * BSIZE"
  have "range_cost v ip p n \<le> (\<Sum>k\<in>blks p n. 2)" unfolding range_cost_def by (rule sum_mono) (simp add: wcost_def)
  then show "range_cost v ip p n \<le> 2 * j" using card_blks [OF l] by simp
qed

lemma write_cost:
  assumes d: "dense v ip" and p: "p \<le> unat (i_size ip)" and n: "n \<le> 3 * BSIZE"
  shows "range_cost v ip p n \<le> 7"
proof (cases "p mod BSIZE = 0 \<or> n = 0")
  case True
  then show ?thesis using range_cost_le [of p n 3 v ip] n by (auto simp: range_cost_def)
next
  case False
  let ?m = "min n (BSIZE - p mod BSIZE)"
  have B: "p mod BSIZE < BSIZE" by (simp add: BSIZE_def)
  have m: "0 < ?m" "p mod BSIZE + ?m \<le> BSIZE" "?m = n \<or> p mod BSIZE + ?m = BSIZE" "?m \<le> n" using False B by auto
  have "p div BSIZE * BSIZE < p" using False div_mult_mod_eq [of p BSIZE] by linarith
  then have w: "wcost v ip (p div BSIZE) = 1" using d p by (auto simp: dense_def wcost_def)
  have "range_cost v ip (p + ?m) (n - ?m) \<le> 6"
  proof (cases "?m = n")
    case False
    then have "p mod BSIZE + ?m = BSIZE" using m(3) by blast
    then have "(p + ?m) mod BSIZE = 0" by (metis mod_add_left_eq mod_self)
    then show ?thesis using range_cost_le [of "p + ?m" "n - ?m" 3 v ip] n by simp
  qed (simp add: range_cost_def)
  then show ?thesis using range_split(1) [OF m, of v ip] w by simp
qed

text \<open>
  C30: a piece of \<open>filewrite\<close>. When the transaction has its \<open>MAXOPBLOCKS\<close> blocks in the log and the disk has free
  blocks, \<open>writei\<close> of at most \<open>filewrite_max\<close> bytes from user memory at an offset of the file writes them all: the
  contents are the old ones with exactly these bytes replaced or appended, the inode on the disk is the one in
  memory, every other file and every other inode is as before, and every changed block is in the log, while
  the disk itself has not changed.
\<close>

theorem writei_replaces_contents:
  fixes s :: "'a fs_scheme"
  assumes "file_at s i" and "dense (fsval s) (itable s ! i)" and "caller s root" and "umapped s root a (unat n)"
    and "unat off \<le> unat (i_size (itable s ! i))" and "unat off + unat n \<le> MAXFILE * BSIZE" and "int (unat n) \<le> filewrite_max"
    and "room (nat MAXOPBLOCKS) 2 s" and "range_new (fsval s) (itable s ! i) (unat off) (unat n) \<le> spare (sb s) (fsval s) (itable s ! i)"
  shows "\<exists>s' ip. writei i (SrcUser a) off n s = Ok (int (unat n)) s' \<and> itable s' = (itable s)[i := ip] \<and>
    contents (fsval s') ip = take (unat off) (contents (fsval s) (itable s ! i)) @ ubytes s root a (unat n) @
      drop (unat off + unat n) (contents (fsval s) (itable s ! i)) \<and> dense (fsval s') ip \<and> file_at s' i \<and>
    disk_inode (sb s) (fsval s') (i_inum ip) = dinode_of ip \<and> others_kept (sb s) (fsval s) (itable s ! i) (fsval s') ip \<and>
    (\<forall>b. fsval s' b \<noteq> fsval s b \<longrightarrow> b \<in> set (logged s')) \<and> disk s' = disk s"
proof -
  let ?bs = "ubytes s root a (unat n)" let ?ip = "itable s ! i"
  have "unat n < 2 ^ 32" using unsigned_less [of n, where ?'a = nat] by simp
  then have h: "holds_bytes root a ?bs s" using assms(3,4) by (simp add: holds_bytes_def)
  have "unat n \<le> 3 * BSIZE" using assms(7) by (simp add: filewrite_max_def MAXOPBLOCKS_def del: of_nat_unat)
  note write_cost [OF assms(2,5) this]
  moreover have "ind_cost s ?ip \<le> 2" "nat MAXOPBLOCKS = 10" by (simp_all add: ind_cost_def MAXOPBLOCKS_def)
  ultimately have "range_cost (fsval s) ?ip (unat off) (unat n) + ind_cost s ?ip + 1 \<le> nat MAXOPBLOCKS" by linarith
  then have r: "room (range_cost (fsval s) ?ip (unat off) (length ?bs) + ind_cost s ?ip + 1) 2 s"
    by (intro room_mono [OF assms(8)]) simp_all
  obtain s' ip where s': "writei i (SrcUser a) off n s = Ok (int (unat n)) s'" "fs_step s s'" "itable s' = (itable s)[i := ip]"
      "overwrote (sb s) (fsval s) ?ip (fsval s') ip (unat off) ?bs"
    using user_source.writei_spec [OF assms(1) h assms(2) _ assms(5) _ r, of n] assms(6,9) by auto
  have "file_at s' i" using file_at_step [OF assms(1) s'(2,3)] s'(4) by (simp add: overwrote_def)
  then show ?thesis using s' fs_stepD(7,11) [OF s'(2)] by (intro exI [of _ s'] exI [of _ ip]) (simp add: overwrote_def)
qed

theorem writei_replaces_contents_witness:
  "\<exists>s' ip. writei 1 (SrcUser 16) 4 2 demo_fs = Ok 2 s' \<and> contents (fsval s') ip = [10, 20, 30, 40] @ ubytes demo_fs 0x87ff0000 16 2"
proof -
  let ?ip = "demo_inode 6 5 (46 # replicate 12 0)"
  have sz: "unat (i_size ?ip) = 5" by (simp add: demo_inode_def)
  have "{4..<6 :: nat} = {4, 5}" by auto
  then have b: "blks 4 2 = {0}" by (simp add: blks_def BSIZE_def)
  have "blk_of demo_disk ?ip 0 \<noteq> 0" by (simp add: demo_dense(1))
  then have "{k \<in> blks 4 2. blk_of demo_disk ?ip k = 0} = {}" unfolding b by blast
  then have new: "range_new (fsval demo_fs) ?ip (unat (4 :: uint32)) (unat (2 :: uint32)) = 0"
    by (simp only: range_new_def demo_fs_views(1) unat_numeral card.empty) simp
  have "umapped demo_fs 0x87ff0000 16 3" using demo_fs_user(4) demo_umapped by simp
  then have u: "umapped demo_fs 0x87ff0000 16 (unat (2 :: uint32))" by (simp add: umapped_def)
  have r: "room (nat MAXOPBLOCKS) 2 demo_fs" by (rule demo_fs_room) (simp add: MAXOPBLOCKS_def)
  from writei_replaces_contents [OF demo_file_at(2), unfolded demo_file_at(4), OF demo_dense(2) demo_fs_user(1) u, of 4, unfolded new, OF _ _ _ r]
  obtain s' ip where "writei 1 (SrcUser 16) 4 2 demo_fs = Ok 2 s'"
      "contents (fsval s') ip = take 4 (contents (fsval demo_fs) ?ip) @ ubytes demo_fs 0x87ff0000 16 2 @ drop 6 (contents (fsval demo_fs) ?ip)"
    using sz by (auto simp: filewrite_max_def MAXOPBLOCKS_def BSIZE_def MAXFILE_def NDIRECT_def)
  then show ?thesis using demo_dense(3) by (intro exI [of _ s'] exI [of _ ip]) simp
qed

end
