(* ===== verification/Hart.thy ===== *)
theory Hart
  imports Uspace
begin

text \<open>
  One hart: general registers, control and status registers, the memory it sees, its mode and program counter;
  the accessors of \<^verbatim>\<open>kernel/riscv.h\<close> and the instructions the assembly files use.

  \<open>sstatus\<close>, \<open>sie\<close> and \<open>sip\<close> are the views of \<open>mstatus\<close>, \<open>mie\<close> and \<open>mip\<close> that the privileged architecture
  defines. A register keeps every bit that is written to it: what an implementation does with values it does
  not support is left out. Loads and stores below machine mode go through the page table \<open>satp\<close> names, with the same
  walk as \<open>walk\<close>; one that has no translation gives \<open>None\<close>. \<open>sfence.vma\<close> has no effect, as the model has no
  translation cache.
\<close>

datatype reg = RA | SP | GP | TP | T0 | T1 | T2 | S0 | S1 | A0 | A1 | A2 | A3 | A4 | A5 | A6 | A7
  | S2 | S3 | S4 | S5 | S6 | S7 | S8 | S9 | S10 | S11 | T3 | T4 | T5 | T6

datatype csr = Mhartid | Mstatus | Mepc | Sstatus | Mip | Sip | Mie | Sie | Sepc | Medeleg | Mideleg | Stvec | Mtvec
  | Pmpcfg0 | Pmpaddr0 | Satp | Sscratch | Mscratch | Scause | Stval | Mcounteren | Time

datatype hmode = UserMode | SupervisorMode | MachineMode

record hart =
  gpr :: "reg \<Rightarrow> uint64"
  csrs :: "csr \<Rightarrow> uint64"
  hmem :: memory
  hmode :: hmode
  hpc :: uint64

definition SSTATUS_VIEW :: uint64 where "SSTATUS_VIEW = 0x80000003000DE762"

definition csr_read :: "csr \<Rightarrow> hart \<Rightarrow> uint64" where
  "csr_read c h = (case c of
     Sstatus \<Rightarrow> csrs h Mstatus AND SSTATUS_VIEW
   | Sie \<Rightarrow> csrs h Mie AND csrs h Mideleg
   | Sip \<Rightarrow> csrs h Mip AND csrs h Mideleg
   | _ \<Rightarrow> csrs h c)"

definition set_csr :: "csr \<Rightarrow> uint64 \<Rightarrow> hart \<Rightarrow> hart" where
  "set_csr c x h = h\<lparr>csrs := (csrs h)(c := x)\<rparr>"

definition masked :: "uint64 \<Rightarrow> uint64 \<Rightarrow> uint64 \<Rightarrow> uint64" where
  "masked k old x = (old AND NOT k) OR (x AND k)"

text \<open>Of \<open>sip\<close>, software can write the software interrupt bit only.\<close>

definition csr_write :: "csr \<Rightarrow> uint64 \<Rightarrow> hart \<Rightarrow> hart" where
  "csr_write c x h = (case c of
     Sstatus \<Rightarrow> set_csr Mstatus (masked SSTATUS_VIEW (csrs h Mstatus) x) h
   | Sie \<Rightarrow> set_csr Mie (masked (csrs h Mideleg) (csrs h Mie) x) h
   | Sip \<Rightarrow> set_csr Mip (masked (csrs h Mideleg AND 2) (csrs h Mip) x) h
   | _ \<Rightarrow> set_csr c x h)"

lemma csr_plain: "c \<noteq> Sstatus \<Longrightarrow> c \<noteq> Sie \<Longrightarrow> c \<noteq> Sip \<Longrightarrow> csr_read c h = csrs h c"
    "c \<noteq> Sstatus \<Longrightarrow> c \<noteq> Sie \<Longrightarrow> c \<noteq> Sip \<Longrightarrow> csr_write c x h = set_csr c x h"
  by (cases c; simp add: csr_read_def csr_write_def)+

lemma csr_views: "csr_read Sie h = csrs h Mie AND csrs h Mideleg" "csr_read Sip h = csrs h Mip AND csrs h Mideleg"
    "csr_write Sie x h = set_csr Mie (masked (csrs h Mideleg) (csrs h Mie) x) h"
    "csr_write Sip x h = set_csr Mip (masked (csrs h Mideleg AND 2) (csrs h Mip) x) h"
  by (simp_all add: csr_read_def csr_write_def)

definition set_reg :: "reg \<Rightarrow> uint64 \<Rightarrow> hart \<Rightarrow> hart" where
  "set_reg r x h = h\<lparr>gpr := (gpr h)(r := x)\<rparr>"

subsection \<open>The accessors\<close>

definition r_mhartid :: "hart \<Rightarrow> uint64" where "r_mhartid = csr_read Mhartid"
definition r_mstatus :: "hart \<Rightarrow> uint64" where "r_mstatus = csr_read Mstatus"
definition w_mstatus :: "uint64 \<Rightarrow> hart \<Rightarrow> hart" where "w_mstatus = csr_write Mstatus"
definition w_mepc :: "uint64 \<Rightarrow> hart \<Rightarrow> hart" where "w_mepc = csr_write Mepc"
definition r_sstatus :: "hart \<Rightarrow> uint64" where "r_sstatus = csr_read Sstatus"
definition w_sstatus :: "uint64 \<Rightarrow> hart \<Rightarrow> hart" where "w_sstatus = csr_write Sstatus"
definition r_sip :: "hart \<Rightarrow> uint64" where "r_sip = csr_read Sip"
definition w_sip :: "uint64 \<Rightarrow> hart \<Rightarrow> hart" where "w_sip = csr_write Sip"
definition r_sie :: "hart \<Rightarrow> uint64" where "r_sie = csr_read Sie"
definition w_sie :: "uint64 \<Rightarrow> hart \<Rightarrow> hart" where "w_sie = csr_write Sie"
definition r_mie :: "hart \<Rightarrow> uint64" where "r_mie = csr_read Mie"
definition w_mie :: "uint64 \<Rightarrow> hart \<Rightarrow> hart" where "w_mie = csr_write Mie"
definition w_sepc :: "uint64 \<Rightarrow> hart \<Rightarrow> hart" where "w_sepc = csr_write Sepc"
definition r_sepc :: "hart \<Rightarrow> uint64" where "r_sepc = csr_read Sepc"
definition r_medeleg :: "hart \<Rightarrow> uint64" where "r_medeleg = csr_read Medeleg"
definition w_medeleg :: "uint64 \<Rightarrow> hart \<Rightarrow> hart" where "w_medeleg = csr_write Medeleg"
definition r_mideleg :: "hart \<Rightarrow> uint64" where "r_mideleg = csr_read Mideleg"
definition w_mideleg :: "uint64 \<Rightarrow> hart \<Rightarrow> hart" where "w_mideleg = csr_write Mideleg"
definition w_stvec :: "uint64 \<Rightarrow> hart \<Rightarrow> hart" where "w_stvec = csr_write Stvec"
definition r_stvec :: "hart \<Rightarrow> uint64" where "r_stvec = csr_read Stvec"
definition w_mtvec :: "uint64 \<Rightarrow> hart \<Rightarrow> hart" where "w_mtvec = csr_write Mtvec"
definition w_pmpcfg0 :: "uint64 \<Rightarrow> hart \<Rightarrow> hart" where "w_pmpcfg0 = csr_write Pmpcfg0"
definition w_pmpaddr0 :: "uint64 \<Rightarrow> hart \<Rightarrow> hart" where "w_pmpaddr0 = csr_write Pmpaddr0"
definition w_satp :: "uint64 \<Rightarrow> hart \<Rightarrow> hart" where "w_satp = csr_write Satp"
definition r_satp :: "hart \<Rightarrow> uint64" where "r_satp = csr_read Satp"
definition w_sscratch :: "uint64 \<Rightarrow> hart \<Rightarrow> hart" where "w_sscratch = csr_write Sscratch"
definition w_mscratch :: "uint64 \<Rightarrow> hart \<Rightarrow> hart" where "w_mscratch = csr_write Mscratch"
definition r_scause :: "hart \<Rightarrow> uint64" where "r_scause = csr_read Scause"
definition r_stval :: "hart \<Rightarrow> uint64" where "r_stval = csr_read Stval"
definition w_mcounteren :: "uint64 \<Rightarrow> hart \<Rightarrow> hart" where "w_mcounteren = csr_write Mcounteren"
definition r_mcounteren :: "hart \<Rightarrow> uint64" where "r_mcounteren = csr_read Mcounteren"
definition r_time :: "hart \<Rightarrow> uint64" where "r_time = csr_read Time"
definition r_sp :: "hart \<Rightarrow> uint64" where "r_sp h = gpr h SP"
definition r_tp :: "hart \<Rightarrow> uint64" where "r_tp h = gpr h TP"
definition w_tp :: "uint64 \<Rightarrow> hart \<Rightarrow> hart" where "w_tp x = set_reg TP x"
definition r_ra :: "hart \<Rightarrow> uint64" where "r_ra h = gpr h RA"

definition intr_bit :: uint64 where "intr_bit = push_bit 1 1"

definition intr_on :: "hart \<Rightarrow> hart" where
  "intr_on h = w_sstatus (r_sstatus h OR intr_bit) h"

definition intr_off :: "hart \<Rightarrow> hart" where
  "intr_off h = w_sstatus (r_sstatus h AND NOT intr_bit) h"

definition intr_get :: "hart \<Rightarrow> bool" where
  "intr_get h = (r_sstatus h AND intr_bit \<noteq> 0)"

subsection \<open>Instructions\<close>

datatype instr = Sd reg nat reg | Ld reg nat reg | Csrrw reg csr reg | Csrr reg csr | Csrw csr reg
  | Addi reg reg uint64 | Add reg reg reg | Mul reg reg reg | Li reg uint64 | SfenceVma | Jr reg | Sret | Mret

definition mmu :: "memory \<Rightarrow> uint64 \<Rightarrow> uint64 \<Rightarrow> uint64 option" where
  "mmu m satp va = (if drop_bit 60 satp = 0 then Some va
     else let pte = pte_of m (push_bit 12 (satp AND mask 44)) va in
       if pte AND PTE_V \<noteq> 0 \<and> pte AND PTE_R \<noteq> 0 \<and> pte AND PTE_W \<noteq> 0 \<and> pte AND PTE_U = 0
       then Some (PTE2PA pte + (va - PGROUNDDOWN va)) else None)"

definition phys :: "hart \<Rightarrow> uint64 \<Rightarrow> uint64 option" where
  "phys h va = (if hmode h = MachineMode then Some va else mmu (hmem h) (csrs h Satp) va)"

definition put_bit :: "nat \<Rightarrow> bool \<Rightarrow> uint64 \<Rightarrow> uint64" where
  "put_bit n b w = (if b then set_bit n w else unset_bit n w)"

text \<open>\<open>sret\<close> and \<open>mret\<close>: the mode and the interrupt enable bit that were saved in the status register come back.\<close>

definition do_sret :: "hart \<Rightarrow> hart" where
  "do_sret h = (let x = csrs h Mstatus in
     (set_csr Mstatus (put_bit 8 False (put_bit 5 True (put_bit 1 (bit x 5) x))) h)
       \<lparr>hpc := csrs h Sepc, hmode := (if bit x 8 then SupervisorMode else UserMode)\<rparr>)"

definition do_mret :: "hart \<Rightarrow> hart" where
  "do_mret h = (let x = csrs h Mstatus in
     (set_csr Mstatus (put_bit 11 False (put_bit 12 False (put_bit 7 True (put_bit 3 (bit x 7) x)))) h)
       \<lparr>hpc := csrs h Mepc, hmode := (if bit x 12 then MachineMode else if bit x 11 then SupervisorMode else UserMode)\<rparr>)"

fun hstep :: "instr \<Rightarrow> hart \<Rightarrow> hart option" where
  "hstep (Sd r off b) h = (case phys h (gpr h b + of_nat off) of None \<Rightarrow> None
     | Some a \<Rightarrow> Some (h\<lparr>hmem := store64 (hmem h) a (gpr h r)\<rparr>))"
| "hstep (Ld r off b) h = (case phys h (gpr h b + of_nat off) of None \<Rightarrow> None
     | Some a \<Rightarrow> Some (set_reg r (load64 (hmem h) a) h))"
| "hstep (Csrrw r c b) h = Some (set_reg r (csr_read c h) (csr_write c (gpr h b) h))"
| "hstep (Csrr r c) h = Some (set_reg r (csr_read c h) h)"
| "hstep (Csrw c b) h = Some (csr_write c (gpr h b) h)"
| "hstep (Addi r b k) h = Some (set_reg r (gpr h b + k) h)"
| "hstep (Add r b c) h = Some (set_reg r (gpr h b + gpr h c) h)"
| "hstep (Mul r b c) h = Some (set_reg r (gpr h b * gpr h c) h)"
| "hstep (Li r k) h = Some (set_reg r k h)"
| "hstep SfenceVma h = Some h"
| "hstep (Jr b) h = Some (h\<lparr>hpc := gpr h b\<rparr>)"
| "hstep Sret h = Some (do_sret h)"
| "hstep Mret h = Some (do_mret h)"

primrec hrun :: "instr list \<Rightarrow> hart \<Rightarrow> hart option" where
  "hrun [] h = Some h"
| "hrun (i # is) h = (case hstep i h of None \<Rightarrow> None | Some h' \<Rightarrow> hrun is h')"

lemma hrun_append [simp]: "hrun (xs @ ys) h = (case hrun xs h of None \<Rightarrow> None | Some h' \<Rightarrow> hrun ys h')"
  by (induction xs arbitrary: h) (auto split: option.splits)

subsection \<open>Saving and restoring registers\<close>

definition saves :: "reg \<Rightarrow> (reg \<times> nat) list \<Rightarrow> instr list" where
  "saves b xs = map (\<lambda>(r, off). Sd r off b) xs"

definition restores :: "reg \<Rightarrow> (reg \<times> nat) list \<Rightarrow> instr list" where
  "restores b xs = map (\<lambda>(r, off). Ld r off b) xs"

text \<open>The \<open>n\<close> bytes at \<open>va\<close> are those at the physical address \<open>pa\<close>, whatever is stored in \<open>D\<close>.\<close>

definition frame_at :: "hart \<Rightarrow> uint64 set \<Rightarrow> uint64 \<Rightarrow> uint64 \<Rightarrow> nat \<Rightarrow> bool" where
  "frame_at h D va pa n \<longleftrightarrow> n \<le> 4096 \<and> (\<forall>m k. (\<forall>x. x \<notin> D \<longrightarrow> m x = hmem h x) \<longrightarrow> k + 8 \<le> n \<longrightarrow>
     phys (h\<lparr>hmem := m\<rparr>) (va + of_nat k) = Some (pa + of_nat k))"

definition slots_ok :: "nat \<Rightarrow> nat set \<Rightarrow> bool" where
  "slots_ok n K \<longleftrightarrow> (\<forall>k\<in>K. 8 dvd k \<and> k + 8 \<le> n)"

lemma frame_atD: "frame_at h D va pa n \<Longrightarrow> k + 8 \<le> n \<Longrightarrow> phys h (va + of_nat k) = Some (pa + of_nat k)"
  unfolding frame_at_def by (drule conjunct2, drule spec [of _ "hmem h"], drule spec [of _ k]) simp

lemma frame_at_mem:
  assumes "frame_at h D va pa n" and "\<And>x. x \<notin> D \<Longrightarrow> m x = hmem h x"
  shows "frame_at (h\<lparr>hmem := m\<rparr>) D va pa n"
  using assms by (simp add: frame_at_def)

lemma frame_at_gpr [simp]: "frame_at (h\<lparr>gpr := g\<rparr>) D va pa n = frame_at h D va pa n"
  by (simp add: frame_at_def phys_def)

lemma in_slot:
  assumes "x \<in> span (pa + of_nat j) 8" and "j + 8 \<le> 4096"
  shows "j \<le> unat (x - pa)" and "unat (x - pa) < j + 8"
proof -
  have s: "unat (x - (pa + of_nat j)) < 8" using assms(1) by (simp add: span_def)
  note o = unat_diff_offset [of j 5000 x pa]
  show l: "j \<le> unat (x - pa)" using o(1) s assms(2) by (cases "j \<le> unat (x - pa)") simp_all
  then show "unat (x - pa) < j + 8" using o(2) s assms(2) by simp
qed

lemma slot_disjoint:
  assumes "8 dvd j" and "8 dvd k" and "j \<noteq> k" and "j + 8 \<le> 4096" and "k + 8 \<le> 4096"
  shows "span (pa + of_nat j) 8 \<inter> span (pa + of_nat k) 8 = {}"
proof -
  have "j + 8 \<le> k \<or> k + 8 \<le> j" using assms(1-3) by (auto elim!: dvdE)
  then show ?thesis using in_slot [of _ pa j] in_slot [of _ pa k] assms(4,5) by fastforce
qed

lemma slot_in_frame: "x \<in> span (pa + of_nat k) 8 \<Longrightarrow> k + 8 \<le> n \<Longrightarrow> n \<le> 4096 \<Longrightarrow> x \<in> span pa n"
  using in_slot(2) [of x pa k] by (simp add: span_def)

text \<open>A sequence of stores puts each register into its slot, and changes nothing else.\<close>

lemma run_saves:
  assumes "frame_at h D va pa n" and "span pa n \<subseteq> D" and "gpr h b = va" and "distinct (map snd xs)" and "slots_ok n (snd ` set xs)"
  shows "\<exists>m. hrun (saves b xs) h = Some (h\<lparr>hmem := m\<rparr>) \<and> (\<forall>x. x \<notin> span pa n \<longrightarrow> m x = hmem h x) \<and>
    (\<forall>(r, k)\<in>set xs. load64 m (pa + of_nat k) = gpr h r) \<and>
    (\<forall>k. slots_ok n {k} \<longrightarrow> k \<notin> snd ` set xs \<longrightarrow> load64 m (pa + of_nat k) = load64 (hmem h) (pa + of_nat k))"
  using assms
proof (induction xs arbitrary: h)
  case Nil
  then show ?case by (intro exI [of _ "hmem h"]) (simp add: saves_def)
next
  case (Cons y xs)
  obtain r j where y: "y = (r, j)" by (cases y)
  have j: "8 dvd j" "j + 8 \<le> n" "j \<notin> snd ` set xs" and n: "n \<le> 4096" and xs: "slots_ok n (snd ` set xs)"
    using Cons.prems by (auto simp: y slots_ok_def frame_at_def)
  let ?m = "store64 (hmem h) (pa + of_nat j) (gpr h r)"
  have out: "?m x = hmem h x" if "x \<notin> span pa n" for x
    by (rule store64_outside) (use that slot_in_frame [of x pa j n] j(2) n in blast)
  have f: "frame_at (h\<lparr>hmem := ?m\<rparr>) D va pa n"
    by (rule frame_at_mem [OF Cons.prems(1)]) (use out Cons.prems(2) in blast)
  obtain m where m: "hrun (saves b xs) (h\<lparr>hmem := ?m\<rparr>) = Some (h\<lparr>hmem := m\<rparr>)" "\<forall>x. x \<notin> span pa n \<longrightarrow> m x = ?m x"
      "\<forall>(r, k)\<in>set xs. load64 m (pa + of_nat k) = gpr h r"
      "\<forall>k. slots_ok n {k} \<longrightarrow> k \<notin> snd ` set xs \<longrightarrow> load64 m (pa + of_nat k) = load64 ?m (pa + of_nat k)"
    using Cons.IH [OF f Cons.prems(2)] Cons.prems(3,4) xs by auto
  have "hstep (Sd r j b) h = Some (h\<lparr>hmem := ?m\<rparr>)" using frame_atD [OF Cons.prems(1) j(2)] Cons.prems(3) by simp
  then have run: "hrun (saves b (y # xs)) h = Some (h\<lparr>hmem := m\<rparr>)" using m(1) by (simp add: saves_def y)
  have other: "load64 ?m (pa + of_nat k) = load64 (hmem h) (pa + of_nat k)" if "slots_ok n {k}" "k \<noteq> j" for k
    using that j n slot_disjoint [of j k pa] by (intro load64_store64_other) (auto simp: slots_ok_def)
  have mine: "load64 m (pa + of_nat j) = gpr h r" using m(4) j by (simp add: slots_ok_def load64_store64)
  show ?case using run m(2-4) out other mine by (intro exI [of _ m]) (auto simp: y)
qed

text \<open>A sequence of loads gives each register what its slot holds; the base register may be among them.\<close>

lemma run_restores:
  assumes "frame_at h D va pa n" and "gpr h b = va" and "distinct (map fst xs)" and "slots_ok n (snd ` set xs)"
    and "\<And>k. (b, k) \<in> set xs \<Longrightarrow> load64 (hmem h) (pa + of_nat k) = va"
  shows "hrun (restores b xs) h = Some (h\<lparr>gpr := \<lambda>r. case map_of xs r of None \<Rightarrow> gpr h r | Some k \<Rightarrow> load64 (hmem h) (pa + of_nat k)\<rparr>)"
  using assms
proof (induction xs arbitrary: h)
  case Nil
  then show ?case by (simp add: restores_def)
next
  case (Cons y xs)
  obtain r j where y: "y = (r, j)" by (cases y)
  have j: "j + 8 \<le> n" "r \<notin> fst ` set xs" and xs: "slots_ok n (snd ` set xs)" using Cons.prems by (auto simp: y slots_ok_def)
  let ?v = "load64 (hmem h) (pa + of_nat j)" let ?h = "set_reg r ?v h"
  have st: "hstep (Ld r j b) h = Some ?h" using frame_atD [OF Cons.prems(1) j(1)] Cons.prems(2) by simp
  have b: "gpr ?h b = va" using Cons.prems(2,5) by (auto simp: y set_reg_def)
  have "hrun (restores b xs) ?h = Some (?h\<lparr>gpr := \<lambda>r. case map_of xs r of None \<Rightarrow> gpr ?h r | Some k \<Rightarrow> load64 (hmem ?h) (pa + of_nat k)\<rparr>)"
    using Cons.prems b xs by (intro Cons.IH) (auto simp: set_reg_def)
  moreover have "map_of xs r = None" using j(2) by (simp add: map_of_eq_None_iff)
  then have "(\<lambda>q. case map_of xs q of None \<Rightarrow> gpr ?h q | Some k \<Rightarrow> load64 (hmem ?h) (pa + of_nat k)) =
      (\<lambda>q. case map_of (y # xs) q of None \<Rightarrow> gpr h q | Some k \<Rightarrow> load64 (hmem h) (pa + of_nat k))"
    by (auto simp: y set_reg_def fun_eq_iff split: option.splits)
  ultimately show ?case using st by (simp add: restores_def y set_reg_def)
qed

end
