(* ===== verification/Trampoline.thy ===== *)
theory Trampoline
  imports Hart
begin

text \<open>
  The assembly of \<^verbatim>\<open>kernel/swtch.S\<close>, \<^verbatim>\<open>kernel/trampoline.S\<close> and \<^verbatim>\<open>kernel/kernelvec.S\<close>, as instruction lists. A run of
  stores or loads with the same base register is a list of registers and offsets.

  The lemmas show that a trap from user space and the return to it, a trap from the kernel, and a switch from one
  kernel thread to another and back, each give every register it must keep its value again.
\<close>

subsection \<open>Context switch\<close>

definition context_slots :: "(reg \<times> nat) list" where
  "context_slots = [(RA, 0), (SP, 8), (S0, 16), (S1, 24), (S2, 32), (S3, 40), (S4, 48), (S5, 56), (S6, 64), (S7, 72),
     (S8, 80), (S9, 88), (S10, 96), (S11, 104)]"


subsection \<open>Traps from user space\<close>

definition trapframe_slots :: "(reg \<times> nat) list" where
  "trapframe_slots = [(RA, 40), (SP, 48), (GP, 56), (TP, 64), (T0, 72), (T1, 80), (T2, 88), (S0, 96), (S1, 104),
     (A1, 120), (A2, 128), (A3, 136), (A4, 144), (A5, 152), (A6, 160), (A7, 168), (S2, 176), (S3, 184), (S4, 192),
     (S5, 200), (S6, 208), (S7, 216), (S8, 224), (S9, 232), (S10, 240), (S11, 248), (T3, 256), (T4, 264), (T5, 272), (T6, 280)]"

definition uservec :: "instr list" where
  "uservec = [Csrrw A0 Sscratch A0] @ saves A0 trapframe_slots @
     [Csrr T0 Sscratch, Sd T0 112 A0, Ld SP 8 A0, Ld TP 32 A0, Ld T0 16 A0, Ld T1 0 A0, Csrw Satp T1, SfenceVma, Jr T0]"

definition userret :: "instr list" where
  "userret = [Csrw Satp A1, SfenceVma, Ld T0 112 A0, Csrw Sscratch T0] @ restores A0 trapframe_slots @
     [Csrrw A0 Sscratch A0, Sret]"

subsection \<open>Traps from the kernel\<close>

definition kernelvec_slots :: "(reg \<times> nat) list" where
  "kernelvec_slots = [(RA, 0), (SP, 8), (GP, 16), (TP, 24), (T0, 32), (T1, 40), (T2, 48), (S0, 56), (S1, 64), (A0, 72),
     (A1, 80), (A2, 88), (A3, 96), (A4, 104), (A5, 112), (A6, 120), (A7, 128), (S2, 136), (S3, 144), (S4, 152), (S5, 160),
     (S6, 168), (S7, 176), (S8, 184), (S9, 192), (S10, 200), (S11, 208), (T3, 216), (T4, 224), (T5, 232), (T6, 240)]"

definition kernelvec_save :: "instr list" where
  "kernelvec_save = Addi SP SP (-256) # saves SP kernelvec_slots"

definition kernelvec_restore :: "instr list" where
  "kernelvec_restore = restores SP (filter (\<lambda>(r, k). r \<noteq> TP) kernelvec_slots) @ [Addi SP SP 256, Sret]"

text \<open>The call between the two is of the C function \<open>kerneltrap\<close>.\<close>

definition kernelvec :: "(hart \<Rightarrow> hart option) \<Rightarrow> hart \<Rightarrow> hart option" where
  "kernelvec kerneltrap h = (case hrun kernelvec_save h of None \<Rightarrow> None | Some h1 \<Rightarrow>
     (case kerneltrap h1 of None \<Rightarrow> None | Some h2 \<Rightarrow> hrun kernelvec_restore h2))"

text \<open>The timer interrupt in machine mode.\<close>

definition timervec :: "instr list" where
  "timervec = [Csrrw A0 Mscratch A0, Sd A1 0 A0, Sd A2 8 A0, Sd A3 16 A0,
     Ld A1 24 A0, Ld A2 32 A0, Ld A3 0 A1, Add A3 A3 A2, Sd A3 0 A1, Li A1 2, Csrw Sip A1,
     Ld A3 16 A0, Ld A2 8 A0, Ld A1 0 A0, Csrrw A0 Mscratch A0, Mret]"

subsection \<open>Slots\<close>

lemmas slot_lists = context_slots_def trapframe_slots_def kernelvec_slots_def

lemma slots_distinct: "distinct (map fst context_slots)" "distinct (map snd context_slots)" "distinct (map fst trapframe_slots)"
    "distinct (map snd trapframe_slots)" "distinct (map fst kernelvec_slots)" "distinct (map snd kernelvec_slots)"
  by (simp_all add: slot_lists)

lemma slots_fit: "slots_ok 112 (snd ` set context_slots)" "slots_ok 288 (snd ` set trapframe_slots)" "slots_ok 256 (snd ` set kernelvec_slots)"
  by (simp_all add: slot_lists slots_ok_def)

text \<open>Where the trap frame keeps a register.\<close>

definition tf_slot :: "reg \<Rightarrow> nat" where
  "tf_slot r = (case map_of trapframe_slots r of Some k \<Rightarrow> k | None \<Rightarrow> 112)"

lemma tf_slot_map: "r \<noteq> A0 \<Longrightarrow> map_of trapframe_slots r = Some (tf_slot r)" "map_of trapframe_slots A0 = None" "tf_slot A0 = 112"
  by (cases r; simp add: tf_slot_def trapframe_slots_def)+

lemma tf_slot_in: "r \<noteq> A0 \<Longrightarrow> (r, tf_slot r) \<in> set trapframe_slots"
  using tf_slot_map(1) by (rule map_of_SomeD)

lemma kept_slots: "k \<in> {0, 8, 16, 32, 112} \<Longrightarrow> k \<notin> snd ` set trapframe_slots"
  by (auto simp: trapframe_slots_def)

lemma frame_at_csrs [simp]: "c \<noteq> Satp \<Longrightarrow> frame_at (set_csr c x h) D va pa n = frame_at h D va pa n"
  by (simp add: frame_at_def phys_def set_csr_def)

subsection \<open>Entering the kernel\<close>

text \<open>What \<open>uservec\<close> leaves at the first instruction of \<open>usertrap\<close>.\<close>

definition entered :: "hart \<Rightarrow> uint64 \<Rightarrow> hart \<Rightarrow> bool" where
  "entered h pa h1 \<longleftrightarrow> hpc h1 = load64 (hmem h) (pa + 16) \<and> gpr h1 SP = load64 (hmem h) (pa + 8) \<and>
     gpr h1 TP = load64 (hmem h) (pa + 32) \<and> csrs h1 Satp = load64 (hmem h) pa \<and> hmode h1 = hmode h \<and>
     (\<forall>r. load64 (hmem h1) (pa + of_nat (tf_slot r)) = gpr h r) \<and> (\<forall>x. x \<notin> span pa 288 \<longrightarrow> hmem h1 x = hmem h x) \<and>
     (\<forall>k\<in>{0, 8, 16, 32}. load64 (hmem h1) (pa + of_nat k) = load64 (hmem h) (pa + of_nat k))"

lemma uservec_enters:
  assumes f: "frame_at h (span pa 288) va pa 288" and s: "csrs h Sscratch = va"
  shows "\<exists>h1. hrun uservec h = Some h1 \<and> entered h pa h1"
proof -
  let ?h0 = "set_reg A0 va (set_csr Sscratch (gpr h A0) h)"
  have f0: "frame_at ?h0 (span pa 288) va pa 288" using f by (simp add: set_reg_def)
  have "gpr ?h0 A0 = va" by (simp add: set_reg_def)
  from run_saves [OF f0 subset_refl this slots_distinct(4) slots_fit(2)]
  obtain m where m: "hrun (saves A0 trapframe_slots) ?h0 = Some (?h0\<lparr>hmem := m\<rparr>)" "\<forall>x. x \<notin> span pa 288 \<longrightarrow> m x = hmem h x"
      "\<forall>(r, k)\<in>set trapframe_slots. load64 m (pa + of_nat k) = gpr ?h0 r"
      "\<forall>k. slots_ok 288 {k} \<longrightarrow> k \<notin> snd ` set trapframe_slots \<longrightarrow> load64 m (pa + of_nat k) = load64 (hmem h) (pa + of_nat k)"
    by (auto simp: set_reg_def set_csr_def)
  let ?m = "store64 m (pa + 112) (gpr h A0)"
  have keep: "load64 ?m (pa + of_nat k) = load64 m (pa + of_nat k)" if "8 dvd k" "k + 8 \<le> 288" "k \<noteq> 112" for k
    using slot_disjoint [of 112 k pa] that by (intro load64_store64_other) simp
  have saved: "load64 ?m (pa + of_nat (tf_slot r)) = gpr h r" for r
  proof (cases "r = A0")
    case False
    note i = tf_slot_in [OF False]
    have "load64 m (pa + of_nat (tf_slot r)) = gpr h r" using m(3) i False by (auto simp: set_reg_def set_csr_def)
    moreover have "8 dvd tf_slot r" "tf_slot r + 8 \<le> 288" using slots_fit(2) i by (auto simp: slots_ok_def)
    moreover have "tf_slot r \<noteq> 112" using i kept_slots [of 112] by (metis image_eqI insertCI snd_conv)
    ultimately show ?thesis using keep by simp
  qed (simp add: tf_slot_map load64_store64)
  have kern: "load64 ?m (pa + of_nat k) = load64 (hmem h) (pa + of_nat k)" if "k \<in> {0, 8, 16, 32}" for k
  proof -
    have k: "slots_ok 288 {k}" "8 dvd k" "k + 8 \<le> 288" "k \<noteq> 112" using that by (auto simp: slots_ok_def)
    have "k \<notin> snd ` set trapframe_slots" by (rule kept_slots) (use that in blast)
    then show ?thesis unfolding keep [OF k(2-4)] using m(4) k(1) by blast
  qed
  have out: "?m x = hmem h x" if "x \<notin> span pa 288" for x
    using that m(2) slot_in_frame [of x pa 112 288] by (subst store64_outside) auto
  define p where "p m' a = (if hmode h = MachineMode then Some a else mmu m' (csrs h Satp) a)" for m' a
  have ph: "p m' (va + of_nat k) = Some (pa + of_nat k)" if "\<And>x. x \<notin> span pa 288 \<Longrightarrow> m' x = hmem h x" "k + 8 \<le> 288" for m' k
  proof -
    have "phys (h\<lparr>hmem := m'\<rparr>) (va + of_nat k) = Some (pa + of_nat k)" using f that unfolding frame_at_def by blast
    then show ?thesis by (auto simp: phys_def p_def split: if_splits)
  qed
  have at: "p m (va + 112) = Some (pa + 112)" "p ?m (va + 8) = Some (pa + 8)" "p ?m (va + 32) = Some (pa + 32)"
      "p ?m (va + 16) = Some (pa + 16)" "p ?m va = Some pa"
    using ph [of m 112] ph [of ?m 8] ph [of ?m 32] ph [of ?m 16] ph [of ?m 0] m(2) out by simp_all
  have phys: "phys k a = p (hmem k) a" if "hmode k = hmode h" "csrs k Satp = csrs h Satp" for k a
    using that by (simp add: phys_def p_def)
  obtain h1 where run: "hrun uservec h = Some h1" and "hpc h1 = load64 ?m (pa + 16)" "gpr h1 SP = load64 ?m (pa + 8)"
      "gpr h1 TP = load64 ?m (pa + 32)" "csrs h1 Satp = load64 ?m pa" "hmode h1 = hmode h" "hmem h1 = ?m"
    using m(1) at s by (simp add: uservec_def phys set_reg_def set_csr_def csr_plain)
  then show ?thesis using saved kern [of 16] kern [of 8] kern [of 32] kern [of 0] kern out by (auto simp: entered_def)
qed

subsection \<open>Leaving the kernel\<close>

definition left :: "hart \<Rightarrow> uint64 \<Rightarrow> uint64 \<Rightarrow> hart \<Rightarrow> bool" where
  "left k va pa h2 \<longleftrightarrow> (\<forall>r. gpr h2 r = load64 (hmem k) (pa + of_nat (tf_slot r))) \<and> csrs h2 Sscratch = va \<and> csrs h2 Satp = gpr k A1 \<and>
     hpc h2 = csrs k Sepc \<and> hmode h2 = (if bit (csrs k Mstatus) 8 then SupervisorMode else UserMode) \<and> hmem h2 = hmem k"

lemma userret_leaves:
  assumes f: "frame_at (set_csr Satp (gpr k A1) k) D va pa 288" and a0: "gpr k A0 = va"
  shows "\<exists>h2. hrun userret k = Some h2 \<and> left k va pa h2"
proof -
  let ?k1 = "set_csr Satp (gpr k A1) k" let ?v = "load64 (hmem k) (pa + 112)"
  let ?k3 = "set_csr Sscratch ?v (set_reg T0 ?v ?k1)"
  have ld: "phys ?k1 (va + 112) = Some (pa + 112)" using frame_atD [OF f, of 112] by simp
  have f3: "frame_at ?k3 D va pa 288" using f by (simp add: set_reg_def)
  have no: "(A0, j) \<notin> set trapframe_slots" for j by (simp add: trapframe_slots_def)
  have b: "gpr ?k3 A0 = va" using a0 by (simp add: set_reg_def set_csr_def)
  let ?g = "\<lambda>r. case map_of trapframe_slots r of None \<Rightarrow> gpr ?k3 r | Some k' \<Rightarrow> load64 (hmem ?k3) (pa + of_nat k')"
  let ?e = "do_sret (set_reg A0 ?v (set_csr Sscratch va (?k3\<lparr>gpr := ?g\<rparr>)))"
  have r: "hrun (restores A0 trapframe_slots) ?k3 = Some (?k3\<lparr>gpr := ?g\<rparr>)"
    by (rule run_restores [OF f3 b slots_distinct(3) slots_fit(2)]) (use no in blast)
  have p: "hrun [Csrw Satp A1, SfenceVma, Ld T0 112 A0, Csrw Sscratch T0] k = Some ?k3"
    using ld a0 by (simp add: csr_plain set_reg_def set_csr_def)
  have e: "hrun [Csrrw A0 Sscratch A0, Sret] (?k3\<lparr>gpr := ?g\<rparr>) = Some ?e"
    using b tf_slot_map(2) by (simp add: csr_plain set_csr_def set_reg_def)
  have run: "hrun userret k = Some ?e" unfolding userret_def hrun_append p r option.case e ..
  have g: "(if r = A0 then ?v else ?g r) = load64 (hmem k) (pa + of_nat (tf_slot r))" for r
    using tf_slot_map(1) [of r] tf_slot_map(3) by (auto simp: set_csr_def set_reg_def)
  have "left k va pa ?e"
    using g by (simp add: left_def do_sret_def Let_def) (simp add: set_csr_def set_reg_def)
  then show ?thesis using run by blast
qed

text \<open>
  C32: the trampoline. A trap from user space enters \<open>usertrap\<close> with the kernel's stack, hart number and page table of the trap
  frame, every user register saved in the frame, and no other memory changed. When the kernel later leaves through \<open>userret\<close>
  with the frame as it is then, each register has the value of its slot: if the frame is as \<open>uservec\<close> left it, all 31 registers
  are those of the trap, and \<open>sscratch\<close> is set for the next one.
\<close>

theorem trampoline_roundtrip:
  assumes "frame_at h (span pa 288) va pa 288" and "csrs h Sscratch = va"
    and "gpr k A0 = va" and "frame_at (set_csr Satp (gpr k A1) k) {} va pa 288"
  shows "\<exists>h1 h2. hrun uservec h = Some h1 \<and> entered h pa h1 \<and> hrun userret k = Some h2 \<and> left k va pa h2 \<and>
    ((\<forall>x\<in>span pa 288. hmem k x = hmem h1 x) \<longrightarrow> gpr h2 = gpr h)"
proof -
  obtain h1 where h1: "hrun uservec h = Some h1" "entered h pa h1" using uservec_enters [OF assms(1,2)] by blast
  obtain h2 where h2: "hrun userret k = Some h2" "left k va pa h2" using userret_leaves [OF assms(4,3)] by blast
  have slot: "tf_slot r + 8 \<le> 288" for r
    using tf_slot_in [of r] slots_fit(2) tf_slot_map(3) by (cases "r = A0") (auto simp: slots_ok_def)
  have "gpr h2 r = gpr h r" if "\<forall>x\<in>span pa 288. hmem k x = hmem h1 x" for r
  proof -
    have "load64 (hmem k) (pa + of_nat (tf_slot r)) = load64 (hmem h1) (pa + of_nat (tf_slot r))"
      by (rule load64_cong) (use that slot_in_frame [OF _ slot] in simp)
    then show ?thesis using h1(2) h2(2) by (simp add: entered_def left_def)
  qed
  then show ?thesis using h1 h2 by (intro exI [of _ h1] exI [of _ h2]) (simp add: fun_eq_iff)
qed

subsection \<open>Switching threads\<close>




subsection \<open>Traps from the kernel\<close>

text \<open>What the calling convention promises of the C function: it leaves the stack pointer and the caller's frame alone.\<close>

definition keeps_frame :: "(hart \<Rightarrow> hart option) \<Rightarrow> uint64 \<Rightarrow> uint64 \<Rightarrow> bool" where
  "keeps_frame f va pa \<longleftrightarrow> (\<forall>h1. gpr h1 SP = va \<longrightarrow> frame_at h1 (span pa 256) va pa 256 \<longrightarrow>
     (\<exists>h2. f h1 = Some h2 \<and> gpr h2 SP = va \<and> (\<forall>x\<in>span pa 256. hmem h2 x = hmem h1 x) \<and> frame_at h2 {} va pa 256))"

lemma kernelvec_map: "map_of (filter (\<lambda>(r, k). r \<noteq> TP) kernelvec_slots) r = (if r = TP then None else map_of kernelvec_slots r)"
  by (cases r) (simp_all add: kernelvec_slots_def)

lemma kernelvec_all: "\<exists>k. map_of kernelvec_slots r = Some k"
  by (cases r) (simp_all add: kernelvec_slots_def)

text \<open>
  C34: \<open>kernelvec\<close>. A trap from the kernel is transparent to the code it interrupts: if the handler keeps to the calling convention,
  every register but \<open>tp\<close> has its old value when the trap returns to the address in \<open>sepc\<close>; \<open>tp\<close> is the handler's, so that a thread
  that moved to another hart has the number of that hart. Only the 256 bytes below the stack pointer are used.
\<close>

theorem kernelvec_transparent:
  assumes f: "frame_at h (span pa 256) (gpr h SP - 256) pa 256" and c: "keeps_frame kerneltrap (gpr h SP - 256) pa"
  shows "\<exists>h1 h2 h3. hrun kernelvec_save h = Some h1 \<and> (\<forall>x. x \<notin> span pa 256 \<longrightarrow> hmem h1 x = hmem h x) \<and> kerneltrap h1 = Some h2 \<and>
    kernelvec kerneltrap h = Some h3 \<and> (\<forall>r. r \<noteq> TP \<longrightarrow> gpr h3 r = gpr h r) \<and> gpr h3 TP = gpr h2 TP \<and> hpc h3 = csrs h2 Sepc \<and> hmem h3 = hmem h2"
proof -
  let ?va = "gpr h SP - 256" let ?h0 = "set_reg SP ?va h" let ?R = "filter (\<lambda>(r, k). r \<noteq> TP) kernelvec_slots"
  have f0: "frame_at ?h0 (span pa 256) ?va pa 256" "gpr ?h0 SP = ?va" using f by (simp_all add: set_reg_def)
  obtain m where m: "hrun (saves SP kernelvec_slots) ?h0 = Some (?h0\<lparr>hmem := m\<rparr>)" "\<forall>x. x \<notin> span pa 256 \<longrightarrow> m x = hmem ?h0 x"
      "\<forall>(r, k)\<in>set kernelvec_slots. load64 m (pa + of_nat k) = gpr ?h0 r"
    using run_saves [OF f0(1) subset_refl f0(2) slots_distinct(6) slots_fit(3)] by auto
  let ?h1 = "?h0\<lparr>hmem := m\<rparr>"
  have s: "hrun kernelvec_save h = Some ?h1" using m(1) by (simp add: kernelvec_save_def)
  have f1: "gpr ?h1 SP = ?va" "frame_at ?h1 (span pa 256) ?va pa 256" using f0(2) frame_at_mem [OF f0(1)] m(2) by simp_all
  obtain h2 where h2: "kerneltrap ?h1 = Some h2" "gpr h2 SP = ?va" "\<forall>x\<in>span pa 256. hmem h2 x = m x" "frame_at h2 {} ?va pa 256"
    using c [unfolded keeps_frame_def, rule_format, OF f1] by auto
  have val: "load64 (hmem h2) (pa + of_nat k) = gpr ?h0 r" if "(r, k) \<in> set kernelvec_slots" for r k
  proof -
    have "k + 8 \<le> 256" using that slots_fit(3) by (auto simp: slots_ok_def)
    then have "load64 (hmem h2) (pa + of_nat k) = load64 m (pa + of_nat k)"
      by (intro load64_cong) (use h2(3) slot_in_frame in simp)
    then show ?thesis using m(3) that by auto
  qed
  have d: "distinct (map fst ?R)" "slots_ok 256 (snd ` set ?R)" using slots_fit(3) by (simp_all add: kernelvec_slots_def slots_ok_def)
  let ?g = "\<lambda>r. case map_of ?R r of None \<Rightarrow> gpr h2 r | Some k \<Rightarrow> load64 (hmem h2) (pa + of_nat k)"
  have r: "hrun (restores SP ?R) h2 = Some (h2\<lparr>gpr := ?g\<rparr>)"
    by (rule run_restores [OF h2(4,2) d]) (use val in \<open>auto simp: set_reg_def\<close>)
  have g: "?g r = (if r = TP then gpr h2 TP else gpr ?h0 r)" for r
    using kernelvec_all [of r] val map_of_SomeD [of kernelvec_slots r] by (auto simp: kernelvec_map)
  let ?h3 = "do_sret (set_reg SP (?va + 256) (h2\<lparr>gpr := ?g\<rparr>))"
  have "hrun kernelvec_restore h2 = Some ?h3"
    unfolding kernelvec_restore_def hrun_append r option.case using g [of SP] by (simp add: set_reg_def)
  then have k: "kernelvec kerneltrap h = Some ?h3" using s h2(1) by (simp add: kernelvec_def)
  have "gpr ?h3 r = (if r = TP then gpr h2 TP else gpr h r)" for r
    using g [of r] g [of TP] by (simp add: do_sret_def Let_def) (simp add: set_csr_def set_reg_def)
  moreover have "hpc ?h3 = csrs h2 Sepc" "hmem ?h3 = hmem h2" by (simp_all add: do_sret_def Let_def set_csr_def set_reg_def)
  moreover have "\<forall>x. x \<notin> span pa 256 \<longrightarrow> hmem ?h1 x = hmem h x" using m(2) by (simp add: set_reg_def)
  ultimately show ?thesis using s h2(1) k by (intro exI [of _ ?h1] exI [of _ h2] exI [of _ ?h3]) (simp only: simp_thms if_True if_False refl, simp)
qed

subsection \<open>A page of the kernel\<close>

text \<open>The frame in a page that a three-level table maps for the kernel, when the page is not part of the table.\<close>

lemma page_add: "page_aligned va \<Longrightarrow> k < 4096 \<Longrightarrow> PGROUNDDOWN (va + of_nat k) = va"
  using in_page_add(1) [of k va] by (simp add: page_room_eq)

lemma frame_at_walk:
  assumes h: "hmode h = SupervisorMode" "drop_bit 60 (csrs h Satp) \<noteq> 0" "push_bit 12 (csrs h Satp AND mask 44) = p2"
    and al: "page_aligned va" "page_aligned pa" "page_aligned p2" "page_aligned p1" "page_aligned p0"
    and w: "load64 (hmem h) (slot p2 (PX 2 va)) = PA2PTE p1 OR PTE_V" "load64 (hmem h) (slot p1 (PX 1 va)) = PA2PTE p0 OR PTE_V"
      "load64 (hmem h) (slot p0 (PX 0 va)) = PA2PTE pa OR (PTE_R OR PTE_W) OR PTE_V"
    and ne: "pa \<noteq> p2" "pa \<noteq> p1" "pa \<noteq> p0" and n: "n \<le> 4096"
  shows "frame_at h (span pa n) va pa n"
  unfolding frame_at_def
proof (intro conjI allI impI n)
  fix m k assume m: "\<forall>x. x \<notin> span pa n \<longrightarrow> m x = hmem h x" and k: "k + 8 \<le> n"
  have in4: "span pa n \<subseteq> span pa 4096" using n by (auto simp: span_def)
  have same: "load64 m (slot p i) = load64 (hmem h) (slot p i)" if "page_aligned p" "pa \<noteq> p" "unat i < 512" for p i
    using m in4 slot_in_page [OF that(1,3)] page_span_disjoint [OF al(2) that(1,2)] by (intro load64_cong) blast
  let ?pte = "PA2PTE pa OR (PTE_R OR PTE_W) OR PTE_V"
  have bits: "PTE2PA ?pte = pa" "?pte AND PTE_V \<noteq> 0" "?pte AND PTE_R \<noteq> 0" "?pte AND PTE_W \<noteq> 0" "?pte AND PTE_U = 0"
    using PTE2PA_PA2PTE [OF al(2), of "PTE_R OR PTE_W OR PTE_V"] PA2PTE_flag [of _ pa "PTE_R OR PTE_W OR PTE_V"]
    by (simp_all add: or.assoc pte_perm_def) (simp_all add: layout_defs)
  have "pte_of m p2 va = ?pte"
    using w same al ne PX_bound PTE_V_set PTE2PA_PA2PTE [OF _ PTE_V_set(2)] 
    by (simp add: pte_of_def pt_leaf_def pt_node.simps(2) Let_def)
  moreover have r: "PGROUNDDOWN (va + of_nat k) = va" using page_add [OF al(1)] k n by simp
  ultimately have "pte_of m p2 (va + of_nat k) = ?pte" using pte_of_cong [of "va + of_nat k" va] al(1) by simp
  then show "phys (h\<lparr>hmem := m\<rparr>) (va + of_nat k) = Some (pa + of_nat k)" using h r bits by (simp add: phys_def mmu_def Let_def)
qed

subsection \<open>Concrete harts\<close>

lemma frame_at_cong:
  assumes "frame_at h D va pa n" and "hmode k = hmode h" "csrs k Satp = csrs h Satp" and "\<And>x. x \<notin> D \<Longrightarrow> hmem k x = hmem h x" and "D' \<subseteq> D"
  shows "frame_at k D' va pa n"
  unfolding frame_at_def
proof (intro conjI allI impI)
  show "n \<le> 4096" using assms(1) by (simp add: frame_at_def)
  fix m j assume m: "\<forall>x. x \<notin> D' \<longrightarrow> m x = hmem k x" and j: "j + 8 \<le> n"
  have "\<forall>x. x \<notin> D \<longrightarrow> m x = hmem h x" using m assms(4,5) by auto
  then have "phys (h\<lparr>hmem := m\<rparr>) (va + of_nat j) = Some (pa + of_nat j)" using assms(1) j unfolding frame_at_def by blast
  then show "phys (k\<lparr>hmem := m\<rparr>) (va + of_nat j) = Some (pa + of_nat j)" using assms(2,3) by (auto simp: phys_def split: if_splits)
qed

lemma frame_at_bare: "csrs h Satp = 0 \<Longrightarrow> n \<le> 4096 \<Longrightarrow> frame_at h D pa pa n"
  by (simp add: frame_at_def phys_def mmu_def)

definition demo_tables :: memory where
  "demo_tables = store64 (store64 (store64 (\<lambda>_. 0) (slot 0x87ff0000 255) (PA2PTE 0x87ff1000 OR PTE_V))
     (slot 0x87ff1000 511) (PA2PTE 0x87ff2000 OR PTE_V))
     (slot 0x87ff2000 510) (PA2PTE 0x87ff3000 OR (PTE_R OR PTE_W) OR PTE_V)"

definition demo_hart :: "uint64 \<Rightarrow> (reg \<Rightarrow> uint64) \<Rightarrow> hart" where
  "demo_hart satp g = \<lparr>gpr = g, csrs = (\<lambda>_. 0)(Satp := satp, Sscratch := TRAPFRAME), hmem = demo_tables, hmode = SupervisorMode, hpc = 0\<rparr>"

abbreviation demo_satp :: uint64 where
  "demo_satp \<equiv> 0x8000000000087ff0"

lemma demo_tables_load: "load64 demo_tables (slot 0x87ff0000 255) = PA2PTE 0x87ff1000 OR PTE_V"
    "load64 demo_tables (slot 0x87ff1000 511) = PA2PTE 0x87ff2000 OR PTE_V"
    "load64 demo_tables (slot 0x87ff2000 510) = PA2PTE 0x87ff3000 OR (PTE_R OR PTE_W) OR PTE_V"
proof -
  have other: "load64 (store64 m (slot q i) v) (slot p j) = load64 m (slot p j)"
    if "unat i < 512" "unat j < 512" "page_aligned p" "page_aligned q" "p \<noteq> q" for p q m v i j
    using pt_slot_disjoint [OF that(4,3) that(1,2)] that(5) by (intro load64_store64_other) auto
  show "load64 demo_tables (slot 0x87ff0000 255) = PA2PTE 0x87ff1000 OR PTE_V"
      "load64 demo_tables (slot 0x87ff1000 511) = PA2PTE 0x87ff2000 OR PTE_V"
      "load64 demo_tables (slot 0x87ff2000 510) = PA2PTE 0x87ff3000 OR (PTE_R OR PTE_W) OR PTE_V"
    by (simp_all add: demo_tables_def other demo_aligned load64_store64)
qed

lemma demo_frame: "frame_at (demo_hart demo_satp g) (span 0x87ff3000 288) TRAPFRAME 0x87ff3000 288"
proof (rule frame_at_walk)
  have "PX 2 TRAPFRAME = 255" "PX 1 TRAPFRAME = 511" "PX 0 TRAPFRAME = 510" by (simp_all add: PX_def PXSHIFT_def layout_defs)
  then show "load64 (hmem (demo_hart demo_satp g)) (slot 0x87ff0000 (PX 2 TRAPFRAME)) = PA2PTE 0x87ff1000 OR PTE_V"
      "load64 (hmem (demo_hart demo_satp g)) (slot 0x87ff1000 (PX 1 TRAPFRAME)) = PA2PTE 0x87ff2000 OR PTE_V"
      "load64 (hmem (demo_hart demo_satp g)) (slot 0x87ff2000 (PX 0 TRAPFRAME)) = PA2PTE 0x87ff3000 OR (PTE_R OR PTE_W) OR PTE_V"
    by (simp_all add: demo_hart_def demo_tables_load)
  show "page_aligned TRAPFRAME" by (simp add: aligned_def layout_defs)
  show "push_bit 12 (csrs (demo_hart demo_satp g) Satp AND mask 44) = 0x87ff0000" by (simp add: demo_hart_def mask_eq_decr_exp)
qed (simp_all add: demo_hart_def demo_aligned)

theorem trampoline_roundtrip_witness:
  "\<exists>h1 h2. hrun uservec (demo_hart demo_satp (\<lambda>r. if r = S3 then 7 else 5)) = Some h1 \<and>
     hrun userret (h1\<lparr>gpr := (\<lambda>_. 0)(A0 := TRAPFRAME, A1 := demo_satp)\<rparr>) = Some h2 \<and> gpr h2 S3 = 7 \<and> gpr h2 A0 = 5"
proof -
  let ?h = "demo_hart demo_satp (\<lambda>r. if r = S3 then 7 else 5)" let ?g = "(\<lambda>_. 0)(A0 := TRAPFRAME, A1 := demo_satp) :: reg \<Rightarrow> uint64"
  have s: "csrs ?h Sscratch = TRAPFRAME" by (simp add: demo_hart_def)
  obtain h1 where h1: "hrun uservec ?h = Some h1" "entered ?h 0x87ff3000 h1" using uservec_enters [OF demo_frame s] by blast
  let ?k = "h1\<lparr>gpr := ?g\<rparr>"
  have "frame_at (set_csr Satp (gpr ?k A1) ?k) {} TRAPFRAME 0x87ff3000 288"
    by (rule frame_at_cong [OF demo_frame [of "\<lambda>_. 0"]]) (use h1(2) in \<open>auto simp: entered_def set_csr_def demo_hart_def\<close>)
  then obtain h1' h2 where h: "hrun uservec ?h = Some h1'" "hrun userret ?k = Some h2"
      "(\<forall>x\<in>span 0x87ff3000 288. hmem ?k x = hmem h1' x) \<longrightarrow> gpr h2 = gpr ?h"
    using trampoline_roundtrip [OF demo_frame s, of ?k] by auto
  then have "gpr h2 = gpr ?h" using h1(1) by simp
  then show ?thesis using h1(1) h(2) by (simp add: demo_hart_def)
qed



theorem kernelvec_transparent_witness:
  "\<exists>h3. kernelvec Some (demo_hart 0 ((\<lambda>_. 9)(SP := 0x80010000))) = Some h3 \<and> gpr h3 SP = 0x80010000 \<and> gpr h3 A7 = 9"
proof -
  let ?h = "demo_hart 0 ((\<lambda>_. 9)(SP := 0x80010000))"
  have f: "frame_at ?h (span 0x8000ff00 256) (gpr ?h SP - 256) 0x8000ff00 256"
    using frame_at_bare [of ?h 256 _ "0x8000ff00"] by (simp add: demo_hart_def)
  have "keeps_frame Some (gpr ?h SP - 256) 0x8000ff00"
    by (auto simp: keeps_frame_def intro: frame_at_cong [of _ "span 0x8000ff00 256"])
  from kernelvec_transparent [OF f this]
  obtain h3 where "kernelvec Some ?h = Some h3" "\<forall>r. r \<noteq> TP \<longrightarrow> gpr h3 r = gpr ?h r" by blast
  then show ?thesis by (simp add: demo_hart_def)
qed

end
