(* ===== verification/Boot.thy ===== *)
theory Boot
  imports Trampoline
begin

text \<open>
  How a hart starts, \<^verbatim>\<open>kernel/entry.S\<close> and \<^verbatim>\<open>kernel/start.c\<close>; the interrupt controller, \<^verbatim>\<open>kernel/plic.c\<close>; and the routines that
  only write a register, \<open>kvminithart\<close> and \<open>trapinithart\<close>.

  The addresses of \<open>stack0\<close>, \<open>main\<close>, \<open>timervec\<close>, \<open>kernelvec\<close> and \<open>timer_scratch\<close> are the linker's and parameters of the model. Device
  registers are memory; what the interrupt controller answers to a claim is an input.
\<close>

definition NCPU :: nat where "NCPU = 8"
definition CLINT :: uint64 where "CLINT = 0x2000000"
definition CLINT_MTIMECMP :: "uint64 \<Rightarrow> uint64" where "CLINT_MTIMECMP hartid = CLINT + 0x4000 + 8 * hartid"
definition CLINT_MTIME :: uint64 where "CLINT_MTIME = CLINT + 0xBFF8"
definition PLIC_SENABLE :: "uint64 \<Rightarrow> uint64" where "PLIC_SENABLE hart = PLIC + 0x2080 + hart * 0x100"
definition PLIC_SPRIORITY :: "uint64 \<Rightarrow> uint64" where "PLIC_SPRIORITY hart = PLIC + 0x201000 + hart * 0x2000"
definition PLIC_SCLAIM :: "uint64 \<Rightarrow> uint64" where "PLIC_SCLAIM hart = PLIC + 0x201004 + hart * 0x2000"

definition MSTATUS_MPP_MASK :: uint64 where "MSTATUS_MPP_MASK = push_bit 11 3"
definition MSTATUS_MPP_S :: uint64 where "MSTATUS_MPP_S = push_bit 11 1"
definition MSTATUS_MIE :: uint64 where "MSTATUS_MIE = push_bit 3 1"
definition SIE_SEIE :: uint64 where "SIE_SEIE = push_bit 9 1"
definition SIE_STIE :: uint64 where "SIE_STIE = push_bit 5 1"
definition SIE_SSIE :: uint64 where "SIE_SSIE = push_bit 1 1"
definition MIE_MTIE :: uint64 where "MIE_MTIE = push_bit 7 1"

subsection \<open>Entry\<close>

definition entry :: "uint64 \<Rightarrow> instr list" where
  "entry stack0 = [Li SP stack0, Li A0 (1024 * 4), Csrr A1 Mhartid, Addi A1 A1 1, Mul A0 A0 A1, Add SP SP A0]"

text \<open>\<open>int id = r_mhartid()\<close>, and its value as a \<open>uint64\<close> again.\<close>

definition hart_id :: "hart \<Rightarrow> uint64" where
  "hart_id h = scast (ucast (r_mhartid h) :: 32 word)"

definition timerinit :: "uint64 \<Rightarrow> uint64 \<Rightarrow> hart \<Rightarrow> hart" where
  "timerinit timervec_addr timer_scratch h =
     (let id = hart_id h;
          interval = 1000000;
          h = h\<lparr>hmem := store64 (hmem h) (CLINT_MTIMECMP id) (load64 (hmem h) CLINT_MTIME + interval)\<rparr>;
          scratch = timer_scratch + 40 * id;
          h = h\<lparr>hmem := store64 (hmem h) (scratch + 24) (CLINT_MTIMECMP id)\<rparr>;
          h = h\<lparr>hmem := store64 (hmem h) (scratch + 32) interval\<rparr>;
          h = w_mscratch scratch h;
          h = w_mtvec timervec_addr h;
          h = w_mstatus (r_mstatus h OR MSTATUS_MIE) h
      in w_mie (r_mie h OR MIE_MTIE) h)"

definition start :: "uint64 \<Rightarrow> uint64 \<Rightarrow> uint64 \<Rightarrow> hart \<Rightarrow> hart" where
  "start main_addr timervec_addr timer_scratch h =
     (let x = r_mstatus h;
          x = x AND NOT MSTATUS_MPP_MASK;
          x = x OR MSTATUS_MPP_S;
          h = w_mstatus x h;
          h = w_mepc main_addr h;
          h = w_satp 0 h;
          h = w_medeleg 0xffff h;
          h = w_mideleg 0xffff h;
          h = w_sie (r_sie h OR SIE_SEIE OR SIE_STIE OR SIE_SSIE) h;
          h = w_pmpaddr0 0x3fffffffffffff h;
          h = w_pmpcfg0 0xf h;
          h = timerinit timervec_addr timer_scratch h;
          h = w_tp (hart_id h) h
      in do_mret h)"

subsection \<open>Each hart\<close>

text \<open>\<open>w_satp(MAKE_SATP(kernel_pagetable)); sfence_vma()\<close> and \<open>w_stvec((uint64)kernelvec)\<close>.\<close>

definition kvminithart :: "uint64 \<Rightarrow> hart \<Rightarrow> hart" where
  "kvminithart kernel_pagetable h = w_satp (push_bit 60 8 OR drop_bit 12 kernel_pagetable) h"

definition trapinithart :: "uint64 \<Rightarrow> hart \<Rightarrow> hart" where
  "trapinithart kernelvec_addr h = w_stvec kernelvec_addr h"

definition store32 :: "uint64 \<Rightarrow> uint32 \<Rightarrow> hart \<Rightarrow> hart" where
  "store32 a v h = h\<lparr>hmem := mwrite (hmem h) a (le_enc 4 v)\<rparr>"

definition plicinit :: "hart \<Rightarrow> hart" where
  "plicinit h = store32 (PLIC + 1 * 4) 1 (store32 (PLIC + 10 * 4) 1 h)"

text \<open>\<open>cpuid()\<close> is the hart number in \<open>tp\<close>.\<close>

definition plicinithart :: "hart \<Rightarrow> hart" where
  "plicinithart h = store32 (PLIC_SPRIORITY (r_tp h)) 0 (store32 (PLIC_SENABLE (r_tp h)) (push_bit 10 1 OR push_bit 1 1) h)"

definition plic_claim :: "(uint64 \<Rightarrow> uint32) \<Rightarrow> hart \<Rightarrow> int" where
  "plic_claim answer h = sint (answer (PLIC_SCLAIM (r_tp h)))"

definition plic_complete :: "int \<Rightarrow> hart \<Rightarrow> hart" where
  "plic_complete irq h = store32 (PLIC_SCLAIM (r_tp h)) (of_int irq) h"

subsection \<open>The state a hart enters the kernel with\<close>

lemmas accessors = r_mstatus_def w_mstatus_def w_mepc_def w_satp_def w_medeleg_def w_mideleg_def r_sie_def w_sie_def w_pmpaddr0_def
  w_pmpcfg0_def w_mscratch_def w_mtvec_def r_mie_def w_mie_def w_tp_def r_mhartid_def csr_plain csr_views

lemma hart_id_small: "unat (csrs h Mhartid) < NCPU \<Longrightarrow> hart_id h = csrs h Mhartid"
proof -
  let ?w = "csrs h Mhartid"
  assume "unat ?w < NCPU"
  then have u: "unat ?w < 8" by (simp add: NCPU_def)
  define n where "n = unat ?w"
  have w: "?w = of_nat n" by (simp add: n_def)
  have "ucast ?w = (of_nat n :: 32 word)" using u by (simp add: word_unat_eq_iff unsigned_ucast_eq take_bit_nat_eq_self n_def unat_of_nat)
  moreover have "sint (of_nat n :: 32 word) = int n" using u by (simp add: n_def signed_of_nat signed_take_bit_int_eq_self del: of_nat_unat)
  then have "scast (of_nat n :: 32 word) = (of_nat n :: uint64)" by (simp add: scast_eq)
  ultimately show "hart_id h = ?w" using w by (simp add: hart_id_def r_mhartid_def csr_plain)
qed

lemma entry_stack: "\<exists>h'. hrun (entry stack0) h = Some h' \<and> gpr h' SP = stack0 + 4096 * (csrs h Mhartid + 1)"
  by (simp add: entry_def csr_plain set_reg_def)

definition booted :: "uint64 \<Rightarrow> uint64 \<Rightarrow> uint64 \<Rightarrow> hart \<Rightarrow> hart \<Rightarrow> bool" where
  "booted main_addr timervec_addr scratch h h1 \<longleftrightarrow> hmode h1 = SupervisorMode \<and> hpc h1 = main_addr \<and> csrs h1 Satp = 0 \<and>
     gpr h1 TP = csrs h Mhartid \<and> csrs h1 Medeleg = 0xffff \<and> csrs h1 Mideleg = 0xffff \<and> bit (csrs h1 Mie) 7 \<and>
     bit (r_sie h1) 9 \<and> bit (r_sie h1) 5 \<and> bit (r_sie h1) 1 \<and>
     csrs h1 Mtvec = timervec_addr \<and> csrs h1 Mscratch = scratch \<and> load64 (hmem h1) (scratch + 24) = CLINT_MTIMECMP (csrs h Mhartid) \<and>
     load64 (hmem h1) (scratch + 32) = 1000000 \<and>
     load64 (hmem h1) (CLINT_MTIMECMP (csrs h Mhartid)) = load64 (hmem h) CLINT_MTIME + 1000000"

lemma start_boots:
  assumes id: "unat (csrs h Mhartid) < NCPU" and d: "span (CLINT_MTIMECMP (csrs h Mhartid)) 8 \<inter> span (timer_scratch + 40 * csrs h Mhartid) 40 = {}"
  shows "booted main_addr timervec_addr (timer_scratch + 40 * csrs h Mhartid) h (start main_addr timervec_addr timer_scratch h)"
proof -
  let ?h1 = "start main_addr timervec_addr timer_scratch h" let ?s = "timer_scratch + 40 * csrs h Mhartid"
  have hid: "hart_id k = csrs h Mhartid" if "csrs k Mhartid = csrs h Mhartid" for k using hart_id_small [of k] id that by simp
  have c: "csrs ?h1 Satp = 0" "csrs ?h1 Medeleg = 0xffff" "csrs ?h1 Mideleg = 0xffff" "csrs ?h1 Mtvec = timervec_addr"
      "csrs ?h1 Mscratch = ?s" "hpc ?h1 = main_addr" "gpr ?h1 TP = csrs h Mhartid"
    by (simp_all add: start_def timerinit_def Let_def accessors set_csr_def set_reg_def do_mret_def hid)
  have mie: "csrs ?h1 Mie = masked 0xffff (csrs h Mie) (csrs h Mie AND 0xffff OR SIE_SEIE OR SIE_STIE OR SIE_SSIE) OR MIE_MTIE"
    by (simp add: start_def timerinit_def Let_def accessors set_csr_def set_reg_def do_mret_def hid)
  have sie: "bit (csrs ?h1 Mie) 7" "bit (r_sie ?h1) 9" "bit (r_sie ?h1) 5" "bit (r_sie ?h1) 1"
    using mie c(3) by (simp_all add: r_sie_def csr_views masked_def MIE_MTIE_def SIE_SEIE_def SIE_STIE_def SIE_SSIE_def bit_simps)
  have "\<not> bit (((x AND NOT MSTATUS_MPP_MASK) OR MSTATUS_MPP_S) OR MSTATUS_MIE) 12"
      "bit (((x AND NOT MSTATUS_MPP_MASK) OR MSTATUS_MPP_S) OR MSTATUS_MIE) 11" for x
    by (simp_all add: MSTATUS_MPP_MASK_def MSTATUS_MPP_S_def MSTATUS_MIE_def bit_simps)
  then have mode: "hmode ?h1 = SupervisorMode"
    by (simp add: start_def timerinit_def Let_def accessors set_csr_def set_reg_def do_mret_def hid)
  have mem: "hmem ?h1 = store64 (store64 (store64 (hmem h) (CLINT_MTIMECMP (csrs h Mhartid)) (load64 (hmem h) CLINT_MTIME + 1000000))
      (?s + 24) (CLINT_MTIMECMP (csrs h Mhartid))) (?s + 32) 1000000"
    by (simp add: start_def timerinit_def Let_def accessors set_csr_def set_reg_def do_mret_def hid)
  have sub: "span (?s + of_nat k) 8 \<subseteq> span ?s 40" if "k + 8 \<le> 40" for k using slot_in_frame that by auto
  have "span (?s + 32) 8 \<inter> span (?s + 24) 8 = {}" using slot_disjoint [of 32 24 ?s] by simp
  moreover have "span (?s + 32) 8 \<inter> span (CLINT_MTIMECMP (csrs h Mhartid)) 8 = {}" "span (?s + 24) 8 \<inter> span (CLINT_MTIMECMP (csrs h Mhartid)) 8 = {}"
    using sub [of 32] sub [of 24] d by auto
  ultimately have "load64 (hmem ?h1) (?s + 24) = CLINT_MTIMECMP (csrs h Mhartid)" "load64 (hmem ?h1) (?s + 32) = 1000000"
      "load64 (hmem ?h1) (CLINT_MTIMECMP (csrs h Mhartid)) = load64 (hmem h) CLINT_MTIME + 1000000"
    unfolding mem by (simp_all add: load64_store64 load64_store64_other)
  then show ?thesis using c sie mode by (simp add: booted_def)
qed

subsection \<open>The timer interrupt\<close>

text \<open>
  How the architecture takes a machine timer interrupt: the program counter goes to \<open>mepc\<close>, the mode and the interrupt enable bit to
  the status register, and the hart continues at \<open>mtvec\<close> in machine mode. \<open>mcause\<close>, which \<open>timervec\<close> does not read, is left out.
\<close>

definition timer_trap :: "hart \<Rightarrow> hart" where
  "timer_trap h = (let x = csrs h Mstatus in
     (set_csr Mepc (hpc h) (set_csr Mstatus (put_bit 11 (hmode h \<noteq> UserMode) (put_bit 12 (hmode h = MachineMode) (put_bit 7 (bit x 3) (put_bit 3 False x)))) h))
       \<lparr>hpc := csrs h Mtvec, hmode := MachineMode\<rparr>)"

text \<open>
  What \<open>timervec\<close> needs: \<open>mscratch\<close>, and the last two words of the scratch area, as \<open>start\<close> has set them. The first three are its own.
\<close>

definition armed :: "uint64 \<Rightarrow> uint64 \<Rightarrow> uint64 \<Rightarrow> hart \<Rightarrow> bool" where
  "armed timervec_addr scratch cmp k \<longleftrightarrow> csrs k Mtvec = timervec_addr \<and> csrs k Mscratch = scratch \<and> csrs k Mideleg = 0xffff \<and>
     load64 (hmem k) (scratch + 24) = cmp \<and> load64 (hmem k) (scratch + 32) = 1000000 \<and> hmode k \<noteq> MachineMode"

text \<open>
  One timer interrupt, seen from the code it interrupts: nothing has changed but \<open>mepc\<close>, the bits of \<open>mstatus\<close> that supervisor mode
  does not see, the pending software interrupt, the first three words of the scratch area and the compare register.
\<close>

definition ticked :: "uint64 \<Rightarrow> uint64 \<Rightarrow> hart \<Rightarrow> hart \<Rightarrow> bool" where
  "ticked scratch cmp k k' \<longleftrightarrow> gpr k' = gpr k \<and> hpc k' = hpc k \<and> hmode k' = hmode k \<and> r_sstatus k' = r_sstatus k \<and>
     (\<forall>c. c \<notin> {Mstatus, Mepc, Mip} \<longrightarrow> csrs k' c = csrs k c) \<and> bit (r_sip k') 1 \<and>
     load64 (hmem k') cmp = load64 (hmem k) cmp + 1000000 \<and>
     (\<forall>x. x \<notin> span scratch 24 \<longrightarrow> x \<notin> span cmp 8 \<longrightarrow> hmem k' x = hmem k x)"

text \<open>
  The hart after \<open>start\<close>: a timer interrupt runs \<open>timervec\<close>, and the code below machine mode does what it likes, except that
  it cannot write machine registers and does not write the last two words of the scratch area.
\<close>

inductive hart_step :: "uint64 \<Rightarrow> hart \<Rightarrow> hart \<Rightarrow> bool" for scratch where
  tick: "hrun timervec (timer_trap k) = Some k' \<Longrightarrow> hart_step scratch k k'"
| runs: "csrs k' Mscratch = csrs k Mscratch \<Longrightarrow> csrs k' Mtvec = csrs k Mtvec \<Longrightarrow> csrs k' Mideleg = csrs k Mideleg \<Longrightarrow>
    hmode k' \<noteq> MachineMode \<Longrightarrow> (\<And>x. x \<in> span (scratch + 24) 16 \<Longrightarrow> hmem k' x = hmem k x) \<Longrightarrow> hart_step scratch k k'"

lemma put_bit_other: "n \<noteq> m \<Longrightarrow> bit (put_bit n b x) m = bit x m"
  by (simp add: put_bit_def bit_simps)

lemma put_bit_same: "n < 64 \<Longrightarrow> bit (put_bit n b x) n = b"
  by (simp add: put_bit_def bit_simps)

lemmas put_bit_bits = put_bit_other put_bit_same

text \<open>Interrupt and \<open>mret\<close> give back the mode and leave the status register that supervisor mode sees alone.\<close>

lemma timer_mstatus:
  fixes x :: uint64 and p q :: bool
  defines "y \<equiv> put_bit 11 p (put_bit 12 q (put_bit 7 (bit x 3) (put_bit 3 False x)))"
  shows "put_bit 11 False (put_bit 12 False (put_bit 7 True (put_bit 3 (bit y 7) y))) AND SSTATUS_VIEW = x AND SSTATUS_VIEW"
proof (rule bit_word_eqI)
  fix n assume "n < LENGTH(64)"
  moreover have "\<not> bit SSTATUS_VIEW 3" "\<not> bit SSTATUS_VIEW 7" "\<not> bit SSTATUS_VIEW 11" "\<not> bit SSTATUS_VIEW 12" by (simp_all add: SSTATUS_VIEW_def)
  ultimately show "bit (put_bit 11 False (put_bit 12 False (put_bit 7 True (put_bit 3 (bit y 7) y))) AND SSTATUS_VIEW) n = bit (x AND SSTATUS_VIEW) n"
    by (cases "n = 3 \<or> n = 7 \<or> n = 11 \<or> n = 12") (auto simp: bit_and_iff y_def put_bit_other)
qed

lemma timervec_run:
  assumes m: "hmode k = MachineMode" and s: "csrs k Mscratch = s0" "load64 (hmem k) (s0 + 24) = cmp" "load64 (hmem k) (s0 + 32) = 1000000"
    and d: "span cmp 8 \<inter> span s0 40 = {}"
  obtains k' where "hrun timervec k = Some k'" and "gpr k' = gpr k" and "load64 (hmem k') cmp = load64 (hmem k) cmp + 1000000"
    and "\<And>x. x \<notin> span s0 24 \<Longrightarrow> x \<notin> span cmp 8 \<Longrightarrow> hmem k' x = hmem k x" and "hpc k' = csrs k Mepc" and "hmode k' = hmode (do_mret k)"
    and "csrs k' = (csrs (do_mret k))(Mip := masked (csrs k Mideleg AND 2) (csrs k Mip) 2)"
proof -
  have sl: "span s0 8 \<inter> span (s0 + 8) 8 = {}" "span s0 8 \<inter> span (s0 + 16) 8 = {}" "span (s0 + 8) 8 \<inter> span (s0 + 16) 8 = {}"
      "span s0 8 \<inter> span (s0 + 24) 8 = {}" "span (s0 + 8) 8 \<inter> span (s0 + 24) 8 = {}" "span (s0 + 16) 8 \<inter> span (s0 + 24) 8 = {}"
      "span s0 8 \<inter> span (s0 + 32) 8 = {}" "span (s0 + 8) 8 \<inter> span (s0 + 32) 8 = {}" "span (s0 + 16) 8 \<inter> span (s0 + 32) 8 = {}"
    using slot_disjoint [of 0 8 s0] slot_disjoint [of 0 16 s0] slot_disjoint [of 8 16 s0] slot_disjoint [of 0 24 s0] slot_disjoint [of 8 24 s0]
      slot_disjoint [of 16 24 s0] slot_disjoint [of 0 32 s0] slot_disjoint [of 8 32 s0] slot_disjoint [of 16 32 s0] by simp_all
  have sub: "span (s0 + of_nat j) 8 \<subseteq> span s0 n" if "j + 8 \<le> n" "n \<le> 40" for j n using slot_in_frame that by auto
  have cs: "span cmp 8 \<inter> span s0 8 = {}" "span cmp 8 \<inter> span (s0 + 8) 8 = {}" "span cmp 8 \<inter> span (s0 + 16) 8 = {}"
    using sub [of 0 40] sub [of 8 40] sub [of 16 40] d by auto
  have cs': "span s0 8 \<inter> span cmp 8 = {}" "span (s0 + 8) 8 \<inter> span cmp 8 = {}" "span (s0 + 16) 8 \<inter> span cmp 8 = {}" using cs by blast+
  have sl': "span (s0 + 8) 8 \<inter> span s0 8 = {}" "span (s0 + 16) 8 \<inter> span s0 8 = {}" "span (s0 + 16) 8 \<inter> span (s0 + 8) 8 = {}" using sl by blast+
  note ld = load64_store64 load64_store64_other sl sl' cs cs'
  let ?m3 = "store64 (store64 (store64 (hmem k) s0 (gpr k A1)) (s0 + 8) (gpr k A2)) (s0 + 16) (gpr k A3)"
  let ?m = "store64 ?m3 cmp (load64 (hmem k) cmp + 1000000)"
  have v: "load64 ?m3 (s0 + 24) = cmp" "load64 ?m3 (s0 + 32) = 1000000" "load64 ?m3 cmp = load64 (hmem k) cmp"
      "load64 ?m (s0 + 16) = gpr k A3" "load64 ?m (s0 + 8) = gpr k A2" "load64 ?m s0 = gpr k A1" "load64 ?m cmp = load64 (hmem k) cmp + 1000000"
    using s by (simp_all add: ld)
  have ph: "phys h a = Some a" if "hmode h = MachineMode" for h a using that by (simp add: phys_def)
  have "\<exists>k'. hrun timervec k = Some k' \<and> gpr k' = gpr k \<and> hmem k' = ?m \<and> hpc k' = csrs k Mepc \<and> hmode k' = hmode (do_mret k) \<and>
      csrs k' = (csrs (do_mret k))(Mip := masked (csrs k Mideleg AND 2) (csrs k Mip) 2)"
    using m s(1) v by (simp add: timervec_def ph csr_plain csr_views set_reg_def set_csr_def do_mret_def Let_def fun_eq_iff)
  then obtain k' where k': "hrun timervec k = Some k'" "gpr k' = gpr k" "hmem k' = ?m" "hpc k' = csrs k Mepc" "hmode k' = hmode (do_mret k)"
      "csrs k' = (csrs (do_mret k))(Mip := masked (csrs k Mideleg AND 2) (csrs k Mip) 2)" by blast
  have "?m x = hmem k x" if "x \<notin> span s0 24" "x \<notin> span cmp 8" for x
  proof -
    have "x \<notin> span s0 8" "x \<notin> span (s0 + 8) 8" "x \<notin> span (s0 + 16) 8" using that(1) sub [of 0 24] sub [of 8 24] sub [of 16 24] by auto
    then show ?thesis using that(2) by (simp add: store64_outside)
  qed
  then show ?thesis using that [of k'] k' v(7) by simp
qed

lemma timervec_ticks:
  assumes a: "armed tv scratch cmp k" and d: "span cmp 8 \<inter> span scratch 40 = {}"
  shows "\<exists>k'. hrun timervec (timer_trap k) = Some k' \<and> ticked scratch cmp k k'"
proof -
  have t: "gpr (timer_trap k) = gpr k" "hmem (timer_trap k) = hmem k" "hmode (timer_trap k) = MachineMode" "csrs (timer_trap k) Mscratch = scratch"
      "csrs (timer_trap k) Mepc = hpc k" "csrs (timer_trap k) Mideleg = 0xffff"
    using a by (simp_all add: timer_trap_def Let_def set_csr_def armed_def)
  obtain k' where k': "hrun timervec (timer_trap k) = Some k'" "gpr k' = gpr (timer_trap k)"
      "load64 (hmem k') cmp = load64 (hmem (timer_trap k)) cmp + 1000000"
      "\<And>x. x \<notin> span scratch 24 \<Longrightarrow> x \<notin> span cmp 8 \<Longrightarrow> hmem k' x = hmem (timer_trap k) x" "hpc k' = csrs (timer_trap k) Mepc"
      "hmode k' = hmode (do_mret (timer_trap k))"
      "csrs k' = (csrs (do_mret (timer_trap k)))(Mip := masked (csrs (timer_trap k) Mideleg AND 2) (csrs (timer_trap k) Mip) 2)"
    by (rule timervec_run [OF t(3,4), of cmp]) (use a d t(2) in \<open>auto simp: armed_def\<close>)
  have "hmode k' = hmode k" using a k'(6)
    by (cases "hmode k") (simp_all add: armed_def do_mret_def timer_trap_def Let_def set_csr_def put_bit_bits)
  moreover have "r_sstatus k' = r_sstatus k"
    using timer_mstatus k'(7) by (simp add: r_sstatus_def csr_read_def do_mret_def timer_trap_def Let_def set_csr_def)
  moreover have "csrs k' c = csrs k c" if "c \<notin> {Mstatus, Mepc, Mip}" for c
    using that k'(7) by (simp add: do_mret_def timer_trap_def Let_def set_csr_def)
  moreover from this have "csrs k' Mideleg = 0xffff" using a by (simp add: armed_def)
  then have "bit (r_sip k') 1" using t(6) k'(7) by (simp add: r_sip_def csr_views masked_def bit_simps)
  ultimately show ?thesis using k'(1-5) t(1,2,5) by (intro exI [of _ k']) (simp add: ticked_def)
qed

lemma armed_cong:
  assumes "armed tv scratch cmp k" and "csrs k' Mscratch = csrs k Mscratch" and "csrs k' Mtvec = csrs k Mtvec" and "csrs k' Mideleg = csrs k Mideleg"
    and "hmode k' \<noteq> MachineMode" and "\<And>x. x \<in> span (scratch + 24) 16 \<Longrightarrow> hmem k' x = hmem k x"
  shows "armed tv scratch cmp k'"
proof -
  have "span (scratch + 24 + of_nat j) 8 \<subseteq> span (scratch + 24) 16" if "j + 8 \<le> 16" for j using slot_in_frame that by auto
  from this [of 0] this [of 8] have "load64 (hmem k') (scratch + 24) = load64 (hmem k) (scratch + 24)" "load64 (hmem k') (scratch + 32) = load64 (hmem k) (scratch + 32)"
    using assms(6) by (auto intro!: load64_cong simp: add.assoc)
  then show ?thesis using assms(1-5) by (simp add: armed_def)
qed

lemma hart_step_armed:
  assumes "hart_step scratch k k'" and a: "armed tv scratch cmp k" and d: "span cmp 8 \<inter> span scratch 40 = {}"
  shows "armed tv scratch cmp k'"
  using assms(1)
proof cases
  case tick
  then have t: "ticked scratch cmp k k'" using timervec_ticks [OF a d] by auto
  have "x \<notin> span scratch 24 \<and> x \<notin> span cmp 8" if "x \<in> span (scratch + 24) 16" for x
  proof -
    define y where "y = x - (scratch + 24)"
    have "x - scratch = y + 24" by (simp add: y_def)
    moreover have "unat y < 16" using that by (simp add: y_def span_def)
    ultimately have "24 \<le> unat (x - scratch) \<and> unat (x - scratch) < 40" by (simp add: unat_word_ariths)
    then show ?thesis using d by (auto simp: span_def)
  qed
  then show ?thesis using t a by (intro armed_cong [OF a]) (auto simp: ticked_def armed_def)
next
  case runs then show ?thesis by (intro armed_cong [OF a])
qed

text \<open>
  C35: from reset to the timer. \<open>start\<close> leaves the hart in supervisor mode at \<open>main\<close> with paging off, its number in \<open>tp\<close>, interrupts and
  exceptions delegated and the timer set. From then on, whatever supervisor and user code does that leaves the last two words of the scratch
  area alone, every timer interrupt goes to \<open>timervec\<close>, which runs to its end, sets the next interrupt an interval later, raises a supervisor
  software interrupt, and is invisible to the interrupted code: it continues at the same place and in the same mode, with the same registers
  and supervisor status, and in memory only the first three scratch words and \<open>mtimecmp\<close> have changed.
\<close>

theorem boot_and_timer:
  fixes main_addr timervec_addr timer_scratch :: uint64
  assumes "unat (csrs h Mhartid) < NCPU" and "span (CLINT_MTIMECMP (csrs h Mhartid)) 8 \<inter> span (timer_scratch + 40 * csrs h Mhartid) 40 = {}"
  defines "scratch \<equiv> timer_scratch + 40 * csrs h Mhartid" and "cmp \<equiv> CLINT_MTIMECMP (csrs h Mhartid)"
    and "h1 \<equiv> start main_addr timervec_addr timer_scratch h"
  shows "booted main_addr timervec_addr scratch h h1 \<and>
    (\<forall>k. (hart_step scratch)\<^sup>*\<^sup>* h1 k \<longrightarrow> hpc (timer_trap k) = timervec_addr \<and> (\<exists>k'. hrun timervec (timer_trap k) = Some k' \<and> ticked scratch cmp k k'))"
proof -
  have d: "span cmp 8 \<inter> span scratch 40 = {}" using assms(2) by (simp add: cmp_def scratch_def)
  have b: "booted main_addr timervec_addr scratch h h1" using start_boots [OF assms(1,2)] by (simp add: scratch_def h1_def)
  then have a: "armed timervec_addr scratch cmp h1" by (simp add: booted_def armed_def scratch_def cmp_def)
  have "armed timervec_addr scratch cmp k" if "(hart_step scratch)\<^sup>*\<^sup>* h1 k" for k
    using that by (induction rule: rtranclp_induct) (use a d hart_step_armed in blast)+
  moreover have "hpc (timer_trap k) = timervec_addr" if "armed timervec_addr scratch cmp k" for k
    using that by (simp add: armed_def timer_trap_def Let_def set_csr_def)
  ultimately show ?thesis using b timervec_ticks [OF _ d] by blast
qed

text \<open>Two interrupts in a row after \<open>start\<close>, with a user program in between.\<close>

theorem boot_and_timer_witness:
  "\<exists>k k'. hrun timervec (timer_trap (start 0x80000100 0x80000200 0x80010000 ((demo_hart 0 (\<lambda>_. 3))\<lparr>hmem := \<lambda>_. 0\<rparr>))) = Some k \<and>
     load64 (hmem k) 0x2004000 = 2000000 \<and> hmode k = SupervisorMode \<and>
     hrun timervec (timer_trap (k\<lparr>gpr := \<lambda>_. 7, hpc := 0x40, hmode := UserMode\<rparr>)) = Some k' \<and>
     load64 (hmem k') 0x2004000 = 3000000 \<and> hmode k' = UserMode \<and> hpc k' = 0x40 \<and> gpr k' = (\<lambda>_. 7)"
proof -
  let ?h = "(demo_hart 0 (\<lambda>_. 3))\<lparr>hmem := \<lambda>_. 0\<rparr>" let ?h1 = "start 0x80000100 0x80000200 0x80010000 ?h"
  have id: "csrs ?h Mhartid = 0" by (simp add: demo_hart_def)
  have "page_aligned (0x2004000 :: uint64)" "page_aligned (0x80010000 :: uint64)" by (simp_all add: aligned_def)
  then have "span 0x2004000 4096 \<inter> span 0x80010000 4096 = {}" by (rule page_span_disjoint) simp
  moreover have "span 0x2004000 8 \<subseteq> span 0x2004000 4096" "span 0x80010000 40 \<subseteq> span 0x80010000 4096" by (auto simp: span_def)
  ultimately have d: "span 0x2004000 8 \<inter> span 0x80010000 40 = {}" by blast
  have c: "CLINT_MTIMECMP 0 = 0x2004000" "CLINT_MTIME = 0x200BFF8" by (simp_all add: CLINT_MTIMECMP_def CLINT_MTIME_def CLINT_def)
  from boot_and_timer [of ?h "0x80010000" "0x80000100" "0x80000200"]
  have b: "booted 0x80000100 0x80000200 0x80010000 ?h ?h1" and t: "\<And>k. (hart_step 0x80010000)\<^sup>*\<^sup>* ?h1 k \<Longrightarrow>
      \<exists>k'. hrun timervec (timer_trap k) = Some k' \<and> ticked 0x80010000 0x2004000 k k'"
    unfolding id using d c by (auto simp: NCPU_def)
  obtain k where k: "hrun timervec (timer_trap ?h1) = Some k" "ticked 0x80010000 0x2004000 ?h1 k" using t [of ?h1] by auto
  let ?k = "k\<lparr>gpr := \<lambda>_. 7, hpc := 0x40, hmode := UserMode\<rparr>"
  have "hart_step 0x80010000 ?h1 k" using k(1) by (rule hart_step.tick)
  moreover have "hart_step 0x80010000 k ?k" by (rule hart_step.runs) simp_all
  ultimately obtain k' where k': "hrun timervec (timer_trap ?k) = Some k'" "ticked 0x80010000 0x2004000 ?k k'" using t [of ?k] by (meson r_into_rtranclp rtranclp.rtrancl_into_rtrancl)
  have "load64 (hmem ?h) 0x200BFF8 = 0" by (simp add: load64_zero_mem)
  then have "load64 (hmem ?h1) 0x2004000 = 1000000" "hmode ?h1 = SupervisorMode" using b c id by (simp_all add: booted_def)
  then show ?thesis using k k' by (intro exI [of _ k] exI [of _ k']) (simp add: ticked_def)
qed

end
