(* ===== verification/Reap.thy ===== *)
theory Reap
  imports Process
begin

text \<open>
  What becomes of the address space of a process that had files mapped. \<open>exit\<close> and \<open>munmap\<close> remove the pages of a mapping
  from the page table; \<open>freeproc\<close> later frees the \<open>sz\<close> bytes of the address space, which \<open>mmap\<close> had extended by the mapping.
\<close>

lemma unmap_hole:
  assumes "pt_inv s root" and "page_aligned a" and "unat a + 4096 * Suc m \<le> 2 ^ 38"
    and "range_mapped s root a m" and "range_owned s root a m"
    and "pte_of (pmem s) root (a + of_nat m * PGSIZE) AND PTE_V = 0" and "a + of_nat m * PGSIZE < lim"
  shows "\<exists>msg. uvmunmap_from root a lim True s = Panic msg"
  using assms
proof (induction m arbitrary: s a)
  case 0
  have "a < MAXVA" "a < lim" using 0 by (simp_all add: lt_MAXVA)
  then show ?case
    using 0 walk_find [of a root s] pt_leaf_nonzero [OF 0(1)]
    by (subst uvmunmap_from.simps) (auto simp: bind_def pte_of_def pte_at_def panic_def split: option.splits)
next
  case (Suc m)
  have b: "unat a + 4096 * Suc m \<le> 2 ^ 38" using Suc.prems(3) by simp
  have a: "a < MAXVA" "unat (a + PGSIZE) = unat a + 4096" "page_aligned (a + PGSIZE)"
    using Suc.prems(2,3) unat_page_offset [of a 1] by (simp_all add: lt_MAXVA aligned_add)
  note split = in_pages_Suc [OF Suc.prems(2) b]
  have a_in: "in_pages a (Suc m) a" using split [of a] Suc.prems(2) by simp
  have hole: "a + of_nat (Suc m) * PGSIZE = (a + PGSIZE) + of_nat m * PGSIZE" by (simp add: algebra_simps)
  have un: "unat (a + of_nat (Suc m) * PGSIZE) = unat a + 4096 * Suc m"
    using Suc.prems(3) by (intro unat_page_offset) simp
  then have lt: "a < lim" using Suc.prems(7) by (simp add: word_less_nat_alt)
  have mapped: "pte_of (pmem s) root a AND PTE_V \<noteq> 0" "PTE_FLAGS (pte_of (pmem s) root a) \<noteq> PTE_V"
    using Suc.prems(4) a(1) a_in by (auto simp: range_mapped_def)
  have data: "kpage s (pa_of s root a) \<and> pa_of s root a \<notin> free_pages s \<and> pa_of s root a \<notin> pt_pages (pmem s) root"
    using Suc.prems(5) a(1) a_in by (auto simp: range_owned_def range_pages_def)
  obtain s1 where s1: "\<forall>lim. a < lim \<longrightarrow> uvmunmap_from root a lim True s = uvmunmap_from root (a + PGSIZE) lim True s1"
      "unmap_step root {pa_of s root a} s s1"
      "\<forall>vb<MAXVA. pte_of (pmem s1) root vb = (if PGROUNDDOWN vb = a then 0 else pte_of (pmem s) root vb)"
    using unmap_one [OF Suc.prems(1) a(1) Suc.prems(2) mapped, of True] data by auto
  have "unat (a + of_nat (Suc m) * PGSIZE) < 2 ^ 38" using un Suc.prems(3) by simp
  then have "pte_of (pmem s1) root (a + of_nat (Suc m) * PGSIZE) AND PTE_V = 0" using s1(3) Suc.prems(6) by (simp add: lt_MAXVA)
  moreover have "pt_inv s1 root" using s1(2) by (simp add: unmap_step_def)
  ultimately have "\<exists>msg. uvmunmap_from root (a + PGSIZE) lim True s1 = Panic msg"
    using Suc.prems(3,7) a(2,3) hole range_mapped_next(1) [OF Suc.prems(2) b Suc.prems(4) s1(3)]
      range_owned_next [OF Suc.prems(2) b Suc.prems(5,4) s1(2,3)] by (intro Suc.IH) (simp_all add: add.assoc)
  then show ?case using s1(1) lt by simp
qed

text \<open>
  C36: a process that had a file mapped cannot be reaped. Let the address space be completely mapped, \<open>m\<close> pages of the program and \<open>n\<close> pages of
  a mapping above them. When \<open>exit\<close> or \<open>munmap\<close> has removed the pages of the mapping, freeing the address space up to
  the size of the process panics, as the loop finds a page that is not mapped.
\<close>

theorem reap_after_mmap_panics:
  fixes s :: "'a kmem_scheme"
  assumes inv: "pt_inv s root" and b: "4096 * (m + n) < 2 ^ 38" and n: "0 < n"
    and mapped: "range_mapped s root 0 (m + n)" and owned: "range_owned s root 0 (m + n)"
  shows "\<exists>s1 msg. uvmunmap root (of_nat m * PGSIZE) (of_nat n) False s = Ok () s1 \<and> uvmfree root (of_nat (m + n) * PGSIZE) s1 = Panic msg"
proof -
  define base :: uint64 where "base = of_nat m * PGSIZE" define top :: uint64 where "top = of_nat (m + n) * PGSIZE"
  have un: "unat (of_nat k * PGSIZE) = 4096 * k" if "k \<le> m + n" for k using unat_page_offset [of 0 k] that b by simp
  have base: "unat base = 4096 * m" unfolding base_def by (rule un) simp
  have sz: "unat top = 4096 * (m + n)" unfolding top_def by (rule un) simp
  have al: "page_aligned base" "page_aligned top" using base sz by (simp_all add: aligned_dvd)
  have sub: "in_pages 0 (m + n) va" if "in_pages base n va \<or> in_pages 0 m va" for va using that base by (auto simp: in_pages_def)
  have dis: "\<not> in_pages base n va" if "in_pages 0 m va" for va using that base by (auto simp: in_pages_def)
  have "range_mapped s root base n" using mapped sub by (auto simp: range_mapped_def)
  then obtain s1 where s1: "uvmunmap_from root base (base + of_nat n * PGSIZE) False s = Ok () s1" "unmap_step root {} s s1"
      "\<forall>vb<MAXVA. pte_of (pmem s1) root vb = (if in_pages base n vb then 0 else pte_of (pmem s) root vb)"
    using uvmunmap_from_range [OF inv al(1), of n False] base b by auto
  have same: "pte_of (pmem s1) root vb = pte_of (pmem s) root vb" if "vb < MAXVA" "in_pages 0 m vb" for vb using s1(3) dis that by simp
  have "range_mapped s1 root 0 m" using mapped sub same by (simp add: range_mapped_def)
  moreover have "range_owned s1 root 0 m"
  proof -
    have "range_pages s1 root 0 m \<subseteq> range_pages s root 0 (m + n)" using sub same by (auto simp: range_pages_def pa_of_def)
    moreover have "kpage s1 = kpage s" using s1(2) by (simp add: unmap_step_def kpage_def fun_eq_iff)
    moreover have "free_pages s1 = free_pages s" "pt_pages (pmem s1) root = pt_pages (pmem s) root" using s1(2) by (simp_all add: unmap_step_def)
    ultimately have "\<forall>p \<in> range_pages s1 root 0 m. kpage s1 p \<and> p \<notin> free_pages s1 \<and> p \<notin> pt_pages (pmem s1) root"
      using owned unfolding range_owned_def by (simp only:) blast
    moreover have "PGROUNDDOWN va = PGROUNDDOWN vb"
      if v: "va < MAXVA" "vb < MAXVA" "in_pages 0 m va" "in_pages 0 m vb" "pa_of s1 root va = pa_of s1 root vb" for va vb
    proof -
      have "pa_of s root va = pa_of s root vb" using v same [of va] same [of vb] by (simp add: pa_of_def)
      then show ?thesis using owned v(1-4) sub unfolding range_owned_def by blast
    qed
    ultimately show ?thesis unfolding range_owned_def by blast
  qed
  moreover have "in_pages base n base" "base < MAXVA" using al(1) base n b by (simp_all add: in_pages_def lt_MAXVA)
  then have "pte_of (pmem s1) root (0 + base) AND PTE_V = 0" using s1(3) by simp
  moreover have "0 + base < top" using base sz n by (simp add: word_less_nat_alt)
  moreover have "pt_inv s1 root" using s1(2) by (simp add: unmap_step_def)
  ultimately obtain msg where "uvmunmap_from root 0 top True s1 = Panic msg" using unmap_hole [of s1 root 0 m top, folded base_def] b n by (auto simp: aligned_def)
  moreover have "m + n < 2 ^ 64" "(m + n) * 4096 < 2 ^ 64" using b by simp_all
  then have "top div PGSIZE * PGSIZE = top" using sz by (simp add: word_unat_eq_iff unat_word_ariths unat_div PGSIZE_def)
  moreover have "top > 0" using sz n by (simp add: word_less_nat_alt)
  ultimately have "uvmfree root top s1 = Panic msg" using al(2) by (simp add: uvmfree_def uvmunmap_def bind_def)
  moreover have "uvmunmap root base (of_nat n) False s = Ok () s1" using s1(1) al(1) by (simp add: uvmunmap_def page_aligned_mod)
  ultimately show ?thesis unfolding base_def top_def by blast
qed

theorem reap_after_mmap_panics_witness:
  "\<exists>s1 msg. uvmunmap 0x87ff0000 0 1 False demo = Ok () s1 \<and> uvmfree 0x87ff0000 PGSIZE s1 = Panic msg"
proof -
  have in0: "in_pages 0 (Suc 0) va \<longleftrightarrow> PGROUNDDOWN va = 0" for va
    using in_pages_Suc [of 0 0 va] by (simp add: aligned_def)
  have z: "PGROUNDDOWN (0 :: uint64) = 0" "(0 :: uint64) < MAXVA" by (simp_all add: PGROUNDDOWN_def lt_MAXVA)
  have mapped: "range_mapped demo 0x87ff0000 0 (0 + 1)" using demo_pte_of demo_pte_bits by (simp add: range_mapped_def in0)
  have pages: "range_pages demo 0x87ff0000 0 (0 + 1) = {0x87ff3000}"
    using demo_pte_of demo_pte_bits z by (auto simp: range_pages_def in0 pa_of_def intro!: exI [of _ 0])
  have "range_owned demo 0x87ff0000 0 (0 + 1)"
    unfolding range_owned_def pages using demo_kpage(4) demo_free(2) demo_pages by (auto simp: in0)
  then show ?thesis using reap_after_mmap_panics [OF demo_inv _ _ mapped] by simp
qed

end
