(* ===== verification/Grep.thy ===== *)
theory Grep
  imports Cstring
begin

text \<open>
  The program \<^verbatim>\<open>user/grep.c\<close>: its matcher for the operators \<open>^ . * $\<close>, and the loop that prints the matching lines.

  A C string is the list of its bytes before the terminating zero. The reference for the matcher is the set of strings a
  pattern denotes; the reference for the program is the list of lines of the input. How many bytes a \<open>read\<close> returns is a
  parameter: at most what was asked for and what the input has left.
\<close>

definition star :: byte where "star = 42"
definition dot :: byte where "dot = 46"
definition dollar :: byte where "dollar = 36"
definition caret :: byte where "caret = 94"
definition newline :: byte where "newline = 10"

subsection \<open>The matcher\<close>

function (sequential) matchhere :: "byte list \<Rightarrow> byte list \<Rightarrow> bool"
  and matchstar :: "byte \<Rightarrow> byte list \<Rightarrow> byte list \<Rightarrow> bool" where
  "matchhere [] text = True"
| "matchhere (r # re) text =
     (if re \<noteq> [] \<and> hd re = star then matchstar r (tl re) text
      else if r = dollar \<and> re = [] then text = []
      else if text \<noteq> [] \<and> (r = dot \<or> r = hd text) then matchhere re (tl text)
      else False)"
| "matchstar c re text =
     (if matchhere re text then True
      else if text \<noteq> [] \<and> (hd text = c \<or> c = dot) then matchstar c re (tl text)
      else False)"
  by pat_completeness auto
termination
  by (relation "measure (\<lambda>x. case x of Inl (re, text) \<Rightarrow> 2 * (length re + length text) | Inr (c, re, text) \<Rightarrow> 2 * (length re + length text) + 1)")
    (auto simp: neq_Nil_conv)

declare matchstar.simps [simp del]

primrec match_from :: "byte list \<Rightarrow> byte list \<Rightarrow> bool" where
  "match_from re [] = matchhere re []"
| "match_from re (t # text) = (if matchhere re (t # text) then True else match_from re text)"

definition matches :: "byte list \<Rightarrow> byte list \<Rightarrow> bool" where
  "matches re text = (if re \<noteq> [] \<and> hd re = caret then matchhere (tl re) text else match_from re text)"

subsection \<open>What a pattern denotes\<close>

datatype atom = One byte | Many byte

fun atoms :: "byte list \<Rightarrow> atom list \<times> bool" where
  "atoms [] = ([], False)"
| "atoms [r] = (if r = dollar then ([], True) else ([One r], False))"
| "atoms (r # s # re) = (if s = star then apfst (Cons (Many r)) (atoms re) else apfst (Cons (One r)) (atoms (s # re)))"

definition is_sym :: "byte \<Rightarrow> byte \<Rightarrow> bool" where
  "is_sym c b \<longleftrightarrow> c = dot \<or> c = b"

primrec lang :: "atom list \<Rightarrow> byte list set" where
  "lang [] = {[]}"
| "lang (a # as) = (case a of One c \<Rightarrow> {b # w | b w. is_sym c b \<and> w \<in> lang as}
     | Many c \<Rightarrow> {u @ w | u w. (\<forall>b\<in>set u. is_sym c b) \<and> w \<in> lang as})"

text \<open>The text begins with a string of the pattern, and is that string when the pattern ends in \<open>$\<close>.\<close>

definition denotes :: "byte list \<Rightarrow> byte list \<Rightarrow> bool" where
  "denotes re text \<longleftrightarrow> (\<exists>u v. text = u @ v \<and> u \<in> lang (fst (atoms re)) \<and> (snd (atoms re) \<longrightarrow> v = []))"

lemma denotes_nil: "denotes [] text"
  by (simp add: denotes_def)

lemma denotes_end: "denotes [dollar] text \<longleftrightarrow> text = []"
  by (simp add: denotes_def)

lemma denotes_one:
  assumes "re = [] \<Longrightarrow> r \<noteq> dollar" and "re = [] \<or> hd re \<noteq> star"
  shows "denotes (r # re) text \<longleftrightarrow> text \<noteq> [] \<and> is_sym r (hd text) \<and> denotes re (tl text)"
proof -
  have a: "atoms (r # re) = (One r # fst (atoms re), snd (atoms re))"
    using assms by (cases re) (simp_all add: apfst_def map_prod_def split: prod.splits)
  show ?thesis
  proof (cases "text")
    case (Cons t ts)
    have "(\<exists>u v. t # ts = u @ v \<and> (\<exists>b w. u = b # w \<and> is_sym r b \<and> w \<in> lang (fst (atoms re))) \<and> (snd (atoms re) \<longrightarrow> v = [])) \<longleftrightarrow>
        is_sym r t \<and> (\<exists>w v. ts = w @ v \<and> w \<in> lang (fst (atoms re)) \<and> (snd (atoms re) \<longrightarrow> v = []))"
      by (auto simp: Cons_eq_append_conv) 
    then show ?thesis using a Cons by (simp add: denotes_def)
  qed (simp add: denotes_def a)
qed

lemma denotes_star:
  "denotes (c # star # re) text \<longleftrightarrow> denotes re text \<or> text \<noteq> [] \<and> is_sym c (hd text) \<and> denotes (c # star # re) (tl text)"
proof -
  have a: "atoms (c # star # re) = (Many c # fst (atoms re), snd (atoms re))" by (simp add: apfst_def map_prod_def split: prod.splits)
  have d: "denotes (c # star # re) t \<longleftrightarrow> (\<exists>u w. t = u @ w \<and> (\<forall>b\<in>set u. is_sym c b) \<and> denotes re w)" for t
  proof
    assume "denotes (c # star # re) t"
    then obtain x v where x: "t = x @ v" "x \<in> lang (Many c # fst (atoms re))" "snd (atoms re) \<longrightarrow> v = []"
      unfolding denotes_def a fst_conv snd_conv by blast
    then obtain u w where "x = u @ w" "\<forall>b\<in>set u. is_sym c b" "w \<in> lang (fst (atoms re))" by auto
    then show "\<exists>u w. t = u @ w \<and> (\<forall>b\<in>set u. is_sym c b) \<and> denotes re w"
      using x(1,3) unfolding denotes_def by (intro exI [of _ u] exI [of _ "w @ v"]) auto
  next
    assume "\<exists>u w. t = u @ w \<and> (\<forall>b\<in>set u. is_sym c b) \<and> denotes re w"
    then obtain u y where y: "t = u @ y" "\<forall>b\<in>set u. is_sym c b" "denotes re y" by blast
    then obtain w v where "y = w @ v" "w \<in> lang (fst (atoms re))" and v: "snd (atoms re) \<longrightarrow> v = []" unfolding denotes_def by blast
    then have u: "t = (u @ w) @ v" "\<forall>b\<in>set u. is_sym c b" "w \<in> lang (fst (atoms re))" "snd (atoms re) \<longrightarrow> v = []" using y by simp_all
    then have "u @ w \<in> lang (Many c # fst (atoms re))" by auto
    then show "denotes (c # star # re) t" using u(1,4) unfolding denotes_def a fst_conv snd_conv by blast
  qed
  show ?thesis unfolding d
  proof (intro iffI; (elim exE conjE disjE)?)
    fix u w assume u: "text = u @ w" "\<forall>b\<in>set u. is_sym c b" "denotes re w"
    then show "denotes re text \<or> text \<noteq> [] \<and> is_sym c (hd text) \<and> (\<exists>u w. tl text = u @ w \<and> (\<forall>b\<in>set u. is_sym c b) \<and> denotes re w)"
      by (cases u) auto
  next
    assume "denotes re text"
    then show "\<exists>u w. text = u @ w \<and> (\<forall>b\<in>set u. is_sym c b) \<and> denotes re w" by (intro exI [of _ "[]"] exI [of _ "text"]) simp
  next
    fix u w assume "text \<noteq> []" "is_sym c (hd text)" "tl text = u @ w" "\<forall>b\<in>set u. is_sym c b" "denotes re w"
    then show "\<exists>u w. text = u @ w \<and> (\<forall>b\<in>set u. is_sym c b) \<and> denotes re w"
      by (intro exI [of _ "hd text # u"] exI [of _ w]) (cases "text"; simp)
  qed
qed

lemma matcher_denotes: "matchhere re text \<longleftrightarrow> denotes re text" "matchstar c re text \<longleftrightarrow> denotes (c # star # re) text"
proof (induction re "text" and c re "text" rule: matchhere_matchstar.induct)
  case (1 xs)
  then show ?case by (simp add: denotes_nil)
next
  case (2 r re xs)
  show ?case
  proof (cases "re \<noteq> [] \<and> hd re = star")
    case True
    then have "r # re = r # star # tl re" by (cases re) auto
    then show ?thesis using 2(1) [OF True] True by simp
  next
    case False
    then show ?thesis using 2(2) denotes_end denotes_one [of re r xs] by (auto simp: is_sym_def)
  qed
next
  case (3 c re xs)
  then show ?case using denotes_star [of c re xs] by (auto simp: is_sym_def matchstar.simps [of c re xs])
qed

lemma match_from_suffix: "match_from re text \<longleftrightarrow> (\<exists>u v. text = u @ v \<and> matchhere re v)"
proof (induction "text")
  case (Cons t xs)
  then show ?case by (auto simp: Cons_eq_append_conv simp del: matchhere.simps)
qed (simp del: matchhere.simps)

text \<open>
  C37: the matcher of \<open>grep\<close> finds a pattern exactly where its meaning says: a pattern that begins with \<open>^\<close> matches a line that
  begins with one of its strings, any other pattern a line that contains one; a final \<open>$\<close> asks for the end of the line there,
  \<open>c*\<close> stands for any number of \<open>c\<close>, and \<open>.\<close> for any byte.
\<close>

theorem grep_matches_denotation:
  "matches re line \<longleftrightarrow> (if re \<noteq> [] \<and> hd re = caret then denotes (tl re) line else (\<exists>u v. line = u @ v \<and> denotes re v))"
  by (simp add: matches_def matcher_denotes match_from_suffix)

subsection \<open>The loop over the input\<close>

text \<open>The complete lines in the buffer: those that match are written, what follows the last newline stays.\<close>

lemma next_line_shorter: "b \<in> set p \<Longrightarrow> length (tl (dropWhile (\<lambda>x. x \<noteq> b) p)) < length p"
proof (induction p)
  case (Cons x p)
  then show ?case by (cases "x = b") (simp_all add: less_SucI)
qed simp

definition c_string :: "byte list \<Rightarrow> byte list" where
  "c_string p = takeWhile (\<lambda>b. b \<noteq> 0) p"

lemma in_c_string: "b \<in> set (c_string p) \<Longrightarrow> b \<in> set p"
  by (auto simp: c_string_def dest: set_takeWhileD)

function scan_lines :: "byte list \<Rightarrow> byte list \<Rightarrow> byte list \<times> byte list" where
  "scan_lines pattern p =
     (if newline \<in> set (c_string p) then
        let l = takeWhile (\<lambda>b. b \<noteq> newline) p; (out, r) = scan_lines pattern (tl (dropWhile (\<lambda>b. b \<noteq> newline) p))
        in ((if matches pattern l then l @ [newline] else []) @ out, r)
      else ([], p))"
  by pat_completeness auto
termination
  by (relation "measure (\<lambda>(pattern, p). length p)") (auto dest!: next_line_shorter [OF in_c_string])

declare scan_lines.simps [simp del]

definition read_count :: "(nat \<Rightarrow> byte list \<Rightarrow> nat) \<Rightarrow> nat \<Rightarrow> byte list \<Rightarrow> nat" where
  "read_count rd k rest = min (rd k rest) (min k (length rest))"

text \<open>\<open>part\<close> is what the buffer of 1024 bytes holds; the result is what is written.\<close>

function grep_loop :: "(nat \<Rightarrow> byte list \<Rightarrow> nat) \<Rightarrow> byte list \<Rightarrow> byte list \<Rightarrow> byte list \<Rightarrow> byte list" where
  "grep_loop rd pattern part rest =
     (let n = read_count rd (1024 - length part - 1) rest in
      if n > 0 then let (out, p) = scan_lines pattern (part @ take n rest) in out @ grep_loop rd pattern p (drop n rest)
      else [])"
  by pat_completeness auto
termination
  by (relation "measure (\<lambda>(rd, pattern, part, rest). length rest)") (auto simp: read_count_def)

declare grep_loop.simps [simp del]

definition grep :: "(nat \<Rightarrow> byte list \<Rightarrow> nat) \<Rightarrow> byte list \<Rightarrow> byte list \<Rightarrow> byte list" where
  "grep rd pattern input = grep_loop rd pattern [] input"

subsection \<open>The lines of the input\<close>

primrec lines_of :: "byte list \<Rightarrow> byte list \<Rightarrow> byte list list \<times> byte list" where
  "lines_of acc [] = ([], acc)"
| "lines_of acc (b # bs) = (if b = newline then apfst (Cons acc) (lines_of [] bs) else lines_of (acc @ [b]) bs)"

definition matching :: "byte list \<Rightarrow> byte list list \<Rightarrow> byte list" where
  "matching pattern ls = concat (map (\<lambda>l. l @ [newline]) (filter (matches pattern) ls))"

lemma lines_of_append: "lines_of acc (p @ q) = (fst (lines_of acc p) @ fst (lines_of (snd (lines_of acc p)) q), snd (lines_of (snd (lines_of acc p)) q))"
  by (induction p arbitrary: acc) (auto simp: apfst_def map_prod_def split: prod.splits)

lemma lines_of_part: "newline \<notin> set p \<Longrightarrow> lines_of acc p = ([], acc @ p)"
  by (induction p arbitrary: acc) auto

lemma lines_of_line: "newline \<notin> set l \<Longrightarrow> lines_of acc (l @ newline # q) = ((acc @ l) # fst (lines_of [] q), snd (lines_of [] q))"
  by (simp add: lines_of_append lines_of_part apfst_def map_prod_def split: prod.splits)

lemma lines_of_rest: "newline \<notin> set (snd (lines_of acc p)) \<longleftrightarrow> newline \<notin> set acc \<or> newline \<in> set p"
  by (induction p arbitrary: acc) auto

lemma lines_of_longer: "\<exists>l\<in>insert (snd (lines_of acc p)) (set (fst (lines_of acc p))). length acc \<le> length l"
proof (induction p arbitrary: acc)
  case (Cons b p)
  show ?case
  proof (cases "b = newline")
    case False
    obtain l where "l \<in> insert (snd (lines_of (acc @ [b]) p)) (set (fst (lines_of (acc @ [b]) p)))" "length (acc @ [b]) \<le> length l"
      using Cons [of "acc @ [b]"] by blast
    then show ?thesis using False by (intro bexI [of _ l]) simp_all
  qed simp
qed simp

lemma set_lines: "set (snd (lines_of acc p)) \<subseteq> set acc \<union> set p"
proof (induction p arbitrary: acc)
  case (Cons b p)
  then show ?case using Cons [of "[]"] Cons [of "acc @ [b]"] by auto
qed simp

lemma c_string_id: "0 \<notin> set p \<Longrightarrow> c_string p = p"
  by (auto simp: c_string_def takeWhile_eq_all_conv)

lemma scan_lines_spec: "0 \<notin> set p \<Longrightarrow> scan_lines pattern p = (matching pattern (fst (lines_of [] p)), snd (lines_of [] p))"
proof (induction pattern p rule: scan_lines.induct)
  case (1 pattern p)
  show ?case
  proof (cases "newline \<in> set p")
    case True
    define l where "l = takeWhile (\<lambda>b. b \<noteq> newline) p" define q where "q = tl (dropWhile (\<lambda>b. b \<noteq> newline) p)"
    have "dropWhile (\<lambda>b. b \<noteq> newline) p \<noteq> []" using True by simp
    then have "dropWhile (\<lambda>b. b \<noteq> newline) p = newline # q" unfolding q_def using hd_dropWhile [of "\<lambda>b. b \<noteq> newline" p] by (metis list.collapse)
    then have p: "p = l @ newline # q" unfolding l_def by (metis takeWhile_dropWhile_id)
    have nl: "newline \<notin> set l" unfolding l_def by (auto dest: set_takeWhileD)
    have c: "c_string p = p" using 1(2) by (rule c_string_id)
    have nc: "newline \<in> set (c_string p)" using True c by simp
    have zq: "0 \<notin> set q" using 1(2) unfolding p by simp
    have ih: "scan_lines pattern q = (matching pattern (fst (lines_of [] q)), snd (lines_of [] q))"
      using 1(1) [OF nc refl] zq unfolding q_def by blast
    have "scan_lines pattern p = (let (out, r) = scan_lines pattern q in ((if matches pattern l then l @ [newline] else []) @ out, r))"
      using nc unfolding scan_lines.simps [of pattern p] l_def q_def by (simp add: Let_def)
    moreover have "lines_of [] p = (l # fst (lines_of [] q), snd (lines_of [] q))" using lines_of_line [OF nl, of "[]" q] p by simp
    ultimately show ?thesis by (simp add: ih matching_def)
  next
    case False
    then show ?thesis using c_string_id [OF 1(2)] by (simp add: scan_lines.simps [of pattern p] lines_of_part matching_def)
  qed
qed

lemma grep_loop_spec:
  assumes "\<And>k r. 0 < k \<Longrightarrow> r \<noteq> [] \<Longrightarrow> 0 < rd k r" and "0 \<notin> set part \<union> set rest" and "newline \<notin> set part"
    and "\<forall>l\<in>insert (snd (lines_of part rest)) (set (fst (lines_of part rest))). length l \<le> 1022"
  shows "grep_loop rd pattern part rest = matching pattern (fst (lines_of part rest))"
  using assms
proof (induction rd pattern part rest rule: grep_loop.induct)
  case (1 rd pattern part rest)
  let ?n = "read_count rd (1024 - length part - 1) rest"
  have short: "length part \<le> 1022" using 1(5) lines_of_longer [of part rest] by force
  show ?case
  proof (cases "rest = []")
    case True
    then show ?thesis by (simp add: grep_loop.simps [of rd pattern part] read_count_def matching_def)
  next
    case False
    have n: "0 < ?n" using 1(2) [of "1023 - length part" rest] False short by (simp add: read_count_def)
    let ?p = "snd (lines_of part (take ?n rest))" let ?ls = "fst (lines_of part (take ?n rest))"
    have z: "0 \<notin> set (part @ take ?n rest)" using 1(3) by (auto dest: in_set_takeD)
    have sp: "lines_of part rest = (?ls @ fst (lines_of ?p (drop ?n rest)), snd (lines_of ?p (drop ?n rest)))"
      using lines_of_append [of part "take ?n rest" "drop ?n rest"] by simp
    have "lines_of [] (part @ take ?n rest) = lines_of part (take ?n rest)" using lines_of_append [of "[]" part] lines_of_part [OF 1(4), of "[]"] by simp
    then have sc: "scan_lines pattern (part @ take ?n rest) = (matching pattern ?ls, ?p)" using scan_lines_spec [OF z, of pattern] by simp
    have "0 \<notin> set ?p \<union> set (drop ?n rest)" using set_lines [of part "take ?n rest"] z 1(3) by (auto dest: in_set_dropD)
    moreover have "newline \<notin> set ?p" using lines_of_rest 1(4) by blast
    ultimately have "grep_loop rd pattern ?p (drop ?n rest) = matching pattern (fst (lines_of ?p (drop ?n rest)))"
      using 1(1) [OF refl n sc [symmetric] refl] 1(2,5) sp by auto
    then show ?thesis using n sc sp by (simp add: grep_loop.simps [of rd pattern part] Let_def matching_def)
  qed
qed

text \<open>
  C38: \<open>grep\<close> prints the matching lines. On an input without zero bytes whose lines have at most 1022 bytes, it writes exactly the complete lines
  that match, in order, however the reads split the input.
\<close>

theorem grep_prints_matching_lines:
  assumes "\<And>k r. 0 < k \<Longrightarrow> r \<noteq> [] \<Longrightarrow> 0 < rd k r" and "0 \<notin> set input"
    and "\<forall>l\<in>insert (snd (lines_of [] input)) (set (fst (lines_of [] input))). length l \<le> 1022"
  shows "grep rd pattern input = concat (map (\<lambda>l. l @ [newline]) (filter (matches pattern) (fst (lines_of [] input))))"
  using grep_loop_spec [of rd "[]" input pattern] assms by (simp add: grep_def matching_def)

theorem grep_prints_matching_lines_witness:
  "grep (\<lambda>k r. 3) [97, 42, 36] [98, 97, 97, 10, 99, 10] = [98, 97, 97, 10, 99, 10]"
proof -
  have l: "lines_of [] [98, 97, 97, 10, 99, 10] = ([[98, 97, 97], [99]], [])" by (simp add: newline_def)
  have m: "matches [97, 42, 36] [98, 97, 97]" "matches [97, 42, 36] [99]"
    by (simp_all add: matches_def caret_def star_def dollar_def matchstar.simps)
  have "grep (\<lambda>k r. 3) [97, 42, 36] [98, 97, 97, 10, 99, 10] =
      concat (map (\<lambda>l. l @ [newline]) (filter (matches [97, 42, 36]) (fst (lines_of [] [98, 97, 97, 10, 99, 10]))))"
    by (rule grep_prints_matching_lines) (simp_all add: l)
  then show ?thesis using l m by (simp add: newline_def)
qed

end
