(* ===== verification/Mkfs.thy ===== *)
theory Mkfs
  imports Writefile
begin

text \<open>
  The program \<^verbatim>\<open>mkfs/mkfs.c\<close>, which builds the disk image the kernel starts from.

  The image is a file of the build host, seen as its sectors: \<open>nsect\<close> is how many it has, and a sector between them that was
  not written reads as zeroes. Calls of the host on the image succeed, except that a read at or after its end is short, which
  ends the program; a failed assertion ends it as well. A file to be copied is the list of what the successive calls of
  \<open>read\<close> return for it.

  \<open>iappend\<close> allocates blocks from a counter and the map of free blocks is written at the end. The lemmas look at the image with the
  map that would be written now, \<open>view\<close>: on it, an iteration of \<open>iappend\<close> is a step of the kernel's \<open>bmap\<close> and \<open>writei\<close>.
\<close>

definition FSSIZE :: nat where "FSSIZE = 1000"
definition NINODES :: nat where "NINODES = 200"
definition nbitmap :: nat where "nbitmap = FSSIZE div (BSIZE * 8) + 1"
definition ninodeblocks :: nat where "ninodeblocks = NINODES div IPB + 1"
definition nlog :: nat where "nlog = nat LOGSIZE"
definition nmeta :: nat where "nmeta = 2 + nlog + ninodeblocks + nbitmap"

text \<open>The host stores numbers in little-endian order, like the target.\<close>

definition xshort :: "uint16 \<Rightarrow> uint16" where "xshort x = le_dec (le_enc 2 x)"
definition xint :: "uint32 \<Rightarrow> uint32" where "xint x = le_dec (le_enc 4 x)"

record image =
  sectors :: "uint32 \<Rightarrow> byte list"
  nsect :: nat
  isb :: superblock
  freeinode :: uint32
  freeblock :: uint32

text \<open>The sector at the file offset \<open>sec * BSIZE\<close>.\<close>

definition sector :: "uint32 \<Rightarrow> uint32" where
  "sector sec = sec * of_nat BSIZE div of_nat BSIZE"

definition wsect :: "uint32 \<Rightarrow> byte list \<Rightarrow> (unit, image) routine" where
  "wsect sec buf = modify (\<lambda>s. s\<lparr>sectors := (sectors s)(sector sec := buf), nsect := max (nsect s) (Suc (unat (sector sec)))\<rparr>)"

definition rsect :: "uint32 \<Rightarrow> (byte list, image) routine" where
  "rsect sec = bind (gets nsect) (\<lambda>n. if unat (sector sec) < n then gets (\<lambda>s. sectors s (sector sec)) else panic ''read'')"

definition winode :: "uint32 \<Rightarrow> dinode \<Rightarrow> (unit, image) routine" where
  "winode inum ip = bind (gets isb) (\<lambda>sb. let bn = IBLOCK inum sb in
     bind (rsect bn) (\<lambda>buf. wsect bn (put_dinode inum ip buf)))"

definition rinode :: "uint32 \<Rightarrow> (dinode, image) routine" where
  "rinode inum = bind (gets isb) (\<lambda>sb. let bn = IBLOCK inum sb in
     bind (rsect bn) (\<lambda>buf. ret (get_dinode inum buf)))"

definition mk_ialloc :: "uint16 \<Rightarrow> (uint32, image) routine" where
  "mk_ialloc type = bind (gets freeinode) (\<lambda>inum.
     bind (modify (\<lambda>s. s\<lparr>freeinode := freeinode s + 1\<rparr>)) (\<lambda>_.
     bind (winode inum \<lparr>di_type = xshort type, di_major = 0, di_minor = 0, di_nlink = xshort 1, di_size = xint 0,
       di_addrs = replicate (NDIRECT + 1) 0\<rparr>) (\<lambda>_. ret inum)))"

primrec mk_bits :: "nat \<Rightarrow> byte list" where
  "mk_bits 0 = replicate BSIZE 0"
| "mk_bits (Suc i) = (mk_bits i)[i div 8 := mk_bits i ! (i div 8) OR push_bit (i mod 8) 1]"

definition mk_balloc :: "uint32 \<Rightarrow> (unit, image) routine" where
  "mk_balloc n = (if sint n < int BSIZE * 8 then
       bind (gets (sb_bmapstart \<circ> isb)) (\<lambda>bm. wsect bm (mk_bits (nat (sint n))))
     else panic ''assert'')"

subsection \<open>Appending to a file\<close>

definition take_block :: "(uint32, image) routine" where
  "take_block = bind (gets freeblock) (\<lambda>b. bind (modify (\<lambda>s. s\<lparr>freeblock := b + 1\<rparr>)) (\<lambda>_. ret b))"

definition take_addr :: "dinode \<Rightarrow> nat \<Rightarrow> (dinode, image) routine" where
  "take_addr din k = (if xint (di_addrs din ! k) = 0 then
       bind take_block (\<lambda>b. ret (din\<lparr>di_addrs := (di_addrs din)[k := xint b]\<rparr>))
     else ret din)"

text \<open>The block \<open>x\<close> for block \<open>fbn\<close> of the file, and the inode with it.\<close>

definition iappend_block :: "dinode \<Rightarrow> nat \<Rightarrow> (uint32 \<times> dinode, image) routine" where
  "iappend_block din fbn =
     (if fbn < NDIRECT then
        bind (take_addr din fbn) (\<lambda>din. ret (xint (di_addrs din ! fbn), din))
      else
        bind (take_addr din NDIRECT) (\<lambda>din.
        bind (rsect (xint (di_addrs din ! NDIRECT))) (\<lambda>indirect.
        if get32 indirect (4 * (fbn - NDIRECT)) = 0 then
          bind take_block (\<lambda>b. let indirect = put32 indirect (4 * (fbn - NDIRECT)) (xint b) in
          bind (wsect (xint (di_addrs din ! NDIRECT)) indirect) (\<lambda>_.
          ret (xint (get32 indirect (4 * (fbn - NDIRECT))), din)))
        else ret (xint (get32 indirect (4 * (fbn - NDIRECT))), din))))"

definition block_left :: "uint32 \<Rightarrow> nat" where
  "block_left off = unat ((off div of_nat BSIZE + 1) * of_nat BSIZE - off)"

lemma block_left: "unat off div BSIZE < MAXFILE \<Longrightarrow> block_left off = BSIZE - unat off mod BSIZE"
proof -
  assume "unat off div BSIZE < MAXFILE"
  then have k: "unat off div 1024 + 1 \<le> 268" by (simp add: MAXFILE_def NDIRECT_def NINDIRECT_def BSIZE_def)
  have d: "unat (off div 1024) = unat off div 1024" by (simp add: unat_div)
  then have s: "unat (off div 1024 + 1) = unat off div 1024 + 1" using k by (simp add: unat_word_ariths)
  then have m: "unat ((off div 1024 + 1) * 1024) = (unat off div 1024 + 1) * 1024" using k by (simp add: unat_word_ariths)
  have diff: "(q + 1) * 1024 - a = 1024 - r" if "a = q * 1024 + r" "r < 1024" for a q r :: nat using that by simp
  have e: "unat off = unat off div 1024 * 1024 + unat off mod 1024" "unat off mod 1024 < 1024" by simp_all
  have "unat off \<le> (unat off div 1024 + 1) * 1024" by (subst e(1)) (use e(2) in \<open>simp only: add_mult_distrib\<close>)
  then have "off \<le> (off div 1024 + 1) * 1024" unfolding word_le_nat_alt m .
  then have "unat ((off div 1024 + 1) * 1024 - off) = (unat off div 1024 + 1) * 1024 - unat off" by (simp only: unat_sub m)
  moreover have "(unat off div 1024 + 1) * 1024 - unat off = 1024 - unat off mod 1024"
    by (rule diff [OF e])
  ultimately show ?thesis by (simp only: block_left_def BSIZE_def of_nat_numeral)
qed

function iappend_loop :: "dinode \<Rightarrow> uint32 \<Rightarrow> byte list \<Rightarrow> (dinode \<times> uint32, image) routine" where
  "iappend_loop din off p =
     (if p = [] then ret (din, off)
      else let fbn = unat (off div of_nat BSIZE) in
        if fbn < MAXFILE then
          bind (iappend_block din fbn) (\<lambda>(x, din). let n1 = min (length p) (block_left off) in
          bind (rsect x) (\<lambda>buf.
          bind (wsect x (splice (unat (off - of_nat fbn * of_nat BSIZE)) (take n1 p) buf)) (\<lambda>_.
          iappend_loop din (off + of_nat n1) (drop n1 p))))
        else panic ''assert'')"
  by pat_completeness auto
termination
proof (relation "measure (\<lambda>(din, off, p). length p)")
  fix din din2 :: dinode and off x :: uint32 and p :: "byte list" and k m :: nat and y
  assume a: "p \<noteq> []" "k = unat (off div of_nat BSIZE)" "k < MAXFILE" "m = min (length p) (block_left off)"
  have "unat off div BSIZE < MAXFILE" using a(2,3) by (simp add: unat_div BSIZE_def)
  then have "0 < block_left off" by (simp add: block_left) (simp add: BSIZE_def)
  then show "((din2, off + of_nat m, drop m p), din, off, p) \<in> measure (\<lambda>(din, off, p). length p)" using a(1,4) by simp
qed simp

declare iappend_loop.simps [simp del]

definition iappend :: "uint32 \<Rightarrow> byte list \<Rightarrow> (unit, image) routine" where
  "iappend inum p = bind (rinode inum) (\<lambda>din.
     bind (iappend_loop din (xint (di_size din)) p) (\<lambda>(din, off).
     winode inum (din\<lparr>di_size := xint off\<rparr>)))"

subsection \<open>The main program\<close>

definition slash :: byte where "slash = 47"
definition underscore :: byte where "underscore = 95"
definition user_prefix :: "byte list" where "user_prefix = [117, 115, 101, 114, 47]"

text \<open>The bytes of a string in a field of \<open>DIRSIZ\<close> zeroes, as \<open>strncpy\<close> puts them.\<close>

definition dir_name :: "byte list \<Rightarrow> byte list" where
  "dir_name nm = take DIRSIZ nm @ replicate (DIRSIZ - length nm) 0"

definition mk_dirent :: "uint32 \<Rightarrow> byte list \<Rightarrow> byte list" where
  "mk_dirent inum nm = enc_dirent \<lparr>de_inum = xshort (ucast inum), de_name = dir_name nm\<rparr>"

definition shortname :: "byte list \<Rightarrow> byte list" where
  "shortname arg = (if take 5 arg = user_prefix then drop 5 arg else arg)"

definition strip_underscore :: "byte list \<Rightarrow> byte list" where
  "strip_underscore nm = (if nm \<noteq> [] \<and> hd nm = underscore then tl nm else nm)"

primrec copy_reads :: "uint32 \<Rightarrow> byte list list \<Rightarrow> (unit, image) routine" where
  "copy_reads inum [] = ret ()"
| "copy_reads inum (buf # rest) = (if buf = [] then ret () else bind (iappend inum buf) (\<lambda>_. copy_reads inum rest))"

definition add_file :: "uint32 \<Rightarrow> byte list \<times> byte list list \<Rightarrow> (unit, image) routine" where
  "add_file rootino f = (let nm = shortname (fst f) in
     if slash \<in> set nm then panic ''assert''
     else bind (mk_ialloc T_FILE) (\<lambda>inum.
       bind (iappend rootino (mk_dirent inum (strip_underscore nm))) (\<lambda>_.
       copy_reads inum (snd f))))"

definition mk_superblock :: superblock where
  "mk_superblock = \<lparr>sb_magic = FSMAGIC, sb_size = xint (of_nat FSSIZE), sb_nblocks = xint (of_nat (FSSIZE - nmeta)),
     sb_ninodes = xint (of_nat NINODES), sb_nlog = xint (of_nat nlog), sb_logstart = xint 2,
     sb_inodestart = xint (of_nat (2 + nlog)), sb_bmapstart = xint (of_nat (2 + nlog + ninodeblocks))\<rparr>"

definition fix_root_size :: "uint32 \<Rightarrow> (unit, image) routine" where
  "fix_root_size rootino = bind (rinode rootino) (\<lambda>din. let off = xint (di_size din);
     off = (off div of_nat BSIZE + 1) * of_nat BSIZE in winode rootino (din\<lparr>di_size := xint off\<rparr>))"

definition mkfs :: "(byte list \<times> byte list list) list \<Rightarrow> (unit, image) routine" where
  "mkfs files =
     bind (modify (\<lambda>s. s\<lparr>isb := mk_superblock, freeblock := of_nat nmeta\<rparr>)) (\<lambda>_.
     bind (for_each [0..<FSSIZE] (\<lambda>i. wsect (of_nat i) (replicate BSIZE 0))) (\<lambda>_.
     bind (wsect 1 (enc_superblock mk_superblock @ replicate (BSIZE - 32) 0)) (\<lambda>_.
     bind (mk_ialloc T_DIR) (\<lambda>rootino.
     if rootino \<noteq> ROOTINO then panic ''assert''
     else
       bind (iappend rootino (mk_dirent rootino [46])) (\<lambda>_.
       bind (iappend rootino (mk_dirent rootino [46, 46])) (\<lambda>_.
       bind (for_each files (add_file rootino)) (\<lambda>_.
       bind (fix_root_size rootino) (\<lambda>_.
       bind (gets freeblock) mk_balloc))))))))"

text \<open>The image file as it is opened: empty. The first inode to be given out is the root.\<close>

definition no_image :: image where
  "no_image = \<lparr>sectors = (\<lambda>_. replicate BSIZE 0), nsect = 0, isb = mk_superblock, freeinode = 1, freeblock = 0\<rparr>"

subsection \<open>The image as the kernel will see it\<close>

lemma xid [simp]: "xint x = x" "xshort y = y"
  by (simp_all add: xint_def xshort_def)

lemma mk_sb [simp]:
  "sb_magic mk_superblock = FSMAGIC" "sb_size mk_superblock = 1000" "sb_ninodes mk_superblock = 200" "sb_inodestart mk_superblock = 32"
  "sb_bmapstart mk_superblock = 45" "sb_nlog mk_superblock = 30" "sb_logstart mk_superblock = 2" "nmeta = 46"
  by (simp_all add: mk_superblock_def nmeta_def nlog_def nbitmap_def ninodeblocks_def NINODES_def FSSIZE_def LOGSIZE_def MAXOPBLOCKS_def
    IPB_def DINODE_SIZE_def BSIZE_def)

lemma sector_id: "unat sec < 1000 \<Longrightarrow> sector sec = sec"
  by (simp add: sector_def BSIZE_def word_unat_eq_iff unat_div unat_word_ariths)

lemma mk_bits_Suc: "mk_bits (Suc i) = set_map_bit (mk_bits i) i True"
  by (simp add: set_map_bit_def)

lemma length_mk_bits [simp]: "length (mk_bits n) = BSIZE"
  by (induction n) simp_all

lemma map_bit_mk_bits: "n \<le> BPB \<Longrightarrow> i < BPB \<Longrightarrow> map_bit (mk_bits n) i \<longleftrightarrow> i < n"
proof (induction n)
  case 0
  then have "i div 8 < BSIZE" by (simp add: BPB_def)
  then show ?case by (simp add: map_bit_def)
next
  case (Suc n)
  then show ?case using map_bit_set [of "mk_bits n" n i True] by (auto simp: mk_bits_Suc simp del: mk_bits.simps)
qed

definition view :: "image \<Rightarrow> uint32 \<Rightarrow> byte list" where
  "view s = (sectors s)(45 := mk_bits (unat (freeblock s)))"

definition img_ok :: "image \<Rightarrow> bool" where
  "img_ok s \<longleftrightarrow> isb s = mk_superblock \<and> nsect s = FSSIZE \<and> 46 \<le> freeblock s \<and> freeblock s \<le> 1000 \<and>
     (\<forall>n. length (sectors s n) = BSIZE) \<and> (\<forall>n. freeblock s \<le> n \<longrightarrow> sectors s n = replicate BSIZE 0)"

lemma map_block: "n < 1000 \<Longrightarrow> BBLOCK n mk_superblock = 45"
proof -
  assume "n < (1000 :: uint32)"
  then have "n div 8192 = 0" by (simp add: word_unat_eq_iff unat_div word_less_nat_alt)
  then show ?thesis by (simp add: BBLOCK_def BPB_def BSIZE_def)
qed

lemma inode_block_range: "i < 200 \<Longrightarrow> 32 \<le> IBLOCK i mk_superblock \<and> IBLOCK i mk_superblock < 45"
proof -
  assume "i < (200 :: uint32)"
  then have "unat i div 16 < 13" by (simp add: word_less_nat_alt less_mult_imp_div_less)
  moreover have "unat (i div 16 + 32) = unat i div 16 + 32" using calculation by (simp add: unat_word_ariths unat_div)
  ultimately show ?thesis by (simp add: IBLOCK_def IPB_def DINODE_SIZE_def BSIZE_def word_less_nat_alt word_le_nat_alt)
qed

lemma mk_map_blocks: "map_blocks mk_superblock = {45}"
proof -
  have "45 = BBLOCK 0 mk_superblock" by (rule map_block [symmetric]) simp
  then show ?thesis using map_block unfolding map_blocks_def by (auto intro!: image_eqI [of 45 _ 0])
qed

lemma mk_meta: "n \<in> meta mk_superblock \<Longrightarrow> 32 \<le> n \<and> n < 46" "45 \<in> meta mk_superblock"
proof -
  have "n < 46" if "n < 45" for n :: uint32 using that by (rule order.strict_trans) simp
  then show "n \<in> meta mk_superblock \<Longrightarrow> 32 \<le> n \<and> n < 46" using inode_block_range by (auto simp: meta_def mk_map_blocks)
qed (simp add: meta_def mk_map_blocks)

lemma img_used: "img_ok s \<Longrightarrow> n < 1000 \<Longrightarrow> used mk_superblock (view s) n \<longleftrightarrow> n < freeblock s"
proof -
  assume s: "img_ok s" and n: "n < 1000"
  then have "unat (freeblock s) \<le> BPB" "unat n < BPB" "unat n mod BPB = unat n"
    by (simp_all add: img_ok_def word_less_nat_alt word_le_nat_alt BPB_def BSIZE_def)
  then show ?thesis using map_bit_mk_bits map_block [OF n] by (simp add: used_def view_def word_less_nat_alt)
qed

lemma img_layout: "img_ok s \<Longrightarrow> layout_ok mk_superblock (view s)"
proof -
  assume s: "img_ok s"
  have r: "n < 1000 \<and> used mk_superblock (view s) n" if "n < 46" for n
  proof -
    have "n < freeblock s" "n < 1000" using that s by (auto simp: img_ok_def intro: order.strict_trans2)
    then show ?thesis using img_used [OF s] by simp
  qed
  have "map_blocks mk_superblock \<inter> (\<lambda>i. IBLOCK i mk_superblock) ` {i. i < 200} = {}"
    using inode_block_range by (fastforce simp: mk_map_blocks)
  moreover have "length (view s n) = BSIZE" for n using s by (simp add: view_def img_ok_def)
  ultimately show ?thesis using r mk_meta(1) r [of 0] by (auto simp: layout_ok_def)
qed

lemma img_read:
  assumes "img_ok s" and "x < 1000" and "x \<noteq> 45"
  shows "rsect x s = Ok (view s x) s"
proof -
  have "unat x < 1000" using assms(2) by (simp add: word_less_nat_alt)
  then show ?thesis using assms by (simp add: rsect_def img_ok_def bind_def sector_id view_def FSSIZE_def)
qed

lemma img_write:
  assumes "img_ok s" and "x < freeblock s" and "x \<noteq> 45" and "length d = BSIZE"
  defines "s' \<equiv> s\<lparr>sectors := (sectors s)(x := d)\<rparr>"
  shows "wsect x d s = Ok () s'" and "img_ok s'" and "view s' = (view s)(x := d)" and "freeblock s' = freeblock s" and "freeinode s' = freeinode s"
proof -
  have "x < 1000" using assms(1,2) by (auto simp: img_ok_def)
  then have "unat x < 1000" by (simp add: word_less_nat_alt)
  then show "wsect x d s = Ok () s'" using assms(1) by (simp add: wsect_def sector_id s'_def img_ok_def FSSIZE_def)
  show "img_ok s'" using assms(1,2,4) by (auto simp: img_ok_def s'_def)
  show "view s' = (view s)(x := d)" using assms(3) by (auto simp: view_def s'_def)
qed (simp_all add: s'_def)

text \<open>Taking the next block is the kernel's allocation of a block.\<close>

lemma img_take:
  assumes "img_ok s" and "freeblock s < 1000"
  defines "s' \<equiv> s\<lparr>freeblock := freeblock s + 1\<rparr>"
  shows "take_block s = Ok (freeblock s) s'" and "img_ok s'" and "view s' = alloc_effect mk_superblock (view s) (freeblock s)"
    and "\<not> used mk_superblock (view s) (freeblock s)" and "unat (freeblock s') = Suc (unat (freeblock s))" and "freeinode s' = freeinode s"
proof -
  have lt: "unat (freeblock s) < 1000" using assms(2) by (simp add: word_less_nat_alt)
  then show u: "unat (freeblock s') = Suc (unat (freeblock s))" by (simp add: s'_def unat_word_ariths)
  show "take_block s = Ok (freeblock s) s'" by (simp add: take_block_def bind_def s'_def)
  show "img_ok s'" using assms(1) u lt by (auto simp: img_ok_def s'_def word_le_nat_alt)
  show "\<not> used mk_superblock (view s) (freeblock s)" using img_used [OF assms(1,2)] by simp
  have "unat (freeblock s) mod BPB = unat (freeblock s)" "freeblock s \<noteq> 45" using lt assms(1) by (auto simp: BPB_def BSIZE_def img_ok_def)
  then show "view s' = alloc_effect mk_superblock (view s) (freeblock s)"
    using assms(1) u map_block [OF assms(2)] unfolding alloc_effect_def
    by (auto simp: view_def s'_def fun_eq_iff img_ok_def mk_bits_Suc simp del: mk_bits.simps)
qed (simp add: s'_def)

subsection \<open>One block of a file\<close>

definition need :: "(uint32 \<Rightarrow> byte list) \<Rightarrow> inode \<Rightarrow> nat \<Rightarrow> nat" where
  "need v ip k = of_bool (blk_of v ip k = 0) + of_bool (\<not> k < NDIRECT \<and> i_addrs ip ! NDIRECT = 0)"

text \<open>What an operation on a file does to the image: it takes \<open>n\<close> blocks.\<close>

definition grows :: "image \<Rightarrow> inode \<Rightarrow> image \<Rightarrow> inode \<Rightarrow> nat \<Rightarrow> bool" where
  "grows s ip s' ip' n \<longleftrightarrow> img_ok s' \<and> file_ext mk_superblock (view s) ip (view s') ip' \<and>
     unat (freeblock s') = unat (freeblock s) + n \<and> freeinode s' = freeinode s"

lemma grows_refl: "img_ok s \<Longrightarrow> file_ok mk_superblock (view s) ip \<Longrightarrow> grows s ip s ip 0"
  by (simp add: grows_def file_ext_refl)

lemma grows_trans: "grows s ip s1 ip1 m \<Longrightarrow> grows s1 ip1 s2 ip2 n \<Longrightarrow> grows s ip s2 ip2 (m + n)"
  using file_ext_trans by (auto simp: grows_def)

lemma free_lt: "unat (freeblock s) + Suc n \<le> 1000 \<Longrightarrow> freeblock s < 1000"
  by (simp add: word_less_nat_alt)

lemma direct_step:
  assumes ok: "img_ok s" "file_ok mk_superblock (view s) ip" and k: "k < NDIRECT" and a: "di_addrs din = i_addrs ip"
    and f: "unat (freeblock s) + of_bool (i_addrs ip ! k = 0) \<le> 1000"
  obtains s' ip' where "take_addr din k s = Ok (din\<lparr>di_addrs := i_addrs ip'\<rparr>) s'" and "grows s ip s' ip' (of_bool (i_addrs ip ! k = 0))"
    and "i_addrs ip' ! k \<noteq> 0" and "\<And>j. j \<noteq> k \<Longrightarrow> blk_of (view s') ip' j = blk_of (view s) ip j" and "i_addrs ip' ! NDIRECT = i_addrs ip ! NDIRECT"
proof (cases "i_addrs ip ! k = 0")
  case True
  have fb: "freeblock s < 1000" using f True by (intro free_lt [of s 0]) simp
  note t = img_take [OF ok(1) fb] and x = file_ext_direct [OF ok(2) _ img_take(4) [OF ok(1) fb] k True]
  have n: "freeblock s < sb_size mk_superblock" using fb by simp
  have len: "length (i_addrs ip) = NDIRECT + 1" using ok(2) by (simp add: file_ok_def)
  show ?thesis
  proof (rule that)
    show "take_addr din k s = Ok (din\<lparr>di_addrs := i_addrs (ip\<lparr>i_addrs := (i_addrs ip)[k := freeblock s]\<rparr>)\<rparr>) (s\<lparr>freeblock := freeblock s + 1\<rparr>)"
      using True t(1) by (simp add: take_addr_def a bind_def)
    show "grows s ip (s\<lparr>freeblock := freeblock s + 1\<rparr>) (ip\<lparr>i_addrs := (i_addrs ip)[k := freeblock s]\<rparr>) (of_bool (i_addrs ip ! k = 0))"
      using t(2,5) x(1) [OF n] True unfolding grows_def t(3) by simp
    show "i_addrs (ip\<lparr>i_addrs := (i_addrs ip)[k := freeblock s]\<rparr>) ! k \<noteq> 0" using k len ok(1) by (auto simp: img_ok_def)
    show "blk_of (view (s\<lparr>freeblock := freeblock s + 1\<rparr>)) (ip\<lparr>i_addrs := (i_addrs ip)[k := freeblock s]\<rparr>) j = blk_of (view s) ip j" if "j \<noteq> k" for j
      unfolding t(3) using x(3) [OF n] that by simp
  qed (use k in simp)
next
  case False
  then show ?thesis using that [of ip s] grows_refl [OF ok] a by (simp add: take_addr_def)
qed

lemma indirect_step:
  assumes ok: "img_ok s" "file_ok mk_superblock (view s) ip" and a: "di_addrs din = i_addrs ip"
    and f: "unat (freeblock s) + of_bool (i_addrs ip ! NDIRECT = 0) \<le> 1000"
  obtains s' ip' where "take_addr din NDIRECT s = Ok (din\<lparr>di_addrs := i_addrs ip'\<rparr>) s'" and "grows s ip s' ip' (of_bool (i_addrs ip ! NDIRECT = 0))"
    and "i_addrs ip' ! NDIRECT \<noteq> 0" and "\<And>j. j < MAXFILE \<Longrightarrow> blk_of (view s') ip' j = blk_of (view s) ip j"
proof (cases "i_addrs ip ! NDIRECT = 0")
  case True
  have fb: "freeblock s < 1000" using f True by (intro free_lt [of s 0]) simp
  note t = img_take [OF ok(1) fb] and x = file_ext_indirect [OF ok(2) _ img_take(4) [OF ok(1) fb] True]
  have n: "freeblock s < sb_size mk_superblock" using fb by simp
  have len: "length (i_addrs ip) = NDIRECT + 1" using ok(2) by (simp add: file_ok_def)
  show ?thesis
  proof (rule that)
    show "take_addr din NDIRECT s = Ok (din\<lparr>di_addrs := i_addrs (ip\<lparr>i_addrs := (i_addrs ip)[NDIRECT := freeblock s]\<rparr>)\<rparr>) (s\<lparr>freeblock := freeblock s + 1\<rparr>)"
      using True t(1) by (simp add: take_addr_def a bind_def)
    show "grows s ip (s\<lparr>freeblock := freeblock s + 1\<rparr>) (ip\<lparr>i_addrs := (i_addrs ip)[NDIRECT := freeblock s]\<rparr>) (of_bool (i_addrs ip ! NDIRECT = 0))"
      using t(2,5) x(1) [OF n] True unfolding grows_def t(3) by simp
    show "i_addrs (ip\<lparr>i_addrs := (i_addrs ip)[NDIRECT := freeblock s]\<rparr>) ! NDIRECT \<noteq> 0" using len ok(1) by (auto simp: img_ok_def)
    show "blk_of (view (s\<lparr>freeblock := freeblock s + 1\<rparr>)) (ip\<lparr>i_addrs := (i_addrs ip)[NDIRECT := freeblock s]\<rparr>) j = blk_of (view s) ip j" if "j < MAXFILE" for j
      unfolding t(3) using x(2) [OF n] that by simp
  qed
next
  case False
  then show ?thesis using that [of ip s] grows_refl [OF ok] a by (simp add: take_addr_def)
qed

lemma file_block_range:
  assumes "img_ok s" and "file_ok mk_superblock (view s) ip" and "n \<in> file_blocks (view s) ip"
  shows "n < 1000" and "n < freeblock s" and "n \<noteq> 45"
  using file_okD [OF assms(2,3)] img_used [OF assms(1)] mk_meta(2) by auto

lemma entry_step:
  assumes ok: "img_ok s" "file_ok mk_superblock (view s) ip" and k: "\<not> k < NDIRECT" "k < MAXFILE" and ind: "i_addrs ip ! NDIRECT \<noteq> 0"
    and f: "unat (freeblock s) + of_bool (blk_of (view s) ip k = 0) \<le> 1000"
  defines "d \<equiv> view s (i_addrs ip ! NDIRECT)" and "e \<equiv> 4 * (k - NDIRECT)"
  obtains s' where "rsect (i_addrs ip ! NDIRECT) s = Ok d s" and "get32 d e = blk_of (view s) ip k"
    and "get32 d e = 0 \<Longrightarrow> bind take_block (\<lambda>b. bind (wsect (i_addrs ip ! NDIRECT) (put32 d e b)) (\<lambda>_. ret (get32 (put32 d e b) e))) s = Ok (blk_of (view s') ip k) s'"
    and "get32 d e \<noteq> 0 \<Longrightarrow> s' = s" and "grows s ip s' ip (of_bool (blk_of (view s) ip k = 0))" and "blk_of (view s') ip k \<noteq> 0"
    and "\<And>j. j < MAXFILE \<Longrightarrow> j \<noteq> k \<Longrightarrow> blk_of (view s') ip j = blk_of (view s) ip j"
proof -
  let ?i = "i_addrs ip ! NDIRECT"
  note r = file_block_range [OF ok ind_in_file [OF ind]]
  have rd: "rsect ?i s = Ok d s" unfolding d_def by (rule img_read [OF ok(1) r(1,3)])
  have g: "get32 d e = blk_of (view s) ip k" using k ind by (simp add: blk_of_def d_def e_def)
  have le: "e + 4 \<le> length d" using img_layout [OF ok(1)] k by (auto simp: layout_ok_def d_def e_def MAXFILE_def NINDIRECT_def BSIZE_def)
  show ?thesis
  proof (cases "get32 d e = 0")
    case True
    then have z: "blk_of (view s) ip k = 0" using g by simp
    have fb: "freeblock s < 1000" using f z by (intro free_lt [of s 0]) simp
    define s1 where "s1 = s\<lparr>freeblock := freeblock s + 1\<rparr>"
    note t = img_take [OF ok(1) fb, folded s1_def]
    have x: "freeblock s < sb_size mk_superblock" using fb by simp
    note x = file_ext_entry [OF ok(2) x t(4) k ind z, folded d_def e_def]
    have i1: "?i < freeblock s1" using r(2) t(5) by (simp add: word_less_nat_alt)
    have "length (put32 d e (freeblock s)) = BSIZE" using le img_layout [OF ok(1)] by (simp add: layout_ok_def d_def)
    note w = img_write [OF t(2) i1 r(3) this]
    define s2 where "s2 = s1\<lparr>sectors := (sectors s1)(?i := put32 d e (freeblock s))\<rparr>"
    have v: "view s2 = (alloc_effect mk_superblock (view s) (freeblock s))(?i := put32 d e (freeblock s))" using w(3) t(3) by (simp add: s2_def)
    have "freeblock s \<noteq> 0" using ok(1) by (auto simp: img_ok_def)
    then show ?thesis using that [OF rd g, of s2] t(1,5,6) w(1,2,4,5) x v z le True by (simp add: bind_def s2_def grows_def)
  next
    case False
    then show ?thesis using that [OF rd g, of s] grows_refl [OF ok] g by simp
  qed
qed

lemma block_step:
  assumes ok: "img_ok s" "file_ok mk_superblock (view s) ip" and k: "k < MAXFILE" and a: "di_addrs din = i_addrs ip"
    and f: "unat (freeblock s) + need (view s) ip k \<le> 1000"
  obtains s' ip' where "iappend_block din k s = Ok (blk_of (view s') ip' k, din\<lparr>di_addrs := i_addrs ip'\<rparr>) s'"
    and "grows s ip s' ip' (need (view s) ip k)" and "blk_of (view s') ip' k \<noteq> 0"
    and "\<And>j. j < MAXFILE \<Longrightarrow> j \<noteq> k \<Longrightarrow> blk_of (view s') ip' j = blk_of (view s) ip j"
    and "i_addrs ip' ! NDIRECT = 0 \<longleftrightarrow> k < NDIRECT \<and> i_addrs ip ! NDIRECT = 0"
proof (cases "k < NDIRECT")
  case True
  have b: "blk_of (view s) ip k = i_addrs ip ! k" using True by (simp add: blk_of_def)
  then have n: "need (view s) ip k = of_bool (i_addrs ip ! k = 0)" using True by (simp add: need_def)
  obtain s' ip' where s': "take_addr din k s = Ok (din\<lparr>di_addrs := i_addrs ip'\<rparr>) s'" "grows s ip s' ip' (of_bool (i_addrs ip ! k = 0))"
      "i_addrs ip' ! k \<noteq> 0" "\<And>j. j \<noteq> k \<Longrightarrow> blk_of (view s') ip' j = blk_of (view s) ip j" "i_addrs ip' ! NDIRECT = i_addrs ip ! NDIRECT"
    by (rule direct_step [OF ok True a]) (use f n in auto)
  have "blk_of (view s') ip' k = i_addrs ip' ! k" using True by (simp add: blk_of_def)
  then show ?thesis using that [of s' ip'] s' True n by (simp add: iappend_block_def bind_def)
next
  case False
  obtain s1 ip1 where s1: "take_addr din NDIRECT s = Ok (din\<lparr>di_addrs := i_addrs ip1\<rparr>) s1" "grows s ip s1 ip1 (of_bool (i_addrs ip ! NDIRECT = 0))"
      "i_addrs ip1 ! NDIRECT \<noteq> 0" "\<And>j. j < MAXFILE \<Longrightarrow> blk_of (view s1) ip1 j = blk_of (view s) ip j"
    by (rule indirect_step [OF ok a]) (use f False in \<open>auto simp: need_def\<close>)
  have ok1: "img_ok s1" "file_ok mk_superblock (view s1) ip1" using s1(2) by (simp_all add: grows_def file_ext_def)
  have n: "need (view s) ip k = of_bool (i_addrs ip ! NDIRECT = 0) + of_bool (blk_of (view s1) ip1 k = 0)"
    using False s1(4) [OF k] by (simp add: need_def)
  have f1: "unat (freeblock s1) + of_bool (blk_of (view s1) ip1 k = 0) \<le> 1000" using f n s1(2) by (simp add: grows_def)
  let ?d = "view s1 (i_addrs ip1 ! NDIRECT)" let ?e = "4 * (k - NDIRECT)"
  obtain s2 where s2: "rsect (i_addrs ip1 ! NDIRECT) s1 = Ok ?d s1" "get32 ?d ?e = blk_of (view s1) ip1 k"
      "get32 ?d ?e = 0 \<Longrightarrow> bind take_block (\<lambda>b. bind (wsect (i_addrs ip1 ! NDIRECT) (put32 ?d ?e b)) (\<lambda>_. ret (get32 (put32 ?d ?e b) ?e))) s1
        = Ok (blk_of (view s2) ip1 k) s2"
      "get32 ?d ?e \<noteq> 0 \<Longrightarrow> s2 = s1" "grows s1 ip1 s2 ip1 (of_bool (blk_of (view s1) ip1 k = 0))" "blk_of (view s2) ip1 k \<noteq> 0"
      "\<And>j. j < MAXFILE \<Longrightarrow> j \<noteq> k \<Longrightarrow> blk_of (view s2) ip1 j = blk_of (view s1) ip1 j"
    using entry_step [OF ok1 False k s1(3) f1] by blast
  have "iappend_block din k s = Ok (blk_of (view s2) ip1 k, din\<lparr>di_addrs := i_addrs ip1\<rparr>) s2"
    using False s1(1) s2(1-4) by (auto simp: iappend_block_def bind_def Let_def split: outcome.splits)
  moreover have "grows s ip s2 ip1 (need (view s) ip k)" unfolding n by (rule grows_trans [OF s1(2) s2(5)])
  ultimately show ?thesis using that [of s2 ip1] s2(6,7) s1(3,4) False by simp
qed

subsection \<open>The loop\<close>

text \<open>The file has exactly the blocks of its first \<open>p\<close> bytes, and zeroes after them.\<close>

definition grown :: "(uint32 \<Rightarrow> byte list) \<Rightarrow> inode \<Rightarrow> nat \<Rightarrow> bool" where
  "grown v ip p \<longleftrightarrow> (\<forall>k<MAXFILE. blk_of v ip k = 0 \<longleftrightarrow> p \<le> k * BSIZE) \<and> (i_addrs ip ! NDIRECT = 0 \<longleftrightarrow> p \<le> NDIRECT * BSIZE) \<and>
     (\<forall>x<MAXFILE * BSIZE. p \<le> x \<longrightarrow> fbyte v ip x = 0)"

definition nblk :: "nat \<Rightarrow> nat" where
  "nblk p = (p + BSIZE - 1) div BSIZE + of_bool (NDIRECT * BSIZE < p)"

lemma block_edges:
  fixes p n :: nat
  assumes "p mod BSIZE + n \<le> BSIZE" and "0 < n"
  shows "p div BSIZE * BSIZE \<le> p" and "p < p div BSIZE * BSIZE + BSIZE" and "p div BSIZE * BSIZE < p + n"
    and "p + n \<le> p div BSIZE * BSIZE + BSIZE" and "(p + n + BSIZE - 1) div BSIZE = p div BSIZE + 1"
    and "(p + BSIZE - 1) div BSIZE = p div BSIZE + of_bool (\<not> p \<le> p div BSIZE * BSIZE)"
proof -
  have p: "p = p div BSIZE * BSIZE + p mod BSIZE" "p mod BSIZE < BSIZE" by (simp_all add: BSIZE_def)
  show e: "p div BSIZE * BSIZE \<le> p" "p < p div BSIZE * BSIZE + BSIZE" "p div BSIZE * BSIZE < p + n" "p + n \<le> p div BSIZE * BSIZE + BSIZE"
    using p assms by linarith+
  have d: "x div BSIZE = q" if "q * BSIZE \<le> x" "x < q * BSIZE + BSIZE" for x q
    using that by (intro div_nat_eqI) (simp_all add: mult.commute)
  show "(p + n + BSIZE - 1) div BSIZE = p div BSIZE + 1" using e(3,4) assms(2) by (intro d) (simp_all add: add_mult_distrib)
  show "(p + BSIZE - 1) div BSIZE = p div BSIZE + of_bool (\<not> p \<le> p div BSIZE * BSIZE)"
  proof (cases "p \<le> p div BSIZE * BSIZE")
    case True
    then have "(p + BSIZE - 1) div BSIZE = p div BSIZE" using e(1) p(2) by (intro d) linarith+
    then show ?thesis using True by simp
  next
    case False
    then have "(p + BSIZE - 1) div BSIZE = p div BSIZE + 1" using e(2) by (intro d) (simp_all add: add_mult_distrib)
    then show ?thesis using False by simp
  qed
qed

lemma nblk_step:
  assumes g: "grown v ip p" and k: "p div BSIZE < MAXFILE" and n: "p mod BSIZE + n \<le> BSIZE" "0 < n"
  shows "nblk (p + n) = nblk p + need v ip (p div BSIZE)"
proof -
  note e = block_edges [OF n]
  have z: "blk_of v ip (p div BSIZE) = 0 \<longleftrightarrow> p \<le> p div BSIZE * BSIZE" "i_addrs ip ! NDIRECT = 0 \<longleftrightarrow> p \<le> NDIRECT * BSIZE"
    using g k by (auto simp: grown_def)
  have "of_bool (NDIRECT * BSIZE < p + n) = (of_bool (NDIRECT * BSIZE < p) :: nat) + of_bool (\<not> p div BSIZE < NDIRECT \<and> p \<le> NDIRECT * BSIZE)"
  proof (cases "p div BSIZE < NDIRECT")
    case True
    then have "p div BSIZE * BSIZE + BSIZE \<le> NDIRECT * BSIZE" using mult_le_mono1 [of "p div BSIZE + 1" NDIRECT BSIZE] by simp
    then show ?thesis using True e(2,4) by auto
  next
    case False
    then have "NDIRECT * BSIZE < p + n" using mult_le_mono1 [of NDIRECT "p div BSIZE" BSIZE] e(3) by linarith
    then show ?thesis using False by auto
  qed
  then show ?thesis using e(5,6) z by (simp add: nblk_def need_def)
qed

lemma grown_step:
  assumes g: "grown v ip p" and k: "p div BSIZE < MAXFILE" and n: "p mod BSIZE + length bs \<le> BSIZE" "bs \<noteq> []"
    and w: "wrote_at mk_superblock v ip v2 ip2 p bs" and b: "\<And>j. j < MAXFILE \<Longrightarrow> j \<noteq> p div BSIZE \<Longrightarrow> blk_of v2 ip2 j = blk_of v ip j"
    and nz: "blk_of v2 ip2 (p div BSIZE) \<noteq> 0" and i: "i_addrs ip2 ! NDIRECT = 0 \<longleftrightarrow> p div BSIZE < NDIRECT \<and> i_addrs ip ! NDIRECT = 0"
  shows "grown v2 ip2 (p + length bs)"
proof -
  have n': "0 < length bs" using n(2) by simp
  note e = block_edges [OF n(1) n']
  have below: "j * BSIZE + BSIZE \<le> p div BSIZE * BSIZE" if "j < p div BSIZE" for j using mult_le_mono1 [of "Suc j" "p div BSIZE" BSIZE] that by simp
  have above: "p div BSIZE * BSIZE + BSIZE \<le> j * BSIZE" if "p div BSIZE < j" for j using mult_le_mono1 [of "Suc (p div BSIZE)" j BSIZE] that by simp
  have "blk_of v2 ip2 j = 0 \<longleftrightarrow> p + length bs \<le> j * BSIZE" if j: "j < MAXFILE" for j
  proof -
    consider "j = p div BSIZE" | "j < p div BSIZE" | "p div BSIZE < j" by linarith
    then show ?thesis
    proof cases
      case 2
      then have "\<not> p \<le> j * BSIZE" "\<not> p + length bs \<le> j * BSIZE" using below [OF 2] e(1-3) by linarith+
      then show ?thesis using b [OF j] g j 2 by (simp add: grown_def)
    next
      case 3
      then have "p \<le> j * BSIZE" "p + length bs \<le> j * BSIZE" using above [OF 3] e(2,4) by linarith+
      then show ?thesis using b [OF j] g j 3 by (simp add: grown_def)
    qed (use nz e(3) in auto)
  qed
  moreover have "i_addrs ip2 ! NDIRECT = 0 \<longleftrightarrow> p + length bs \<le> NDIRECT * BSIZE"
  proof (cases "p div BSIZE < NDIRECT")
    case True
    have "p \<le> NDIRECT * BSIZE" "p + length bs \<le> NDIRECT * BSIZE" using above [OF True] e(2,4) by linarith+
    then show ?thesis using i g True by (auto simp: grown_def)
  next
    case False
    then have "NDIRECT * BSIZE < p + length bs" using mult_le_mono1 [of NDIRECT "p div BSIZE" BSIZE] e(3) by linarith
    then show ?thesis using False i by auto
  qed
  moreover have "fbyte v2 ip2 x = 0" if "x < MAXFILE * BSIZE" "p + length bs \<le> x" for x
    using w g that by (auto simp: wrote_at_def grown_def)
  ultimately show ?thesis by (simp add: grown_def)
qed

text \<open>What the loop does to the image: it puts \<open>bs\<close> at \<open>p\<close>.\<close>

definition appends :: "image \<Rightarrow> inode \<Rightarrow> image \<Rightarrow> inode \<Rightarrow> nat \<Rightarrow> byte list \<Rightarrow> bool" where
  "appends s ip s' ip' p bs \<longleftrightarrow> img_ok s' \<and> wrote_at mk_superblock (view s) ip (view s') ip' p bs \<and> grown (view s') ip' (p + length bs) \<and>
     unat (freeblock s') + nblk p = unat (freeblock s) + nblk (p + length bs) \<and> freeinode s' = freeinode s"

lemma appends_nil: "img_ok s \<Longrightarrow> file_ok mk_superblock (view s) ip \<Longrightarrow> grown (view s) ip p \<Longrightarrow> appends s ip s ip p []"
  by (simp add: appends_def wrote_at_nil)

lemma appends_trans: "appends s ip s1 ip1 p bs \<Longrightarrow> appends s1 ip1 s2 ip2 (p + length bs) cs \<Longrightarrow> appends s ip s2 ip2 p (bs @ cs)"
  using wrote_at_trans by (auto simp: appends_def add.assoc)

lemma append_chunk_step:
  assumes ok: "img_ok s" "file_ok mk_superblock (view s) ip" and g: "grown (view s) ip p" and k: "p div BSIZE < MAXFILE" and a: "di_addrs din = i_addrs ip"
    and n: "p mod BSIZE + length bs \<le> BSIZE" "bs \<noteq> []" and f: "unat (freeblock s) + nblk (p + length bs) \<le> 1000 + nblk p"
  obtains x s1 s' ip' where "iappend_block din (p div BSIZE) s = Ok (x, din\<lparr>di_addrs := i_addrs ip'\<rparr>) s1" and "rsect x s1 = Ok (view s1 x) s1"
    and "wsect x (splice (p mod BSIZE) bs (view s1 x)) s1 = Ok () s'" and "appends s ip s' ip' p bs"
proof -
  let ?k = "p div BSIZE"
  have st: "nblk (p + length bs) = nblk p + need (view s) ip ?k" using nblk_step [OF g k n(1)] n(2) by simp
  obtain s1 ip' where s1: "iappend_block din ?k s = Ok (blk_of (view s1) ip' ?k, din\<lparr>di_addrs := i_addrs ip'\<rparr>) s1"
      "grows s ip s1 ip' (need (view s) ip ?k)" "blk_of (view s1) ip' ?k \<noteq> 0"
      "\<And>j. j < MAXFILE \<Longrightarrow> j \<noteq> ?k \<Longrightarrow> blk_of (view s1) ip' j = blk_of (view s) ip j"
      "i_addrs ip' ! NDIRECT = 0 \<longleftrightarrow> ?k < NDIRECT \<and> i_addrs ip ! NDIRECT = 0"
    by (rule block_step [OF ok k a]) (use f st in auto)
  let ?x = "blk_of (view s1) ip' ?k"
  have ok1: "img_ok s1" "file_ok mk_superblock (view s1) ip'" and ext: "file_ext mk_superblock (view s) ip (view s1) ip'"
    using s1(2) by (simp_all add: grows_def file_ext_def)
  note r = file_block_range [OF ok1 blk_in_file [OF k s1(3)]]
  have "fdata (view s1) ip' ?k = fdata (view s) ip ?k" using ext k by (simp add: file_ext_def)
  moreover have "fdata (view s1) ip' ?k = view s1 ?x" using s1(3) by (simp add: fdata_def)
  ultimately have fd: "fdata (view s) ip ?k = view s1 ?x" by simp
  have "length (splice (p mod BSIZE) bs (view s1 ?x)) = BSIZE" using img_layout [OF ok1(1)] n(1) by (simp add: layout_ok_def)
  note w = img_write [OF ok1(1) r(2,3) this] and wb = wrote_at_block [OF ext k s1(3) n(1), unfolded fd]
  define s' where "s' = s1\<lparr>sectors := (sectors s1)(?x := splice (p mod BSIZE) bs (view s1 ?x))\<rparr>"
  have v: "view s' = (view s1)(?x := splice (p mod BSIZE) bs (view s1 ?x))" using w(3) by (simp add: s'_def)
  have blk: "blk_of (view s') ip' j = blk_of (view s1) ip' j" if "j < MAXFILE" for j
    unfolding v by (rule file_write_block(3) [OF ok1(2) k s1(3) _ that]) (use img_layout [OF ok1(1)] n(1) in \<open>simp add: layout_ok_def\<close>)
  have wr: "wrote_at mk_superblock (view s) ip (view s') ip' p bs" unfolding v by (rule wb)
  have "grown (view s') ip' (p + length bs)" using s1(3-5) blk k by (intro grown_step [OF g k n wr]) auto
  then have "appends s ip s' ip' p bs" using w(2,4,5) wr st s1(2) by (simp add: appends_def s'_def grows_def)
  then show ?thesis using that [OF s1(1) img_read [OF ok1(1) r(1,3)], of s'] w(1) by (simp add: s'_def)
qed

lemma nblk_mono: "p \<le> q \<Longrightarrow> nblk p \<le> nblk q"
  unfolding nblk_def by (intro add_mono div_le_mono) auto

lemma offset_in_block: "unat (off - of_nat (unat off div BSIZE) * of_nat BSIZE :: uint32) = unat off mod BSIZE"
proof -
  have "of_nat (unat off div BSIZE) * of_nat BSIZE = (of_nat (unat off div BSIZE * BSIZE) :: uint32)" by simp
  moreover have "off = of_nat (unat off)" by simp
  ultimately have "off - of_nat (unat off div BSIZE) * of_nat BSIZE = of_nat (unat off - unat off div BSIZE * BSIZE)"
    by (metis of_nat_diff div_times_less_eq_dividend)
  also have "unat off - unat off div BSIZE * BSIZE = unat off mod BSIZE" by (simp add: minus_div_mult_eq_mod)
  finally show ?thesis by (simp only: unat_of_nat) (simp add: BSIZE_def take_bit_nat_eq_self)
qed

lemma iappend_loop_spec:
  assumes "img_ok s" and "file_ok mk_superblock (view s) ip" and "grown (view s) ip (unat off)" and "di_addrs din = i_addrs ip"
    and "unat off + length p \<le> MAXFILE * BSIZE" and "unat (freeblock s) + nblk (unat off + length p) \<le> 1000 + nblk (unat off)"
  shows "\<exists>s' ip'. iappend_loop din off p s = Ok (din\<lparr>di_addrs := i_addrs ip'\<rparr>, of_nat (unat off + length p)) s' \<and> appends s ip s' ip' (unat off) p"
  using assms
proof (induction p arbitrary: s ip din off rule: length_induct)
  case (1 p)
  note ok = 1(2,3) and g = 1(4) and a = 1(5) and len = 1(6) and f = 1(7)
  show ?case
  proof (cases "p = []")
    case True
    have "din\<lparr>di_addrs := i_addrs ip\<rparr> = din" using a by simp
    then show ?thesis using True appends_nil [OF ok g] by (intro exI [of _ s] exI [of _ ip]) (simp add: iappend_loop.simps)
  next
    case False
    define n where "n = min (length p) (BSIZE - unat off mod BSIZE)"
    let ?bs = "take n p"
    have B: "unat off mod BSIZE < BSIZE" by (simp add: BSIZE_def)
    have k: "unat off div BSIZE < MAXFILE" using len False by (intro less_mult_imp_div_less) (cases p; simp)
    have n: "0 < n" "n \<le> length p" "unat off mod BSIZE + length ?bs \<le> BSIZE" "?bs \<noteq> []" "length ?bs = n" using False B by (auto simp: n_def)
    have m: "min (length p) (block_left off) = n" using block_left [OF k] by (simp add: n_def)
    have d: "unat (off div of_nat BSIZE) = unat off div BSIZE" by (simp add: unat_div BSIZE_def)
    have f1: "unat (freeblock s) + nblk (unat off + length ?bs) \<le> 1000 + nblk (unat off)"
      unfolding n(5) using f nblk_mono [OF add_left_mono [OF n(2)], of "unat off"] by linarith
    obtain x s1 s2 ip2 where e: "iappend_block din (unat off div BSIZE) s = Ok (x, din\<lparr>di_addrs := i_addrs ip2\<rparr>) s1" "rsect x s1 = Ok (view s1 x) s1"
        "wsect x (splice (unat off mod BSIZE) ?bs (view s1 x)) s1 = Ok () s2" "appends s ip s2 ip2 (unat off) ?bs"
      by (rule append_chunk_step [OF ok g k a n(3,4) f1])
    have "MAXFILE * BSIZE < 2 ^ 32" by (simp add: MAXFILE_def NDIRECT_def NINDIRECT_def BSIZE_def)
    then have off: "unat (off + of_nat n) = unat off + n" using len n by (simp add: unat_word_ariths unat_of_nat)
    have dl: "n + length (drop n p) = length p" using n by simp
    have e2: "img_ok s2" "file_ok mk_superblock (view s2) ip2" "grown (view s2) ip2 (unat (off + of_nat n))"
        "unat (freeblock s2) + nblk (unat off) = unat (freeblock s) + nblk (unat off + n)"
      using e(4) off n(5) by (simp_all add: appends_def wrote_at_def)
    have "\<exists>s' ip'. iappend_loop (din\<lparr>di_addrs := i_addrs ip2\<rparr>) (off + of_nat n) (drop n p) s2 =
        Ok (din\<lparr>di_addrs := i_addrs ip2\<rparr>\<lparr>di_addrs := i_addrs ip'\<rparr>, of_nat (unat (off + of_nat n) + length (drop n p))) s' \<and>
        appends s2 ip2 s' ip' (unat (off + of_nat n)) (drop n p)"
      by (rule 1(1) [rule_format, OF _ e2(1-3)]) (use False n len f e2(4) off dl in \<open>simp_all add: add.assoc\<close>)
    then obtain s' ip' where r: "iappend_loop (din\<lparr>di_addrs := i_addrs ip2\<rparr>) (off + of_nat n) (drop n p) s2 =
        Ok (din\<lparr>di_addrs := i_addrs ip'\<rparr>, of_nat (unat off + length p)) s'" "appends s2 ip2 s' ip' (unat off + length ?bs) (drop n p)"
      using off dl n(5) by (auto simp: add.assoc)
    have "appends s ip s' ip' (unat off) p" using appends_trans [OF e(4) r(2)] by simp
    moreover have "iappend_loop din off p s = Ok (din\<lparr>di_addrs := i_addrs ip'\<rparr>, of_nat (unat off + length p)) s'"
      unfolding iappend_loop.simps [of din off p] d m Let_def offset_in_block using False k e(1-3) r(1) by (simp add: bind_def)
    ultimately show ?thesis by blast
  qed
qed

end
