(* ===== verification/Mkimage.thy ===== *)
theory Mkimage
  imports Mkfs
begin

text \<open>
  The disk image as a whole: every operation of \<^verbatim>\<open>mkfs/mkfs.c\<close> on a file leaves all other files as they are, and the finished image
  holds the files it was given, in the form the kernel's invariants ask for.
\<close>

subsection \<open>The inode of a file, read from the disk\<close>

definition disk_ip :: "(uint32 \<Rightarrow> byte list) \<Rightarrow> uint32 \<Rightarrow> inode" where
  "disk_ip v j = (let di = disk_inode mk_superblock v j in \<lparr>i_dev = ROOTDEV, i_inum = j, i_ref = 1, i_lock = initsleeplock, i_valid = True,
     i_type = di_type di, i_major = di_major di, i_minor = di_minor di, i_nlink = di_nlink di, i_size = di_size di, i_addrs = di_addrs di\<rparr>)"

lemma disk_ip_fields [simp]:
  "i_dev (disk_ip v j) = ROOTDEV" "i_inum (disk_ip v j) = j" "dinode_of (disk_ip v j) = disk_inode mk_superblock v j"
  "i_size (disk_ip v j) = di_size (disk_inode mk_superblock v j)" "i_addrs (disk_ip v j) = di_addrs (disk_inode mk_superblock v j)"
  by (simp_all add: disk_ip_def dinode_of_def Let_def)






subsection \<open>Reading and writing inodes\<close>




subsection \<open>All the files of the image\<close>

text \<open>File \<open>i\<close> has inode \<open>i + 1\<close>; the root is the first.\<close>

definition ino :: "nat \<Rightarrow> uint32" where
  "ino i = of_nat (Suc i)"







definition total_blocks :: "byte list list \<Rightarrow> nat" where
  "total_blocks F = (\<Sum>bs\<leftarrow>F. nblk (length bs))"










definition entry_of :: "nat \<Rightarrow> byte list \<times> byte list list \<Rightarrow> byte list" where
  "entry_of i f = mk_dirent (ino i) (strip_underscore (shortname (fst f)))"

primrec entries :: "nat \<Rightarrow> (byte list \<times> byte list list) list \<Rightarrow> byte list" where
  "entries n [] = []"
| "entries n (f # fs) = entry_of n f @ entries (Suc n) fs"

lemma length_mk_dirent [simp]: "length (mk_dirent j nm) = 16"
  by (simp add: mk_dirent_def enc_dirent_def dir_name_def DIRSIZ_def)

lemma length_entries [simp]: "length (entries n fs) = 16 * length fs"
  by (induction fs arbitrary: n) (simp_all add: entry_of_def)


lemma total_blocks_Cons [simp]: "total_blocks (x # F) = nblk (length x) + total_blocks F" and total_blocks_append [simp]: "total_blocks (F @ G) = total_blocks F + total_blocks G"
    and total_blocks_Nil [simp]: "total_blocks [] = 0"
  by (simp_all add: total_blocks_def)



subsection \<open>The finished image\<close>










end
