(* ===== verification/Spec2Isabelle.thy ===== *)
theory Spec2Isabelle
  imports Spinlock Sched Sleeplock Bio Log Fs Dir Ring Printf Console Pipe File Sysarg Sysfile Mmap Process Exec Trap Virtio Diskdrv Shape Writefile Boot Reap Grep Mkimage
begin

text \<open>
  A model of the xv6 kernel for RISC-V with memory-mapped files, of the program that builds its disk image, and of one user program,
  with the theorems that say what they do. The sources are \<^verbatim>\<open>src/kernel\<close>, \<^verbatim>\<open>src/mkfs\<close> and \<^verbatim>\<open>src/user\<close>; definitions have the names of the C
  functions they translate.

  \<^bold>\<open>How code is modelled.\<close> A kernel routine is a function from a state to an \<open>outcome\<close> (theory \<open>Prelude\<close>): it returns (\<open>Ok\<close>), gives up the CPU
  in \<open>sleep\<close> or \<open>yield\<close> (\<open>Block\<close>), or calls \<open>panic\<close> (\<open>Panic\<close> with the message). The state is a chain of records, each component adding its
  own globals: \<open>kmem\<close> (memory and free list), \<open>ptab\<close> (processes), \<open>bio\<close> (buffers, disk), \<open>log\<close>, \<open>fs\<close> (super block, inodes), \<open>cons\<close>, \<open>files\<close>, \<open>vdisk\<close>.
  Physical memory is a map from 64-bit addresses to bytes; page tables, the free list, trap frames and user memory live in it as in the
  machine. Machine integers are words of their width; a C \<open>int\<close> is an \<open>int\<close>, reduced by \<open>int32\<close> where it can overflow. Kernel structures that C
  points to are entries of tables, and the pointers are indices.

  \<^bold>\<open>The theories.\<close>
  \<^item> \<open>Prelude\<close>, \<open>Ring\<close>: outcomes, words as bytes, memory; circular buffers with counters that wrap (locale \<open>ring_buffer\<close>, interpreted for the
    pipe, the console, the serial line and the two rings of the disk driver).
  \<^item> \<open>Riscv\<close>, \<open>Cstring\<close>, \<open>Kalloc\<close>, \<open>Vm\<close>: \<^verbatim>\<open>riscv.h\<close>, \<^verbatim>\<open>memlayout.h\<close>, \<^verbatim>\<open>string.c\<close>, \<^verbatim>\<open>kalloc.c\<close>, \<^verbatim>\<open>vm.c\<close>. The allocator is an instance of the locale \<open>pool\<close>.
    \<open>Pagetable\<close> and \<open>Uspace\<close> read page tables as finite maps and show that \<open>mappages\<close>, \<open>uvmunmap\<close> and the copy routines refine updates of and
    accesses through these maps. \<open>Vmframe\<close> shows what the memory routines leave alone.
  \<^item> \<open>Hart\<close>, \<open>Trampoline\<close>, \<open>Boot\<close>: one hart with its registers and modes; the assembly of \<^verbatim>\<open>trampoline.S\<close>, \<^verbatim>\<open>swtch.S\<close>, \<^verbatim>\<open>kernelvec.S\<close>, \<^verbatim>\<open>entry.S\<close>; \<^verbatim>\<open>start.c\<close>
    and \<^verbatim>\<open>plic.c\<close>. Traps and switches give registers back; after \<open>start\<close>, every timer interrupt is handled and invisible.
  \<^item> \<open>Spinlock\<close>: \<^verbatim>\<open>spinlock.c\<close>, split at the accesses to shared memory and interleaved over CPUs (\<open>lock_step\<close>): mutual exclusion, interrupts off.
  \<^item> \<open>Proc\<close>, \<open>Sched\<close>, \<open>Sleeplock\<close>, \<open>Process\<close>, \<open>Reap\<close>: \<^verbatim>\<open>proc.c\<close> and \<^verbatim>\<open>sleeplock.c\<close>. \<open>smp_step\<close> interleaves the operations on any number of CPUs; the locale
    \<open>table_op\<close> is what each of them promises. No process runs twice, no wakeup is lost, nobody sleeps on a free sleep lock.
  \<^item> \<open>Bio\<close>, \<open>Ondisk\<close>, \<open>Log\<close>: \<^verbatim>\<open>bio.c\<close>, \<^verbatim>\<open>fs.h\<close>, \<^verbatim>\<open>log.c\<close>. The disk records the order of writes, so that a crash can fall between any two of them:
    a transaction is on the disk as a whole or not at all.
  \<^item> \<open>Fs\<close>, \<open>Dir\<close>: \<^verbatim>\<open>fs.c\<close>. \<open>Blockops\<close>, \<open>Blockmap\<close>, \<open>Filemap\<close>, \<open>Bmap\<close>, \<open>Readi\<close>, \<open>Writei\<close>, \<open>Writefile\<close> show that \<open>readi\<close> and \<open>writei\<close> read and
    replace the bytes of a file, seen as a list (\<open>contents\<close>), and that no other file changes. The locales \<open>sink\<close> and \<open>source\<close> are the places data goes to and
    comes from, kernel or user memory.
  \<^item> \<open>Mkfs\<close>, \<open>Mkimage\<close>: \<^verbatim>\<open>mkfs.c\<close>. The image it writes satisfies the same invariants and holds the given files.
  \<^item> \<open>Printf\<close>, \<open>Console\<close>, \<open>Pipe\<close>, \<open>File\<close>: \<^verbatim>\<open>printf.c\<close>, \<^verbatim>\<open>uart.c\<close>, \<^verbatim>\<open>console.c\<close>, \<^verbatim>\<open>pipe.c\<close>, \<^verbatim>\<open>file.c\<close>: numbers as printed, line editing, queues of bytes.
  \<^item> \<open>Sysarg\<close>, \<open>Sysfile\<close>, \<open>Mmap\<close>, \<open>Exec\<close>, \<open>Trap\<close>: \<^verbatim>\<open>syscall.c\<close>, \<^verbatim>\<open>sysfile.c\<close>, \<^verbatim>\<open>sysproc.c\<close>, \<^verbatim>\<open>exec.c\<close>, \<^verbatim>\<open>trap.c\<close>.
  \<^item> \<open>Virtio\<close>, \<open>Diskdrv\<close>: \<^verbatim>\<open>virtio_disk.c\<close>, and its runs with the device and the processes (\<open>drv_step\<close>): no descriptor is lost, the device gets exactly
    the posted requests, and a request ends only after its block was moved.
  \<^item> \<open>Frame\<close>, \<open>Kernelframe\<close>, \<open>Shape\<close>: rules for what a routine leaves alone (locales \<open>frame_calculus\<close>, \<open>fs_frame\<close>, \<open>kernel_frame\<close>, \<open>vdisk_frame\<close>), followed
    from the buffer cache up to the trap handlers, and an invariant of the cache that every trap keeps.
  \<^item> \<open>Grep\<close>: \<^verbatim>\<open>user/grep.c\<close>, its matcher against the strings a pattern denotes.

  \<^bold>\<open>Bounds.\<close> Loops are structural recursions or have a termination proof. \<open>freewalk_at\<close> has depth 3, the levels of a table, and panics beyond it.
  \<open>free_chain_from\<close> has \<open>NUM + 1\<close> steps, which are enough because every step frees a descriptor (\<open>free_chain_terminates\<close>). \<open>disk_intr_from\<close> has \<open>2 ^ 16\<close> turns,
  which are enough because its counters have 16 bits. Theorems on \<open>noff\<close>, \<open>nextpid\<close> and \<open>printint\<close> state the range in which a C \<open>int\<close> does not overflow.

  \<^bold>\<open>What is not modelled.\<close> A block transfer as the file system sees it is one step (\<open>disk_rw\<close>), which \<open>Diskdrv\<close> justifies for the driver. The handlers of \<open>Trap\<close> take
  control registers as arguments and do not write \<open>stvec\<close> and \<open>sip\<close> or tell the interrupt controller that they are done. The checks of \<open>sched\<close> on locks and
  interrupts are left out, since theory \<open>Spinlock\<close> has the locks. The reference count of a buffer is an unbounded integer. The device, the 16550, the build host and the linker are parameters
  or steps of the environment. \<^verbatim>\<open>main.c\<close> (a sequence of initialisers), \<^verbatim>\<open>ramdisk.c\<close> (not linked) and the user programs other than \<^verbatim>\<open>grep.c\<close> are left out.
\<close>

end
